(* ===== verification/Xxfs_Prelude.thy ===== *)
theory Xxfs_Prelude
  imports Main "HOL-Library.Word" "HOL-Library.Monad_Syntax"
begin

text \<open>
  Shared vocabulary of the development: the fixed-width integer types of
  \<^verbatim>\<open>lib/xxfs.h\<close>, the return codes, the constants of the on-disk format, the little-endian
  byte encoding that the C code uses implicitly whenever it copies a struct to or from the
  image, and the generic lemmas on byte buffers that the component theories share.

  The code is compiled for a little-endian LP64 target (x86-64); a struct is therefore the
  concatenation of the little-endian encodings of its members plus explicit padding bytes.
\<close>

unbundle bit_operations_syntax

section \<open>Machine types and return codes\<close>

type_synonym u8 = "8 word"
type_synonym u16 = "16 word"
type_synonym u32 = "32 word"
type_synonym u64 = "64 word"
type_synonym bytes = "u8 list"

text \<open>The \<^verbatim>\<open>XXFS_*\<close> return codes of the header, as the values of a datatype.\<close>

datatype rc =
    XXFS_OK | XXFS_ENOENT | XXFS_EEXIST | XXFS_ENOMEM | XXFS_ENOSPC | XXFS_EIO
  | XXFS_EINVAL | XXFS_ENOTDIR | XXFS_EISDIR | XXFS_ENOTEMPTY | XXFS_EACCES
  | XXFS_ENAMETOOLONG

text \<open>The collections that carry the component proofs: \<open>buf_simps\<close> for byte buffers,
  \<open>codec\<close> for the round trips of the struct encodings, \<open>os_simps\<close> for the image file.\<close>

named_theorems buf_simps
named_theorems codec
named_theorems os_simps

section \<open>Constants of the on-disk format\<close>

definition XXFS_BLOCK_SIZE :: nat where "XXFS_BLOCK_SIZE = 4096"
definition XXFS_INLINE_MAX :: nat where "XXFS_INLINE_MAX = 128"
definition XXFS_MAX_PATH :: nat where "XXFS_MAX_PATH = 4096"
definition XXFS_MAX_NAME :: nat where "XXFS_MAX_NAME = 255"

lemmas xxfs_consts =
  XXFS_BLOCK_SIZE_def XXFS_INLINE_MAX_def XXFS_MAX_PATH_def XXFS_MAX_NAME_def

section \<open>Little-endian encoding\<close>

primrec enc_le :: "nat \<Rightarrow> 'a::len word \<Rightarrow> bytes" where
  "enc_le 0 w = []"
| "enc_le (Suc n) w = ucast w # enc_le n (drop_bit 8 w)"

primrec dec_le :: "bytes \<Rightarrow> 'a::len word" where
  "dec_le [] = 0"
| "dec_le (b # bs) = ucast b OR push_bit 8 (dec_le bs)"

lemma length_enc_le [simp]: "length (enc_le n w) = n"
  by (induction n arbitrary: w) auto

lemma dec_enc_le_take: "dec_le (enc_le n w) = take_bit (8 * n) w"
  by (induction n arbitrary: w) 
    (auto intro!: bit_eqI simp: bit_simps)

lemma dec_enc_le [codec]: "LENGTH('a) \<le> 8 * n \<Longrightarrow> dec_le (enc_le n (w::'a::len word)) = w"
  by (simp add: dec_enc_le_take take_bit_word_eq_self)

lemma enc_le_inject:
  "LENGTH('a) \<le> 8 * n \<Longrightarrow> enc_le n (a :: 'a::len word) = enc_le n b \<longleftrightarrow> a = b"
  by (metis dec_enc_le)

lemma dec_le_bit: "bit (dec_le bs :: 'a::len word) n \<Longrightarrow> n < 8 * length bs"
proof (induction bs arbitrary: n)
  case Nil
  then show ?case by simp
next
  case (Cons b bs)
  from Cons.prems have "bit b n \<or> 8 \<le> n \<and> bit (dec_le bs :: 'a word) (n - 8)"
    by (auto simp: bit_simps)
  then show ?case
    using Cons.IH [of "n - 8"] bit_imp_le_length [of b n] by auto
qed

lemma drop8_or_push8:
  assumes "\<And>n. bit w n \<Longrightarrow> n + 8 < LENGTH('a)"
  shows "drop_bit 8 ((ucast (b :: u8) :: 'a::len word) OR push_bit 8 w) = w"
proof (rule bit_word_eqI)
  fix n assume n: "n < LENGTH('a)"
  have "\<not> bit b (8 + n)"
    using bit_imp_le_length [of b "8 + n"] by auto
  then show "bit (drop_bit 8 ((ucast b :: 'a word) OR push_bit 8 w)) n = bit w n"
    using n assms [of n] by (auto simp: bit_simps add.commute)
qed

lemma enc_dec_le [codec]:
  "8 * length bs \<le> LENGTH('a) \<Longrightarrow> 8 \<le> LENGTH('a) \<Longrightarrow> n = length bs \<Longrightarrow>
    enc_le n (dec_le bs :: 'a::len word) = bs"
proof (induction bs arbitrary: n)
  case Nil
  then show ?case by simp
next
  case (Cons b bs)
  let ?w = "dec_le bs :: 'a word"
  have "drop_bit 8 (ucast b OR push_bit 8 ?w) = ?w"
    using Cons.prems dec_le_bit [of bs] by (intro drop8_or_push8) force
  moreover have "(ucast (ucast b OR push_bit 8 ?w) :: u8) = b"
    using Cons.prems(2) by (intro bit_eqI) (auto simp: bit_simps)
  ultimately show ?case
    using Cons by simp
qed

lemma xor_zero_eq: "(a :: 'a::len word) XOR b = 0 \<longleftrightarrow> a = b"
  by (metis xor.assoc xor.right_neutral xor_self_eq)

lemma xor_cancel [simp]:
  "(a :: 'a::len word) XOR c = b XOR c \<longleftrightarrow> a = b"
  "(c :: 'a::len word) XOR a = c XOR b \<longleftrightarrow> a = b"
  by (metis xor.assoc xor.right_neutral xor_self_eq) (metis xor.assoc xor.left_neutral xor_self_eq)

lemma word_less_2: "(h :: u64) < 2 \<longleftrightarrow> h = 0 \<or> h = 1"
  by unat_arith

lemma unat_pow2: "n < LENGTH('a) \<Longrightarrow> unat (2 ^ n :: 'a::len word) = 2 ^ n"
  using unat_of_nat [of "2 ^ n", where ?'a = 'a] by simp

lemma unat_add_nowrap: "unat a + unat b < 2 ^ LENGTH('a) \<Longrightarrow> unat (a + b :: 'a::len word) = unat a + unat b"
  by (simp add: unat_word_ariths)

lemma unat_mul_nowrap: "unat a * unat b < 2 ^ LENGTH('a) \<Longrightarrow> unat (a * b :: 'a::len word) = unat a * unat b"
  by (simp add: unat_word_ariths)

lemma unat_ucast_up: "LENGTH('a) \<le> LENGTH('b) \<Longrightarrow> unat (ucast (w :: 'a::len word) :: 'b::len word) = unat w"
  by (simp add: unsigned_ucast_eq take_bit_nat_eq_self_iff less_le_trans [OF unsigned_less])

lemma sint_small: "unat (w :: u64) < 2 ^ 63 \<Longrightarrow> sint w = int (unat w)"
proof -
  assume "unat w < 2 ^ 63"
  then have "uint w < 2 ^ 63"
    by (metis uint_nat of_nat_less_iff of_nat_numeral of_nat_power)
  moreover have "0 \<le> uint w" by (rule uint_ge_0)
  ultimately have "signed_take_bit 63 (uint w) = uint w"
    by (intro signed_take_bit_int_eq_self) linarith+
  moreover have "sint w = signed_take_bit 63 (uint w)"
    using sint_uint [of w] by simp
  ultimately show ?thesis by (simp only: uint_nat)
qed

text \<open>A member of type \<^verbatim>\<open>u8\<close> is a single byte.\<close>

definition enc_u8 :: "u8 \<Rightarrow> bytes" where "enc_u8 b = [b]"
definition dec_u8 :: "bytes \<Rightarrow> u8" where "dec_u8 bs = hd bs"

lemma length_enc_u8 [simp]: "length (enc_u8 b) = 1"
  by (simp add: enc_u8_def)

lemma dec_enc_u8 [codec]: "dec_u8 (enc_u8 b) = b"
  by (simp add: enc_u8_def dec_u8_def)

lemma enc_dec_u8 [codec]: "length bs = 1 \<Longrightarrow> enc_u8 (dec_u8 bs) = bs"
  by (cases bs) (auto simp: enc_u8_def dec_u8_def)

section \<open>Masks\<close>

lemma unat_and_mask: "unat (w AND mask e) = unat w mod 2 ^ e"
  unfolding take_bit_eq_mask [symmetric] unsigned_take_bit_eq by (rule take_bit_eq_mod)

section \<open>Byte buffers\<close>

text \<open>\<open>fld a n bs\<close> reads the \<open>n\<close> bytes at offset \<open>a\<close>; \<open>buf_put a xs bs\<close> is
  \<^verbatim>\<open>memcpy(bs + a, xs, len)\<close> inside the buffer.\<close>

definition fld :: "nat \<Rightarrow> nat \<Rightarrow> 'b list \<Rightarrow> 'b list" where
  "fld a n bs = take n (drop a bs)"

definition buf_put :: "nat \<Rightarrow> 'b list \<Rightarrow> 'b list \<Rightarrow> 'b list" where
  "buf_put a xs bs = take a bs @ xs @ drop (a + length xs) bs"

definition zeros :: "nat \<Rightarrow> bytes" where
  "zeros n = replicate n 0"

lemma length_zeros [simp]: "length (zeros n) = n"
  by (simp add: zeros_def)

lemma length_fld [simp, buf_simps]: "a + n \<le> length bs \<Longrightarrow> length (fld a n bs) = n"
  by (simp add: fld_def)

lemma length_buf_put [simp, buf_simps]:
  "a + length xs \<le> length bs \<Longrightarrow> length (buf_put a xs bs) = length bs"
  by (simp add: buf_put_def)

lemma fld_nth: "i < n \<Longrightarrow> a + n \<le> length bs \<Longrightarrow> fld a n bs ! i = bs ! (a + i)"
  by (simp add: fld_def)

lemma fld_whole [simp]: "n = length bs \<Longrightarrow> fld 0 n bs = bs"
  by (simp add: fld_def)

lemma fld_join: "b = a + n \<Longrightarrow> fld a n bs @ fld b m bs = fld a (n + m) bs"
  by (simp add: fld_def take_add add.commute [of n a])

lemma fld_append1: "a + n \<le> length xs \<Longrightarrow> fld a n (xs @ ys) = fld a n xs"
  by (simp add: fld_def)

lemma fld_append2: "length xs \<le> a \<Longrightarrow> fld a n (xs @ ys) = fld (a - length xs) n ys"
  by (simp add: fld_def)

lemma fld_prefix: "n = length xs \<Longrightarrow> fld 0 n (xs @ ys) = xs"
  by (simp add: fld_def)

lemma fld_fld: "b + m \<le> n \<Longrightarrow> fld b m (fld a n bs) = fld (a + b) m bs"
  by (simp add: fld_def min_def drop_take add.commute)

lemma buf_put_nth:
  "a + length xs \<le> length bs \<Longrightarrow> i < length bs \<Longrightarrow>
    buf_put a xs bs ! i = (if a \<le> i \<and> i < a + length xs then xs ! (i - a) else bs ! i)"
  by (auto simp: buf_put_def nth_append min_def)

lemma fld_buf_put_same [buf_simps]:
  "n = length xs \<Longrightarrow> a + length xs \<le> length bs \<Longrightarrow> fld a n (buf_put a xs bs) = xs"
  by (simp add: fld_def buf_put_def)

lemma fld_buf_put_other [buf_simps]:
  assumes "a + length xs \<le> length bs" and "b + m \<le> length bs" and "b + m \<le> a \<or> a + length xs \<le> b"
  shows "fld b m (buf_put a xs bs) = fld b m bs"
  by (rule nth_equalityI) (use assms in \<open>auto simp: fld_nth buf_put_nth\<close>)

lemma fld_concat_map:
  assumes "\<And>x. x \<in> set xs \<Longrightarrow> length (f x) = w" and "i < length xs"
  shows "fld (w * i) w (concat (map f xs)) = f (xs ! i)"
  using assms
proof (induction xs arbitrary: i)
  case Nil
  then show ?case by simp
next
  case (Cons x xs)
  show ?case
  proof (cases i)
    case 0
    with Cons.prems(1) [of x] show ?thesis by (simp add: fld_def)
  next
    case (Suc j)
    with Cons.prems have "fld (w * j) w (concat (map f xs)) = f (xs ! j)"
      by (intro Cons.IH) auto
    with Suc Cons.prems(1) [of x] show ?thesis
      by (simp add: fld_append2)
  qed
qed

lemma length_concat_map:
  "(\<And>x. x \<in> set xs \<Longrightarrow> length (f x) = w) \<Longrightarrow> length (concat (map f xs)) = w * length xs"
  by (induction xs) auto

end
