(* ===== verification/Profile.thy ===== *)
theory Profile
  imports Xxfs_Prelude
begin

text \<open>
  The timing counters of the build with \<^verbatim>\<open>XXFS_PROFILE\<close>. They have no effect on the file system, so that they are a state of their own. The start of an
  interval is kept in one static variable, \<^verbatim>\<open>prof_acc\<close>: intervals that are nested, as those in \<^verbatim>\<open>page_load\<close> and \<^verbatim>\<open>write_record\<close> are in the one around \<^verbatim>\<open>paged_insert\<close>
  in \<^verbatim>\<open>xxfs_create\<close>, overwrite each other's start.
\<close>

section \<open>Counters\<close>

datatype prof_field = Hash_ns | Icache_ns | Pcache_ns | Pwrite_ns | Pread_ns | Alloc_ns | Dcache_ns

text \<open>\<open>prof_clock n\<close> is what the \<open>n\<close>-th call of \<^verbatim>\<open>clock_gettime\<close> gives, in seconds and nanoseconds.\<close>

record prof_state =
  prof_ns :: "prof_field \<Rightarrow> u64"
  prof_create_cnt :: u32
  prof_write_cnt :: u32
  prof_acc :: u64
  prof_clock :: "nat \<Rightarrow> u64 \<times> u64"
  prof_calls :: nat

definition prof_now :: "prof_state \<Rightarrow> u64 \<times> prof_state" where
  "prof_now s = (case prof_clock s (prof_calls s) of (sec, nsec) \<Rightarrow> (sec * 1000000000 + nsec, s\<lparr>prof_calls := Suc (prof_calls s)\<rparr>))"

definition PROF_BEGIN :: "prof_state \<Rightarrow> prof_state" where
  "PROF_BEGIN s = (case prof_now s of (t, s) \<Rightarrow> s\<lparr>prof_acc := t\<rparr>)"

definition PROF_ADD :: "prof_field \<Rightarrow> prof_state \<Rightarrow> prof_state" where
  "PROF_ADD f s = (case prof_now s of (t, s) \<Rightarrow> s\<lparr>prof_ns := (prof_ns s)(f := prof_ns s f + (t - prof_acc s))\<rparr>)"

definition count_create :: "prof_state \<Rightarrow> prof_state" where
  "count_create s = s\<lparr>prof_create_cnt := prof_create_cnt s + 1\<rparr>"

record xxfs_profile =
  hash_ns :: u64
  icache_ns :: u64
  pcache_ns :: u64
  pwrite_ns :: u64
  pread_ns :: u64
  alloc_ns :: u64
  dcache_ns :: u64
  create_cnt :: u32
  write_cnt :: u32

definition xxfs_get_profile :: "prof_state \<Rightarrow> xxfs_profile" where
  "xxfs_get_profile s =
     \<lparr>hash_ns = prof_ns s Hash_ns, icache_ns = prof_ns s Icache_ns, pcache_ns = prof_ns s Pcache_ns, pwrite_ns = prof_ns s Pwrite_ns,
      pread_ns = prof_ns s Pread_ns, alloc_ns = prof_ns s Alloc_ns, dcache_ns = prof_ns s Dcache_ns,
      create_cnt = prof_create_cnt s, write_cnt = prof_write_cnt s\<rparr>"

section \<open>Intervals\<close>

text \<open>The time that the \<open>n\<close>-th call of the clock shows.\<close>

definition prof_time :: "prof_state \<Rightarrow> nat \<Rightarrow> u64" where
  "prof_time s n = fst (prof_clock s n) * 1000000000 + snd (prof_clock s n)"

lemma prof_now_time: "prof_now s = (prof_time s (prof_calls s), s\<lparr>prof_calls := Suc (prof_calls s)\<rparr>)"
  by (simp add: prof_now_def prof_time_def split: prod.split)

lemma interval_measured:
  "prof_ns (PROF_ADD f (PROF_BEGIN s)) f = prof_ns s f + (prof_time s (Suc (prof_calls s)) - prof_time s (prof_calls s))"
  by (simp add: PROF_ADD_def PROF_BEGIN_def prof_now_time) (simp add: prof_time_def)

text \<open>An interval inside another one: the outer counter gets the time since the inner one began, and what came before is lost.\<close>

theorem nested_interval_lost:
  assumes "f \<noteq> g"
  shows "prof_ns (PROF_ADD f (PROF_ADD g (PROF_BEGIN (PROF_BEGIN s)))) f =
    prof_ns s f + (prof_time s (prof_calls s + 3) - prof_time s (prof_calls s + 1))"
  using assms by (simp add: PROF_ADD_def PROF_BEGIN_def prof_now_time numeral_3_eq_3) (simp add: prof_time_def)

text \<open>The profile shows what an interval has added to its counter, and no other counter.\<close>

lemma profile_of_interval:
  "xxfs_get_profile (PROF_ADD Hash_ns (PROF_BEGIN s)) =
    (xxfs_get_profile s)\<lparr>hash_ns := hash_ns (xxfs_get_profile s) + (prof_time s (Suc (prof_calls s)) - prof_time s (prof_calls s))\<rparr>"
  by (simp add: xxfs_get_profile_def PROF_ADD_def PROF_BEGIN_def prof_now_time) (simp add: prof_time_def)

end
