(* ===== verification/Os_File.thy ===== *)
theory Os_File
  imports Xxfs_Prelude
begin

text \<open>
  The operating-system layer of \<^verbatim>\<open>lib/xxfs_os.c\<close>: the image file behind \<^verbatim>\<open>pread\<close>, \<^verbatim>\<open>pwrite\<close>,
  \<^verbatim>\<open>ftruncate\<close>, \<^verbatim>\<open>fstat\<close>, \<^verbatim>\<open>fsync\<close>, and the allocator and the clock.

  The state holds the bytes of the image and the environment: the outcome of the \<open>n\<close>-th call to the
  operating system (a call may fail, and a failing write may have transferred a prefix), the time
  it would report, and the contents of memory that the program has not initialised. Nothing is assumed about these functions here; theorems that need successful
  calls say so with \<open>fault_free\<close>.
\<close>

section \<open>State\<close>

record os_file =
  os_size :: nat
  os_byte :: "nat \<Rightarrow> u8"
  os_calls :: nat
  os_ok :: "nat \<Rightarrow> bool"
  os_partial :: "nat \<Rightarrow> nat"
  os_clock :: "nat \<Rightarrow> u64"
  os_junk :: "nat \<Rightarrow> nat \<Rightarrow> u8"

definition fault_free :: "os_file \<Rightarrow> bool" where
  "fault_free f \<longleftrightarrow> (\<forall>n. os_ok f n)"

text \<open>An empty file and an environment in which every call succeeds, for concrete runs.\<close>

definition blank_file :: os_file where
  "blank_file = \<lparr>os_size = 0, os_byte = (\<lambda>_. 0), os_calls = 0, os_ok = (\<lambda>_. True),
     os_partial = (\<lambda>_. 0), os_clock = of_nat, os_junk = (\<lambda>_ _. 0)\<rparr>"

lemma fault_free_blank [simp]: "fault_free blank_file"
  by (simp add: fault_free_def blank_file_def)

text \<open>Every call consumes one outcome.\<close>

definition os_call :: "os_file \<Rightarrow> bool \<times> os_file" where
  "os_call f = (os_ok f (os_calls f), f\<lparr>os_calls := Suc (os_calls f)\<rparr>)"

definition peek :: "os_file \<Rightarrow> nat \<Rightarrow> nat \<Rightarrow> bytes" where
  "peek f off n = map (os_byte f) [off..<off + n]"

definition poke :: "os_file \<Rightarrow> nat \<Rightarrow> bytes \<Rightarrow> os_file" where
  "poke f off bs =
     f\<lparr>os_byte := (\<lambda>i. if off \<le> i \<and> i < off + length bs then bs ! (i - off) else os_byte f i),
       os_size := (if bs = [] then os_size f else max (os_size f) (off + length bs))\<rparr>"

section \<open>The operations of the OS layer\<close>

definition xxfs_os_alloc :: "os_file \<Rightarrow> bool \<times> os_file" where
  "xxfs_os_alloc f = os_call f"

text \<open>The contents of a fresh buffer of \<open>len\<close> bytes (\<^verbatim>\<open>malloc\<close> or the stack) before it is written.\<close>

definition fresh_buf :: "os_file \<Rightarrow> nat \<Rightarrow> bytes" where
  "fresh_buf f len = map (os_junk f (os_calls f)) [0..<len]"

definition xxfs_os_time :: "os_file \<Rightarrow> u64 \<times> os_file" where
  "xxfs_os_time f = (os_clock f (os_calls f), f\<lparr>os_calls := Suc (os_calls f)\<rparr>)"

text \<open>Opening the image; flag 2 truncates it. The result is \<open>True\<close> for 0.\<close>

definition xxfs_os_file_open :: "os_file \<Rightarrow> nat \<Rightarrow> bool \<times> os_file" where
  "xxfs_os_file_open f flg =
     (case os_call f of (ok, f) \<Rightarrow>
        (ok, if ok \<and> bit flg 1 then f\<lparr>os_size := 0, os_byte := (\<lambda>_. 0)\<rparr> else f))"

text \<open>Whether the mapping succeeds; its contents are those of the image.\<close>

definition xxfs_os_file_mmap :: "os_file \<Rightarrow> bool \<times> os_file" where
  "xxfs_os_file_mmap f = os_call f"

text \<open>\<open>None\<close> is the result \<^verbatim>\<open>-1\<close>.\<close>

definition xxfs_os_file_size :: "os_file \<Rightarrow> nat option \<times> os_file" where
  "xxfs_os_file_size f = (case os_call f of (ok, f) \<Rightarrow> (if ok then Some (os_size f) else None, f))"

text \<open>Offsets arrive as \<^verbatim>\<open>(s64)off\<close>: one with the top bit set is negative and is refused, as is a
  transfer that would pass the largest file offset. \<open>True\<close> is the result 0.\<close>

definition s64_ok :: "u64 \<Rightarrow> nat \<Rightarrow> bool" where
  "s64_ok off n \<longleftrightarrow> unat off + n < 2 ^ 63"

definition xxfs_os_file_pwrite :: "os_file \<Rightarrow> bytes \<Rightarrow> u64 \<Rightarrow> bool \<times> os_file" where
  "xxfs_os_file_pwrite f buf off =
     (let n = os_calls f in
      case os_call f of (ok, f) \<Rightarrow>
        if \<not> s64_ok off (length buf) then (False, f)
        else if ok then (True, poke f (unat off) buf)
        else (False, poke f (unat off) (take (os_partial f n) buf)))"

text \<open>\<open>Some bs\<close>: the bytes transferred, fewer than asked for at the end of the file.\<close>

definition xxfs_os_file_pread :: "os_file \<Rightarrow> nat \<Rightarrow> u64 \<Rightarrow> bytes option \<times> os_file" where
  "xxfs_os_file_pread f len off =
     (case os_call f of (ok, f) \<Rightarrow>
        if ok \<and> s64_ok off 0
        then (Some (peek f (unat off) (min len (os_size f - unat off))), f)
        else (None, f))"

definition xxfs_os_file_sync :: "os_file \<Rightarrow> bool \<times> os_file" where
  "xxfs_os_file_sync f = os_call f"

definition xxfs_os_file_truncate :: "os_file \<Rightarrow> nat \<Rightarrow> bool \<times> os_file" where
  "xxfs_os_file_truncate f sz =
     (case os_call f of (ok, f) \<Rightarrow>
        if ok \<and> sz < 2 ^ 63
        then (True, f\<lparr>os_size := sz, os_byte := (\<lambda>i. if i < sz then os_byte f i else 0)\<rparr>)
        else (False, f))"

definition xxfs_os_file_extend :: "os_file \<Rightarrow> nat \<Rightarrow> bool \<times> os_file" where
  "xxfs_os_file_extend f sz =
     (case xxfs_os_file_size f of
        (None, f) \<Rightarrow> (False, f)
      | (Some cur, f) \<Rightarrow> if sz \<le> cur then (True, f) else xxfs_os_file_truncate f sz)"

text \<open>A \<^verbatim>\<open>pread\<close> into a buffer: the bytes transferred replace a prefix of it.\<close>

definition into_buf :: "bytes \<Rightarrow> bytes \<Rightarrow> bytes" where
  "into_buf bs buf = bs @ drop (length bs) buf"

section \<open>Laws\<close>

definition os_wf :: "os_file \<Rightarrow> bool" where
  "os_wf f \<longleftrightarrow> (\<forall>i. os_size f \<le> i \<longrightarrow> os_byte f i = 0)"

lemma length_peek [simp, os_simps]: "length (peek f off n) = n"
  by (simp add: peek_def)

lemma peek_nth: "i < n \<Longrightarrow> peek f off n ! i = os_byte f (off + i)"
  by (simp add: peek_def)

lemma fld_peek: "a + n \<le> m \<Longrightarrow> fld a n (peek f off m) = peek f (off + a) n"
  by (rule nth_equalityI) (auto simp: fld_nth peek_nth add.assoc)

lemma peek_split: "peek f off (m + n) = peek f off m @ peek f (off + m) n"
  by (rule nth_equalityI) (auto simp: peek_nth nth_append)

lemma peek_cong: "(\<And>i. off \<le> i \<Longrightarrow> i < off + n \<Longrightarrow> os_byte f i = os_byte g i) \<Longrightarrow>
    peek f off n = peek g off n"
  by (simp add: peek_def)

lemma peek_poke_same: "n = length bs \<Longrightarrow> peek (poke f off bs) off n = bs"
  by (rule nth_equalityI) (auto simp: peek_nth poke_def)

lemma peek_poke_other:
  "a + n \<le> off \<or> off + length bs \<le> a \<Longrightarrow> peek (poke f off bs) a n = peek f a n"
  by (rule peek_cong) (auto simp: poke_def)

lemma os_byte_poke:
  "os_byte (poke f off bs) i =
    (if off \<le> i \<and> i < off + length bs then bs ! (i - off) else os_byte f i)"
  by (simp add: poke_def)

lemma os_size_poke_le: "os_size f \<le> os_size (poke f off bs)"
  by (simp add: poke_def)

lemma os_wf_poke: "os_wf f \<Longrightarrow> os_wf (poke f off bs)"
  by (auto simp: os_wf_def poke_def split: if_splits)

lemma poke_poke_adjacent:
  "n = length xs \<Longrightarrow> ys \<noteq> [] \<Longrightarrow> poke (poke f off xs) (off + n) ys = poke f off (xs @ ys)"
  by (auto simp: poke_def nth_append fun_eq_iff intro!: os_file.equality)

text \<open>Field access after the basic updates.\<close>

lemma poke_fields [simp]:
  "os_calls (poke f off bs) = os_calls f" "os_ok (poke f off bs) = os_ok f"
  "os_partial (poke f off bs) = os_partial f" "os_clock (poke f off bs) = os_clock f"
  "os_junk (poke f off bs) = os_junk f"
  by (simp_all add: poke_def)

lemma length_fresh_buf [simp]: "length (fresh_buf f n) = n"
  by (simp add: fresh_buf_def)

lemma poke_Nil [simp]: "poke f off [] = f"
  by (intro os_file.equality) (auto simp: poke_def fun_eq_iff)

lemma fault_free_poke [simp]: "fault_free (poke f off bs) = fault_free f"
  by (simp add: fault_free_def)

lemma calls_update [simp]:
  "peek (f\<lparr>os_calls := n\<rparr>) = peek f" "fault_free (f\<lparr>os_calls := n\<rparr>) = fault_free f"
  "os_wf (f\<lparr>os_calls := n\<rparr>) = os_wf f"
  by (simp_all add: peek_def fun_eq_iff fault_free_def os_wf_def)

lemma os_call_ok [os_simps]:
  "fault_free f \<Longrightarrow> os_call f = (True, f\<lparr>os_calls := Suc (os_calls f)\<rparr>)"
  by (simp add: os_call_def fault_free_def)

lemma pwrite_ok [os_simps]:
  "fault_free f \<Longrightarrow> s64_ok off (length buf) \<Longrightarrow>
    xxfs_os_file_pwrite f buf off = (True, poke (f\<lparr>os_calls := Suc (os_calls f)\<rparr>) (unat off) buf)"
  by (simp add: xxfs_os_file_pwrite_def os_call_ok)

text \<open>A read of \<open>len\<close> bytes into a zeroed buffer yields the image contents at that place, where the
  image reads as zero behind its end.\<close>

lemma pread_ok [os_simps]:
  assumes "fault_free f" and "s64_ok off 0"
  shows "xxfs_os_file_pread f len off =
    (Some (peek f (unat off) (min len (os_size f - unat off))), f\<lparr>os_calls := Suc (os_calls f)\<rparr>)"
  using assms by (simp add: xxfs_os_file_pread_def os_call_ok)

lemma into_buf_zeros:
  assumes "os_wf f"
  shows "into_buf (peek f off (min n (os_size f - off))) (zeros n) = peek f off n"
  using assms
  by (intro nth_equalityI) (auto simp: into_buf_def nth_append peek_nth zeros_def os_wf_def min_def)

lemma into_buf_full: "length bs = length buf \<Longrightarrow> into_buf bs buf = bs"
  by (simp add: into_buf_def)

section \<open>Interface: a byte store\<close>

text \<open>What the layers above rely on: reading back what was written, and writes elsewhere leaving
  it alone.\<close>

locale byte_store =
  fixes rd :: "'f \<Rightarrow> nat \<Rightarrow> nat \<Rightarrow> bytes"
    and wr :: "'f \<Rightarrow> nat \<Rightarrow> bytes \<Rightarrow> 'f"
  assumes rd_length: "length (rd f a n) = n"
    and rd_split: "rd f a (m + n) = rd f a m @ rd f (a + m) n"
    and rd_wr_same: "rd (wr f a bs) a (length bs) = bs"
    and rd_wr_other: "b + n \<le> a \<or> a + length bs \<le> b \<Longrightarrow> rd (wr f a bs) b n = rd f b n"
begin

lemma rd_wr_two:
  "a + length xs \<le> b \<or> b + length ys \<le> a \<Longrightarrow>
    rd (wr (wr f a xs) b ys) a (length xs) = xs \<and> rd (wr (wr f a xs) b ys) b (length ys) = ys"
  using rd_wr_other [of a "length xs" b ys "wr f a xs"] by (auto simp: rd_wr_same)

lemma rd_wr_seq:
  "rd (wr (wr f a xs) (a + length xs) ys) a (length xs + length ys) = xs @ ys"
  using rd_wr_two [of a xs "a + length xs" ys f] by (simp add: rd_split)

lemma rd_wr_seq3:
  "rd (wr (wr (wr f a xs) (a + length xs) ys) (a + length xs + length ys) zs) a
      (length xs + length ys + length zs) = xs @ ys @ zs"
proof -
  let ?g = "wr (wr f a xs) (a + length xs) ys" and ?z = "a + length xs + length ys"
  have "rd (wr ?g ?z zs) a (length xs + length ys) = xs @ ys"
    using rd_wr_other [of a "length xs + length ys" ?z zs ?g] by (simp add: rd_wr_seq)
  then show ?thesis
    by (simp add: rd_split [of _ _ "length xs + length ys"] rd_wr_same add.assoc [symmetric])
qed

end

interpretation image: byte_store peek poke
  by unfold_locales (simp_all add: peek_split peek_poke_same peek_poke_other)

end
