(* ===== verification/Dp_Table.thy ===== *)
theory Dp_Table
  imports Os_File
begin

text \<open>
  The in-memory hash table \<^verbatim>\<open>struct dp_table\<close> of \<^verbatim>\<open>lib/xxfs.c\<close>: open addressing over groups of sixteen control
  bytes, with tombstones and growth by migration. A key or value pointer is the bytes it points to, or
  \<open>None\<close> for \<^verbatim>\<open>NULL\<close>; the empty list stands for the \<^verbatim>\<open>NULL\<close> pointer of an array. Reading or writing outside an array is undefined
  behaviour in C, and the result \<open>None\<close> here. The operations use the portable comparison of a group; the one with SSE2 is given as well, and agrees with it (\<open>Dp_Map\<close>).
\<close>

section \<open>The code\<close>

definition GROUP_SIZE :: nat where "GROUP_SIZE = 16"
definition CTRL_EMPTY :: u8 where "CTRL_EMPTY = 0x80"
definition CTRL_DELETED :: u8 where "CTRL_DELETED = 0xFE"
definition MAX_LOAD_NUM :: u64 where "MAX_LOAD_NUM = 14"

lemmas dp_consts = GROUP_SIZE_def CTRL_EMPTY_def CTRL_DELETED_def MAX_LOAD_NUM_def

record dp_slot =
  sl_hash :: u64
  sl_key :: "bytes option"
  sl_val :: "bytes option"
  sl_klen :: u32
  sl_vlen :: u32
  sl_file_off :: u64

record dp_table =
  t_ctrl :: "u8 list"
  t_slots :: "dp_slot list"
  t_cap :: u64
  t_mask :: u64
  t_count :: u64
  t_tombstones :: u64
  t_grow_at :: u64
  t_old_ctrl :: "u8 list"
  t_old_slots :: "dp_slot list"
  t_old_cap :: u64
  t_old_mask :: u64
  t_old_migrated :: u64
  t_old_grow_at :: u64

definition zero_dp_slot :: dp_slot where
  "zero_dp_slot = \<lparr>sl_hash = 0, sl_key = None, sl_val = None, sl_klen = 0, sl_vlen = 0, sl_file_off = 0\<rparr>"

subsection \<open>Groups\<close>

text \<open>The portable \<^verbatim>\<open>match_group\<close>, one bit per control byte; \<^verbatim>\<open>match_empty\<close> is the instance for \<^verbatim>\<open>CTRL_EMPTY\<close>.\<close>

primrec match_bits :: "nat \<Rightarrow> u8 list \<Rightarrow> u8 \<Rightarrow> u32 \<Rightarrow> u32" where
  "match_bits i [] tag m = m"
| "match_bits i (c # cs) tag m = match_bits (Suc i) cs tag (if c = tag then m OR push_bit i 1 else m)"

definition match_group :: "u8 list \<Rightarrow> u8 \<Rightarrow> u32" where
  "match_group ctrl tag = match_bits 0 (take GROUP_SIZE ctrl) tag 0"

definition match_empty :: "u8 list \<Rightarrow> u32" where
  "match_empty ctrl = match_group ctrl CTRL_EMPTY"

text \<open>The build with SSE2: a register is its sixteen bytes. \<^verbatim>\<open>_mm_cmpeq_epi8\<close> sets a byte to all ones where its operands agree, \<^verbatim>\<open>_mm_movemask_epi8\<close> collects
  the top bits of the bytes.\<close>

definition mm_loadu :: "u8 list \<Rightarrow> u8 list" where
  "mm_loadu p = take 16 p"

definition mm_set1_epi8 :: "u8 \<Rightarrow> u8 list" where
  "mm_set1_epi8 b = replicate 16 b"

definition mm_cmpeq_epi8 :: "u8 list \<Rightarrow> u8 list \<Rightarrow> u8 list" where
  "mm_cmpeq_epi8 a b = map2 (\<lambda>x y. if x = y then 0xFF else 0) a b"

definition mm_movemask_epi8 :: "u8 list \<Rightarrow> u32" where
  "mm_movemask_epi8 v = horner_sum of_bool 2 (map (\<lambda>b. bit b 7) v)"

definition match_group_sse2 :: "u8 list \<Rightarrow> u8 \<Rightarrow> u32" where
  "match_group_sse2 ctrl tag = mm_movemask_epi8 (mm_cmpeq_epi8 (mm_loadu ctrl) (mm_set1_epi8 tag))"

definition match_empty_sse2 :: "u8 list \<Rightarrow> u32" where
  "match_empty_sse2 ctrl = mm_movemask_epi8 (mm_cmpeq_epi8 (mm_loadu ctrl) (mm_set1_epi8 CTRL_EMPTY))"

text \<open>\<^verbatim>\<open>__builtin_ctz\<close>, for a non-zero argument.\<close>

definition ctz :: "u32 \<Rightarrow> nat" where
  "ctz m = length (takeWhile (\<lambda>i. \<not> bit m i) [0..<32])"

lemma clear_lowest_less: "m \<noteq> 0 \<Longrightarrow> unat (m AND (m - 1)) < unat (m :: u32)"
  using word_and_le1 [of m "m - 1"] by (simp add: word_le_nat_alt unat_minus_one) (metis Suc_pred le_imp_less_Suc unat_gt_0)

text \<open>\<^verbatim>\<open>while (m) { bit = ctz(m); ...; m &= m - 1; }\<close>, left as soon as the body has a result.\<close>

function scan_mask :: "(nat \<Rightarrow> 'a option) \<Rightarrow> u32 \<Rightarrow> 'a option" where
  "scan_mask f m =
     (if m = 0 then None
      else case f (ctz m) of Some r \<Rightarrow> Some r | None \<Rightarrow> scan_mask f (m AND (m - 1)))"
  by pat_completeness auto
termination by (relation "measure (\<lambda>(f, m). unat m)") (simp_all add: clear_lowest_less)

declare scan_mask.simps [simp del]

definition ctrl_tag :: "u64 \<Rightarrow> u8" where
  "ctrl_tag hash = ucast (hash AND 0x7F)"

definition group_idx :: "u64 \<Rightarrow> u64 \<Rightarrow> u64" where
  "group_idx hash msk = drop_bit 7 hash AND (msk div of_nat GROUP_SIZE)"

subsection \<open>Creation\<close>

definition table_init :: dp_table where
  "table_init = \<lparr>t_ctrl = [], t_slots = [], t_cap = 0, t_mask = 0, t_count = 0, t_tombstones = 0, t_grow_at = 0,
     t_old_ctrl = [], t_old_slots = [], t_old_cap = 0, t_old_mask = 0, t_old_migrated = 0, t_old_grow_at = 0\<rparr>"

definition table_destroy :: "dp_table \<Rightarrow> dp_table" where
  "table_destroy t = t\<lparr>t_ctrl := [], t_slots := [], t_old_ctrl := [], t_old_slots := []\<rparr>"

definition table_alloc :: "dp_table \<Rightarrow> u64 \<Rightarrow> os_file \<Rightarrow> rc \<times> dp_table \<times> os_file" where
  "table_alloc t cap f =
     (let t = t\<lparr>t_cap := cap, t_mask := cap - 1, t_grow_at := cap * MAX_LOAD_NUM div of_nat GROUP_SIZE\<rparr> in
      case xxfs_os_alloc f of (ok1, f) \<Rightarrow>
        case xxfs_os_alloc f of (ok2, f) \<Rightarrow>
          if ok1 \<and> ok2
          then (XXFS_OK, t\<lparr>t_ctrl := replicate (unat cap) CTRL_EMPTY, t_slots := replicate (unat cap) zero_dp_slot\<rparr>, f)
          else (XXFS_ENOMEM, table_destroy t, f))"

subsection \<open>Lookup\<close>

definition group_ctrl :: "dp_table \<Rightarrow> u64 \<Rightarrow> u8 list option" where
  "group_ctrl t g =
     (if unat g * GROUP_SIZE + GROUP_SIZE \<le> length (t_ctrl t) \<and> length (t_slots t) = length (t_ctrl t)
      then Some (drop (unat g * GROUP_SIZE) (t_ctrl t)) else None)"

definition slot_is :: "dp_slot \<Rightarrow> u64 \<Rightarrow> bytes \<Rightarrow> bool" where
  "slot_is s hash key \<longleftrightarrow> sl_hash s = hash \<and> sl_klen s = of_nat (length key) \<and>
     (case sl_key s of None \<Rightarrow> False | Some k \<Rightarrow> take (length key) k = key)"

definition group_find :: "dp_table \<Rightarrow> u8 list \<Rightarrow> u64 \<Rightarrow> u64 \<Rightarrow> bytes \<Rightarrow> nat option" where
  "group_find t gc g hash key =
     scan_mask (\<lambda>b. let idx = unat g * GROUP_SIZE + b in
                     if slot_is (t_slots t ! idx) hash key then Some idx else None)
       (match_group gc (ctrl_tag hash))"

primrec find_probe :: "nat \<Rightarrow> dp_table \<Rightarrow> u64 \<Rightarrow> bytes \<Rightarrow> u64 \<Rightarrow> nat option option" where
  "find_probe 0 t hash key g = Some None"
| "find_probe (Suc n) t hash key g =
     do { gc \<leftarrow> group_ctrl t g;
          (case group_find t gc g hash key of
             Some idx \<Rightarrow> Some (Some idx)
           | None \<Rightarrow>
               if match_empty gc \<noteq> 0 then Some None
               else find_probe n t hash key ((g + 1) AND (t_cap t div of_nat GROUP_SIZE - 1))) }"

definition table_find :: "dp_table \<Rightarrow> u64 \<Rightarrow> bytes \<Rightarrow> nat option option" where
  "table_find t hash key =
     find_probe (unat (t_cap t div of_nat GROUP_SIZE)) t hash key (group_idx hash (t_mask t))"

subsection \<open>Insertion\<close>

text \<open>The results 1, 0 and \<^verbatim>\<open>-1\<close> of \<^verbatim>\<open>table_insert\<close>.\<close>

datatype ins_result = Replaced | Inserted | Full

definition fill_slot :: "dp_table \<Rightarrow> nat \<Rightarrow> u64 \<Rightarrow> bytes \<Rightarrow> bytes \<Rightarrow> u64 \<Rightarrow> dp_table" where
  "fill_slot t idx hash key val off =
     t\<lparr>t_ctrl := (t_ctrl t)[idx := ctrl_tag hash],
       t_slots := (t_slots t)[idx := \<lparr>sl_hash = hash, sl_key = Some key, sl_val = Some val,
         sl_klen = of_nat (length key), sl_vlen = of_nat (length val), sl_file_off = off\<rparr>],
       t_count := t_count t + 1,
       t_tombstones := (if t_ctrl t ! idx = CTRL_DELETED then t_tombstones t - 1 else t_tombstones t)\<rparr>"

definition replace_slot :: "dp_table \<Rightarrow> nat \<Rightarrow> bytes \<Rightarrow> u64 \<Rightarrow> dp_table" where
  "replace_slot t idx val off =
     t\<lparr>t_slots := (t_slots t)[idx := (t_slots t ! idx)
         \<lparr>sl_val := Some val, sl_vlen := of_nat (length val), sl_file_off := off\<rparr>]\<rparr>"

primrec insert_probe :: "nat \<Rightarrow> dp_table \<Rightarrow> u64 \<Rightarrow> bytes \<Rightarrow> bytes \<Rightarrow> u64 \<Rightarrow> u64 \<Rightarrow> nat option \<Rightarrow> (ins_result \<times> dp_table) option" where
  "insert_probe 0 t hash key val off g first_del =
     Some (case first_del of Some idx \<Rightarrow> (Inserted, fill_slot t idx hash key val off) | None \<Rightarrow> (Full, t))"
| "insert_probe (Suc n) t hash key val off g first_del =
     do { gc \<leftarrow> group_ctrl t g;
          (case group_find t gc g hash key of
             Some idx \<Rightarrow> Some (Replaced, replace_slot t idx val off)
           | None \<Rightarrow>
               let dm = match_group gc CTRL_DELETED;
                   first_del = (if first_del = None \<and> dm \<noteq> 0 then Some (unat g * GROUP_SIZE + ctz dm) else first_del);
                   em = match_empty gc
               in if em \<noteq> 0
                  then Some (Inserted, fill_slot t (case first_del of Some idx \<Rightarrow> idx | None \<Rightarrow> unat g * GROUP_SIZE + ctz em)
                                        hash key val off)
                  else insert_probe n t hash key val off ((g + 1) AND (t_cap t div of_nat GROUP_SIZE - 1)) first_del) }"

definition table_insert :: "dp_table \<Rightarrow> u64 \<Rightarrow> bytes \<Rightarrow> bytes \<Rightarrow> u64 \<Rightarrow> (ins_result \<times> dp_table) option" where
  "table_insert t hash key val off =
     insert_probe (unat (t_cap t div of_nat GROUP_SIZE)) t hash key val off (group_idx hash (t_mask t)) None"

subsection \<open>Growth\<close>

text \<open>The next old slot moves over; the result of \<^verbatim>\<open>table_insert\<close> is ignored. The pointers of an occupied
  slot are not \<^verbatim>\<open>NULL\<close>.\<close>

definition migrate_one :: "dp_table \<Rightarrow> dp_table option" where
  "migrate_one t =
     (let idx = unat (t_old_migrated t); t = t\<lparr>t_old_migrated := t_old_migrated t + 1\<rparr> in
      if length (t_old_ctrl t) \<le> idx \<or> length (t_old_slots t) \<le> idx then None
      else if t_old_ctrl t ! idx \<noteq> CTRL_EMPTY \<and> t_old_ctrl t ! idx \<noteq> CTRL_DELETED then
        let s = t_old_slots t ! idx in
        do { k \<leftarrow> sl_key s; v \<leftarrow> sl_val s;
             (r, t) \<leftarrow> table_insert t (sl_hash s) k v (sl_file_off s);
             Some t }
      else Some t)"

primrec migrate_loop :: "nat \<Rightarrow> dp_table \<Rightarrow> dp_table option" where
  "migrate_loop 0 t = Some t"
| "migrate_loop (Suc n) t =
     (if t_old_migrated t < t_old_cap t then do { t \<leftarrow> migrate_one t; migrate_loop n t } else Some t)"

definition table_migrate_batch :: "dp_table \<Rightarrow> u32 \<Rightarrow> dp_table option" where
  "table_migrate_batch t batch =
     (if t_old_ctrl t = [] then Some t
      else do { t \<leftarrow> migrate_loop (unat batch) t;
                Some (if t_old_migrated t \<ge> t_old_cap t
                      then t\<lparr>t_old_ctrl := [], t_old_slots := [], t_old_cap := 0\<rparr> else t) })"

definition grow_start :: "dp_table \<Rightarrow> os_file \<Rightarrow> (rc \<times> dp_table \<times> os_file) option" where
  "grow_start t f =
     (let new_cap = t_cap t * 2; new_cap = (if new_cap < 32 then 32 else new_cap);
          t = t\<lparr>t_old_ctrl := t_ctrl t, t_old_slots := t_slots t, t_old_cap := t_cap t, t_old_mask := t_mask t,
                t_old_migrated := 0, t_old_grow_at := t_grow_at t\<rparr>
      in
      case table_alloc t new_cap f of (r, t, f) \<Rightarrow>
        if r \<noteq> XXFS_OK then
          Some (r, t\<lparr>t_ctrl := t_old_ctrl t, t_slots := t_old_slots t, t_cap := t_old_cap t, t_mask := t_old_mask t,
                     t_old_ctrl := [], t_old_slots := []\<rparr>, f)
        else do { t \<leftarrow> table_migrate_batch (t\<lparr>t_count := 0, t_tombstones := 0\<rparr>) (ucast (t_old_cap t));
                  Some (XXFS_OK, t, f) })"

definition table_grow :: "dp_table \<Rightarrow> os_file \<Rightarrow> (rc \<times> dp_table \<times> os_file) option" where
  "table_grow t f =
     (if t_old_ctrl t \<noteq> [] then
        do { t \<leftarrow> table_migrate_batch t (ucast (t_old_cap t));
             if t_old_ctrl t \<noteq> [] then Some (XXFS_OK, t, f) else grow_start t f }
      else grow_start t f)"

definition table_put :: "dp_table \<Rightarrow> u64 \<Rightarrow> bytes \<Rightarrow> bytes \<Rightarrow> u64 \<Rightarrow> os_file \<Rightarrow> (ins_result \<times> dp_table \<times> os_file) option" where
  "table_put t hash key val off f =
     do { (t, f) \<leftarrow> (if t_count t + t_tombstones t \<ge> t_grow_at t
                     then map_option snd (table_grow t f) else Some (t, f));
          t \<leftarrow> (if t_old_ctrl t \<noteq> [] then table_migrate_batch t 64 else Some t);
          (r, t) \<leftarrow> table_insert t hash key val off;
          if r = Full then
            do { (r, t, f) \<leftarrow> table_grow t f;
                 (r, t) \<leftarrow> table_insert t hash key val off;
                 Some (r, t, f) }
          else Some (r, t, f) }"

subsection \<open>Deletion\<close>

definition table_del :: "dp_table \<Rightarrow> u64 \<Rightarrow> bytes \<Rightarrow> (rc \<times> dp_table) option" where
  "table_del t hash key =
     do { r \<leftarrow> table_find t hash key;
          (case r of
             None \<Rightarrow> Some (XXFS_ENOENT, t)
           | Some idx \<Rightarrow>
               Some (XXFS_OK, t\<lparr>t_slots := (t_slots t)[idx := zero_dp_slot],
                                t_ctrl := (t_ctrl t)[idx := CTRL_DELETED],
                                t_count := t_count t - 1, t_tombstones := t_tombstones t + 1\<rparr>)) }"

end
