(* ===== verification/Dp_Map.thy ===== *)
theory Dp_Map
  imports Dp_Table
begin

unbundle bit_operations_syntax

text \<open>
  The in-memory hash table as a map. Under the invariant \<open>dp_inv\<close>, \<^verbatim>\<open>table_find\<close>, \<^verbatim>\<open>table_put\<close> and \<^verbatim>\<open>table_del\<close> are lookup, update and removal of
  the finite map \<open>dp_map\<close> from a hash and a key to a value and an offset; \<^verbatim>\<open>table_put\<close> grows the table when it has to.
\<close>

section \<open>Masks\<close>

lemma bit_match_bits:
  "i + length cs \<le> 32 \<Longrightarrow> bit (match_bits i cs tag m) j \<longleftrightarrow> bit m j \<or> (i \<le> j \<and> j < i + length cs \<and> cs ! (j - i) = tag)"
proof (induction cs arbitrary: i m)
  case (Cons c cs)
  have "bit (push_bit i 1 :: u32) j \<longleftrightarrow> j = i" using Cons.prems by (auto simp: bit_simps)
  then show ?case using Cons.IH [of "Suc i"] Cons.prems
    by (cases "j = i") (auto simp: bit_simps nth_Cons' Suc_diff_le not_less_eq_eq Suc_le_eq less_diff_conv2)
qed auto

lemma bit_match_group: "16 \<le> length gc \<Longrightarrow> bit (match_group gc tag) j \<longleftrightarrow> j < 16 \<and> gc ! j = tag"
  by (auto simp: match_group_def bit_match_bits dp_consts)

lemma match_group_0: "16 \<le> length gc \<Longrightarrow> match_group gc tag = 0 \<longleftrightarrow> (\<forall>j < 16. gc ! j \<noteq> tag)"
  by (auto simp: bit_eq_iff bit_match_group)

text \<open>The two builds of the comparison agree on every group.\<close>

lemma match_group_builds: "16 \<le> length ctrl \<Longrightarrow> match_group_sse2 ctrl tag = match_group ctrl tag \<and> match_empty_sse2 ctrl = match_empty ctrl"
proof -
  assume l: "16 \<le> length ctrl"
  have "bit (mm_movemask_epi8 (mm_cmpeq_epi8 (mm_loadu ctrl) (mm_set1_epi8 tag))) j \<longleftrightarrow> j < 16 \<and> ctrl ! j = tag" for tag j
    using l by (auto simp: mm_movemask_epi8_def mm_cmpeq_epi8_def mm_loadu_def mm_set1_epi8_def bit_horner_sum_bit_iff split: if_splits)
  then show ?thesis
    using bit_match_group [OF l] by (simp add: bit_eq_iff match_group_sse2_def match_empty_sse2_def match_empty_def)
qed

lemma ctz_bit:
  assumes "m \<noteq> 0"
  shows "bit m (ctz m)" "i < ctz m \<Longrightarrow> \<not> bit m i" "ctz m < 32"
proof -
  obtain j where j: "bit m j" "j < 32" using assms by (auto simp: bit_eq_iff dest: bit_imp_le_length)
  have l: "ctz m < 32"
    using j unfolding ctz_def by (metis atLeastLessThan_upt atLeast_upt length_upt diff_zero lessThan_iff length_takeWhile_le le_neq_implies_less
        set_upt takeWhile_eq_all_conv takeWhile_eq_take take_all_iff order_refl atLeast0LessThan)
  then show "ctz m < 32" .
  show "bit m (ctz m)" using nth_length_takeWhile [of "\<lambda>i. \<not> bit m i" "[0..<32]"] l by (simp add: ctz_def)
  show "\<not> bit m i" if "i < ctz m"
    using that l takeWhile_nth [of i "\<lambda>i. \<not> bit m i" "[0..<32]"] set_takeWhileD [of i "\<lambda>i. \<not> bit m i" "[0..<32]"]
    by (metis add_0 ctz_def nth_mem nth_upt order_less_trans)
qed

lemma ctz_match: "16 \<le> length gc \<Longrightarrow> match_group gc tag \<noteq> 0 \<Longrightarrow> ctz (match_group gc tag) < 16 \<and> gc ! ctz (match_group gc tag) = tag"
  using ctz_bit(1) bit_match_group by blast

lemma clear_lowest:
  assumes "m \<noteq> 0"
  shows "bit (m AND (m - 1)) j \<longleftrightarrow> bit m j \<and> j \<noteq> ctz m"
proof -
  let ?c = "ctz m" and ?m = "unset_bit (ctz m) m"
  note c = ctz_bit [OF assms]
  have d: "?m AND 2 ^ ?c = 0" "?m AND mask ?c = 0" using c(2) by (auto simp: bit_eq_iff bit_simps)
  have "m = ?m OR 2 ^ ?c" using c(1,3) by (intro bit_eqI) (auto simp: bit_simps)
  also have "\<dots> = ?m + 2 ^ ?c" using d(1) by (simp add: disjunctive_add_eq_or)
  finally have "m - 1 = ?m + mask ?c" by (simp add: mask_eq_exp_minus_1)
  also have "\<dots> = ?m OR mask ?c" using d(2) by (simp add: disjunctive_add_eq_or)
  finally show ?thesis using c(2,3) by (auto simp: bit_simps)
qed

text \<open>The loop over the set bits of a mask finds a result when one of the bits has one.\<close>

lemma scan_mask_Some: "scan_mask f m = Some r \<Longrightarrow> \<exists>b. bit m b \<and> f b = Some r"
proof (induction f m rule: scan_mask.induct)
  case (1 f m)
  then show ?case using ctz_bit(1) [of m] clear_lowest [of m] scan_mask.simps [of f m] by (cases "m = 0"; cases "f (ctz m)") auto
qed

lemma scan_mask_None: "scan_mask f m = None \<Longrightarrow> bit m b \<Longrightarrow> f b = None"
proof (induction f m rule: scan_mask.induct)
  case (1 f m)
  then show ?case using clear_lowest [of m b] scan_mask.simps [of f m] by (cases "m = 0"; cases "b = ctz m"; cases "f (ctz m)") auto
qed

section \<open>The invariant\<close>

definition live :: "u8 \<Rightarrow> bool" where
  "live c \<longleftrightarrow> c \<noteq> CTRL_EMPTY \<and> c \<noteq> CTRL_DELETED"

text \<open>Slot \<open>i\<close> holds the value \<open>fst x\<close> with offset \<open>snd x\<close> under the hash \<open>fst k\<close> and the key \<open>snd k\<close>.\<close>

definition holds :: "dp_table \<Rightarrow> nat \<Rightarrow> u64 \<times> bytes \<Rightarrow> bytes \<times> u64 \<Rightarrow> bool" where
  "holds t i k x \<longleftrightarrow> i < length (t_ctrl t) \<and> live (t_ctrl t ! i) \<and> sl_hash (t_slots t ! i) = fst k \<and> sl_key (t_slots t ! i) = Some (snd k) \<and>
     sl_val (t_slots t ! i) = Some (fst x) \<and> sl_file_off (t_slots t ! i) = snd x"

definition entry_at :: "dp_table \<Rightarrow> nat \<Rightarrow> (u64 \<times> bytes) \<times> bytes \<times> u64" where
  "entry_at t i = (let s = t_slots t ! i in ((sl_hash s, the (sl_key s)), the (sl_val s), sl_file_off s))"

definition live_slots :: "dp_table \<Rightarrow> nat list" where
  "live_slots t = filter (\<lambda>i. live (t_ctrl t ! i)) [0..<length (t_ctrl t)]"

definition dp_map :: "dp_table \<Rightarrow> u64 \<times> bytes \<rightharpoonup> bytes \<times> u64" where
  "dp_map t = map_of (map (entry_at t) (live_slots t))"

definition ngroups :: "dp_table \<Rightarrow> nat" where
  "ngroups t = unat (t_cap t) div 16"

definition dp_shape :: "dp_table \<Rightarrow> bool" where
  "dp_shape t \<longleftrightarrow> (\<exists>e < 60. ngroups t = 2 ^ e) \<and> length (t_ctrl t) = 16 * ngroups t \<and> length (t_slots t) = 16 * ngroups t \<and>
     unat (t_cap t) = 16 * ngroups t \<and> t_mask t = t_cap t - 1"

text \<open>The group that is looked at in step \<open>q\<close> of a probe.\<close>

definition probed :: "dp_table \<Rightarrow> u64 \<Rightarrow> nat \<Rightarrow> nat" where
  "probed t hash q = (unat (group_idx hash (t_mask t)) + q) mod ngroups t"

definition crowded :: "dp_table \<Rightarrow> nat \<Rightarrow> bool" where
  "crowded t g \<longleftrightarrow> (\<forall>j < 16. t_ctrl t ! (g * 16 + j) \<noteq> CTRL_EMPTY)"

definition reached :: "dp_table \<Rightarrow> u64 \<Rightarrow> nat \<Rightarrow> bool" where
  "reached t hash i \<longleftrightarrow> (\<exists>p < ngroups t. i div 16 = probed t hash p \<and> (\<forall>q < p. crowded t (probed t hash q)))"

definition slot_sound :: "dp_table \<Rightarrow> nat \<Rightarrow> bool" where
  "slot_sound t i \<longleftrightarrow> (\<exists>k x. holds t i k x \<and> t_ctrl t ! i = ctrl_tag (fst k) \<and> length (snd k) < 2 ^ 32 \<and> reached t (fst k) i) \<and>
     sl_klen (t_slots t ! i) = of_nat (length (the (sl_key (t_slots t ! i))))"

definition dp_inv :: "dp_table \<Rightarrow> bool" where
  "dp_inv t \<longleftrightarrow> dp_shape t \<and> (\<forall>i < length (t_ctrl t). live (t_ctrl t ! i) \<longrightarrow> slot_sound t i) \<and>
     (\<forall>i j k x y. holds t i k x \<longrightarrow> holds t j k y \<longrightarrow> i = j) \<and>
     t_count t = of_nat (length (filter live (t_ctrl t))) \<and> t_tombstones t = of_nat (length (filter (\<lambda>c. c = CTRL_DELETED) (t_ctrl t)))"

lemma dp_invD:
  assumes "dp_inv t"
  shows "dp_shape t" "i < length (t_ctrl t) \<Longrightarrow> live (t_ctrl t ! i) \<Longrightarrow> slot_sound t i" "holds t i k x \<Longrightarrow> holds t j k y \<Longrightarrow> i = j"
  using assms unfolding dp_inv_def by blast+

lemma held_slot_sound: "dp_inv t \<Longrightarrow> holds t i k x \<Longrightarrow> slot_sound t i"
  using dp_invD(2) [of t i] unfolding holds_def by simp

lemma live_holds: "dp_inv t \<Longrightarrow> i < length (t_ctrl t) \<Longrightarrow> live (t_ctrl t ! i) \<Longrightarrow> \<exists>k x. holds t i k x"
  using dp_invD(2) [of t i] by (auto simp: slot_sound_def)

lemma holds_inj: "holds t i k x \<Longrightarrow> holds t i k' x' \<Longrightarrow> k = k' \<and> x = x'"
  by (auto simp: holds_def prod_eq_iff)

lemma slot_soundD:
  assumes "slot_sound t i" and "holds t i k x"
  shows "t_ctrl t ! i = ctrl_tag (fst k)" "length (snd k) < 2 ^ 32" "reached t (fst k) i"
    "sl_klen (t_slots t ! i) = of_nat (length (snd k))"
proof -
  obtain k' x' where o: "holds t i k' x'" "t_ctrl t ! i = ctrl_tag (fst k')" "length (snd k') < 2 ^ 32" "reached t (fst k') i"
    "sl_klen (t_slots t ! i) = of_nat (length (the (sl_key (t_slots t ! i))))"
    using assms(1) unfolding slot_sound_def by blast
  have "k' = k" "sl_key (t_slots t ! i) = Some (snd k)" using holds_inj [OF o(1) assms(2)] assms(2) unfolding holds_def by simp_all
  then show "t_ctrl t ! i = ctrl_tag (fst k)" "length (snd k) < 2 ^ 32" "reached t (fst k) i"
    "sl_klen (t_slots t ! i) = of_nat (length (snd k))"
    using o(2-5) by simp_all
qed

lemma entry_at_held: "dp_inv t \<Longrightarrow> i \<in> set (live_slots t) \<Longrightarrow> holds t i (fst (entry_at t i)) (snd (entry_at t i))"
  using live_holds [of t i] by (auto simp: holds_def Let_def entry_at_def live_slots_def)

lemma distinct_entries:
  assumes "dp_inv t"
  shows "distinct (map fst (map (entry_at t) (live_slots t)))"
proof -
  have "inj_on (\<lambda>i. fst (entry_at t i)) (set (live_slots t))"
  proof (rule inj_onI)
    fix i j assume i: "i \<in> set (live_slots t)" "j \<in> set (live_slots t)" and q: "fst (entry_at t i) = fst (entry_at t j)"
    show "i = j" by (rule dp_invD(3) [OF assms entry_at_held [OF assms i(1)]]) (use entry_at_held [OF assms i(2)] q in simp)
  qed
  moreover have "distinct (live_slots t)" by (simp add: live_slots_def)
  ultimately show ?thesis unfolding map_map comp_def by (subst distinct_map) simp
qed

lemma dp_map_iff:
  assumes "dp_inv t"
  shows "dp_map t k = Some x \<longleftrightarrow> (\<exists>i. holds t i k x)"
proof -
  have "dp_map t k = Some x \<longleftrightarrow> (k, x) \<in> set (map (entry_at t) (live_slots t))"
    using distinct_entries [OF assms] by (simp only: dp_map_def map_of_eq_Some_iff)
  also have "\<dots> \<longleftrightarrow> (\<exists>i. holds t i k x)"
  proof
    assume "(k, x) \<in> set (map (entry_at t) (live_slots t))"
    then obtain i where "i \<in> set (live_slots t)" "entry_at t i = (k, x)" by auto
    then show "\<exists>i. holds t i k x" using entry_at_held [OF assms, of i] by auto
  next
    assume "\<exists>i. holds t i k x"
    then obtain i where h: "holds t i k x" ..
    then have q: "entry_at t i = (k, x)" and i: "i \<in> set (live_slots t)" by (auto simp: holds_def Let_def entry_at_def live_slots_def)
    show "(k, x) \<in> set (map (entry_at t) (live_slots t))" unfolding set_map using q [symmetric] i by (rule image_eqI)
  qed
  finally show ?thesis .
qed

text \<open>The number of entries.\<close>

lemma length_live_slots: "length (live_slots t) = length (filter live (t_ctrl t))"
proof -
  have "filter live (t_ctrl t) = filter live (map (\<lambda>i. t_ctrl t ! i) [0..<length (t_ctrl t)])" by (simp add: map_nth)
  also have "length \<dots> = length (live_slots t)" by (simp only: filter_map length_map comp_def live_slots_def)
  finally show ?thesis by simp
qed

lemma dp_map_size: "dp_inv t \<Longrightarrow> card (dom (dp_map t)) = length (filter live (t_ctrl t))"
  using distinct_card [OF distinct_entries, of t] length_live_slots [of t] by (simp add: dp_map_def dom_map_of_conv_image_fst image_image)

lemma dp_map_None: "dp_inv t \<Longrightarrow> dp_map t k = None \<longleftrightarrow> (\<forall>i x. \<not> holds t i k x)"
  using dp_map_iff [of t k] by (metis not_None_eq)

lemma tag_live: "live (ctrl_tag h)"
proof -
  have "\<not> bit (ctrl_tag h) 7" by (simp add: ctrl_tag_def bit_simps)
  then show ?thesis by (auto simp: live_def dp_consts)
qed

section \<open>Lookup\<close>

lemma shape_words:
  assumes "dp_shape t"
  obtains e where "e < 60" and "ngroups t = 2 ^ e" and "t_cap t div 16 - 1 = mask e" and "t_mask t div 16 = mask e"
proof -
  obtain e where e: "e < 60" "ngroups t = 2 ^ e" and c: "unat (t_cap t) = 16 * 2 ^ e" "t_mask t = t_cap t - 1"
    using assms by (auto simp: dp_shape_def)
  have "t_cap t \<noteq> 0" using c(1) by auto
  then have u: "unat (t_cap t - 1) = 16 * 2 ^ e - 1" using c(1) by (simp add: unat_minus_one)
  have d: "unat (t_cap t div 16) = 2 ^ e" using c(1) by (simp add: unat_div)
  have "t_cap t div 16 = of_nat (unat (t_cap t div 16))" by simp
  then have "t_cap t div 16 = 2 ^ e" unfolding d by simp
  then have "t_cap t div 16 - 1 = mask e" by (simp add: mask_eq_exp_minus_1)
  moreover have "t_cap t div 16 \<noteq> 0" using d by auto
  ultimately have m: "unat (mask e :: u64) = 2 ^ e - 1" using d by (metis unat_minus_one)
  have "(16 * 2 ^ e - 1) div 16 = (2 ^ e - 1 :: nat)" by (cases "(2 :: nat) ^ e") auto
  then have "t_mask t div 16 = mask e" using c(2) u m by (simp add: word_unat_eq_iff unat_div)
  with \<open>t_cap t div 16 - 1 = mask e\<close> show thesis using that e by blast
qed

lemma probe_start: "dp_shape t \<Longrightarrow> unat (group_idx hash (t_mask t)) = probed t hash 0"
proof -
  assume s: "dp_shape t"
  obtain e where e: "e < 60" "ngroups t = 2 ^ e" "t_mask t div 16 = mask e" using shape_words [OF s] by metis
  have "unat (group_idx hash (t_mask t)) < 2 ^ e"
    using e(1,3) by (simp add: group_idx_def GROUP_SIZE_def unat_and_mask)
  then show ?thesis using e(2) by (simp add: probed_def)
qed

lemma probe_next:
  assumes "dp_shape t" and "unat g = probed t hash q"
  shows "unat ((g + 1) AND (t_cap t div of_nat GROUP_SIZE - 1)) = probed t hash (Suc q)"
proof -
  obtain e where e: "e < 60" "ngroups t = 2 ^ e" "t_cap t div 16 - 1 = mask e" using shape_words [OF assms(1)] by metis
  have "unat g < 2 ^ e" using assms(2) e(2) by (simp add: probed_def)
  then have "unat g + 1 < 2 ^ 64" using e(1) power_increasing [of e 60 "2 :: nat"] by simp
  then have "unat (g + 1) = unat g + 1" by (simp add: unat_add_lem [symmetric] unat_word_ariths)
  then have "unat ((g + 1) AND mask e) = (unat g + 1) mod 2 ^ e" by (simp add: unat_and_mask)
  then show ?thesis using e(2,3) assms(2) by (simp add: probed_def GROUP_SIZE_def mod_Suc_eq)
qed

lemma probed_less: "dp_shape t \<Longrightarrow> probed t hash q < ngroups t"
  by (auto simp: probed_def dp_shape_def)

lemma group_ctrl_ok:
  assumes "dp_shape t" and "unat g < ngroups t"
  shows "group_ctrl t g = Some (drop (unat g * 16) (t_ctrl t))" "16 \<le> length (drop (unat g * 16) (t_ctrl t))"
    "j < 16 \<Longrightarrow> drop (unat g * 16) (t_ctrl t) ! j = t_ctrl t ! (unat g * 16 + j)" "j < 16 \<Longrightarrow> unat g * 16 + j < length (t_ctrl t)"
  using assms by (auto simp: group_ctrl_def dp_shape_def GROUP_SIZE_def)

lemma slot_is_held:
  assumes "dp_inv t" and "length key < 2 ^ 32" and "i < length (t_ctrl t)" and "t_ctrl t ! i = ctrl_tag hash"
  shows "slot_is (t_slots t ! i) hash key \<longleftrightarrow> (\<exists>x. holds t i (hash, key) x)"
proof -
  obtain k x where h: "holds t i k x" using live_holds [OF assms(1,3)] assms(4) tag_live by metis
  note o = slot_soundD [OF held_slot_sound [OF assms(1) h] h]
  have "of_nat (length (snd k)) = (of_nat (length key) :: u32) \<longleftrightarrow> length (snd k) = length key"
    using o(2) assms(2) by (simp add: of_nat_inverse word_of_nat_eq_iff take_bit_nat_eq_self)
  then have "slot_is (t_slots t ! i) hash key \<longleftrightarrow> k = (hash, key)"
    using o(4) h by (auto simp: slot_is_def holds_def)
  also have "\<dots> \<longleftrightarrow> (\<exists>x. holds t i (hash, key) x)" using h holds_inj by metis
  finally show ?thesis .
qed

lemma group_find_ok:
  assumes "dp_inv t" and "length key < 2 ^ 32" and "unat g < ngroups t"
  shows "case group_find t (drop (unat g * 16) (t_ctrl t)) g hash key of
      Some i \<Rightarrow> (\<exists>x. holds t i (hash, key) x) | None \<Rightarrow> (\<forall>i x. i div 16 = unat g \<longrightarrow> \<not> holds t i (hash, key) x)"
proof -
  let ?f = "\<lambda>b. let idx = unat g * GROUP_SIZE + b in if slot_is (t_slots t ! idx) hash key then Some idx else None"
  let ?m = "match_group (drop (unat g * 16) (t_ctrl t)) (ctrl_tag hash)"
  note c = group_ctrl_ok [OF dp_invD(1) [OF assms(1)] assms(3)]
  have b: "bit ?m b \<longleftrightarrow> b < 16 \<and> t_ctrl t ! (unat g * 16 + b) = ctrl_tag hash" for b
    using bit_match_group [OF c(2)] c(3) [of b] by (cases "b < 16") simp_all
  note s = slot_is_held [OF assms(1,2) c(4)]
  show ?thesis
  proof (cases "scan_mask ?f ?m")
    case None
    have "\<not> holds t i (hash, key) x" if "i div 16 = unat g" for i x
    proof
      assume h: "holds t i (hash, key) x"
      have i: "i = unat g * 16 + i mod 16" "i mod 16 < 16" using that div_mult_mod_eq [of i 16] by simp_all
      have t: "t_ctrl t ! i = ctrl_tag hash" using slot_soundD(1) [OF held_slot_sound [OF assms(1) h] h] by simp
      then have "?f (i mod 16) = None" using scan_mask_None [OF None, of "i mod 16"] b [of "i mod 16"] i by simp
      then have "\<not> slot_is (t_slots t ! i) hash key" using i(1) by (simp add: GROUP_SIZE_def Let_def split: if_splits)
      then show False using s [of "i mod 16" hash] i t h by metis
    qed
    then show ?thesis using None by (simp add: group_find_def)
  next
    case (Some i)
    obtain j where j: "bit ?m j" "?f j = Some i" using scan_mask_Some [OF Some] by blast
    have "\<exists>x. holds t i (hash, key) x" using s [of j hash] j b [of j] by (auto simp: GROUP_SIZE_def Let_def split: if_splits)
    then show ?thesis using Some by (simp add: group_find_def)
  qed
qed

text \<open>A probe that has not met the key, nor an empty slot, finds it in what is left, or nowhere.\<close>

definition probing :: "dp_table \<Rightarrow> u64 \<Rightarrow> bytes \<Rightarrow> nat \<Rightarrow> bool" where
  "probing t hash key p \<longleftrightarrow> (\<forall>q < p. crowded t (probed t hash q) \<and> (\<forall>i x. i div 16 = probed t hash q \<longrightarrow> \<not> holds t i (hash, key) x))"

lemma probing_Suc:
  "probing t hash key (Suc p) \<longleftrightarrow> probing t hash key p \<and> crowded t (probed t hash p) \<and>
     (\<forall>i x. i div 16 = probed t hash p \<longrightarrow> \<not> holds t i (hash, key) x)"
  unfolding probing_def less_Suc_eq by blast

lemma probing_over:
  assumes "dp_inv t" and "probing t hash key p" and "p = ngroups t \<or> \<not> crowded t (probed t hash p) \<and>
    (\<forall>i x. i div 16 = probed t hash p \<longrightarrow> \<not> holds t i (hash, key) x)"
  shows "\<not> holds t i (hash, key) x"
proof
  assume h: "holds t i (hash, key) x"
  obtain r where r: "r < ngroups t" "i div 16 = probed t hash r" "\<And>q. q < r \<Longrightarrow> crowded t (probed t hash q)"
    using slot_soundD(3) [OF held_slot_sound [OF assms(1) h] h] by (auto simp: reached_def)
  have "p \<le> r" using assms(2) h r(2) unfolding probing_def by (metis not_less)
  then show False using assms(3) r h by (metis le_neq_implies_less not_less)
qed

lemma crowded_iff:
  fixes g :: u64
  assumes "dp_shape t" and "unat g < ngroups t"
  shows "match_empty (drop (unat g * 16) (t_ctrl t)) = 0 \<longleftrightarrow> crowded t (unat g)"
  using match_group_0 [OF group_ctrl_ok(2) [OF assms]] group_ctrl_ok(3) [OF assms] by (simp add: match_empty_def crowded_def)

lemma find_probe_ok:
  assumes inv: "dp_inv t" and key: "length key < 2 ^ 32"
  shows "probing t hash key p \<Longrightarrow> p + n = ngroups t \<Longrightarrow> unat g = probed t hash p \<Longrightarrow>
    \<exists>r. find_probe n t hash key g = Some r \<and> (case r of Some i \<Rightarrow> \<exists>x. holds t i (hash, key) x | None \<Rightarrow> \<forall>i x. \<not> holds t i (hash, key) x)"
proof (induction n arbitrary: p g)
  case 0
  then show ?case using probing_over [OF inv 0(1)] by simp
next
  case (Suc n)
  note sh = dp_invD(1) [OF inv]
  have g: "unat g < ngroups t" using Suc.prems(3) probed_less [OF sh] by simp
  note f = group_find_ok [OF inv key g, of hash] and c = group_ctrl_ok(1) [OF sh g] and e = crowded_iff [OF sh g]
  show ?case
  proof (cases "group_find t (drop (unat g * 16) (t_ctrl t)) g hash key")
    case None
    then have n: "\<forall>i x. i div 16 = probed t hash p \<longrightarrow> \<not> holds t i (hash, key) x" using f Suc.prems(3) by simp
    show ?thesis
    proof (cases "crowded t (unat g)")
      case True
      then have "probing t hash key (Suc p)" using Suc.prems(1,3) n by (simp add: probing_Suc)
      then show ?thesis using Suc.IH [OF _ _ probe_next [OF sh Suc.prems(3)]] Suc.prems(2) None c e True by simp
    next
      case False
      then show ?thesis using probing_over [OF inv Suc.prems(1)] n None c e Suc.prems(3) by simp
    qed
  next
    case (Some i)
    then show ?thesis using f c by simp
  qed
qed

text \<open>\<^verbatim>\<open>table_find\<close> returns, with the slot that holds the key if there is one.\<close>

lemma table_find_law:
  assumes "dp_inv t" and "length key < 2 ^ 32"
  obtains r where "table_find t hash key = Some r"
    and "case r of Some i \<Rightarrow> \<exists>x. holds t i (hash, key) x | None \<Rightarrow> \<forall>i x. \<not> holds t i (hash, key) x"
proof -
  note sh = dp_invD(1) [OF assms(1)]
  have "unat (t_cap t div of_nat GROUP_SIZE) = ngroups t" by (simp add: GROUP_SIZE_def unat_div ngroups_def)
  then show thesis
    using find_probe_ok [OF assms, of hash 0 "ngroups t" "group_idx hash (t_mask t)"] probe_start [OF sh] that
    by (auto simp: table_find_def probing_def)
qed

section \<open>Insertion\<close>

definition vacant :: "dp_table \<Rightarrow> u64 \<Rightarrow> nat \<Rightarrow> bool" where
  "vacant t hash i \<longleftrightarrow> i < length (t_ctrl t) \<and> \<not> live (t_ctrl t ! i) \<and> reached t hash i"

definition inserted :: "dp_table \<Rightarrow> u64 \<Rightarrow> bytes \<Rightarrow> bytes \<Rightarrow> u64 \<Rightarrow> ins_result \<times> dp_table \<Rightarrow> bool" where
  "inserted t hash key val off r \<longleftrightarrow>
     (\<exists>i x. holds t i (hash, key) x \<and> r = (Replaced, replace_slot t i val off)) \<or>
     (\<forall>i x. \<not> holds t i (hash, key) x) \<and>
       ((\<exists>i. vacant t hash i \<and> r = (Inserted, fill_slot t i hash key val off)) \<or> (\<forall>i < length (t_ctrl t). live (t_ctrl t ! i)) \<and> r = (Full, t))"

text \<open>What is known of the first tombstone after \<open>p\<close> steps.\<close>

definition tombstone :: "dp_table \<Rightarrow> u64 \<Rightarrow> nat \<Rightarrow> nat option \<Rightarrow> bool" where
  "tombstone t hash p d \<longleftrightarrow> (case d of
     None \<Rightarrow> \<forall>q < p. \<forall>j < 16. t_ctrl t ! (probed t hash q * 16 + j) \<noteq> CTRL_DELETED
   | Some i \<Rightarrow> i < length (t_ctrl t) \<and> t_ctrl t ! i = CTRL_DELETED \<and> (\<exists>q < p. i div 16 = probed t hash q))"

lemma probed_all:
  assumes "dp_shape t" and "g < ngroups t"
  shows "\<exists>q < ngroups t. probed t hash q = g"
proof -
  define h where "h = unat (group_idx hash (t_mask t)) mod ngroups t"
  have h: "h < ngroups t" using assms(2) by (simp add: h_def)
  have "(h + (g + ngroups t - h)) mod ngroups t = g" using h assms(2) by simp
  then have "(h + (g + ngroups t - h) mod ngroups t) mod ngroups t = g" by (simp add: mod_add_right_eq)
  then have "probed t hash ((g + ngroups t - h) mod ngroups t) = g" unfolding probed_def h_def by (metis mod_add_left_eq)
  moreover have "(g + ngroups t - h) mod ngroups t < ngroups t" using assms(2) by simp
  ultimately show ?thesis by blast
qed

lemma all_live:
  assumes "dp_shape t" and "probing t hash key (ngroups t)" and "tombstone t hash (ngroups t) None" and "i < length (t_ctrl t)"
  shows "live (t_ctrl t ! i)"
proof -
  have "i div 16 < ngroups t" using assms(1,4) by (auto simp: dp_shape_def)
  then obtain q where q: "q < ngroups t" "probed t hash q = i div 16" using probed_all [OF assms(1)] by blast
  have i: "i div 16 * 16 + i mod 16 = i" "i mod 16 < 16" by simp_all
  have "t_ctrl t ! (i div 16 * 16 + i mod 16) \<noteq> CTRL_EMPTY" using assms(2) q i(2) unfolding probing_def crowded_def by metis
  moreover have "t_ctrl t ! (i div 16 * 16 + i mod 16) \<noteq> CTRL_DELETED" using assms(3) q i(2) unfolding tombstone_def option.case by metis
  ultimately show ?thesis unfolding i(1) live_def by simp
qed

lemma vacant_of:
  assumes "probing t hash key p" and "p < ngroups t" and "q \<le> p" and "i div 16 = probed t hash q" and "i < length (t_ctrl t)" and "\<not> live (t_ctrl t ! i)"
  shows "vacant t hash i"
  using assms unfolding vacant_def reached_def probing_def by (metis le_less_trans order_less_le_trans)

lemma tombstone_step:
  fixes g :: u64
  assumes "dp_shape t" and "unat g < ngroups t" and "unat g = probed t hash p" and "tombstone t hash p d"
  shows "tombstone t hash (Suc p) (if d = None \<and> match_group (drop (unat g * 16) (t_ctrl t)) CTRL_DELETED \<noteq> 0
    then Some (unat g * GROUP_SIZE + ctz (match_group (drop (unat g * 16) (t_ctrl t)) CTRL_DELETED)) else d)"
proof -
  let ?m = "match_group (drop (unat g * 16) (t_ctrl t)) CTRL_DELETED"
  note c = group_ctrl_ok [OF assms(1,2)]
  have z: "?m = 0 \<longleftrightarrow> (\<forall>j < 16. t_ctrl t ! (unat g * 16 + j) \<noteq> CTRL_DELETED)" using match_group_0 [OF c(2)] c(3) by simp
  show ?thesis
  proof (cases "d = None \<and> ?m \<noteq> 0")
    case True
    then have "ctz ?m < 16 \<and> t_ctrl t ! (unat g * 16 + ctz ?m) = CTRL_DELETED" using ctz_match [OF c(2)] c(3) by metis
    moreover have "(unat g * 16 + ctz ?m) div 16 = probed t hash p" using calculation assms(3) by simp
    ultimately show ?thesis using True c(4) [of "ctz ?m"] by (auto simp: tombstone_def GROUP_SIZE_def)
  next
    case False
    then show ?thesis using assms(3,4) z by (cases d) (auto simp: tombstone_def less_Suc_eq)
  qed
qed

lemma insert_probe_end:
  assumes inv: "dp_inv t" and pr: "probing t hash key (ngroups t)" and d: "tombstone t hash (ngroups t) d"
  shows "\<exists>r. insert_probe 0 t hash key val off g d = Some r \<and> inserted t hash key val off r"
proof (cases d)
  case None
  have no: "\<not> holds t i (hash, key) x" for i x using probing_over [OF inv pr] by simp
  then show ?thesis using all_live [OF dp_invD(1) [OF inv], of hash key] pr d None by (auto simp: inserted_def)
next
  case (Some i)
  have no: "\<not> holds t i (hash, key) x" for i x using probing_over [OF inv pr] by simp
  from Some obtain q where q: "q < ngroups t" "i div 16 = probed t hash q" "i < length (t_ctrl t)" "t_ctrl t ! i = CTRL_DELETED"
    using d by (auto simp: tombstone_def)
  then have "vacant t hash i"
    using pr unfolding vacant_def reached_def probing_def live_def by (metis order_less_trans)
  then show ?thesis using Some no by (auto simp: inserted_def)
qed

text \<open>A group with an empty slot ends the search: the entry goes into the tombstone remembered on
  the way, or else into that empty slot, and either is a slot the search reaches.\<close>

lemma insert_slot_vacant:
  assumes sh: "dp_shape t" and pr: "probing t hash key p" and p: "p < ngroups t" and g: "unat (g :: u64) = probed t hash p"
    and d: "tombstone t hash (Suc p) d" and m: "match_empty (drop (unat g * 16) (t_ctrl t)) \<noteq> 0"
  shows "vacant t hash (case d of Some idx \<Rightarrow> idx | None \<Rightarrow> unat g * GROUP_SIZE + ctz (match_empty (drop (unat g * 16) (t_ctrl t))))"
    (is "vacant t hash ?i")
proof (cases d)
  case None
  let ?gc = "drop (unat g * 16) (t_ctrl t)"
  have "unat g < ngroups t" using g probed_less [OF sh] by simp
  note c = group_ctrl_ok [OF sh this]
  have z: "ctz (match_empty ?gc) < 16" "t_ctrl t ! (unat g * 16 + ctz (match_empty ?gc)) = CTRL_EMPTY"
    using ctz_match [OF c(2)] c(3) m by (metis match_empty_def)+
  then show ?thesis
    using vacant_of [OF pr p order_refl, of ?i] c(4) g None by (simp add: GROUP_SIZE_def live_def)
next
  case (Some i)
  then obtain q where "q \<le> p" "i div 16 = probed t hash q" "i < length (t_ctrl t)" "\<not> live (t_ctrl t ! i)"
    using d by (auto simp: tombstone_def live_def less_Suc_eq_le)
  then show ?thesis using vacant_of [OF pr p] Some by simp
qed

lemma insert_probe_ok:
  assumes inv: "dp_inv t" and key: "length key < 2 ^ 32"
  shows "probing t hash key p \<Longrightarrow> p + n = ngroups t \<Longrightarrow> unat g = probed t hash p \<Longrightarrow> tombstone t hash p d \<Longrightarrow>
    \<exists>r. insert_probe n t hash key val off g d = Some r \<and> inserted t hash key val off r"
proof (induction n arbitrary: p g d)
  case 0
  then show ?case using insert_probe_end [OF inv] by simp
next
  case (Suc n)
  note sh = dp_invD(1) [OF inv]
  let ?gc = "drop (unat g * 16) (t_ctrl t)"
  have g: "unat g < ngroups t" using Suc.prems(3) probed_less [OF sh] by simp
  note f = group_find_ok [OF inv key g, of hash] and c = group_ctrl_ok [OF sh g] and e = crowded_iff [OF sh g]
  define d' where "d' = (if d = None \<and> match_group ?gc CTRL_DELETED \<noteq> 0 then Some (unat g * GROUP_SIZE + ctz (match_group ?gc CTRL_DELETED)) else d)"
  have d: "tombstone t hash (Suc p) d'" unfolding d'_def by (rule tombstone_step [OF sh g Suc.prems(3,4)])
  show ?case
  proof (cases "group_find t ?gc g hash key")
    case None
    then have n: "\<forall>i x. i div 16 = probed t hash p \<longrightarrow> \<not> holds t i (hash, key) x" using f Suc.prems(3) by simp
    have s: "insert_probe (Suc n) t hash key val off g d =
      (if match_empty ?gc \<noteq> 0
       then Some (Inserted, fill_slot t (case d' of Some idx \<Rightarrow> idx | None \<Rightarrow> unat g * GROUP_SIZE + ctz (match_empty ?gc)) hash key val off)
       else insert_probe n t hash key val off ((g + 1) AND (t_cap t div of_nat GROUP_SIZE - 1)) d')"
      unfolding d'_def using None c(1) by (simp add: Let_def)
    show ?thesis
    proof (cases "crowded t (unat g)")
      case True
      then have "probing t hash key (Suc p)" using Suc.prems(1,3) n by (simp add: probing_Suc)
      then show ?thesis using Suc.IH [OF _ _ probe_next [OF sh Suc.prems(3)] d] Suc.prems(2) e True s by simp
    next
      case False
      have no: "\<not> holds t i (hash, key) x" for i x using probing_over [OF inv Suc.prems(1)] n False Suc.prems(3) by simp
      have m: "match_empty ?gc \<noteq> 0" using e False by simp
      have "p < ngroups t" using Suc.prems(2) by simp
      from insert_slot_vacant [OF sh Suc.prems(1) this Suc.prems(3) d m] show ?thesis
        using s m no by (auto simp: inserted_def)
    qed
  next
    case (Some i)
    then show ?thesis using f c(1) by (auto simp: inserted_def)
  qed
qed

lemma table_insert_law:
  assumes "dp_inv t" and "length key < 2 ^ 32"
  obtains r where "table_insert t hash key val off = Some r" and "inserted t hash key val off r"
proof -
  note sh = dp_invD(1) [OF assms(1)]
  have "unat (t_cap t div of_nat GROUP_SIZE) = ngroups t" by (simp add: GROUP_SIZE_def unat_div ngroups_def)
  then show thesis
    using insert_probe_ok [OF assms, of hash 0 "ngroups t" "group_idx hash (t_mask t)" None val off] probe_start [OF sh] that
    by (auto simp: table_insert_def probing_def tombstone_def)
qed

section \<open>Changing a slot\<close>

lemma length_filter_update:
  "i < length xs \<Longrightarrow> length (filter P (xs[i := c])) + of_bool (P (xs ! i)) = length (filter P xs) + of_bool (P c)"
proof (induction xs arbitrary: i)
  case (Cons a xs)
  show ?case
  proof (cases i)
    case (Suc j)
    then show ?thesis using Cons.IH [of j] Cons.prems by auto
  qed simp
qed simp

definition changed :: "dp_table \<Rightarrow> nat \<Rightarrow> u8 \<Rightarrow> dp_slot \<Rightarrow> dp_table \<Rightarrow> bool" where
  "changed t i c s t' \<longleftrightarrow> i < length (t_ctrl t) \<and> c \<noteq> CTRL_EMPTY \<and> t_ctrl t' = (t_ctrl t)[i := c] \<and> t_slots t' = (t_slots t)[i := s] \<and>
     t_cap t' = t_cap t \<and> t_mask t' = t_mask t"

lemma changed_shape:
  assumes "changed t i c s t'" and "dp_shape t"
  shows "dp_shape t'" "ngroups t' = ngroups t" "probed t' = probed t"
  using assms by (auto simp: changed_def dp_shape_def ngroups_def probed_def fun_eq_iff)

lemma changed_reached:
  assumes "changed t i c s t'" and "dp_shape t" and "reached t hash j"
  shows "reached t' hash j"
proof -
  have c: "crowded t' g" if "crowded t g" for g
  proof -
    have "t_ctrl t' ! j = (if i = j then c else t_ctrl t ! j)" for j using assms(1) by (simp add: changed_def)
    then show ?thesis using that assms(1) by (simp add: crowded_def changed_def)
  qed
  show ?thesis using assms(3) c changed_shape [OF assms(1,2)] unfolding reached_def by metis
qed

lemma changed_holds:
  assumes "changed t i c s t'" and "dp_shape t"
  shows "holds t' j k x \<longleftrightarrow> (if j = i then live c \<and> sl_hash s = fst k \<and> sl_key s = Some (snd k) \<and> sl_val s = Some (fst x) \<and> sl_file_off s = snd x
    else holds t j k x)"
  using assms by (auto simp: changed_def holds_def dp_shape_def)

lemma changed_slot_sound:
  assumes "changed t i c s t'" and "dp_inv t" and "j \<noteq> i" and "live (t_ctrl t' ! j)" and "j < length (t_ctrl t')"
  shows "slot_sound t' j"
proof -
  have j: "live (t_ctrl t ! j)" "j < length (t_ctrl t)" "t_ctrl t' ! j = t_ctrl t ! j" "t_slots t' ! j = t_slots t ! j"
    using assms(1,3-5) by (auto simp: changed_def)
  have o: "slot_sound t j" by (rule dp_invD(2) [OF assms(2) j(2,1)])
  obtain k x where h: "holds t j k x" using live_holds [OF assms(2) j(2,1)] by blast
  have "holds t' j k x" using changed_holds [OF assms(1) dp_invD(1) [OF assms(2)]] h assms(3) by simp
  then show ?thesis
    using slot_soundD [OF o h] changed_reached [OF assms(1) dp_invD(1) [OF assms(2)]] j(3,4) h unfolding slot_sound_def holds_def by force
qed

text \<open>A live slot that was vacant, or held the same key.\<close>

lemma changed_live:
  assumes ch: "changed t i (ctrl_tag hash) s t'" and inv: "dp_inv t" and r: "reached t hash i" and key: "length key < 2 ^ 32"
    and s: "sl_hash s = hash" "sl_key s = Some key" "sl_val s = Some val" "sl_file_off s = off" "sl_klen s = of_nat (length key)"
    and u: "\<And>j x. holds t j (hash, key) x \<Longrightarrow> j = i" and v: "\<And>k x. holds t i k x \<Longrightarrow> k = (hash, key)"
    and n: "t_count t' = of_nat (length (filter live (t_ctrl t')))" "t_tombstones t' = of_nat (length (filter (\<lambda>c. c = CTRL_DELETED) (t_ctrl t')))"
  shows "dp_inv t'" "dp_map t' = (dp_map t)((hash, key) \<mapsto> (val, off))"
proof -
  note sh = dp_invD(1) [OF inv]
  have i: "i < length (t_ctrl t')" "t_ctrl t' ! i = ctrl_tag hash" "t_slots t' ! i = s" using ch sh by (auto simp: changed_def dp_shape_def)
  have h: "holds t' j k x \<longleftrightarrow> (if j = i then k = (hash, key) \<and> x = (val, off) else holds t j k x)" for j k x
    using changed_holds [OF ch sh] s tag_live by (auto simp: prod_eq_iff)
  have "holds t' i (hash, key) (val, off)" using h by simp
  then have "slot_sound t' i"
    using i changed_reached [OF ch sh r] key s(2,5) unfolding slot_sound_def by (intro conjI exI [of _ "(hash, key)"] exI [of _ "(val, off)"]) simp_all
  then have o: "slot_sound t' j" if "j < length (t_ctrl t')" "live (t_ctrl t' ! j)" for j
    using changed_slot_sound [OF ch inv _ that(2,1)] by (cases "j = i") simp_all
  have d: "j = l" if "holds t' j k x" "holds t' l k y" for j l k x y
  proof -
    have "j = i \<and> k = (hash, key) \<or> j \<noteq> i \<and> holds t j k x" "l = i \<and> k = (hash, key) \<or> l \<noteq> i \<and> holds t l k y"
      using that unfolding h by metis+
    then show ?thesis using u dp_invD(3) [OF inv] by metis
  qed
  show inv': "dp_inv t'" using changed_shape(1) [OF ch sh] o d n unfolding dp_inv_def by blast
  show "dp_map t' = (dp_map t)((hash, key) \<mapsto> (val, off))"
  proof
    fix k
    have "dp_map t' k = Some x \<longleftrightarrow> ((dp_map t)((hash, key) \<mapsto> (val, off))) k = Some x" for x
    proof (cases "k = (hash, key)")
      case True
      have "dp_map t' k = Some (val, off)" unfolding dp_map_iff [OF inv'] True h by auto
      then show ?thesis using True by auto
    next
      case False
      have "(\<exists>j. holds t' j k x) \<longleftrightarrow> (\<exists>j. holds t j k x)" unfolding h using False v by metis
      then show ?thesis using False dp_map_iff [OF inv'] dp_map_iff [OF inv] by simp
    qed
    then show "dp_map t' k = ((dp_map t)((hash, key) \<mapsto> (val, off))) k" by (metis not_None_eq)
  qed
qed

lemma dp_counts:
  assumes "dp_inv t"
  shows "t_count t = of_nat (length (filter live (t_ctrl t)))" "t_tombstones t = of_nat (length (filter (\<lambda>c. c = CTRL_DELETED) (t_ctrl t)))"
  using assms by (simp_all add: dp_inv_def)

lemma replace_slot_ok:
  assumes inv: "dp_inv t" and h: "holds t i (hash, key) x"
  shows "dp_inv (replace_slot t i val off)" "dp_map (replace_slot t i val off) = (dp_map t)((hash, key) \<mapsto> (val, off))"
proof -
  note o = slot_soundD [OF held_slot_sound [OF inv h] h, unfolded fst_conv snd_conv]
  let ?s = "(t_slots t ! i)\<lparr>sl_val := Some val, sl_vlen := of_nat (length val), sl_file_off := off\<rparr>"
  have i: "i < length (t_ctrl t)" "sl_hash (t_slots t ! i) = hash" "sl_key (t_slots t ! i) = Some key" using h by (simp_all add: holds_def)
  have "t_ctrl t ! i \<noteq> CTRL_EMPTY" using h by (simp add: holds_def live_def)
  then have c: "changed t i (ctrl_tag hash) ?s (replace_slot t i val off)"
    using i(1) o(1) list_update_id [of "t_ctrl t" i] by (simp add: changed_def replace_slot_def)
  have u: "\<And>j y. holds t j (hash, key) y \<Longrightarrow> j = i" "\<And>k y. holds t i k y \<Longrightarrow> k = (hash, key)"
    using dp_invD(3) [OF inv _ h] holds_inj [OF _ h] by blast+
  have n: "t_count (replace_slot t i val off) = of_nat (length (filter live (t_ctrl (replace_slot t i val off))))"
    "t_tombstones (replace_slot t i val off) = of_nat (length (filter (\<lambda>c. c = CTRL_DELETED) (t_ctrl (replace_slot t i val off))))"
    using dp_counts [OF inv] by (simp_all add: replace_slot_def)
  note r = changed_live [OF c inv o(3,2) _ _ _ _ _ u n, of val off]
  show "dp_inv (replace_slot t i val off)" by (rule r(1)) (use i o(4) in simp_all)
  show "dp_map (replace_slot t i val off) = (dp_map t)((hash, key) \<mapsto> (val, off))" by (rule r(2)) (use i o(4) in simp_all)
qed

lemma fill_slot_ok:
  assumes inv: "dp_inv t" and v: "vacant t hash i" and key: "length key < 2 ^ 32" and no: "\<And>j x. \<not> holds t j (hash, key) x"
  shows "dp_inv (fill_slot t i hash key val off)" "dp_map (fill_slot t i hash key val off) = (dp_map t)((hash, key) \<mapsto> (val, off))"
proof -
  let ?t = "fill_slot t i hash key val off"
  let ?s = "\<lparr>sl_hash = hash, sl_key = Some key, sl_val = Some val, sl_klen = of_nat (length key), sl_vlen = of_nat (length val), sl_file_off = off\<rparr>"
  have i: "i < length (t_ctrl t)" "\<not> live (t_ctrl t ! i)" "reached t hash i" using v by (simp_all add: vacant_def)
  have l: "ctrl_tag hash \<noteq> CTRL_EMPTY" "ctrl_tag hash \<noteq> CTRL_DELETED" using tag_live by (auto simp: live_def)
  then have c: "changed t i (ctrl_tag hash) ?s ?t" using i(1) by (simp add: changed_def fill_slot_def)
  have "length (filter live (t_ctrl ?t)) = Suc (length (filter live (t_ctrl t)))"
    using length_filter_update [OF i(1), of live "ctrl_tag hash"] i(2) tag_live by (simp add: fill_slot_def)
  then have n1: "t_count ?t = of_nat (length (filter live (t_ctrl ?t)))" using dp_counts(1) [OF inv] by (simp add: fill_slot_def)
  have "length (filter (\<lambda>c. c = CTRL_DELETED) (t_ctrl ?t)) + of_bool (t_ctrl t ! i = CTRL_DELETED) = length (filter (\<lambda>c. c = CTRL_DELETED) (t_ctrl t))"
    using length_filter_update [OF i(1), of "\<lambda>c. c = CTRL_DELETED" "ctrl_tag hash"] l(2) by (simp add: fill_slot_def)
  then have n2: "t_tombstones ?t = of_nat (length (filter (\<lambda>c. c = CTRL_DELETED) (t_ctrl ?t)))"
    using dp_counts(2) [OF inv] by (cases "t_ctrl t ! i = CTRL_DELETED") (auto simp: fill_slot_def dest: sym)
  have u: "\<And>j y. holds t j (hash, key) y \<Longrightarrow> j = i" "\<And>k y. holds t i k y \<Longrightarrow> k = (hash, key)" using no i(2) by (auto simp: holds_def)
  note r = changed_live [OF c inv i(3) key _ _ _ _ _ u n1 n2, of val off]
  show "dp_inv ?t" by (rule r(1)) simp_all
  show "dp_map ?t = (dp_map t)((hash, key) \<mapsto> (val, off))" by (rule r(2)) simp_all
qed

text \<open>\<^verbatim>\<open>table_insert\<close> returns; it fails only when every slot is in use.\<close>

definition old_same :: "dp_table \<Rightarrow> dp_table \<Rightarrow> bool" where
  "old_same t t' \<longleftrightarrow> t_old_ctrl t' = t_old_ctrl t \<and> t_old_slots t' = t_old_slots t \<and> t_old_cap t' = t_old_cap t \<and> t_old_migrated t' = t_old_migrated t \<and>
     t_cap t' = t_cap t \<and> length (t_ctrl t') = length (t_ctrl t)"

lemma table_inserted_law:
  assumes inv: "dp_inv t" and key: "length key < 2 ^ 32"
  obtains r t' where "table_insert t hash key val off = Some (r, t')"
    and "if r = Full then t' = t \<and> (\<forall>i < length (t_ctrl t). live (t_ctrl t ! i))
      else dp_inv t' \<and> dp_map t' = (dp_map t)((hash, key) \<mapsto> (val, off)) \<and> r = (if dp_map t (hash, key) = None then Inserted else Replaced)"
    and "old_same t t'"
proof -
  obtain r where r: "table_insert t hash key val off = Some r" "inserted t hash key val off r" by (rule table_insert_law [OF assms])
  consider i x where "holds t i (hash, key) x" "r = (Replaced, replace_slot t i val off)"
    | i where "\<And>j x. \<not> holds t j (hash, key) x" "vacant t hash i" "r = (Inserted, fill_slot t i hash key val off)"
    | "\<forall>i < length (t_ctrl t). live (t_ctrl t ! i)" "r = (Full, t)"
    using r(2) unfolding inserted_def by blast
  then show thesis
  proof cases
    case 1
    have "dp_map t (hash, key) \<noteq> None" using dp_map_None [OF inv] 1(1) by metis
    then show ?thesis using that [of Replaced] r(1) replace_slot_ok [OF inv 1(1)] 1(2) by (simp add: old_same_def replace_slot_def)
  next
    case 2
    have "dp_map t (hash, key) = None" using dp_map_None [OF inv] 2(1) by metis
    then show ?thesis using that [of Inserted] r(1) fill_slot_ok [OF inv 2(2) key 2(1)] 2(3) by (simp add: old_same_def fill_slot_def)
  next
    case 3
    then show ?thesis using that [of Full t] r(1) by (simp add: old_same_def)
  qed
qed

section \<open>Deletion\<close>

lemma delete_slot_ok:
  assumes inv: "dp_inv t" and h: "holds t i k x" and c: "changed t i CTRL_DELETED zero_dp_slot t'"
    and n: "t_count t' = t_count t - 1" "t_tombstones t' = t_tombstones t + 1"
  shows "dp_inv t'" "dp_map t' = (dp_map t)(k := None)"
proof -
  note sh = dp_invD(1) [OF inv]
  have hd: "holds t' j l y \<longleftrightarrow> j \<noteq> i \<and> holds t j l y" for j l y using changed_holds [OF c sh] by (simp add: live_def)
  have i: "i < length (t_ctrl t)" "live (t_ctrl t ! i)" "\<not> live CTRL_DELETED" "t_ctrl t ! i \<noteq> CTRL_DELETED"
    using h by (simp_all add: holds_def live_def)
  have e: "t_ctrl t' = (t_ctrl t)[i := CTRL_DELETED]" using c by (simp add: changed_def)
  have o: "slot_sound t' j" if "j < length (t_ctrl t')" "live (t_ctrl t' ! j)" for j
    using changed_slot_sound [OF c inv _ that(2,1)] that i(1,3) e by (cases "j = i") simp_all
  have d: "j = l" if "holds t' j k x" "holds t' l k y" for j l k x y using that dp_invD(3) [OF inv] unfolding hd by metis
  have m: "Suc (length (filter live (t_ctrl t'))) = length (filter live (t_ctrl t))"
    "length (filter (\<lambda>c. c = CTRL_DELETED) (t_ctrl t')) = Suc (length (filter (\<lambda>c. c = CTRL_DELETED) (t_ctrl t)))"
    using length_filter_update [OF i(1), of live CTRL_DELETED] length_filter_update [OF i(1), of "\<lambda>c. c = CTRL_DELETED" CTRL_DELETED] i(2-4) e
    by simp_all
  have "t_count t' = of_nat (length (filter live (t_ctrl t')))" using dp_counts(1) [OF inv] n(1) m(1) by (metis add_diff_cancel_left' of_nat_Suc)
  moreover have "t_tombstones t' = of_nat (length (filter (\<lambda>c. c = CTRL_DELETED) (t_ctrl t')))" using dp_counts(2) [OF inv] n(2) m(2) by simp
  ultimately show inv': "dp_inv t'" using changed_shape(1) [OF c sh] o d unfolding dp_inv_def by blast
  show "dp_map t' = (dp_map t)(k := None)"
  proof
    fix l
    have "dp_map t' l = Some y \<longleftrightarrow> ((dp_map t)(k := None)) l = Some y" for y
    proof (cases "l = k")
      case True
      have "\<not> holds t' j k y" for j using hd dp_invD(3) [OF inv h] by metis
      then show ?thesis using True dp_map_iff [OF inv'] by simp
    next
      case False
      have "(\<exists>j. holds t' j l y) \<longleftrightarrow> (\<exists>j. holds t j l y)" using hd False holds_inj [OF h] by metis
      then show ?thesis using False dp_map_iff [OF inv'] dp_map_iff [OF inv] by simp
    qed
    then show "dp_map t' l = ((dp_map t)(k := None)) l" by (metis not_None_eq)
  qed
qed

lemma table_del_law:
  assumes inv: "dp_inv t" and key: "length key < 2 ^ 32"
  obtains t' where "table_del t hash key = Some (if dp_map t (hash, key) = None then XXFS_ENOENT else XXFS_OK, t')"
    and "dp_inv t'" and "dp_map t' = (dp_map t)((hash, key) := None)" and "old_same t t'"
proof -
  obtain r where r: "table_find t hash key = Some r"
    "case r of Some i \<Rightarrow> \<exists>x. holds t i (hash, key) x | None \<Rightarrow> \<forall>i x. \<not> holds t i (hash, key) x"
    by (rule table_find_law [OF assms])
  show thesis
  proof (cases r)
    case None
    then have "dp_map t (hash, key) = None" using dp_map_None [OF inv] r(2) by simp
    then show ?thesis using that [of t] r(1) None inv by (simp add: table_del_def old_same_def fun_upd_idem)
  next
    case (Some i)
    then obtain x where h: "holds t i (hash, key) x" using r(2) by auto
    let ?t = "t\<lparr>t_slots := (t_slots t)[i := zero_dp_slot], t_ctrl := (t_ctrl t)[i := CTRL_DELETED], t_count := t_count t - 1, t_tombstones := t_tombstones t + 1\<rparr>"
    have "CTRL_DELETED \<noteq> CTRL_EMPTY" by (simp add: dp_consts)
    then have "changed t i CTRL_DELETED zero_dp_slot ?t" using h by (simp add: changed_def holds_def)
    note d = delete_slot_ok [OF inv h this]
    have "dp_map t (hash, key) \<noteq> None" using dp_map_None [OF inv] h by metis
    then show ?thesis using that [of ?t] r(1) Some d by (simp add: table_del_def old_same_def)
  qed
qed

section \<open>Growth\<close>

lemma fresh_table:
  assumes "dp_shape t" and "t_ctrl t = replicate n CTRL_EMPTY" and "t_count t = 0" and "t_tombstones t = 0"
  shows "dp_inv t" "dp_map t = Map.empty"
proof -
  have e: "\<not> live CTRL_EMPTY" "CTRL_EMPTY \<noteq> CTRL_DELETED" by (simp_all add: live_def dp_consts)
  show "dp_inv t" using assms e by (auto simp: dp_inv_def holds_def)
  show "dp_map t = Map.empty" using assms(2) e by (simp add: dp_map_def live_slots_def)
qed

text \<open>The map that the first \<open>m\<close> slots of a table make up.\<close>

definition first_slots :: "dp_table \<Rightarrow> nat \<Rightarrow> u64 \<times> bytes \<rightharpoonup> bytes \<times> u64" where
  "first_slots t m k = (if \<exists>i < m. \<exists>x. holds t i k x then dp_map t k else None)"

lemma first_slots_0 [simp]: "first_slots t 0 = Map.empty"
  by (simp add: first_slots_def fun_eq_iff)

lemma first_slots_all:
  assumes "dp_inv t" and "length (t_ctrl t) \<le> m"
  shows "first_slots t m = dp_map t"
proof
  fix k
  show "first_slots t m k = dp_map t k"
  proof (cases "dp_map t k")
    case (Some x)
    then obtain i where "holds t i k x" using dp_map_iff [OF assms(1)] by blast
    moreover have "i < m" using calculation assms(2) by (simp add: holds_def)
    ultimately show ?thesis unfolding first_slots_def by metis
  qed (simp add: first_slots_def)
qed

lemma first_slots_step:
  assumes inv: "dp_inv t"
  shows "holds t m k x \<Longrightarrow> first_slots t (Suc m) = (first_slots t m)(k \<mapsto> x)" "holds t m k x \<Longrightarrow> first_slots t m k = None"
    "\<not> live (t_ctrl t ! m) \<Longrightarrow> first_slots t (Suc m) = first_slots t m"
proof -
  show "first_slots t (Suc m) = (first_slots t m)(k \<mapsto> x)" if h: "holds t m k x"
  proof
    fix l
    have e: "holds t m l y \<longleftrightarrow> l = k \<and> y = x" for y using h holds_inj by metis
    have "dp_map t k = Some x" using dp_map_iff [OF inv] h by blast
    then show "first_slots t (Suc m) l = ((first_slots t m)(k \<mapsto> x)) l"
    proof (cases "l = k")
      case False
      then have "(\<exists>i < Suc m. \<exists>y. holds t i l y) \<longleftrightarrow> (\<exists>i < m. \<exists>y. holds t i l y)" using e unfolding less_Suc_eq by metis
      then show ?thesis using False by (simp add: first_slots_def)
    next
      case True
      have "\<exists>i < Suc m. \<exists>y. holds t i l y" using h True by blast
      then show ?thesis using True \<open>dp_map t k = Some x\<close> unfolding first_slots_def by simp
    qed
  qed
  show "first_slots t m k = None" if h: "holds t m k x" using dp_invD(3) [OF inv h] by (auto simp: first_slots_def)
  show "first_slots t (Suc m) = first_slots t m" if "\<not> live (t_ctrl t ! m)" using that by (auto simp: first_slots_def holds_def less_Suc_eq fun_eq_iff)
qed

lemma first_slots_card: "dp_inv t \<Longrightarrow> card (dom (first_slots t m)) \<le> m"
proof (induction m)
  case (Suc m)
  show ?case
  proof (cases "m < length (t_ctrl t) \<and> live (t_ctrl t ! m)")
    case True
    then obtain k x where h: "holds t m k x" using live_holds [OF Suc.prems] by blast
    have "dom (first_slots t m) \<subseteq> dom (dp_map t)" by (auto simp: first_slots_def split: if_splits)
    then have "finite (dom (first_slots t m))" by (rule finite_subset) (simp add: dp_map_def finite_dom_map_of)
    then have "card (dom (first_slots t (Suc m))) \<le> Suc (card (dom (first_slots t m)))"
      unfolding first_slots_step(1) [OF Suc.prems h] by (simp add: card_insert_if)
    then show ?thesis using Suc by simp
  next
    case False
    then have "first_slots t (Suc m) = first_slots t m" by (auto simp: first_slots_def holds_def less_Suc_eq fun_eq_iff)
    then show ?thesis using Suc by simp
  qed
qed simp

lemma dp_old:
  "dp_inv (t\<lparr>t_old_migrated := a\<rparr>) = dp_inv t" "dp_map (t\<lparr>t_old_migrated := a\<rparr>) = dp_map t"
  "dp_inv (t\<lparr>t_old_ctrl := b, t_old_slots := c, t_old_cap := d\<rparr>) = dp_inv t"
  "dp_map (t\<lparr>t_old_ctrl := b, t_old_slots := c, t_old_cap := d\<rparr>) = dp_map t"
  by (simp_all add: dp_inv_def dp_shape_def ngroups_def slot_sound_def holds_def [abs_def] reached_def crowded_def probed_def
      dp_map_def entry_at_def [abs_def] live_slots_def)

text \<open>The table \<open>u\<close> has taken over the first \<open>m\<close> slots of \<open>t\<close> and has more slots than \<open>t\<close>.\<close>

definition migrated :: "dp_table \<Rightarrow> nat \<Rightarrow> dp_table \<Rightarrow> bool" where
  "migrated t m u \<longleftrightarrow> dp_inv u \<and> dp_map u = first_slots t m \<and> t_old_ctrl u = t_ctrl t \<and> t_old_slots u = t_slots t \<and> t_old_cap u = t_cap t \<and>
     unat (t_old_migrated u) = m \<and> length (t_ctrl t) < length (t_ctrl u)"

lemma not_full:
  assumes "dp_inv u" and "card (dom (dp_map u)) < length (t_ctrl u)"
  shows "\<not> (\<forall>i < length (t_ctrl u). live (t_ctrl u ! i))"
proof
  assume a: "\<forall>i < length (t_ctrl u). live (t_ctrl u ! i)"
  have "filter live (t_ctrl u) = t_ctrl u" using a by (simp add: filter_id_conv all_set_conv_all_nth)
  then show False using assms dp_map_size by simp
qed

lemma migrate_one_ok:
  assumes t: "dp_inv t" and u: "migrated t m u" and m: "m < length (t_ctrl t)" and cap: "unat (t_cap t) < 2 ^ 32"
  obtains u' where "migrate_one u = Some u'" and "migrated t (Suc m) u'" and "t_cap u' = t_cap u"
proof -
  let ?u = "u\<lparr>t_old_migrated := t_old_migrated u + 1\<rparr>"
  note d = u [unfolded migrated_def]
  have l: "length (t_slots t) = length (t_ctrl t)" "length (t_ctrl t) = unat (t_cap t)" using dp_invD(1) [OF t] by (auto simp: dp_shape_def)
  then have "unat (t_old_migrated u) + 1 < 2 ^ 64" using d m cap by simp
  then have s: "unat (t_old_migrated u + 1) = Suc m" using d by (simp add: unat_word_ariths)
  have inv: "dp_inv ?u" "dp_map ?u = first_slots t m" using d dp_old by simp_all
  show thesis
  proof (cases "live (t_ctrl t ! m)")
    case True
    then obtain k x where h: "holds t m k x" using live_holds [OF t m] by blast
    have key: "length (snd k) < 2 ^ 32" by (rule slot_soundD(2) [OF held_slot_sound [OF t h] h])
    obtain r u' where r: "table_insert ?u (fst k) (snd k) (fst x) (snd x) = Some (r, u')"
      "if r = Full then u' = ?u \<and> (\<forall>i < length (t_ctrl ?u). live (t_ctrl ?u ! i))
       else dp_inv u' \<and> dp_map u' = (dp_map ?u)((fst k, snd k) \<mapsto> (fst x, snd x)) \<and> r = (if dp_map ?u (fst k, snd k) = None then Inserted else Replaced)"
      "old_same ?u u'"
      by (rule table_inserted_law [OF inv(1) key])
    have "card (dom (dp_map ?u)) < length (t_ctrl ?u)" using first_slots_card [OF t, of m] inv(2) d m by simp
    then have "r \<noteq> Full" using not_full [OF inv(1)] r(2) by (auto simp del: unsigned_of_nat)
    then have u': "dp_inv u'" "dp_map u' = first_slots t (Suc m)" using r(2) inv(2) first_slots_step(1) [OF t h] by simp_all
    have "migrate_one u = Some u'" using d h m l(1) r(1) by (simp add: migrate_one_def Let_def holds_def live_def)
    then show ?thesis using that u' r(3) d s by (simp add: migrated_def old_same_def)
  next
    case False
    then have "migrate_one u = Some ?u" using d m l(1) by (auto simp: migrate_one_def Let_def live_def)
    then show ?thesis using that inv first_slots_step(3) [OF t False] d s by (simp add: migrated_def)
  qed
qed

lemma migrate_loop_ok:
  assumes t: "dp_inv t" and cap: "unat (t_cap t) < 2 ^ 32"
  shows "migrated t m u \<Longrightarrow> m + n = length (t_ctrl t) \<Longrightarrow>
    \<exists>u'. migrate_loop n u = Some u' \<and> migrated t (length (t_ctrl t)) u' \<and> t_cap u' = t_cap u"
proof (induction n arbitrary: m u)
  case (Suc n)
  have "length (t_ctrl t) = unat (t_cap t)" using dp_invD(1) [OF t] by (auto simp: dp_shape_def)
  then have "t_old_migrated u < t_old_cap u" using Suc.prems by (simp add: migrated_def word_less_nat_alt)
  moreover obtain u1 where "migrate_one u = Some u1" "migrated t (Suc m) u1" "t_cap u1 = t_cap u"
    by (rule migrate_one_ok [OF t Suc.prems(1) _ cap]) (use Suc.prems(2) in simp)
  ultimately show ?case using Suc.IH [of "Suc m" u1] Suc.prems(2) by auto
qed simp

lemma table_alloc_done:
  assumes "fault_free f"
  obtains f' where "table_alloc t cap f = (XXFS_OK, t\<lparr>t_cap := cap, t_mask := cap - 1, t_grow_at := cap * MAX_LOAD_NUM div of_nat GROUP_SIZE,
      t_ctrl := replicate (unat cap) CTRL_EMPTY, t_slots := replicate (unat cap) zero_dp_slot\<rparr>, f')" and "fault_free f'"
  using assms that by (simp add: table_alloc_def xxfs_os_alloc_def os_call_def fault_free_def Let_def)

text \<open>\<^verbatim>\<open>table_grow\<close> moves everything to a table of twice the size; the batch is as large as the old table, so that nothing is left to migrate later.\<close>

lemma table_grow_law:
  assumes inv: "dp_inv t" and old: "t_old_ctrl t = []" and cap: "unat (t_cap t) < 2 ^ 32" and ff: "fault_free f"
  obtains t' f' where "table_grow t f = Some (XXFS_OK, t', f')" and "dp_inv t'" and "dp_map t' = dp_map t" and "t_old_ctrl t' = []"
    and "unat (t_cap t') = 2 * unat (t_cap t)" and "fault_free f'"
proof -
  obtain e where e: "e < 60" "ngroups t = 2 ^ e" "unat (t_cap t) = 16 * 2 ^ e" "length (t_ctrl t) = 16 * 2 ^ e"
    using dp_invD(1) [OF inv] by (auto simp: dp_shape_def)
  have ne: "t_ctrl t \<noteq> []" using e(4) by auto
  have "(2 :: nat) ^ e < 2 ^ 28" using cap e(3) by simp
  then have e2: "Suc e < 60" by (simp only: power_strict_increasing_iff)
  have c2: "unat (t_cap t * 2) = 2 * unat (t_cap t)" using cap by (simp add: unat_word_ariths)
  have n: "\<not> t_cap t * 2 < 32" using c2 e(3) by (simp add: word_less_nat_alt)
  let ?o = "t\<lparr>t_old_ctrl := t_ctrl t, t_old_slots := t_slots t, t_old_cap := t_cap t, t_old_mask := t_mask t, t_old_migrated := 0, t_old_grow_at := t_grow_at t\<rparr>"
  obtain f' where a: "table_alloc ?o (t_cap t * 2) f = (XXFS_OK, ?o\<lparr>t_cap := t_cap t * 2, t_mask := t_cap t * 2 - 1,
      t_grow_at := t_cap t * 2 * MAX_LOAD_NUM div of_nat GROUP_SIZE,
      t_ctrl := replicate (unat (t_cap t * 2)) CTRL_EMPTY, t_slots := replicate (unat (t_cap t * 2)) zero_dp_slot\<rparr>, f')" "fault_free f'"
    by (rule table_alloc_done [OF ff])
  define u where "u = ?o\<lparr>t_cap := t_cap t * 2, t_mask := t_cap t * 2 - 1, t_grow_at := t_cap t * 2 * MAX_LOAD_NUM div of_nat GROUP_SIZE,
      t_ctrl := replicate (unat (t_cap t * 2)) CTRL_EMPTY, t_slots := replicate (unat (t_cap t * 2)) zero_dp_slot, t_count := 0, t_tombstones := 0\<rparr>"
  have g: "ngroups u = 2 ^ Suc e" using c2 e(3) by (simp add: ngroups_def u_def)
  then have "\<exists>e' < 60. ngroups u = 2 ^ e'" using e2 by blast
  then have "dp_shape u" using g c2 e(3) unfolding dp_shape_def by (simp add: u_def)
  note fr = fresh_table [OF this, of "unat (t_cap t * 2)"]
  have "migrated t 0 u" using fr e c2 by (simp add: migrated_def u_def)
  then obtain u' where m: "migrate_loop (length (t_ctrl t)) u = Some u'" "migrated t (length (t_ctrl t)) u'" "t_cap u' = t_cap u"
    using migrate_loop_ok [OF inv cap, of 0 u "length (t_ctrl t)"] by auto
  note d = m(2) [unfolded migrated_def]
  let ?t = "u'\<lparr>t_old_ctrl := [], t_old_slots := [], t_old_cap := 0\<rparr>"
  have b: "unat (ucast (t_cap t) :: u32) = length (t_ctrl t)" using cap e(3,4) by (simp add: unsigned_ucast_eq take_bit_nat_eq_self)
  have "t_old_ctrl u \<noteq> []" "t_old_cap u' \<le> t_old_migrated u'" using ne e d by (simp_all add: u_def word_le_nat_alt)
  then have "table_migrate_batch u (ucast (t_cap t)) = Some ?t" using m(1) b by (simp add: table_migrate_batch_def)
  then have "table_grow t f = Some (XXFS_OK, ?t, f')" using old n a(1) by (simp add: table_grow_def grow_start_def Let_def u_def)
  moreover have "dp_inv ?t" "dp_map ?t = dp_map t" using d dp_old(3,4) first_slots_all [OF inv] by simp_all
  ultimately show thesis using that [of ?t f'] a(2) m(3) c2 by (simp add: u_def)
qed

lemma insert_room:
  assumes inv: "dp_inv t" and key: "length key < 2 ^ 32" and c: "card (dom (dp_map t)) < length (t_ctrl t)"
  obtains t' where "table_insert t hash key val off = Some (if dp_map t (hash, key) = None then Inserted else Replaced, t')"
    and "dp_inv t'" and "dp_map t' = (dp_map t)((hash, key) \<mapsto> (val, off))" and "old_same t t'"
proof -
  obtain r t' where r: "table_insert t hash key val off = Some (r, t')"
    "if r = Full then t' = t \<and> (\<forall>i < length (t_ctrl t). live (t_ctrl t ! i))
     else dp_inv t' \<and> dp_map t' = (dp_map t)((hash, key) \<mapsto> (val, off)) \<and> r = (if dp_map t (hash, key) = None then Inserted else Replaced)"
    "old_same t t'"
    by (rule table_inserted_law [OF inv key])
  have "r \<noteq> Full" using not_full [OF inv c] r(2) by metis
  then show thesis using that r by simp
qed

lemma table_put_law:
  assumes inv: "dp_inv t" and old: "t_old_ctrl t = []" and cap: "unat (t_cap t) < 2 ^ 31" and ff: "fault_free f" and key: "length key < 2 ^ 32"
  obtains t' f' where "table_put t hash key val off f = Some (if dp_map t (hash, key) = None then Inserted else Replaced, t', f')"
    and "dp_inv t'" and "dp_map t' = (dp_map t)((hash, key) \<mapsto> (val, off))" and "t_old_ctrl t' = []" and "fault_free f'"
proof -
  obtain t1 f1 where g: "(if t_count t + t_tombstones t \<ge> t_grow_at t then map_option snd (table_grow t f) else Some (t, f)) = Some (t1, f1)"
    "dp_inv t1" "dp_map t1 = dp_map t" "t_old_ctrl t1 = []" "unat (t_cap t1) < 2 ^ 32" "fault_free f1"
  proof (cases "t_count t + t_tombstones t \<ge> t_grow_at t")
    case True
    obtain t' f' where "table_grow t f = Some (XXFS_OK, t', f')" "dp_inv t'" "dp_map t' = dp_map t" "t_old_ctrl t' = []"
      "unat (t_cap t') = 2 * unat (t_cap t)" "fault_free f'"
      by (rule table_grow_law [OF inv old _ ff]) (use cap in simp)
    then show thesis using that [of t' f'] True cap by simp
  next
    case False
    then show thesis using that [of t f] inv old cap ff by simp
  qed
  obtain r t2 where r: "table_insert t1 hash key val off = Some (r, t2)"
    "if r = Full then t2 = t1 \<and> (\<forall>i < length (t_ctrl t1). live (t_ctrl t1 ! i))
     else dp_inv t2 \<and> dp_map t2 = (dp_map t1)((hash, key) \<mapsto> (val, off)) \<and> r = (if dp_map t1 (hash, key) = None then Inserted else Replaced)"
    "old_same t1 t2"
    by (rule table_inserted_law [OF g(2) key])
  show thesis
  proof (cases "r = Full")
    case True
    then have t2: "t2 = t1" using r(2) by simp
    obtain t3 f3 where h: "table_grow t1 f1 = Some (XXFS_OK, t3, f3)" "dp_inv t3" "dp_map t3 = dp_map t1" "t_old_ctrl t3 = []"
      "unat (t_cap t3) = 2 * unat (t_cap t1)" "fault_free f3"
      by (rule table_grow_law [OF g(2,4,5,6)])
    have len: "length (t_ctrl t1) = unat (t_cap t1)" "length (t_ctrl t3) = unat (t_cap t3)" "0 < length (t_ctrl t1)"
      using dp_invD(1) [OF g(2)] dp_invD(1) [OF h(2)] by (auto simp: dp_shape_def)
    have "card (dom (dp_map t3)) \<le> length (t_ctrl t1)" unfolding h(3) dp_map_size [OF g(2)] by (rule length_filter_le)
    then have c: "card (dom (dp_map t3)) < length (t_ctrl t3)" using len h(5) by simp
    obtain t4 where i: "table_insert t3 hash key val off = Some (if dp_map t3 (hash, key) = None then Inserted else Replaced, t4)"
      "dp_inv t4" "dp_map t4 = (dp_map t3)((hash, key) \<mapsto> (val, off))" "old_same t3 t4"
      by (rule insert_room [OF h(2) key c])
    have "table_put t hash key val off f = Some (if dp_map t (hash, key) = None then Inserted else Replaced, t4, f3)"
      using g(1,3,4) r(1) True t2 h(1,3) i(1) by (simp add: table_put_def)
    then show ?thesis using that i h g(3) by (simp add: old_same_def)
  next
    case False
    then show ?thesis using that [of t2 f1] g r by (simp add: table_put_def old_same_def)
  qed
qed

text \<open>An empty table, as \<^verbatim>\<open>xxfs_mount\<close> makes it.\<close>

lemma table_alloc_law:
  assumes "fault_free f" and "e < 20"
  obtains t f' where "table_alloc table_init (16 * 2 ^ e) f = (XXFS_OK, t, f')" and "dp_inv t" and "dp_map t = Map.empty" and "t_old_ctrl t = []"
    and "unat (t_cap t) = 16 * 2 ^ e" and "fault_free f'"
proof -
  let ?c = "16 * 2 ^ e :: u64"
  have "(2 :: nat) ^ e < 2 ^ 20" using assms(2) by (simp only: power_strict_increasing_iff)
  then have "unat (of_nat (16 * 2 ^ e) :: u64) = 16 * 2 ^ e" by (intro of_nat_inverse [OF refl]) simp
  then have u: "unat ?c = 16 * 2 ^ e" by simp
  let ?t = "table_init\<lparr>t_cap := ?c, t_mask := ?c - 1, t_grow_at := ?c * MAX_LOAD_NUM div of_nat GROUP_SIZE,
      t_ctrl := replicate (unat ?c) CTRL_EMPTY, t_slots := replicate (unat ?c) zero_dp_slot\<rparr>"
  obtain f' where a: "table_alloc table_init ?c f = (XXFS_OK, ?t, f')" "fault_free f'" by (rule table_alloc_done [OF assms(1)])
  have g: "ngroups ?t = 2 ^ e" using u by (simp add: ngroups_def)
  then have "\<exists>e' < 60. ngroups ?t = 2 ^ e'" using assms(2) by (intro exI [of _ e]) simp
  then have "dp_shape ?t" using g u by (simp add: dp_shape_def)
  note f = fresh_table [OF this, of "unat ?c"]
  show thesis by (rule that [OF a(1) _ _ _ _ a(2)]) (use f u in \<open>simp_all add: table_init_def\<close>)
qed

section \<open>Interface: a table\<close>

locale assoc_table =
  fixes inv :: "'s \<Rightarrow> bool"
    and abs :: "'s \<Rightarrow> 'k \<Rightarrow> 'v option"
    and key_ok :: "'k \<Rightarrow> bool"
    and put_ok :: "'s \<Rightarrow> bool"
    and get :: "'s \<Rightarrow> 'k \<Rightarrow> 'v option option"
    and put :: "'s \<Rightarrow> 'k \<Rightarrow> 'v \<Rightarrow> 's option"
    and del :: "'s \<Rightarrow> 'k \<Rightarrow> 's option"
  assumes get_abs: "inv s \<Longrightarrow> key_ok k \<Longrightarrow> get s k = Some (abs s k)"
    and put_abs: "inv s \<Longrightarrow> put_ok s \<Longrightarrow> key_ok k \<Longrightarrow> \<exists>s'. put s k v = Some s' \<and> inv s' \<and> abs s' = (abs s)(k \<mapsto> v)"
    and del_abs: "inv s \<Longrightarrow> key_ok k \<Longrightarrow> \<exists>s'. del s k = Some s' \<and> inv s' \<and> abs s' = (abs s)(k := None)"
begin

lemma get_after_put:
  "inv s \<Longrightarrow> put_ok s \<Longrightarrow> key_ok k \<Longrightarrow> key_ok l \<Longrightarrow> put s k v = Some s' \<Longrightarrow> get s' l = Some (if l = k then Some v else abs s l)"
  using put_abs [of s k v] get_abs [of s' l] by auto

lemma get_after_del:
  "inv s \<Longrightarrow> key_ok k \<Longrightarrow> key_ok l \<Longrightarrow> del s k = Some s' \<Longrightarrow> get s' l = Some (if l = k then None else abs s l)"
  using del_abs [of s k] get_abs [of s' l] by auto

end

text \<open>The value and the offset in the slot that \<^verbatim>\<open>table_find\<close> finds.\<close>

definition table_value :: "dp_table \<Rightarrow> u64 \<times> bytes \<Rightarrow> (bytes \<times> u64) option option" where
  "table_value t k = map_option (map_option (\<lambda>i. snd (entry_at t i))) (table_find t (fst k) (snd k))"

lemma table_value_ok:
  assumes inv: "dp_inv t" and key: "length (snd k) < 2 ^ 32"
  shows "table_value t k = Some (dp_map t k)"
proof -
  obtain r where r: "table_find t (fst k) (snd k) = Some r"
    "case r of Some i \<Rightarrow> \<exists>x. holds t i (fst k, snd k) x | None \<Rightarrow> \<forall>i x. \<not> holds t i (fst k, snd k) x"
    by (rule table_find_law [OF assms])
  show ?thesis
  proof (cases r)
    case None
    then show ?thesis using r dp_map_None [OF inv, of k] by (simp add: table_value_def)
  next
    case (Some i)
    then obtain x where h: "holds t i k x" using r(2) by auto
    then have "snd (entry_at t i) = x" by (simp add: holds_def entry_at_def Let_def)
    moreover have "dp_map t k = Some x" using dp_map_iff [OF inv] h by blast
    ultimately show ?thesis using r(1) Some by (simp add: table_value_def)
  qed
qed

definition dp_state :: "dp_table \<times> os_file \<Rightarrow> bool" where
  "dp_state s \<longleftrightarrow> dp_inv (fst s) \<and> t_old_ctrl (fst s) = [] \<and> fault_free (snd s)"

interpretation dp: assoc_table dp_state "\<lambda>s. dp_map (fst s)" "\<lambda>k. length (snd k) < 2 ^ 32" "\<lambda>s. unat (t_cap (fst s)) < 2 ^ 31"
  "\<lambda>s. table_value (fst s)" "\<lambda>(t, f) k x. map_option snd (table_put t (fst k) (snd k) (fst x) (snd x) f)"
  "\<lambda>(t, f) k. map_option (\<lambda>r. (snd r, f)) (table_del t (fst k) (snd k))"
proof (unfold_locales, goal_cases)
  case (1 s k)
  then show ?case using table_value_ok by (simp add: dp_state_def)
next
  case (2 s k x)
  obtain t f where s: "s = (t, f)" by fastforce
  have a: "dp_inv t" "t_old_ctrl t = []" "unat (t_cap t) < 2 ^ 31" "fault_free f" using 2 s by (simp_all add: dp_state_def)
  obtain t' f' where "table_put t (fst k) (snd k) (fst x) (snd x) f = Some (if dp_map t (fst k, snd k) = None then Inserted else Replaced, t', f')"
    "dp_inv t'" "dp_map t' = (dp_map t)((fst k, snd k) \<mapsto> (fst x, snd x))" "t_old_ctrl t' = []" "fault_free f'"
    by (rule table_put_law [OF a 2(3)])
  then show ?case using s by (simp add: dp_state_def)
next
  case (3 s k)
  obtain t f where s: "s = (t, f)" by fastforce
  have a: "dp_inv t" "t_old_ctrl t = []" "fault_free f" using 3 s by (simp_all add: dp_state_def)
  obtain t' where "table_del t (fst k) (snd k) = Some (if dp_map t (fst k, snd k) = None then XXFS_ENOENT else XXFS_OK, t')"
    "dp_inv t'" "dp_map t' = (dp_map t)((fst k, snd k) := None)" "old_same t t'"
    by (rule table_del_law [OF a(1) 3(2)])
  then show ?case using s a by (simp add: dp_state_def old_same_def)
qed

section \<open>Properties\<close>

text \<open>C29: \<^verbatim>\<open>table_put\<close> is the update of a map, whether it replaces the value of a key, takes an empty slot or a tombstone, or grows the table first: it returns, says whether the key
  was new, keeps the invariant, and \<^verbatim>\<open>table_find\<close> then finds the new value under the key, and under every other key what it found before.\<close>

theorem table_put_correct:
  assumes "dp_inv t" and "t_old_ctrl t = []" and "unat (t_cap t) < 2 ^ 31" and "fault_free f" and "length key < 2 ^ 32"
  shows "\<exists>t' f'. table_put t hash key val off f = Some (if dp_map t (hash, key) = None then Inserted else Replaced, t', f') \<and>
    dp_inv t' \<and> t_old_ctrl t' = [] \<and> t_count t' = of_nat (card (dom (dp_map t'))) \<and>
    (\<forall>k. length (snd k) < 2 ^ 32 \<longrightarrow> table_value t' k = Some (if k = (hash, key) then Some (val, off) else dp_map t k))"
proof -
  obtain t' f' where p: "table_put t hash key val off f = Some (if dp_map t (hash, key) = None then Inserted else Replaced, t', f')"
    "dp_inv t'" "t_old_ctrl t' = []"
    by (rule table_put_law [OF assms])
  have "table_value t' k = Some (if k = (hash, key) then Some (val, off) else dp_map t k)" if "length (snd k) < 2 ^ 32" for k
    using dp.get_after_put [of "(t, f)" "(hash, key)" k "(val, off)" "(t', f')"] p(1) assms that by (simp add: dp_state_def)
  then show ?thesis using p dp_counts(1) [OF p(2)] dp_map_size [OF p(2)] by simp
qed

theorem table_put_correct_witness:
  "\<exists>t f t' f'. table_alloc table_init 1024 blank_file = (XXFS_OK, t, f) \<and> table_put t 7 [1] [2, 3] 9 f = Some (Inserted, t', f') \<and>
    table_value t' (7, [1]) = Some (Some ([2, 3], 9)) \<and> table_value t' (7, [4]) = Some None"
proof -
  obtain t f where a: "table_alloc table_init 1024 blank_file = (XXFS_OK, t, f)" "dp_inv t" "dp_map t = Map.empty" "t_old_ctrl t = []"
    "unat (t_cap t) = 1024" "fault_free f"
    by (rule table_alloc_law [OF fault_free_blank, of 6]) simp_all
  show ?thesis using table_put_correct [of t f "[1]" 7 "[2, 3]" 9] a by auto
qed

text \<open>C30: \<^verbatim>\<open>table_del\<close> is the removal from a map: it returns \<^verbatim>\<open>XXFS_OK\<close> exactly when the key is there, keeps the invariant, and \<^verbatim>\<open>table_find\<close> then finds
  every key but this one as before, also behind the tombstone that is left in the probe sequences of others.\<close>

theorem table_del_correct:
  assumes "dp_inv t" and "t_old_ctrl t = []" and "length key < 2 ^ 32"
  shows "\<exists>t'. table_del t hash key = Some (if dp_map t (hash, key) = None then XXFS_ENOENT else XXFS_OK, t') \<and>
    dp_inv t' \<and> t_count t' = of_nat (card (dom (dp_map t'))) \<and>
    (\<forall>k. length (snd k) < 2 ^ 32 \<longrightarrow> table_value t' k = Some (if k = (hash, key) then None else dp_map t k))"
proof -
  obtain t' where p: "table_del t hash key = Some (if dp_map t (hash, key) = None then XXFS_ENOENT else XXFS_OK, t')" "dp_inv t'"
    by (rule table_del_law [OF assms(1,3)])
  have "table_value t' k = Some (if k = (hash, key) then None else dp_map t k)" if "length (snd k) < 2 ^ 32" for k
    using dp.get_after_del [of "(t, blank_file)" "(hash, key)" k "(t', blank_file)"] p(1) assms that
    by (simp add: dp_state_def blank_file_def fault_free_def)
  then show ?thesis using p dp_counts(1) [OF p(2)] dp_map_size [OF p(2)] by simp
qed

theorem table_del_correct_witness:
  "\<exists>t f t' f' t''. table_alloc table_init 1024 blank_file = (XXFS_OK, t, f) \<and> table_put t 7 [1] [2, 3] 9 f = Some (Inserted, t', f') \<and>
    table_del t' 7 [1] = Some (XXFS_OK, t'') \<and> table_value t'' (7, [1]) = Some None"
proof -
  obtain t f where a: "table_alloc table_init 1024 blank_file = (XXFS_OK, t, f)" "dp_inv t" "dp_map t = Map.empty" "t_old_ctrl t = []"
    "unat (t_cap t) = 1024" "fault_free f"
    by (rule table_alloc_law [OF fault_free_blank, of 6]) simp_all
  obtain t' f' where p: "table_put t 7 [1] [2, 3] 9 f = Some (Inserted, t', f')" "dp_inv t'" "dp_map t' = [(7, [1]) \<mapsto> ([2, 3], 9)]" "t_old_ctrl t' = []"
    by (rule table_put_law [OF a(2,4) _ a(6), of "[1]" 7 "[2, 3]" 9]) (use a in simp_all)
  show ?thesis using table_del_correct [of t' "[1]" 7] p a(1) by auto
qed

text \<open>C31: when there is no memory for a larger table, \<^verbatim>\<open>table_grow\<close> returns \<^verbatim>\<open>XXFS_ENOMEM\<close> and means to put the old arrays back, but \<^verbatim>\<open>table_alloc\<close> has
  released them: every entry is lost, and the next \<^verbatim>\<open>table_find\<close> of any key reads through a null pointer.\<close>

theorem table_grow_failure_loses_table:
  assumes inv: "dp_inv t" and old: "t_old_ctrl t = []" and no: "\<not> os_ok f (os_calls f)"
  shows "\<exists>t' f'. table_grow t f = Some (XXFS_ENOMEM, t', f') \<and> t_ctrl t' = [] \<and> t_slots t' = [] \<and> t_cap t' = t_cap t \<and> table_find t' hash key = None"
proof -
  have "0 < ngroups t" using dp_invD(1) [OF inv] by (auto simp: dp_shape_def)
  then obtain n where "unat (t_cap t div of_nat GROUP_SIZE) = Suc n" by (cases "ngroups t") (simp_all add: GROUP_SIZE_def unat_div ngroups_def)
  then show ?thesis using old no
    by (auto simp: table_grow_def grow_start_def table_alloc_def xxfs_os_alloc_def os_call_def table_destroy_def Let_def table_find_def group_ctrl_def GROUP_SIZE_def)
qed

theorem table_grow_failure_loses_table_witness:
  "\<exists>t f t' f'. table_alloc table_init 1024 (blank_file\<lparr>os_ok := (\<lambda>n. n < 2)\<rparr>) = (XXFS_OK, t, f) \<and>
    table_grow t f = Some (XXFS_ENOMEM, t', f') \<and> table_find t' 7 [1] = None"
proof -
  let ?f = "blank_file\<lparr>os_ok := (\<lambda>n. n < 2)\<rparr>"
  obtain t f where a: "table_alloc table_init 1024 blank_file = (XXFS_OK, t, f)" "dp_inv t" "t_old_ctrl t = []"
    by (rule table_alloc_law [OF fault_free_blank, of 6]) simp_all
  have "table_alloc table_init 1024 ?f = (XXFS_OK, t, ?f\<lparr>os_calls := 2\<rparr>)"
    using a(1) by (simp add: table_alloc_def xxfs_os_alloc_def os_call_def blank_file_def Let_def)
  then show ?thesis using table_grow_failure_loses_table [of t "?f\<lparr>os_calls := 2\<rparr>" 7 "[1]"] a(2,3) by auto
qed

end
