(* ===== verification/Xxfs_Layout.thy ===== *)
theory Xxfs_Layout
  imports Os_File
begin

text \<open>
  The structs of \<^verbatim>\<open>lib/xxfs.h\<close> and \<^verbatim>\<open>lib/xxfs.c\<close> that are stored in the image, each as a record with
  the members of the source, and their byte layout: \<^verbatim>\<open>struct xxfs_inode\<close> (560 bytes),
  \<^verbatim>\<open>struct xxfs_super\<close> (4096 bytes, packed), \<^verbatim>\<open>struct paged_slot\<close> (48 bytes), \<^verbatim>\<open>struct paged_page\<close>
  (4096 bytes) and \<^verbatim>\<open>struct xxfs_dir_child\<close> (272 bytes). Only the superblock is packed; the sizes of the other structs are those of the natural C
  layout on a 64-bit platform, where compiler padding is an explicit member. The source asserts none of them, and its constant
  \<^verbatim>\<open>XXFS_INODE_SIZE\<close> (256), which no function uses, is not the size of \<^verbatim>\<open>struct xxfs_inode\<close>.

  A struct that is copied byte by byte must survive the trip in both directions; the contract is
  the locale \<open>fixed_codec\<close>, interpreted for every struct.
\<close>

section \<open>Interface: fixed-size codecs\<close>

definition enc_array :: "('a \<Rightarrow> bytes) \<Rightarrow> 'a list \<Rightarrow> bytes" where
  "enc_array enc xs = concat (map enc xs)"

definition dec_array :: "nat \<Rightarrow> (bytes \<Rightarrow> 'a) \<Rightarrow> nat \<Rightarrow> bytes \<Rightarrow> 'a list" where
  "dec_array sz dec n bs = map (\<lambda>i. dec (fld (sz * i) sz bs)) [0..<n]"

lemma length_dec_array [simp]: "length (dec_array sz dec n bs) = n"
  by (simp add: dec_array_def)

locale fixed_codec =
  fixes enc :: "'a \<Rightarrow> bytes"
    and dec :: "bytes \<Rightarrow> 'a"
    and wf :: "'a \<Rightarrow> bool"
    and sz :: nat
  assumes enc_length: "wf x \<Longrightarrow> length (enc x) = sz"
    and dec_enc: "wf x \<Longrightarrow> dec (enc x) = x"
    and enc_dec: "length bs = sz \<Longrightarrow> enc (dec bs) = bs"
    and wf_dec: "length bs = sz \<Longrightarrow> wf (dec bs)"
begin

lemma enc_inject: "wf x \<Longrightarrow> wf y \<Longrightarrow> enc x = enc y \<longleftrightarrow> x = y"
  by (metis dec_enc)

lemma dec_inject: "length as = sz \<Longrightarrow> length bs = sz \<Longrightarrow> dec as = dec bs \<longleftrightarrow> as = bs"
  by (metis enc_dec)

lemma length_enc_array: "\<forall>x \<in> set xs. wf x \<Longrightarrow> length (enc_array enc xs) = sz * length xs"
  unfolding enc_array_def by (rule length_concat_map) (simp add: enc_length)

lemma array_dec_enc:
  assumes "\<forall>x \<in> set xs. wf x" and "n = length xs"
  shows "dec_array sz dec n (enc_array enc xs) = xs"
proof (rule nth_equalityI)
  fix i assume "i < length (dec_array sz dec n (enc_array enc xs))"
  then have i: "i < length xs" using assms(2) by simp
  then have "fld (sz * i) sz (concat (map enc xs)) = enc (xs ! i)"
    using assms(1) by (intro fld_concat_map) (simp_all add: enc_length)
  with i assms show "dec_array sz dec n (enc_array enc xs) ! i = xs ! i"
    by (simp add: dec_array_def enc_array_def dec_enc)
qed (use assms in simp)

lemma array_enc_dec:
  "length bs = sz * n \<Longrightarrow> enc_array enc (dec_array sz dec n bs) = bs"
proof (induction n arbitrary: bs)
  case 0
  then show ?case by (simp add: enc_array_def dec_array_def)
next
  case (Suc n)
  let ?a = "take (sz * n) bs" and ?b = "drop (sz * n) bs"
  have "fld (sz * i) sz bs = fld (sz * i) sz ?a" if "i < n" for i
  proof -
    have "sz * i + sz \<le> sz * n"
      using that mult_le_mono2 [of "Suc i" n sz] by simp
    then show ?thesis
      using fld_append1 [of "sz * i" sz ?a ?b] Suc.prems by simp
  qed
  then have "dec_array sz dec (Suc n) bs = dec_array sz dec n ?a @ [dec ?b]"
    using Suc.prems by (simp add: dec_array_def fld_def)
  with Suc show ?case
    by (simp add: enc_array_def enc_dec)
qed

lemma array_wf_dec: "length bs = sz * n \<Longrightarrow> x \<in> set (dec_array sz dec n bs) \<Longrightarrow> wf x"
proof -
  assume len: "length bs = sz * n" and "x \<in> set (dec_array sz dec n bs)"
  then obtain i where i: "i < n" "x = dec (fld (sz * i) sz bs)"
    by (auto simp: dec_array_def)
  then have "sz * i + sz \<le> length bs"
    using len mult_le_mono2 [of "Suc i" n sz] by simp
  with i show "wf x" by (simp add: wf_dec)
qed

end

text \<open>An array of \<^verbatim>\<open>u64\<close>, as the page directory is stored.\<close>

interpretation u64_codec: fixed_codec "enc_le 8 :: u64 \<Rightarrow> bytes" dec_le "\<lambda>_. True" 8
  by unfold_locales (simp_all add: codec)

interpretation u32_codec: fixed_codec "enc_le 4 :: u32 \<Rightarrow> bytes" dec_le "\<lambda>_. True" 4
  by unfold_locales (simp_all add: codec)

section \<open>Slots and pages of the disk-paged hash\<close>

record paged_slot =
  ps_hash :: u64
  ps_file_off :: u64
  ps_klen :: u32
  ps_vlen :: u32
  ps_key_prefix :: bytes
  ps_flags :: u8
  ps_pad :: bytes

definition enc_slot :: "paged_slot \<Rightarrow> bytes" where
  "enc_slot x =
     enc_le 8 (ps_hash x) @ enc_le 8 (ps_file_off x) @ enc_le 4 (ps_klen x) @
     enc_le 4 (ps_vlen x) @ ps_key_prefix x @ enc_u8 (ps_flags x) @
     ps_pad x"

definition dec_slot :: "bytes \<Rightarrow> paged_slot" where
  "dec_slot bs =
     \<lparr>ps_hash = dec_le (fld 0 8 bs), ps_file_off = dec_le (fld 8 8 bs),
      ps_klen = dec_le (fld 16 4 bs), ps_vlen = dec_le (fld 20 4 bs),
      ps_key_prefix = fld 24 16 bs, ps_flags = dec_u8 (fld 40 1 bs),
      ps_pad = fld 41 7 bs\<rparr>"

definition wf_slot :: "paged_slot \<Rightarrow> bool" where
  "wf_slot x \<longleftrightarrow>
     length (ps_key_prefix x) = 16 \<and> length (ps_pad x) = 7"

lemmas enc_slot_simps = enc_slot_def dec_slot_def wf_slot_def

interpretation slot_codec: fixed_codec enc_slot dec_slot wf_slot 48
  by unfold_locales (auto simp: enc_slot_simps codec fld_append2 fld_append1 fld_prefix fld_join)

text \<open>\<^verbatim>\<open>PAGED_SLOTS_PER_PAGE\<close>, \<^verbatim>\<open>PAGED_INLINE_SPACE\<close>, \<^verbatim>\<open>KEY_PREFIX_LEN\<close> and \<^verbatim>\<open>SLOT_F_INLINE\<close>.\<close>

definition PAGED_SLOTS_PER_PAGE :: nat where "PAGED_SLOTS_PER_PAGE = 56"
definition PAGED_INLINE_SPACE :: nat where "PAGED_INLINE_SPACE = 4096 - (16 + PAGED_SLOTS_PER_PAGE * 48)"
definition KEY_PREFIX_LEN :: nat where "KEY_PREFIX_LEN = 16"
definition SLOT_F_INLINE :: u8 where "SLOT_F_INLINE = 1"

lemmas page_consts =
  PAGED_SLOTS_PER_PAGE_def PAGED_INLINE_SPACE_def KEY_PREFIX_LEN_def SLOT_F_INLINE_def

record paged_page =
  pg_count :: u16
  pg_local_depth :: u16
  pg_inline_used :: u32
  pg_overflow_next :: u64
  pg_slots :: "paged_slot list"
  pg_inline_area :: bytes

definition enc_page :: "paged_page \<Rightarrow> bytes" where
  "enc_page p = enc_le 2 (pg_count p) @ enc_le 2 (pg_local_depth p) @ enc_le 4 (pg_inline_used p) @
     enc_le 8 (pg_overflow_next p) @ enc_array enc_slot (pg_slots p) @ pg_inline_area p"

definition dec_page :: "bytes \<Rightarrow> paged_page" where
  "dec_page bs =
     \<lparr>pg_count = dec_le (fld 0 2 bs), pg_local_depth = dec_le (fld 2 2 bs),
      pg_inline_used = dec_le (fld 4 4 bs), pg_overflow_next = dec_le (fld 8 8 bs),
      pg_slots = dec_array 48 dec_slot 56 (fld 16 2688 bs), pg_inline_area = fld 2704 1392 bs\<rparr>"

definition wf_page :: "paged_page \<Rightarrow> bool" where
  "wf_page p \<longleftrightarrow> length (pg_slots p) = 56 \<and> (\<forall>s \<in> set (pg_slots p). wf_slot s) \<and>
     length (pg_inline_area p) = 1392"

lemma wf_page_slots:
  "wf_page p \<Longrightarrow> length (enc_array enc_slot (pg_slots p)) = 2688"
  using slot_codec.length_enc_array [of "pg_slots p"] by (simp add: wf_page_def)

interpretation page_codec: fixed_codec enc_page dec_page wf_page 4096
proof
  fix x :: paged_page assume x: "wf_page x"
  note len = wf_page_slots [OF x]
  show "length (enc_page x) = 4096"
    using x len by (simp add: enc_page_def wf_page_def)
  have "dec_array 48 dec_slot 56 (enc_array enc_slot (pg_slots x)) = pg_slots x"
    using x by (intro slot_codec.array_dec_enc) (auto simp: wf_page_def)
  with x len show "dec_page (enc_page x) = x"
    by (simp add: dec_page_def enc_page_def codec fld_append2 fld_append1 fld_prefix wf_page_def)
next
  fix bs :: bytes assume bs: "length bs = 4096"
  then have "length (fld 16 2688 bs) = 48 * 56" by simp
  from slot_codec.array_enc_dec [OF this] slot_codec.array_wf_dec [OF this]
  show "enc_page (dec_page bs) = bs" "wf_page (dec_page bs)"
    using bs by (simp_all add: enc_page_def dec_page_def codec fld_join wf_page_def)
qed

text \<open>A page of zero bytes, as \<^verbatim>\<open>memset\<close> makes it.\<close>

definition empty_slot :: paged_slot where
  "empty_slot = \<lparr>ps_hash = 0, ps_file_off = 0, ps_klen = 0, ps_vlen = 0,
     ps_key_prefix = zeros 16, ps_flags = 0, ps_pad = zeros 7\<rparr>"

definition empty_page :: paged_page where
  "empty_page = \<lparr>pg_count = 0, pg_local_depth = 0, pg_inline_used = 0, pg_overflow_next = 0,
     pg_slots = replicate 56 empty_slot, pg_inline_area = zeros 1392\<rparr>"

lemma wf_empty [simp]: "wf_slot empty_slot" "wf_page empty_page"
  by (simp_all add: wf_slot_def empty_slot_def wf_page_def empty_page_def)

section \<open>Inodes\<close>

text \<open>The anonymous union of the source is its \<^verbatim>\<open>i_inline\<close> member; the extent members alias its first
  bytes.\<close>

record xxfs_inode =
  i_mode :: u16
  i_uid :: u16
  i_gid :: u16
  i_file_type :: u16
  i_nlinks :: u32
  i_pad0 :: bytes
  i_size :: u64
  i_blocks :: u64
  i_atime :: u64
  i_mtime :: u64
  i_ctime :: u64
  i_btime :: u64
  i_flags :: u64
  i_generation :: u64
  i_win_attrs :: u32
  i_uid_high :: u32
  i_gid_high :: u32
  i_reserved1 :: u32
  i_parent_ino :: u64
  i_name :: bytes
  i_inline :: bytes
  i_checksum :: u32
  i_ecc :: bytes
  i_pad1 :: bytes

definition enc_inode :: "xxfs_inode \<Rightarrow> bytes" where
  "enc_inode x =
     enc_le 2 (i_mode x) @ enc_le 2 (i_uid x) @ enc_le 2 (i_gid x) @
     enc_le 2 (i_file_type x) @ enc_le 4 (i_nlinks x) @ i_pad0 x @
     enc_le 8 (i_size x) @ enc_le 8 (i_blocks x) @ enc_le 8 (i_atime x) @
     enc_le 8 (i_mtime x) @ enc_le 8 (i_ctime x) @ enc_le 8 (i_btime x) @
     enc_le 8 (i_flags x) @ enc_le 8 (i_generation x) @ enc_le 4 (i_win_attrs x) @
     enc_le 4 (i_uid_high x) @ enc_le 4 (i_gid_high x) @ enc_le 4 (i_reserved1 x) @
     enc_le 8 (i_parent_ino x) @ i_name x @ i_inline x @
     enc_le 4 (i_checksum x) @ i_ecc x @ i_pad1 x"

definition dec_inode :: "bytes \<Rightarrow> xxfs_inode" where
  "dec_inode bs =
     \<lparr>i_mode = dec_le (fld 0 2 bs), i_uid = dec_le (fld 2 2 bs),
      i_gid = dec_le (fld 4 2 bs), i_file_type = dec_le (fld 6 2 bs),
      i_nlinks = dec_le (fld 8 4 bs), i_pad0 = fld 12 4 bs,
      i_size = dec_le (fld 16 8 bs), i_blocks = dec_le (fld 24 8 bs),
      i_atime = dec_le (fld 32 8 bs), i_mtime = dec_le (fld 40 8 bs),
      i_ctime = dec_le (fld 48 8 bs), i_btime = dec_le (fld 56 8 bs),
      i_flags = dec_le (fld 64 8 bs), i_generation = dec_le (fld 72 8 bs),
      i_win_attrs = dec_le (fld 80 4 bs), i_uid_high = dec_le (fld 84 4 bs),
      i_gid_high = dec_le (fld 88 4 bs), i_reserved1 = dec_le (fld 92 4 bs),
      i_parent_ino = dec_le (fld 96 8 bs), i_name = fld 104 256 bs,
      i_inline = fld 360 128 bs, i_checksum = dec_le (fld 488 4 bs),
      i_ecc = fld 492 62 bs, i_pad1 = fld 554 6 bs\<rparr>"

definition wf_inode :: "xxfs_inode \<Rightarrow> bool" where
  "wf_inode x \<longleftrightarrow>
     length (i_pad0 x) = 4 \<and> length (i_name x) = 256 \<and> length (i_inline x) = 128 \<and>
     length (i_ecc x) = 62 \<and> length (i_pad1 x) = 6"

definition i_extent_off :: "xxfs_inode \<Rightarrow> u64" where
  "i_extent_off x = dec_le (fld 0 8 (i_inline x))"

definition i_extent_len :: "xxfs_inode \<Rightarrow> u32" where
  "i_extent_len x = dec_le (fld 8 4 (i_inline x))"

definition set_extent_off :: "u64 \<Rightarrow> xxfs_inode \<Rightarrow> xxfs_inode" where
  "set_extent_off v x = x\<lparr>i_inline := buf_put 0 (enc_le 8 v) (i_inline x)\<rparr>"

definition set_extent_len :: "u32 \<Rightarrow> xxfs_inode \<Rightarrow> xxfs_inode" where
  "set_extent_len v x = x\<lparr>i_inline := buf_put 8 (enc_le 4 v) (i_inline x)\<rparr>"

interpretation inode_codec: fixed_codec enc_inode dec_inode wf_inode 560
  by unfold_locales (auto simp: enc_inode_def dec_inode_def wf_inode_def codec fld_append2 fld_append1
      fld_prefix fld_join)

text \<open>\<^verbatim>\<open>sizeof(struct xxfs_inode)\<close> and the \<^verbatim>\<open>INO_*\<close> macros.\<close>

definition INODE_SIZE :: nat where "INODE_SIZE = 560"
definition INO_CRC_OFF :: nat where "INO_CRC_OFF = 488"
definition INO_ECC_OFF :: nat where "INO_ECC_OFF = 492"

definition zero_inode :: xxfs_inode where
  "zero_inode = dec_inode (zeros INODE_SIZE)"

lemma wf_zero_inode [simp]: "wf_inode zero_inode"
  by (simp add: zero_inode_def INODE_SIZE_def inode_codec.wf_dec)

section \<open>Directory children\<close>

record xxfs_dir_child =
  dc_hash :: u64
  dc_name :: bytes
  dc_type :: u8
  dc_pad :: bytes

definition enc_dirent :: "xxfs_dir_child \<Rightarrow> bytes" where
  "enc_dirent x =
     enc_le 8 (dc_hash x) @ dc_name x @ enc_u8 (dc_type x) @
     dc_pad x"

definition dec_dirent :: "bytes \<Rightarrow> xxfs_dir_child" where
  "dec_dirent bs =
     \<lparr>dc_hash = dec_le (fld 0 8 bs), dc_name = fld 8 256 bs,
      dc_type = dec_u8 (fld 264 1 bs), dc_pad = fld 265 7 bs\<rparr>"

definition wf_dirent :: "xxfs_dir_child \<Rightarrow> bool" where
  "wf_dirent x \<longleftrightarrow>
     length (dc_name x) = 256 \<and> length (dc_pad x) = 7"

definition DIRENT_SIZE :: nat where "DIRENT_SIZE = 272"

interpretation dirent_codec: fixed_codec enc_dirent dec_dirent wf_dirent 272
  by unfold_locales (auto simp: enc_dirent_def dec_dirent_def wf_dirent_def codec fld_append2 fld_append1
      fld_prefix fld_join)

section \<open>The superblock\<close>

record xxfs_super =
  s_magic :: u32
  s_version :: u32
  s_block_size :: u32
  s_block_size_bits :: u32
  s_block_count :: u64
  s_free_blocks :: u64
  s_inodes_count :: u64
  s_free_inodes :: u64
  s_root_ino :: u64
  s_cow_generation :: u64
  s_main_idx_root :: u64
  s_wal_off :: u64
  s_wal_blocks :: u32
  s_wal_seq :: u64
  s_wal_commit_seq :: u64
  s_pp_ping_off :: u64
  s_pp_pong_off :: u64
  s_pp_blocks :: u32
  s_pp_active :: u32
  s_pp_ping_seq :: u64
  s_pp_pong_seq :: u64
  s_lrc_table_off :: u64
  s_lrc_groups :: u32
  s_bg_count :: u32
  s_bg_blocks :: u32
  s_bg_desc_off :: u64
  s_data_off :: u64
  s_mtime :: u64
  s_wtime :: u64
  s_state :: u32
  s_feature_compat :: u32
  s_feature_ro_compat :: u32
  s_feature_incompat :: u32
  s_checksum :: u32
  s_pdir_off :: u64
  s_pdir_size :: u32
  s_pdir_depth :: u8
  s_pad :: bytes
  s_ecc :: bytes
  s_reserved :: bytes

definition enc_super :: "xxfs_super \<Rightarrow> bytes" where
  "enc_super x =
     enc_le 4 (s_magic x) @ enc_le 4 (s_version x) @ enc_le 4 (s_block_size x) @
     enc_le 4 (s_block_size_bits x) @ enc_le 8 (s_block_count x) @ enc_le 8 (s_free_blocks x) @
     enc_le 8 (s_inodes_count x) @ enc_le 8 (s_free_inodes x) @ enc_le 8 (s_root_ino x) @
     enc_le 8 (s_cow_generation x) @ enc_le 8 (s_main_idx_root x) @ enc_le 8 (s_wal_off x) @
     enc_le 4 (s_wal_blocks x) @ enc_le 8 (s_wal_seq x) @ enc_le 8 (s_wal_commit_seq x) @
     enc_le 8 (s_pp_ping_off x) @ enc_le 8 (s_pp_pong_off x) @ enc_le 4 (s_pp_blocks x) @
     enc_le 4 (s_pp_active x) @ enc_le 8 (s_pp_ping_seq x) @ enc_le 8 (s_pp_pong_seq x) @
     enc_le 8 (s_lrc_table_off x) @ enc_le 4 (s_lrc_groups x) @ enc_le 4 (s_bg_count x) @
     enc_le 4 (s_bg_blocks x) @ enc_le 8 (s_bg_desc_off x) @ enc_le 8 (s_data_off x) @
     enc_le 8 (s_mtime x) @ enc_le 8 (s_wtime x) @ enc_le 4 (s_state x) @
     enc_le 4 (s_feature_compat x) @ enc_le 4 (s_feature_ro_compat x) @ enc_le 4 (s_feature_incompat x) @
     enc_le 4 (s_checksum x) @ enc_le 8 (s_pdir_off x) @ enc_le 4 (s_pdir_size x) @
     enc_u8 (s_pdir_depth x) @ s_pad x @ s_ecc x @
     s_reserved x"

definition dec_super :: "bytes \<Rightarrow> xxfs_super" where
  "dec_super bs =
     \<lparr>s_magic = dec_le (fld 0 4 bs), s_version = dec_le (fld 4 4 bs),
      s_block_size = dec_le (fld 8 4 bs), s_block_size_bits = dec_le (fld 12 4 bs),
      s_block_count = dec_le (fld 16 8 bs), s_free_blocks = dec_le (fld 24 8 bs),
      s_inodes_count = dec_le (fld 32 8 bs), s_free_inodes = dec_le (fld 40 8 bs),
      s_root_ino = dec_le (fld 48 8 bs), s_cow_generation = dec_le (fld 56 8 bs),
      s_main_idx_root = dec_le (fld 64 8 bs), s_wal_off = dec_le (fld 72 8 bs),
      s_wal_blocks = dec_le (fld 80 4 bs), s_wal_seq = dec_le (fld 84 8 bs),
      s_wal_commit_seq = dec_le (fld 92 8 bs), s_pp_ping_off = dec_le (fld 100 8 bs),
      s_pp_pong_off = dec_le (fld 108 8 bs), s_pp_blocks = dec_le (fld 116 4 bs),
      s_pp_active = dec_le (fld 120 4 bs), s_pp_ping_seq = dec_le (fld 124 8 bs),
      s_pp_pong_seq = dec_le (fld 132 8 bs), s_lrc_table_off = dec_le (fld 140 8 bs),
      s_lrc_groups = dec_le (fld 148 4 bs), s_bg_count = dec_le (fld 152 4 bs),
      s_bg_blocks = dec_le (fld 156 4 bs), s_bg_desc_off = dec_le (fld 160 8 bs),
      s_data_off = dec_le (fld 168 8 bs), s_mtime = dec_le (fld 176 8 bs),
      s_wtime = dec_le (fld 184 8 bs), s_state = dec_le (fld 192 4 bs),
      s_feature_compat = dec_le (fld 196 4 bs), s_feature_ro_compat = dec_le (fld 200 4 bs),
      s_feature_incompat = dec_le (fld 204 4 bs), s_checksum = dec_le (fld 208 4 bs),
      s_pdir_off = dec_le (fld 212 8 bs), s_pdir_size = dec_le (fld 220 4 bs),
      s_pdir_depth = dec_u8 (fld 224 1 bs), s_pad = fld 225 3 bs,
      s_ecc = fld 228 64 bs, s_reserved = fld 292 3804 bs\<rparr>"

definition wf_super :: "xxfs_super \<Rightarrow> bool" where
  "wf_super x \<longleftrightarrow>
     length (s_pad x) = 3 \<and> length (s_ecc x) = 64 \<and> length (s_reserved x) = 3804"

interpretation super_codec: fixed_codec enc_super dec_super wf_super 4096
  by unfold_locales (auto simp: enc_super_def dec_super_def wf_super_def codec fld_append2 fld_append1
      fld_prefix fld_join)

end
