(* ===== verification/Os_Checksum.thy ===== *)
theory Os_Checksum
  imports Xxfs_Prelude
begin

text \<open>
  The checksums of \<^verbatim>\<open>lib/xxfs_os.c\<close>: CRC-32C in its two compiled variants (the table-driven
  loop and the SSE4.2 loop over the \<^verbatim>\<open>crc32\<close> instruction) and the per-word ECC byte with its
  correction routine. Shown here: the two CRC variants agree on every input, a CRC detects every
  change confined to one byte, the ECC written next to the data it protects is the one a later
  check recomputes, and what the correction routine really does on a single flipped bit.
\<close>

section \<open>CRC-32C\<close>

text \<open>One step of the reflected polynomial division: the inner loop body of
  \<^verbatim>\<open>crc32c_init\<close>. It is generic in the width because the 64-bit \<^verbatim>\<open>crc32\<close> instruction runs the
  same step on a 64-bit register.\<close>

definition crc_bit :: "'a::len word \<Rightarrow> 'a word" where
  "crc_bit c = (if bit c 0 then 0x82F63B78 XOR drop_bit 1 c else drop_bit 1 c)"

definition crc32c_table :: "u32 list" where
  "crc32c_table = map (\<lambda>i. (crc_bit ^^ 8) (of_nat i)) [0..<256]"

definition crc32c_step :: "u32 \<Rightarrow> u8 \<Rightarrow> u32" where
  "crc32c_step crc b = crc32c_table ! unat ((crc XOR ucast b) AND 0xFF) XOR drop_bit 8 crc"

text \<open>\<^verbatim>\<open>xxfs_os_crc32c\<close>, compiled without SSE4.2.\<close>

definition xxfs_os_crc32c :: "bytes \<Rightarrow> u32" where
  "xxfs_os_crc32c data = foldl crc32c_step 0xFFFFFFFF data XOR 0xFFFFFFFF"

text \<open>The \<^verbatim>\<open>crc32\<close> instruction on a 64-bit, 32-bit and 8-bit operand.\<close>

definition ia32_crc32di :: "u32 \<Rightarrow> u64 \<Rightarrow> u64" where
  "ia32_crc32di crc w = (crc_bit ^^ 64) (ucast crc XOR w)"

definition ia32_crc32si :: "u32 \<Rightarrow> u32 \<Rightarrow> u32" where
  "ia32_crc32si crc w = (crc_bit ^^ 32) (crc XOR w)"

definition ia32_crc32qi :: "u32 \<Rightarrow> u8 \<Rightarrow> u32" where
  "ia32_crc32qi crc b = (crc_bit ^^ 8) (crc XOR ucast b)"

function crc_di_loop :: "u64 \<Rightarrow> bytes \<Rightarrow> u64 \<times> bytes" where
  "crc_di_loop crc p =
     (if 8 \<le> length p
      then crc_di_loop (ia32_crc32di (ucast crc) (dec_le (take 8 p))) (drop 8 p)
      else (crc, p))"
  by pat_completeness auto
termination by (relation "measure (\<lambda>(crc, p). length p)") auto

function crc_si_loop :: "u64 \<Rightarrow> bytes \<Rightarrow> u64 \<times> bytes" where
  "crc_si_loop crc p =
     (if 4 \<le> length p
      then crc_si_loop (ucast (ia32_crc32si (ucast crc) (dec_le (take 4 p)))) (drop 4 p)
      else (crc, p))"
  by pat_completeness auto
termination by (relation "measure (\<lambda>(crc, p). length p)") auto

fun crc_qi_loop :: "u64 \<Rightarrow> bytes \<Rightarrow> u64" where
  "crc_qi_loop crc [] = crc"
| "crc_qi_loop crc (b # p) = crc_qi_loop (ucast (ia32_crc32qi (ucast crc) b)) p"

text \<open>\<^verbatim>\<open>xxfs_os_crc32c\<close>, compiled with SSE4.2.\<close>

definition xxfs_os_crc32c_sse :: "bytes \<Rightarrow> u32" where
  "xxfs_os_crc32c_sse data =
     (let (crc, p) = crc_di_loop 0xFFFFFFFF data;
          (crc, p) = crc_si_loop crc p
      in ucast (crc_qi_loop crc p XOR 0xFFFFFFFF))"

declare crc_di_loop.simps [simp del] crc_si_loop.simps [simp del]

section \<open>The ECC byte of a 64-bit word\<close>

text \<open>The table as the source initialises it: 248 values are listed, the last eight elements of
  the 256-element array are implicitly zero.\<close>

definition hamming_parity :: "u8 list" where
  "hamming_parity =
    [0x00, 0x69, 0x6a, 0x03, 0x6c, 0x05, 0x06, 0x6f,
     0x70, 0x19, 0x1a, 0x73, 0x1c, 0x75, 0x76, 0x1f,
     0x78, 0x11, 0x12, 0x7b, 0x14, 0x7d, 0x7e, 0x17,
     0x08, 0x61, 0x62, 0x0b, 0x64, 0x0d, 0x0e, 0x67,
     0x60, 0x09, 0x0a, 0x63, 0x0c, 0x65, 0x66, 0x0f,
     0x10, 0x79, 0x7a, 0x13, 0x7c, 0x15, 0x16, 0x7f,
     0x18, 0x71, 0x72, 0x1b, 0x74, 0x1d, 0x1e, 0x77,
     0x68, 0x01, 0x02, 0x6b, 0x04, 0x6d, 0x6e, 0x07,
     0x48, 0x21, 0x22, 0x4b, 0x24, 0x4d, 0x4e, 0x27,
     0x38, 0x51, 0x52, 0x3b, 0x54, 0x3d, 0x3e, 0x57,
     0x30, 0x59, 0x5a, 0x33, 0x5c, 0x35, 0x36, 0x5f,
     0x40, 0x29, 0x2a, 0x43, 0x2c, 0x45, 0x46, 0x2f,
     0x28, 0x41, 0x42, 0x2b, 0x44, 0x2d, 0x2e, 0x47,
     0x58, 0x31, 0x32, 0x5b, 0x34, 0x5d, 0x5e, 0x37,
     0x50, 0x39, 0x3a, 0x53, 0x3c, 0x55, 0x56, 0x3f,
     0x20, 0x49, 0x4a, 0x23, 0x4c, 0x25, 0x26, 0x4f,
     0x90, 0xf9, 0xfa, 0x93, 0xfc, 0x95, 0x96, 0xff,
     0xe0, 0x89, 0x8a, 0xe3, 0x8c, 0xe5, 0xe6, 0x8f,
     0xe8, 0x81, 0x82, 0xeb, 0x84, 0xed, 0xee, 0x87,
     0x98, 0xf1, 0xf2, 0x9b, 0xf4, 0x9d, 0x9e, 0xf7,
     0xf0, 0x99, 0x9a, 0xf3, 0x9c, 0xf5, 0xf6, 0x9f,
     0x80, 0xe9, 0xea, 0x83, 0xec, 0x85, 0x86, 0xef,
     0x88, 0xe1, 0xe2, 0x8b, 0xe4, 0x8d, 0x8e, 0xe7,
     0xd8, 0xb1, 0xb2, 0xdb, 0xb4, 0xdd, 0xde, 0xb7,
     0xc8, 0xa1, 0xa2, 0xcb, 0xa4, 0xcd, 0xce, 0xa7,
     0xb0, 0xd9, 0xda, 0xb3, 0xdc, 0xb5, 0xb6, 0xdf,
     0xa0, 0xc9, 0xca, 0xa3, 0xcc, 0xa5, 0xa6, 0xcf,
     0xb8, 0xd1, 0xd2, 0xbb, 0xd4, 0xbd, 0xbe, 0xd7,
     0xc0, 0xa9, 0xaa, 0xc3, 0xac, 0xc5, 0xc6, 0xaf,
     0xd0, 0xb9, 0xba, 0xd3, 0xbc, 0xc5, 0xc6, 0xaf,
     0xa8, 0xc1, 0xc2, 0xab, 0xc4, 0xad, 0xae, 0xc7] @ replicate 8 0"

definition parityll :: "u64 \<Rightarrow> u8" where
  "parityll w = of_bool (odd (length (filter (bit w) [0..<64])))"

definition ecc_word :: "u64 \<Rightarrow> u8" where
  "ecc_word w =
     (let b = (\<lambda>k. hamming_parity ! unat (ucast (drop_bit (8 * k) w) :: u8))
      in (b 0 XOR b 1 XOR b 2 XOR b 3 XOR b 4 XOR b 5 XOR b 6 XOR b 7)
         OR push_bit 7 (parityll w))"

text \<open>\<^verbatim>\<open>p[i]\<close> with \<^verbatim>\<open>const u64 *p = data\<close>.\<close>

definition word_at :: "bytes \<Rightarrow> nat \<Rightarrow> u64" where
  "word_at m i = dec_le (fld (8 * i) 8 m)"

definition ecc_nwords :: "nat \<Rightarrow> nat" where
  "ecc_nwords len = (len + 7) div 8"

text \<open>\<^verbatim>\<open>xxfs_os_ecc_compute\<close> is called in two ways. In \<^verbatim>\<open>xxfs_os_ecc_correct\<close> the output is a
  separate array; where an inode or the superblock is sealed, the output array lies in the same
  struct, so that later iterations read bytes that earlier ones have written.\<close>

definition xxfs_os_ecc_compute :: "bytes \<Rightarrow> nat \<Rightarrow> u8 list" where
  "xxfs_os_ecc_compute m len = map (\<lambda>i. ecc_word (word_at m i)) [0..<ecc_nwords len]"

definition xxfs_os_ecc_compute_into :: "bytes \<Rightarrow> nat \<Rightarrow> nat \<Rightarrow> bytes" where
  "xxfs_os_ecc_compute_into m len out =
     foldl (\<lambda>m i. m[out + i := ecc_word (word_at m i)]) m [0..<ecc_nwords len]"

datatype ecc_status = XXFS_ECC_OK | XXFS_ECC_CORRECTED | XXFS_ECC_UNCORRECTABLE

text \<open>The loop of \<^verbatim>\<open>xxfs_os_ecc_correct\<close>: \<open>stored\<close> is a pointer into the struct itself in both
  callers, so the flip of a bit may also change the stored bytes that later iterations read.\<close>

fun ecc_correct_loop :: "nat list \<Rightarrow> nat \<Rightarrow> u8 list \<Rightarrow> nat \<Rightarrow> bytes \<Rightarrow> ecc_status \<times> bytes" where
  "ecc_correct_loop [] stored computed corrected m =
     (if corrected \<noteq> 0 then XXFS_ECC_CORRECTED else XXFS_ECC_OK, m)"
| "ecc_correct_loop (i # is) stored computed corrected m =
     (let syndrome = m ! (stored + i) XOR computed ! i
      in if syndrome = 0 then ecc_correct_loop is stored computed corrected m
         else if syndrome AND 0x80 \<noteq> 0 then
           (let bit_pos = unat (syndrome AND 0x7F)
            in if bit_pos = 0 \<or> 64 < bit_pos then (XXFS_ECC_UNCORRECTABLE, m)
               else ecc_correct_loop is stored computed (Suc corrected)
                      (buf_put (8 * i) (enc_le 8 (word_at m i XOR push_bit (bit_pos - 1) 1)) m))
         else (XXFS_ECC_UNCORRECTABLE, m))"

definition xxfs_os_ecc_correct :: "bytes \<Rightarrow> nat \<Rightarrow> nat \<Rightarrow> ecc_status \<times> bytes" where
  "xxfs_os_ecc_correct m len stored =
     ecc_correct_loop [0..<ecc_nwords len] stored (xxfs_os_ecc_compute m len) 0 m"

section \<open>Properties of the CRC\<close>

lemma crc_bit_xor: "crc_bit (a XOR b) = crc_bit a XOR crc_bit b"
  by (rule bit_word_eqI) (auto simp: crc_bit_def bit_simps)

lemma crc_bits_xor: "(crc_bit ^^ n) (a XOR b) = (crc_bit ^^ n) a XOR (crc_bit ^^ n) b"
  by (induction n) (simp_all add: crc_bit_xor)

text \<open>The polynomial has its top bit set, so the top bit of a step's result tells which branch
  the step took and the step is injective.\<close>

lemma crc_bit_top: "bit (crc_bit (c :: u32)) 31 \<longleftrightarrow> bit c 0"
  using bit_imp_le_length [of c 32]
  by (auto simp: crc_bit_def bit_simps)

lemma crc_bit_zero: "crc_bit (c :: u32) = 0 \<Longrightarrow> c = 0"
proof -
  assume z: "crc_bit c = 0"
  then have b0: "\<not> bit c 0" using crc_bit_top [of c] by simp
  with z have d: "drop_bit 1 c = 0" by (simp add: crc_bit_def)
  have "\<not> bit c n" for n
  proof (cases n)
    case 0
    with b0 show ?thesis by simp
  next
    case (Suc k)
    have "\<not> bit (drop_bit 1 c) k" using d by simp
    with Suc show ?thesis by (simp add: bit_simps)
  qed
  then show "c = 0" by (simp add: bit_eq_iff)
qed

lemma crc_bits_zero: "(crc_bit ^^ n) (c :: u32) = 0 \<Longrightarrow> c = 0"
  by (induction n arbitrary: c) (auto simp del: funpow.simps simp: funpow_Suc_right dest: crc_bit_zero)

lemma crc_bits_inject: "(crc_bit ^^ n) (a :: u32) = (crc_bit ^^ n) b \<longleftrightarrow> a = b"
  using crc_bits_zero [of n "a XOR b"] by (auto simp: crc_bits_xor xor_zero_eq)

lemma crc_bits_low_zero:
  "(\<And>i. i < n \<Longrightarrow> \<not> bit x i) \<Longrightarrow> (crc_bit ^^ n) x = drop_bit n x"
proof (induction n arbitrary: x)
  case 0
  then show ?case by simp
next
  case (Suc n)
  have "crc_bit x = drop_bit 1 x"
    using Suc.prems [of 0] by (simp add: crc_bit_def)
  moreover have "(crc_bit ^^ n) (drop_bit 1 x) = drop_bit n (drop_bit 1 x)"
    using Suc.prems by (intro Suc.IH) (simp add: bit_simps)
  ultimately show ?case
    by (simp del: funpow.simps add: funpow_Suc_right)
qed

text \<open>The table-driven step is eight steps of the division: the low byte selects the table entry,
  the remaining bits are only shifted.\<close>

lemma crc32c_step_eq: "crc32c_step crc b = (crc_bit ^^ 8) (crc XOR ucast b)"
proof -
  let ?x = "crc XOR ucast b"
  let ?lo = "?x AND mask 8" and ?hi = "?x AND NOT (mask 8)"
  have ff: "(0xFF :: u32) = mask 8" by (simp add: mask_eq_exp_minus_1)
  have lo: "unat ?lo < 256"
    using word_and_le1 [of ?x 255] by (simp add: word_le_nat_alt flip: ff)
  have "?x = ?lo XOR ?hi"
    by (rule bit_word_eqI) (auto simp: bit_simps)
  then have "(crc_bit ^^ 8) ?x = (crc_bit ^^ 8) ?lo XOR (crc_bit ^^ 8) ?hi"
    using crc_bits_xor [of 8 ?lo ?hi] by simp
  also have "(crc_bit ^^ 8) ?hi = drop_bit 8 ?hi"
    by (rule crc_bits_low_zero) (simp add: bit_simps)
  also have "drop_bit 8 ?hi = drop_bit 8 crc"
    by (rule bit_word_eqI) (auto simp: bit_simps dest: bit_imp_le_length)
  also have "(crc_bit ^^ 8) ?lo = crc32c_table ! unat ?lo"
    using lo by (simp add: crc32c_table_def del: upt.simps)
  finally show ?thesis by (simp add: crc32c_step_def ff)
qed

lemma crc32c_step_inject: "crc32c_step c b = crc32c_step c' b \<longleftrightarrow> c = c'"
  by (simp add: crc32c_step_eq crc_bits_inject)

lemma crc32c_step_byte: "crc32c_step c b = crc32c_step c b' \<longleftrightarrow> b = b'"
proof -
  have "(ucast (ucast b :: u32) :: u8) = b" for b :: u8
    by (rule bit_word_eqI) (simp add: bit_simps)
  then have "(ucast b :: u32) = ucast b' \<longleftrightarrow> b = b'"
    by metis
  then show ?thesis
    by (simp add: crc32c_step_eq crc_bits_inject)
qed

lemma foldl_crc_inject: "foldl crc32c_step c bs = foldl crc32c_step c' bs \<longleftrightarrow> c = c'"
  by (induction bs arbitrary: c c') (simp_all add: crc32c_step_inject)

lemma crc32c_byte_change:
  "xxfs_os_crc32c (xs @ b # ys) = xxfs_os_crc32c (xs @ b' # ys) \<longleftrightarrow> b = b'"
  by (simp add: xxfs_os_crc32c_def foldl_crc_inject crc32c_step_byte)

subsection \<open>The two compiled variants agree\<close>

lemma dec_le_Cons_xor: "(dec_le (b # bs) :: 'a::len word) = ucast b XOR push_bit 8 (dec_le bs)"
  by (rule bit_word_eqI) (auto simp: bit_simps dest: bit_imp_le_length)

lemma crc_bits_bytes:
  "8 * length bs \<le> LENGTH('a) \<Longrightarrow>
    (crc_bit ^^ (8 * length bs)) (c XOR dec_le bs :: 'a::len word) =
      foldl (\<lambda>c b. (crc_bit ^^ 8) (c XOR ucast b)) c bs"
proof (induction bs arbitrary: c)
  case Nil
  then show ?case by simp
next
  case (Cons b bs)
  let ?d = "dec_le bs :: 'a word"
  have shift: "drop_bit 8 (push_bit 8 ?d) = ?d"
    by (rule bit_word_eqI) (use Cons.prems in \<open>auto simp: bit_simps dest: dec_le_bit\<close>)
  have "(crc_bit ^^ (8 * length (b # bs))) (c XOR dec_le (b # bs)) =
      (crc_bit ^^ (8 * length bs)) ((crc_bit ^^ 8) ((c XOR ucast b) XOR push_bit 8 ?d))"
    by (simp only: length_Cons mult_Suc_right add.commute [of 8] funpow_add o_apply
        dec_le_Cons_xor xor.assoc)
  also have "(crc_bit ^^ 8) ((c XOR ucast b) XOR push_bit 8 ?d) =
      (crc_bit ^^ 8) (c XOR ucast b) XOR (crc_bit ^^ 8) (push_bit 8 ?d)"
    by (rule crc_bits_xor)
  also have "(crc_bit ^^ 8) (push_bit 8 ?d) = ?d"
    by (subst crc_bits_low_zero) (simp_all add: bit_simps shift)
  also have "(crc_bit ^^ (8 * length bs)) ((crc_bit ^^ 8) (c XOR ucast b) XOR ?d) =
      foldl (\<lambda>c b. (crc_bit ^^ 8) (c XOR ucast b)) ((crc_bit ^^ 8) (c XOR ucast b)) bs"
    using Cons.prems by (intro Cons.IH) simp
  finally show ?case by simp
qed

lemma ucast_drop_bit_wide: "(ucast (drop_bit n (c :: u32)) :: u64) = drop_bit n (ucast c)"
  by (rule bit_word_eqI) (auto simp: bit_simps dest: bit_imp_le_length)

lemma ucast_wide_id [simp]: "(ucast (ucast (c :: u32) :: u64) :: u32) = c"
  by (rule bit_word_eqI) (simp add: bit_simps)

lemma crc_bit_ucast: "crc_bit (ucast (c :: u32) :: u64) = ucast (crc_bit c)"
  by (simp add: crc_bit_def bit_simps unsigned_xor_eq ucast_drop_bit_wide)

lemma crc_bits_ucast: "(crc_bit ^^ n) (ucast (c :: u32) :: u64) = ucast ((crc_bit ^^ n) c)"
  by (induction n) (simp_all add: crc_bit_ucast)

lemma ucast_xor_byte: "(ucast (c :: u32) :: u64) XOR ucast (b :: u8) = ucast (c XOR ucast b)"
  by (rule bit_word_eqI) (auto simp: bit_simps dest: bit_imp_le_length)

lemma foldl_crc_wide:
  "foldl (\<lambda>c b. (crc_bit ^^ 8) (c XOR ucast b)) (ucast c :: u64) bs =
    ucast (foldl crc32c_step c bs)"
  by (induction bs arbitrary: c) (simp_all add: ucast_xor_byte crc_bits_ucast crc32c_step_eq)

lemma ia32_crc32di_bytes:
  "length bs = 8 \<Longrightarrow> ia32_crc32di c (dec_le bs) = ucast (foldl crc32c_step c bs)"
  using crc_bits_bytes [of bs "ucast c :: u64"] by (simp add: ia32_crc32di_def foldl_crc_wide)

lemma ia32_crc32si_bytes:
  "length bs = 4 \<Longrightarrow> ia32_crc32si c (dec_le bs) = foldl crc32c_step c bs"
  using crc_bits_bytes [of bs c] by (simp add: ia32_crc32si_def crc32c_step_eq [abs_def])

lemma crc_di_loop_foldl:
  "crc_di_loop (ucast c) p = (crc, q) \<Longrightarrow>
    \<exists>c'. crc = ucast c' \<and> foldl crc32c_step c' q = foldl crc32c_step c p"
proof (induction "ucast c :: u64" p arbitrary: c crc q rule: crc_di_loop.induct)
  case (1 p)
  show ?case
  proof (cases "8 \<le> length p")
    case True
    let ?c' = "foldl crc32c_step c (take 8 p)"
    from True have step: "ia32_crc32di c (dec_le (take 8 p)) = ucast ?c'"
      by (simp add: ia32_crc32di_bytes)
    with True "1.prems" have "crc_di_loop (ucast ?c') (drop 8 p) = (crc, q)"
      by (simp add: crc_di_loop.simps [of "ucast c"])
    with "1.hyps" [OF True, of ?c'] step
    obtain c'' where "crc = ucast c''" "foldl crc32c_step c'' q = foldl crc32c_step ?c' (drop 8 p)"
      by auto
    then show ?thesis by (metis append_take_drop_id foldl_append)
  next
    case False
    with "1.prems" show ?thesis by (auto simp: crc_di_loop.simps [of "ucast c"])
  qed
qed

lemma crc_si_loop_foldl:
  "crc_si_loop (ucast c) p = (crc, q) \<Longrightarrow>
    \<exists>c'. crc = ucast c' \<and> foldl crc32c_step c' q = foldl crc32c_step c p"
proof (induction "ucast c :: u64" p arbitrary: c crc q rule: crc_si_loop.induct)
  case (1 p)
  show ?case
  proof (cases "4 \<le> length p")
    case True
    let ?c' = "foldl crc32c_step c (take 4 p)"
    from True have step: "ia32_crc32si c (dec_le (take 4 p)) = ?c'"
      by (simp add: ia32_crc32si_bytes)
    with True "1.prems" have "crc_si_loop (ucast ?c') (drop 4 p) = (crc, q)"
      by (simp add: crc_si_loop.simps [of "ucast c"])
    with "1.hyps" [OF True, of ?c'] step
    obtain c'' where "crc = ucast c''" "foldl crc32c_step c'' q = foldl crc32c_step ?c' (drop 4 p)"
      by auto
    then show ?thesis by (metis append_take_drop_id foldl_append)
  next
    case False
    with "1.prems" show ?thesis by (auto simp: crc_si_loop.simps [of "ucast c"])
  qed
qed

lemma crc_qi_loop_foldl: "crc_qi_loop (ucast c) p = ucast (foldl crc32c_step c p)"
  by (induction p arbitrary: c) (simp_all add: ia32_crc32qi_def crc32c_step_eq)

lemma crc32c_byte_change_at:
  assumes "i < length data" and "b \<noteq> data ! i"
  shows "xxfs_os_crc32c (data[i := b]) \<noteq> xxfs_os_crc32c data"
proof -
  have "data = take i data @ data ! i # drop (Suc i) data"
    using assms(1) by (rule id_take_nth_drop)
  moreover have "data[i := b] = take i data @ b # drop (Suc i) data"
    using assms(1) by (rule upd_conv_take_nth_drop)
  ultimately show ?thesis
    using assms(2) crc32c_byte_change by metis
qed

text \<open>C39: the CRC computed by the SSE4.2 build equals the CRC computed by the portable build, for
  every byte sequence. An image written by one build therefore verifies under the other.\<close>

theorem crc32c_variants_agree: "xxfs_os_crc32c_sse data = xxfs_os_crc32c data"
proof -
  obtain c1 p1 where d: "crc_di_loop 0xFFFFFFFF data = (c1, p1)" by fastforce
  with crc_di_loop_foldl [where c = "0xFFFFFFFF" and p = data] obtain c1' where
    c1: "c1 = ucast c1'" "foldl crc32c_step c1' p1 = foldl crc32c_step 0xFFFFFFFF data"
    by auto
  obtain c2 p2 where s: "crc_si_loop c1 p1 = (c2, p2)" by fastforce
  with crc_si_loop_foldl [where c = c1' and p = p1] c1 obtain c2' where
    c2: "c2 = ucast c2'" "foldl crc32c_step c2' p2 = foldl crc32c_step 0xFFFFFFFF data"
    by auto
  have "ucast ((ucast c :: u64) XOR 0xFFFFFFFF) = c XOR 0xFFFFFFFF" for c :: u32
    by (simp add: unsigned_xor_eq)
  then show ?thesis
    using d s c2 by (simp add: xxfs_os_crc32c_sse_def xxfs_os_crc32c_def crc_qi_loop_foldl)
qed

text \<open>Changing any one byte of the data, in any way, always changes the CRC.\<close>

theorem crc32c_detects_byte_change:
  assumes "i < length data" and "b \<noteq> data ! i"
  shows "xxfs_os_crc32c (data[i := b]) \<noteq> xxfs_os_crc32c data"
  using assms by (rule crc32c_byte_change_at)

theorem crc32c_detects_byte_change_witness:
  "xxfs_os_crc32c [0x31, 0x33, 0x33] \<noteq> xxfs_os_crc32c [0x31, 0x32, 0x33]"
  using crc32c_detects_byte_change [where i = 1 and data = "[0x31, 0x32, 0x33]" and b = "0x33"] by simp

section \<open>Properties of the ECC\<close>

lemma length_ecc_compute [simp]: "length (xxfs_os_ecc_compute m len) = ecc_nwords len"
  by (simp add: xxfs_os_ecc_compute_def)

lemma word_at_update: "8 * i + 8 \<le> j \<Longrightarrow> word_at (m[j := x]) i = word_at m i"
  by (simp add: word_at_def fld_def drop_update_swap)

lemma foldl_length_update:
  "length (foldl (\<lambda>m i. m[g i := f m i]) m is) = length m"
  by (induction "is" arbitrary: m) auto

lemma length_ecc_compute_into [simp]: "length (xxfs_os_ecc_compute_into m len out) = length m"
  by (simp add: xxfs_os_ecc_compute_into_def foldl_length_update)

text \<open>The bytes before the output array are not touched.\<close>

lemma foldl_update_below:
  "(\<And>i. i \<in> set is \<Longrightarrow> a + n \<le> g i) \<Longrightarrow>
    fld a n (foldl (\<lambda>m i. m[g i := f m i]) m is) = fld a n m"
proof (induction "is" arbitrary: m)
  case (Cons i "is")
  then have "a + n \<le> g i" by simp
  then have "fld a n (m[g i := f m i]) = fld a n m"
    by (simp add: fld_def drop_update_swap)
  with Cons show ?case by simp
qed simp

lemma ecc_compute_into_below:
  "a + n \<le> out \<Longrightarrow> fld a n (xxfs_os_ecc_compute_into m len out) = fld a n m"
  unfolding xxfs_os_ecc_compute_into_def by (rule foldl_update_below) auto

text \<open>When every word lies before the output byte computed from it, the in-place loop leaves
  behind exactly the ECC bytes that a later computation over the finished struct yields.\<close>

lemma ecc_into_prefix:
  assumes "\<And>i. i < k \<Longrightarrow> 8 * i + 8 \<le> out + i" and "out + k \<le> length m" and "j < k"
  shows "foldl (\<lambda>m i. m[out + i := ecc_word (word_at m i)]) m [0..<k] ! (out + j) =
    ecc_word (word_at (foldl (\<lambda>m i. m[out + i := ecc_word (word_at m i)]) m [0..<k]) j)"
  using assms
proof (induction k)
  case 0
  then show ?case by simp
next
  case (Suc k)
  let ?m = "foldl (\<lambda>m i. m[out + i := ecc_word (word_at m i)]) m [0..<k]"
  have len: "length ?m = length m" by (simp add: foldl_length_update)
  have "8 * j + 8 \<le> out + k"
    using Suc.prems(1) [of j] Suc.prems(3) by simp
  then have w: "word_at (?m[out + k := x]) j = word_at ?m j" for x
    by (rule word_at_update)
  show ?case
  proof (cases "j = k")
    case True
    with w Suc.prems len show ?thesis by simp
  next
    case False
    with Suc have "?m ! (out + j) = ecc_word (word_at ?m j)" by simp
    with w False show ?thesis by simp
  qed
qed

lemma ecc_into_consistent:
  assumes "\<And>i. i < ecc_nwords len \<Longrightarrow> 8 * i + 8 \<le> out + i"
    and "out + ecc_nwords len \<le> length m"
  shows "fld out (ecc_nwords len) (xxfs_os_ecc_compute_into m len out) =
    xxfs_os_ecc_compute (xxfs_os_ecc_compute_into m len out) len"
proof (rule nth_equalityI)
  show "length (fld out (ecc_nwords len) (xxfs_os_ecc_compute_into m len out)) =
      length (xxfs_os_ecc_compute (xxfs_os_ecc_compute_into m len out) len)"
    using assms(2) by simp
  fix j assume "j < length (fld out (ecc_nwords len) (xxfs_os_ecc_compute_into m len out))"
  then have j: "j < ecc_nwords len" using assms(2) by simp
  then show "fld out (ecc_nwords len) (xxfs_os_ecc_compute_into m len out) ! j =
      xxfs_os_ecc_compute (xxfs_os_ecc_compute_into m len out) len ! j"
    using assms ecc_into_prefix [of "ecc_nwords len" out m j]
    by (simp add: fld_nth xxfs_os_ecc_compute_def xxfs_os_ecc_compute_into_def foldl_length_update)
qed

lemma ecc_correct_loop_clean:
  "(\<And>i. i \<in> set is \<Longrightarrow> m ! (stored + i) = computed ! i) \<Longrightarrow>
    ecc_correct_loop is stored computed 0 m = (XXFS_ECC_OK, m)"
  by (induction "is") auto

lemma ecc_correct_clean:
  assumes "fld stored (ecc_nwords len) m = xxfs_os_ecc_compute m len"
    and "stored + ecc_nwords len \<le> length m"
  shows "xxfs_os_ecc_correct m len stored = (XXFS_ECC_OK, m)"
proof -
  have "m ! (stored + i) = xxfs_os_ecc_compute m len ! i" if "i < ecc_nwords len" for i
    using that assms by (metis fld_nth)
  then show ?thesis
    by (auto simp: xxfs_os_ecc_correct_def intro!: ecc_correct_loop_clean)
qed

text \<open>An ECC that was computed in place, into an array that follows the words it covers, is
  accepted by the correction routine: it reports no error and changes no byte. The layout
  condition holds for both structs that carry an ECC, although the last covered word of an inode
  overlaps the ECC array itself.\<close>

theorem ecc_seal_accepted:
  assumes "\<forall>i < ecc_nwords len. 8 * i + 8 \<le> out + i"
    and "out + ecc_nwords len \<le> length m"
  shows "xxfs_os_ecc_correct (xxfs_os_ecc_compute_into m len out) len out =
    (XXFS_ECC_OK, xxfs_os_ecc_compute_into m len out)"
  using assms by (intro ecc_correct_clean ecc_into_consistent) auto

theorem ecc_seal_accepted_witness:
  "xxfs_os_ecc_correct (xxfs_os_ecc_compute_into (replicate 560 7) 492 492) 492 492 =
    (XXFS_ECC_OK, xxfs_os_ecc_compute_into (replicate 560 7) 492 492)"
proof -
  have n: "ecc_nwords 492 = 62" by (simp add: ecc_nwords_def)
  show ?thesis
    by (rule ecc_seal_accepted) (simp_all add: n)
qed


text \<open>What the routine does on a single flipped bit. The ECC byte of a word with one bit set depends
  on the position of the bit inside its byte only, because the same table serves all eight bytes.\<close>

lemma byte_of_pow:
  assumes "k < 64" and "j < 8"
  shows "(ucast (drop_bit (8 * j) (2 ^ k :: u64)) :: u8) =
    (if k div 8 = j then 2 ^ (k mod 8) else 0)"
proof (rule bit_word_eqI)
  fix n assume "n < LENGTH(8)"
  then have "8 * j + n = k \<longleftrightarrow> k div 8 = j \<and> k mod 8 = n"
    by auto
  then show "bit (ucast (drop_bit (8 * j) (2 ^ k :: u64)) :: u8) n =
      bit (if k div 8 = j then 2 ^ (k mod 8) else 0 :: u8) n"
    using assms \<open>n < LENGTH(8)\<close> by (auto simp: bit_simps)
qed

lemma parityll_pow: "k < 64 \<Longrightarrow> parityll (2 ^ k) = 1"
proof -
  assume "k < 64"
  then have "{n. bit (2 ^ k :: u64) n} \<inter> set [0..<64] = {k}"
    by (auto simp: bit_simps)
  then show ?thesis
    by (simp add: parityll_def distinct_length_filter)
qed

lemma hamming_parity_vals:
  "hamming_parity ! 0 = 0" "hamming_parity ! Suc 0 = 0x69" "hamming_parity ! 2 = 0x6a"
  "hamming_parity ! 4 = 0x6c" "hamming_parity ! 8 = 0x70" "hamming_parity ! 16 = 0x78"
  "hamming_parity ! 32 = 0x60" "hamming_parity ! 64 = 0x48" "hamming_parity ! 128 = 0x90"
  by (simp_all add: hamming_parity_def)

lemma less_8_cases: "(r :: nat) < 8 \<Longrightarrow>
    r = 0 \<or> r = 1 \<or> r = 2 \<or> r = 3 \<or> r = 4 \<or> r = 5 \<or> r = 6 \<or> r = 7"
  by linarith

lemma ecc_word_pow:
  assumes "k < 64"
  shows "ecc_word (2 ^ k) = hamming_parity ! (2 ^ (k mod 8)) OR 0x80"
proof -
  have "unat (2 ^ (k mod 8) :: u8) = 2 ^ (k mod 8)"
    by (simp add: unat_pow2)
  moreover have "k div 8 < 8" using assms by simp
  note less_8_cases [OF this]
  ultimately show ?thesis
    using assms
    by (elim disjE) (simp_all add: ecc_word_def Let_def parityll_pow hamming_parity_vals
        byte_of_pow [OF assms, of 0, simplified] byte_of_pow [OF assms, of 1, simplified]
        byte_of_pow [OF assms, of 2, simplified] byte_of_pow [OF assms, of 3, simplified]
        byte_of_pow [OF assms, of 4, simplified] byte_of_pow [OF assms, of 5, simplified]
        byte_of_pow [OF assms, of 6, simplified] byte_of_pow [OF assms, of 7, simplified])
qed

lemma ecc_word_zero: "ecc_word 0 = 0"
  by (simp add: ecc_word_def hamming_parity_vals parityll_def)

lemma ecc_correct_one_word:
  "xxfs_os_ecc_correct (enc_le 8 w @ [0]) 8 8 =
    (let s = ecc_word w; bit_pos = unat (s AND 0x7F) in
     if s = 0 then (XXFS_ECC_OK, enc_le 8 w @ [0])
     else if s AND 0x80 \<noteq> 0 \<and> bit_pos \<noteq> 0 \<and> bit_pos \<le> 64
     then (XXFS_ECC_CORRECTED, enc_le 8 (w XOR push_bit (bit_pos - 1) 1) @ [0])
     else (XXFS_ECC_UNCORRECTABLE, enc_le 8 w @ [0]))"
proof -
  have "word_at (enc_le 8 w @ [x]) 0 = w" for x
    by (simp add: word_at_def fld_def codec)
  moreover have "buf_put 0 (enc_le 8 v) (enc_le 8 w @ [x]) = enc_le 8 v @ [x]" for v :: u64 and x
    by (simp add: buf_put_def)
  ultimately show ?thesis
    by (simp add: xxfs_os_ecc_correct_def xxfs_os_ecc_compute_def ecc_nwords_def ecc_word_zero
        nth_append Let_def not_le)
qed

lemma ecc_repairs_bit_15:
  assumes k: "k < 64"
  shows "xxfs_os_ecc_correct (enc_le 8 (push_bit k 1 :: u64) @ [ecc_word 0]) 8 8 =
      (XXFS_ECC_CORRECTED, enc_le 8 (0 :: u64) @ [ecc_word 0]) \<longleftrightarrow> k = 15"
proof -
  have inj: "enc_le 8 a = enc_le 8 b \<longleftrightarrow> a = b" for a b :: u64
    by (simp add: enc_le_inject)
  have "bit (2 ^ k :: u64) k" using k by (simp add: bit_exp_iff)
  then have "(2 ^ k :: u64) = 2 ^ 15 \<Longrightarrow> bit (2 ^ 15 :: u64) k" by (simp only:)
  then have eq: "(2 ^ k :: u64) = 2 ^ 15 \<longleftrightarrow> k = 15"
    by (auto simp: bit_exp_iff simp del: power_numeral)
  have "k mod 8 < 8" by simp
  from less_8_cases [OF this] show "xxfs_os_ecc_correct (enc_le 8 (push_bit k 1 :: u64) @ [ecc_word 0]) 8 8 =
      (XXFS_ECC_CORRECTED, enc_le 8 (0 :: u64) @ [ecc_word 0]) \<longleftrightarrow> k = 15"
    using k eq
    by (elim disjE) (auto simp: ecc_correct_one_word ecc_word_pow hamming_parity_vals ecc_word_zero
        Let_def inj xor_zero_eq enc_le_inject)
qed

text \<open>C40: the correction routine restores exactly one of the 64 single-bit errors of an all-zero
  word, the flip of bit 15. Seven of the eight bit positions of every byte yield a syndrome outside
  1..64 and are given up, and the eighth is always taken for bit 15.\<close>

theorem ecc_repairs_only_bit_15_of_zero:
  "{k. k < 64 \<and> xxfs_os_ecc_correct (enc_le 8 (push_bit k 1 :: u64) @ [ecc_word 0]) 8 8 =
     (XXFS_ECC_CORRECTED, enc_le 8 (0 :: u64) @ [ecc_word 0])} = {15}"
proof -
  have "k < 64 \<and> P k \<longleftrightarrow> k = 15" if "\<And>k. k < 64 \<Longrightarrow> P k \<longleftrightarrow> k = 15" for k :: nat and P
    using that by auto
  from this [OF ecc_repairs_bit_15] show ?thesis by blast
qed

end
