(* ===== verification/Xxfs_Inode.thy ===== *)
theory Xxfs_Inode
  imports Xxfs_Layout Os_Checksum
begin

text \<open>
  Sealing and verifying inodes: \<^verbatim>\<open>inode_set_checksum_ecc\<close>, \<^verbatim>\<open>inode_verify_ecc\<close>, \<^verbatim>\<open>inode_to_val\<close> and
  \<^verbatim>\<open>val_to_inode\<close> of \<^verbatim>\<open>lib/xxfs.c\<close>. The CRC covers the bytes before \<^verbatim>\<open>i_checksum\<close>; the ECC covers
  62 words, the last of which contains the checksum and the first four bytes of the ECC array itself.
\<close>

section \<open>The code\<close>

definition inode_to_val :: "xxfs_inode \<Rightarrow> bytes" where
  "inode_to_val ino = enc_inode ino"

definition val_to_inode :: "bytes \<Rightarrow> xxfs_inode" where
  "val_to_inode buf = dec_inode buf"

definition inode_set_checksum_ecc :: "xxfs_inode \<Rightarrow> xxfs_inode" where
  "inode_set_checksum_ecc ino =
     (let ino = ino\<lparr>i_checksum := xxfs_os_crc32c (take INO_CRC_OFF (enc_inode ino))\<rparr>
      in dec_inode (xxfs_os_ecc_compute_into (enc_inode ino) INO_ECC_OFF INO_ECC_OFF))"

text \<open>The inode is corrected in place, also when the result is \<^verbatim>\<open>XXFS_ECC_UNCORRECTABLE\<close>.\<close>

definition inode_verify_ecc :: "xxfs_inode \<Rightarrow> ecc_status \<times> xxfs_inode" where
  "inode_verify_ecc ino =
     (let crc = xxfs_os_crc32c (take INO_CRC_OFF (enc_inode ino)) in
      if crc = i_checksum ino then (XXFS_ECC_OK, ino)
      else
        (case xxfs_os_ecc_correct (enc_inode ino) INO_ECC_OFF INO_ECC_OFF of (rc, m) \<Rightarrow>
           let ino = dec_inode m;
               crc2 = xxfs_os_crc32c (take INO_CRC_OFF m)
           in if rc = XXFS_ECC_CORRECTED \<and> crc2 = i_checksum ino then (XXFS_ECC_CORRECTED, ino)
              else (XXFS_ECC_UNCORRECTABLE, ino)))"

section \<open>Lemmas\<close>

lemma ecc_compute_into_shape:
  assumes "out + ecc_nwords len \<le> length m"
  shows "xxfs_os_ecc_compute_into m len out =
    take out m @ fld out (ecc_nwords len) (xxfs_os_ecc_compute_into m len out) @
      drop (out + ecc_nwords len) m"
proof -
  let ?r = "xxfs_os_ecc_compute_into m len out" and ?n = "ecc_nwords len"
  have "take out ?r = take out m"
    using ecc_compute_into_below [of 0 out out m len] by (simp add: fld_def)
  moreover have "drop (out + ?n) (foldl (\<lambda>m i. m[out + i := ecc_word (word_at m i)]) m' is) =
      drop (out + ?n) m'" if "\<forall>i \<in> set is. i < ?n" for m' :: bytes and "is"
    using that by (induction "is" arbitrary: m') auto
  from this [of "[0..<?n]" m] have "drop (out + ?n) ?r = drop (out + ?n) m"
    by (simp add: xxfs_os_ecc_compute_into_def)
  moreover have "?r = take out ?r @ fld out ?n ?r @ drop (out + ?n) ?r"
    by (simp add: fld_def) (metis append_take_drop_id drop_drop add.commute)
  ultimately show ?thesis by simp
qed

lemma enc_inode_ecc:
  "length e = 62 \<Longrightarrow> wf_inode ino \<Longrightarrow>
    take 492 (enc_inode ino) @ e @ drop 554 (enc_inode ino) = enc_inode (ino\<lparr>i_ecc := e\<rparr>)"
  by (simp add: enc_inode_def wf_inode_def)

lemma wf_inode_checksum [simp]: "wf_inode (ino\<lparr>i_checksum := c\<rparr>) = wf_inode ino"
  by (simp add: wf_inode_def)

lemma inode_nwords: "ecc_nwords INO_ECC_OFF = 62"
  by (simp add: ecc_nwords_def INO_ECC_OFF_def)

text \<open>Sealing changes the two checksum members only.\<close>

lemma seal_fields:
  assumes "wf_inode ino"
  obtains e where "length e = 62"
    and "inode_set_checksum_ecc ino =
      ino\<lparr>i_checksum := xxfs_os_crc32c (take INO_CRC_OFF (enc_inode ino)), i_ecc := e\<rparr>"
    and "enc_inode (inode_set_checksum_ecc ino) =
      xxfs_os_ecc_compute_into
        (enc_inode (ino\<lparr>i_checksum := xxfs_os_crc32c (take INO_CRC_OFF (enc_inode ino))\<rparr>))
        INO_ECC_OFF INO_ECC_OFF"
proof -
  let ?i = "ino\<lparr>i_checksum := xxfs_os_crc32c (take INO_CRC_OFF (enc_inode ino))\<rparr>"
  let ?r = "xxfs_os_ecc_compute_into (enc_inode ?i) INO_ECC_OFF INO_ECC_OFF"
  let ?e = "fld INO_ECC_OFF 62 ?r"
  have wf: "wf_inode ?i" using assms by simp
  note len = inode_codec.enc_length [OF wf]
  have e: "length ?e = 62" by (simp add: len INO_ECC_OFF_def)
  have "?r = take 492 (enc_inode ?i) @ ?e @ drop 554 (enc_inode ?i)"
    using ecc_compute_into_shape [of INO_ECC_OFF INO_ECC_OFF "enc_inode ?i"] len
    by (simp add: INO_ECC_OFF_def ecc_nwords_def)
  then have r: "?r = enc_inode (?i\<lparr>i_ecc := ?e\<rparr>)"
    using enc_inode_ecc [OF e wf] by simp
  moreover have "wf_inode (?i\<lparr>i_ecc := ?e\<rparr>)"
    using wf e by (simp add: wf_inode_def)
  ultimately have "dec_inode ?r = ?i\<lparr>i_ecc := ?e\<rparr>"
    using inode_codec.dec_enc by metis
  then show thesis
    using that [of ?e] e r by (simp add: inode_set_checksum_ecc_def Let_def)
qed

lemma wf_seal [simp]: "wf_inode ino \<Longrightarrow> wf_inode (inode_set_checksum_ecc ino)"
  by (rule seal_fields) (auto simp: wf_inode_def)

lemma take_crc_enc:
  "wf_inode ino \<Longrightarrow>
    take INO_CRC_OFF (enc_inode (ino\<lparr>i_checksum := c, i_ecc := e\<rparr>)) = take INO_CRC_OFF (enc_inode ino)"
  by (simp add: enc_inode_def INO_CRC_OFF_def wf_inode_def)

lemma seal_crc:
  assumes "wf_inode ino"
  shows "xxfs_os_crc32c (take INO_CRC_OFF (enc_inode (inode_set_checksum_ecc ino))) =
    i_checksum (inode_set_checksum_ecc ino)"
proof -
  obtain e where "inode_set_checksum_ecc ino =
      ino\<lparr>i_checksum := xxfs_os_crc32c (take INO_CRC_OFF (enc_inode ino)), i_ecc := e\<rparr>"
    using assms by (rule seal_fields)
  then show ?thesis using take_crc_enc [OF assms] by simp
qed

text \<open>A sealed inode verifies: \<^verbatim>\<open>inode_verify_ecc\<close> accepts it and leaves it unchanged, and
  sealing altered no member but the checksum and the ECC.\<close>

theorem sealed_inode_verifies:
  assumes "wf_inode ino"
  shows "inode_verify_ecc (inode_set_checksum_ecc ino) = (XXFS_ECC_OK, inode_set_checksum_ecc ino) \<and>
    (inode_set_checksum_ecc ino)\<lparr>i_checksum := i_checksum ino, i_ecc := i_ecc ino\<rparr> = ino"
proof
  show "inode_verify_ecc (inode_set_checksum_ecc ino) = (XXFS_ECC_OK, inode_set_checksum_ecc ino)"
    using seal_crc [OF assms] by (simp add: inode_verify_ecc_def)
  show "(inode_set_checksum_ecc ino)\<lparr>i_checksum := i_checksum ino, i_ecc := i_ecc ino\<rparr> = ino"
    using assms by (rule seal_fields) simp
qed

theorem sealed_inode_verifies_witness:
  "inode_verify_ecc (inode_set_checksum_ecc zero_inode) =
    (XXFS_ECC_OK, inode_set_checksum_ecc zero_inode)"
  using sealed_inode_verifies [of zero_inode] by simp

lemma seal_ecc_accepted:
  assumes "wf_inode ino"
  shows "xxfs_os_ecc_correct (enc_inode (inode_set_checksum_ecc ino)) INO_ECC_OFF INO_ECC_OFF =
    (XXFS_ECC_OK, enc_inode (inode_set_checksum_ecc ino))"
proof -
  obtain m where m: "enc_inode (inode_set_checksum_ecc ino) =
      xxfs_os_ecc_compute_into m INO_ECC_OFF INO_ECC_OFF" "length m = 560"
    using assms by (metis seal_fields inode_codec.enc_length wf_inode_checksum)
  have "fld INO_ECC_OFF (ecc_nwords INO_ECC_OFF) (xxfs_os_ecc_compute_into m INO_ECC_OFF INO_ECC_OFF) =
      xxfs_os_ecc_compute (xxfs_os_ecc_compute_into m INO_ECC_OFF INO_ECC_OFF) INO_ECC_OFF"
    by (rule ecc_into_consistent) (simp_all add: m(2) inode_nwords, simp_all add: INO_ECC_OFF_def)
  then show ?thesis
    unfolding m(1) by (intro ecc_correct_clean) (simp_all add: m(2) inode_nwords, simp add: INO_ECC_OFF_def)
qed

text \<open>C38: of the corruptions of one byte of a sealed inode \<^verbatim>\<open>inode_verify_ecc\<close> notices exactly those in the first 492 of its 560 bytes, the data and the checksum: each of
  them is reported as something else than \<^verbatim>\<open>XXFS_ECC_OK\<close>. A changed byte of the ECC array, or of the padding behind it, leaves the checksum valid and is reported as
  \<^verbatim>\<open>XXFS_ECC_OK\<close>.\<close>

theorem inode_corruption_detected:
  assumes "wf_inode ino" and "p < INODE_SIZE" and "b \<noteq> enc_inode (inode_set_checksum_ecc ino) ! p"
  shows "fst (inode_verify_ecc (dec_inode ((enc_inode (inode_set_checksum_ecc ino))[p := b]))) \<noteq> XXFS_ECC_OK \<longleftrightarrow> p < INO_ECC_OFF"
proof -
  let ?s = "inode_set_checksum_ecc ino"
  let ?m = "enc_inode ?s" and ?m' = "(enc_inode ?s)[p := b]"
  have len: "length ?m = 560" using assms(1) by (intro inode_codec.enc_length) simp
  have enc: "enc_inode (dec_inode ?m') = ?m'"
    using len by (simp add: inode_codec.enc_dec)
  have sum: "i_checksum (dec_inode bs) = dec_le (fld 488 4 bs)" for bs
    by (simp add: dec_inode_def)
  have sum_s: "i_checksum ?s = dec_le (fld 488 4 ?m)"
    using sum [of ?m] assms(1) by (simp add: inode_codec.dec_enc)
  have "xxfs_os_crc32c (take INO_CRC_OFF ?m') \<noteq> i_checksum (dec_inode ?m') \<longleftrightarrow> p < INO_ECC_OFF"
  proof (cases "p < INO_CRC_OFF")
    case True
    then have "xxfs_os_crc32c (take INO_CRC_OFF ?m') \<noteq> xxfs_os_crc32c (take INO_CRC_OFF ?m)"
      using crc32c_byte_change_at [of p "take INO_CRC_OFF ?m" b] assms(3) len
      by (simp add: take_update_swap INO_CRC_OFF_def)
    moreover have "fld 488 4 ?m' = fld 488 4 ?m"
      using True by (simp add: fld_def INO_CRC_OFF_def)
    ultimately show ?thesis
      using seal_crc [OF assms(1)] True by (simp add: sum sum_s INO_CRC_OFF_def INO_ECC_OFF_def)
  next
    case False
    then have crc: "take INO_CRC_OFF ?m' = take INO_CRC_OFF ?m" by simp
    have "fld 488 4 ?m' \<noteq> fld 488 4 ?m \<longleftrightarrow> p < INO_ECC_OFF"
    proof
      assume p: "p < INO_ECC_OFF"
      show "fld 488 4 ?m' \<noteq> fld 488 4 ?m"
      proof
        assume "fld 488 4 ?m' = fld 488 4 ?m"
        then have "fld 488 4 ?m' ! (p - 488) = fld 488 4 ?m ! (p - 488)" by simp
        then show False
          using False p assms(3) len by (simp add: fld_nth INO_CRC_OFF_def INO_ECC_OFF_def)
      qed
    next
      assume "fld 488 4 ?m' \<noteq> fld 488 4 ?m"
      then show "p < INO_ECC_OFF" by (rule contrapos_np) (simp add: fld_def drop_update_swap INO_ECC_OFF_def)
    qed
    then have "(dec_le (fld 488 4 ?m') :: u32) \<noteq> dec_le (fld 488 4 ?m) \<longleftrightarrow> p < INO_ECC_OFF"
      using len u32_codec.dec_inject [of "fld 488 4 ?m'" "fld 488 4 ?m"] by auto
    moreover have "xxfs_os_crc32c (take INO_CRC_OFF ?m') = dec_le (fld 488 4 ?m)" using crc seal_crc [OF assms(1)] sum_s by simp
    ultimately show ?thesis unfolding sum by metis
  qed
  moreover have "fst (inode_verify_ecc (dec_inode ?m')) = XXFS_ECC_OK \<longleftrightarrow> xxfs_os_crc32c (take INO_CRC_OFF ?m') = i_checksum (dec_inode ?m')"
    by (simp add: inode_verify_ecc_def enc Let_def split: prod.split)
  ultimately show ?thesis by blast
qed

text \<open>A changed byte of the data is noticed, a changed byte of the ECC array is not.\<close>

theorem inode_corruption_detected_witness:
  "fst (inode_verify_ecc (dec_inode ((enc_inode (inode_set_checksum_ecc zero_inode))
      [0 := NOT (enc_inode (inode_set_checksum_ecc zero_inode) ! 0)]))) \<noteq> XXFS_ECC_OK \<and>
   fst (inode_verify_ecc (dec_inode ((enc_inode (inode_set_checksum_ecc zero_inode))
      [500 := NOT (enc_inode (inode_set_checksum_ecc zero_inode) ! 500)]))) = XXFS_ECC_OK"
proof -
  have n: "NOT x \<noteq> x" for x :: u8
    by (metis bit_not_iff bit_0 possible_bit_word len_gt_0)
  have "fst (inode_verify_ecc (dec_inode ((enc_inode (inode_set_checksum_ecc zero_inode))
      [0 := NOT (enc_inode (inode_set_checksum_ecc zero_inode) ! 0)]))) \<noteq> XXFS_ECC_OK"
    using inode_corruption_detected [OF wf_zero_inode _ n, of 0] by (simp add: INODE_SIZE_def INO_ECC_OFF_def)
  moreover have "fst (inode_verify_ecc (dec_inode ((enc_inode (inode_set_checksum_ecc zero_inode))
      [500 := NOT (enc_inode (inode_set_checksum_ecc zero_inode) ! 500)]))) = XXFS_ECC_OK"
    using inode_corruption_detected [OF wf_zero_inode _ n, of 500] by (simp add: INODE_SIZE_def INO_ECC_OFF_def)
  ultimately show ?thesis by blast
qed

end
