(* ===== verification/Xxh64.thy ===== *)
theory Xxh64
  imports Xxfs_Prelude
begin

text \<open>
  The path hash \<^verbatim>\<open>xxh64\<close> of \<^verbatim>\<open>lib/xxfs.c\<close> with its helpers \<^verbatim>\<open>rotl64\<close>, \<^verbatim>\<open>get_u64\<close> and
  \<^verbatim>\<open>get_u32\<close>, on 64-bit words. The pointer \<^verbatim>\<open>p\<close> that runs towards \<^verbatim>\<open>end\<close> is the list of the
  bytes still to be read. Every index structure of the program rests on the two facts shown here: the
  hash of a key is never 0 or 1, and the rotation it is built from loses no bit.
\<close>

definition rotl64 :: "u64 \<Rightarrow> nat \<Rightarrow> u64" where
  "rotl64 v n = push_bit n v OR drop_bit (64 - n) v"

definition get_u64 :: "bytes \<Rightarrow> u64" where
  "get_u64 p = ucast (p ! 0) OR push_bit 8 (ucast (p ! 1)) OR push_bit 16 (ucast (p ! 2))
     OR push_bit 24 (ucast (p ! 3)) OR push_bit 32 (ucast (p ! 4)) OR push_bit 40 (ucast (p ! 5))
     OR push_bit 48 (ucast (p ! 6)) OR push_bit 56 (ucast (p ! 7))"

definition get_u32 :: "bytes \<Rightarrow> u32" where
  "get_u32 p = ucast (p ! 0) OR push_bit 8 (ucast (p ! 1)) OR push_bit 16 (ucast (p ! 2))
     OR push_bit 24 (ucast (p ! 3))"

definition XXH_P1 :: u64 where "XXH_P1 = 0x9e3779b97f4a7c15"
definition XXH_P2 :: u64 where "XXH_P2 = 0x85ebca6bcae6d1d5"
definition XXH_P3 :: u64 where "XXH_P3 = 0xc2b2ae3cc27b9a21"
definition XXH_P4 :: u64 where "XXH_P4 = 0x27d4eb2f165b7d03"
definition XXH_P5 :: u64 where "XXH_P5 = 0x659e8513b3a1b327"

text \<open>The \<^verbatim>\<open>do ... while (p <= limit)\<close> loop over 32-byte stripes, entered only when at least 32
  bytes are left.\<close>

fun xxh_stripes :: "u64 \<times> u64 \<times> u64 \<times> u64 \<Rightarrow> bytes \<Rightarrow> (u64 \<times> u64 \<times> u64 \<times> u64) \<times> bytes" where
  "xxh_stripes (v1, v2, v3, v4) p =
     (if length p < 32 then ((v1, v2, v3, v4), p)
      else
        let v1 = rotl64 (v1 + get_u64 p * XXH_P2) 31 * XXH_P1;
            v2 = rotl64 (v2 + get_u64 (drop 8 p) * XXH_P2) 31 * XXH_P1;
            v3 = rotl64 (v3 + get_u64 (drop 16 p) * XXH_P2) 31 * XXH_P1;
            v4 = rotl64 (v4 + get_u64 (drop 24 p) * XXH_P2) 31 * XXH_P1
        in xxh_stripes (v1, v2, v3, v4) (drop 32 p))"

declare xxh_stripes.simps [simp del]

definition xxh_head :: "bytes \<Rightarrow> u64 \<times> bytes" where
  "xxh_head data =
     (if 32 \<le> length data then
        (case xxh_stripes (XXH_P1 + XXH_P2, XXH_P2, 0, - XXH_P1) data of ((v1, v2, v3, v4), p) \<Rightarrow>
          let h = rotl64 v1 1 + rotl64 v2 7 + rotl64 v3 12 + rotl64 v4 18;
              h = h + of_nat (length data);
              h = rotl64 (v3 * XXH_P1) 17 * XXH_P4 + h;
              h = rotl64 (v4 * XXH_P1) 17 * XXH_P4 + h;
              h = rotl64 (v2 * XXH_P1) 17 * XXH_P4 + h;
              h = rotl64 (v1 * XXH_P1) 17 * XXH_P4 + h
          in (h, p))
      else (XXH_P5 + of_nat (length data), data))"

definition xxh_tail :: "u64 \<Rightarrow> bytes \<Rightarrow> u64" where
  "xxh_tail h p =
     (let (h, p) =
            (if 16 \<le> length p
             then (rotl64 (h + get_u64 p * XXH_P3) 23 * XXH_P2
                   + rotl64 (h + get_u64 (drop 8 p) * XXH_P3) 23 * XXH_P2, drop 16 p)
             else (h, p));
          (h, p) =
            (if 8 \<le> length p
             then (rotl64 (h + get_u64 p * XXH_P3) 23 * XXH_P2, drop 8 p) else (h, p));
          (h, p) =
            (if 4 \<le> length p
             then (rotl64 (h + ucast (get_u32 p) * XXH_P4) 17 * XXH_P1, drop 4 p) else (h, p))
      in foldl (\<lambda>h b. rotl64 (h + ucast b * XXH_P5) 11 * XXH_P1) h p)"

definition xxh_final :: "u64 \<Rightarrow> u64" where
  "xxh_final h =
     (let h = h XOR drop_bit 33 h;
          h = h * XXH_P2;
          h = h XOR drop_bit 29 h;
          h = h * XXH_P3;
          h = h XOR drop_bit 32 h
      in if h < 2 then h + 2 else h)"

definition xxh64 :: "bytes \<Rightarrow> u64" where
  "xxh64 data = (case xxh_head data of (h, p) \<Rightarrow> xxh_final (xxh_tail h p))"

section \<open>Properties\<close>

lemma get_u64_dec_le: "8 \<le> length p \<Longrightarrow> get_u64 p = dec_le (take 8 p)"
proof -
  assume "8 \<le> length p"
  then obtain a b c d e f g h q where "p = a # b # c # d # e # f # g # h # q"
    by (auto simp: Suc_le_length_iff numeral_eq_Suc)
  then show ?thesis
    by (simp add: get_u64_def push_bit_or or.assoc)
qed

lemma rotl64_undo:
  assumes "0 < n" and "n < 64"
  shows "rotl64 (rotl64 v n) (64 - n) = v"
proof (rule bit_word_eqI)
  fix i assume i: "i < LENGTH(64)"
  show "bit (rotl64 (rotl64 v n) (64 - n)) i = bit v i"
    using assms i bit_imp_le_length [of v] by (auto simp: rotl64_def bit_simps)
qed

text \<open>The avalanche: each of its steps is a bijection on 64-bit words.\<close>

lemma xorshift_zero:
  assumes "0 < k" and z: "d XOR drop_bit k d = (0 :: 'a::len word)"
  shows "d = 0"
proof -
  have step: "bit d i \<longleftrightarrow> bit d (k + i)" for i
    using arg_cong [OF z, of "\<lambda>w. bit w i"] bit_imp_le_length [of d] by (auto simp: bit_simps)
  have "\<not> bit d i" if "LENGTH('a) \<le> i + n" for n i
    using that
  proof (induction n arbitrary: i)
    case 0
    then show ?case using bit_imp_le_length [of d i] by auto
  next
    case (Suc n)
    with assms(1) have "\<not> bit d (k + i)" by (intro Suc.IH) simp
    with step show ?case by simp
  qed
  from this [of _ "LENGTH('a)"] show ?thesis by (simp add: bit_eq_iff)
qed

lemma xorshift_inject:
  assumes "0 < k" and "a XOR drop_bit k a = b XOR drop_bit k (b :: 'a::len word)"
  shows "a = b"
proof -
  have eq: "(a XOR b) XOR drop_bit k (a XOR b) = (a XOR drop_bit k a) XOR (b XOR drop_bit k b)"
    by (rule bit_word_eqI) (auto simp: bit_simps)
  have "a XOR b = 0"
    by (rule xorshift_zero [OF assms(1)]) (simp only: eq assms(2) xor_self_eq)
  then show ?thesis by (simp add: xor_zero_eq)
qed

lemma mult_inject:
  assumes "p * q = (1 :: u64)" and "a * p = b * p"
  shows "a = b"
proof -
  have "a * p * q = b * p * q" using assms(2) by simp
  then show ?thesis using assms(1) by (simp add: mult.assoc)
qed

text \<open>A hash value is never 0 or 1, whatever the key.\<close>

theorem xxh64_reserved: "2 \<le> xxh64 data"
proof -
  have "2 \<le> (if h < 2 then h + 2 else h)" for h :: u64
    by (cases "h < 2") (use word_less_2 [of h] in auto)
  then show ?thesis
    by (simp add: xxh64_def xxh_final_def Let_def split: prod.split)
qed

text \<open>The finalisation of the hash creates no collision except on the two values it reserves: two
  keys whose mixing states differ get different hashes unless the hash is 2 or 3.\<close>

theorem xxh_final_no_collision:
  assumes "a \<noteq> b" and "xxh_final a \<noteq> 2" and "xxh_final a \<noteq> 3"
  shows "xxh_final a \<noteq> xxh_final b"
proof
  assume eq: "xxh_final a = xxh_final b"
  have i2: "XXH_P2 * 0xc61b810cc8f7df7d = 1" and i3: "XXH_P3 * 0x753b2d2366669e1 = 1"
    by (simp_all add: XXH_P2_def XXH_P3_def)
  define m where "m h = (let h = h XOR drop_bit 33 h; h = h * XXH_P2; h = h XOR drop_bit 29 h;
      h = h * XXH_P3 in h XOR drop_bit 32 h)" for h :: u64
  have m: "xxh_final h = (if m h < 2 then m h + 2 else m h)" for h
    by (simp add: xxh_final_def m_def Let_def)
  have "m a = m b"
    using assms eq by (auto simp: m word_less_2 split: if_splits)
  then have "a = b"
    unfolding m_def Let_def
    by (auto dest!: xorshift_inject [rotated] mult_inject [OF i2] mult_inject [OF i3])
  with assms(1) show False ..
qed

theorem xxh_final_no_collision_witness:
  "xxh_final 5 \<noteq> 2 \<and> xxh_final 5 \<noteq> 3 \<and> xxh_final 5 \<noteq> xxh_final 6"
proof -
  have "xxh_final 5 \<noteq> 2" "xxh_final 5 \<noteq> 3"
    by (simp_all add: xxh_final_def XXH_P2_def XXH_P3_def Let_def)
  then show ?thesis
    using xxh_final_no_collision [of 5 6] by simp
qed

end
