(* ===== verification/Xxfs_Path.thy ===== *)
theory Xxfs_Path
  imports Xxfs_Prelude
begin

text \<open>
  Path handling of \<^verbatim>\<open>lib/xxfs.c\<close>: \<^verbatim>\<open>path_normalize\<close>, \<^verbatim>\<open>get_parent_path\<close> and \<^verbatim>\<open>get_basename\<close>.
  A C string is the list of its bytes before the terminating NUL. The character loop is shown
  equal to a reference definition on path components, from which idempotence and the
  parent/basename laws follow.
\<close>

abbreviation (input) SLASH :: u8 where "SLASH \<equiv> 0x2f"
abbreviation (input) DOT :: u8 where "DOT \<equiv> 0x2e"

section \<open>The code\<close>

text \<open>The main loop of \<^verbatim>\<open>path_normalize\<close>: \<open>out\<close> is the output written so far, the second argument
  the rest of the input.\<close>

fun normalize_loop :: "bytes \<Rightarrow> bytes \<Rightarrow> bytes" where
  "normalize_loop out [] = out"
| "normalize_loop out (c # p) =
     (if c = SLASH \<and> out \<noteq> [] \<and> last out = SLASH then normalize_loop out p
      else if c = DOT \<and> (p = [] \<or> hd p = SLASH) \<and> (out = [] \<or> last out = SLASH)
      then normalize_loop out p
      else if XXFS_MAX_PATH - 1 \<le> length (out @ [c]) then out @ [c]
      else normalize_loop (out @ [c]) p)"

text \<open>\<^verbatim>\<open>while (len > 1 && out[len - 1] == '/') len--;\<close>\<close>

function strip_slashes :: "bytes \<Rightarrow> bytes" where
  "strip_slashes out =
     (if 1 < length out \<and> last out = SLASH then strip_slashes (butlast out) else out)"
  by pat_completeness auto
termination by (relation "measure length") auto

declare strip_slashes.simps [simp del]

definition path_normalize :: "bytes \<Rightarrow> bytes" where
  "path_normalize path =
     strip_slashes (normalize_loop (if path = [] \<or> hd path \<noteq> SLASH then [SLASH] else []) path)"

text \<open>The backward scan that \<^verbatim>\<open>get_parent_path\<close>, \<^verbatim>\<open>get_basename\<close>, \<^verbatim>\<open>xxfs_create\<close> and
  \<^verbatim>\<open>xxfs_rename\<close> share: the index just behind the last slash among the first \<open>n\<close> characters.\<close>

primrec last_slash :: "bytes \<Rightarrow> nat \<Rightarrow> nat" where
  "last_slash norm 0 = 0"
| "last_slash norm (Suc n) = (if norm ! n \<noteq> SLASH then last_slash norm n else Suc n)"

definition get_parent_path :: "bytes \<Rightarrow> bytes" where
  "get_parent_path norm =
     (if length norm \<le> 1 then [SLASH]
      else let l = last_slash norm (length norm)
           in if l \<le> 1 then [SLASH] else take (l - 1) norm)"

definition get_basename :: "bytes \<Rightarrow> bytes" where
  "get_basename norm = drop (last_slash norm (length norm)) norm"

section \<open>Reference: paths as component lists\<close>

fun comps :: "bytes \<Rightarrow> bytes list" where
  "comps [] = [[]]"
| "comps (c # p) = (if c = SLASH then [] # comps p else (c # hd (comps p)) # tl (comps p))"

definition good_comp :: "bytes \<Rightarrow> bool" where
  "good_comp c \<longleftrightarrow> c \<noteq> [] \<and> c \<noteq> [DOT]"

definition render :: "bytes list \<Rightarrow> bytes" where
  "render cs = (if cs = [] then [SLASH] else concat (map (\<lambda>c. SLASH # c) cs))"

definition canon :: "bytes \<Rightarrow> bytes list" where
  "canon p = filter good_comp (comps p)"

section \<open>Lemmas\<close>

lemma comps_ne [simp]: "comps p \<noteq> []"
  by (cases p) auto

lemma hd_comps_Nil: "hd (comps p) = [] \<longleftrightarrow> p = [] \<or> hd p = SLASH"
  by (cases p) auto

lemma strip_slashes_app:
  "b = [] \<or> last b \<noteq> SLASH \<Longrightarrow> strip_slashes (b @ [SLASH]) = (if b = [] then [SLASH] else b)"
  by (auto simp: strip_slashes.simps [of "b @ [SLASH]"] strip_slashes.simps [of b])

lemma strip_slashes_id: "last out \<noteq> SLASH \<Longrightarrow> strip_slashes out = out"
  by (simp add: strip_slashes.simps)

text \<open>The loop at a component boundary (output ends in a slash, \<open>b\<close> is what precedes it) and inside
  a component.\<close>

lemma normalize_loop_comps:
  fixes p :: bytes
  shows "b = [] \<or> last b \<noteq> SLASH \<Longrightarrow> length b + 1 + length p < XXFS_MAX_PATH - 1 \<Longrightarrow>
    strip_slashes (normalize_loop (b @ [SLASH]) p) =
      (if b = [] \<and> canon p = [] then [SLASH] else b @ concat (map (\<lambda>c. SLASH # c) (canon p)))"
  and "out \<noteq> [] \<Longrightarrow> last out \<noteq> SLASH \<Longrightarrow> length out + length p < XXFS_MAX_PATH - 1 \<Longrightarrow>
    strip_slashes (normalize_loop out p) =
      out @ hd (comps p) @ concat (map (\<lambda>c. SLASH # c) (filter good_comp (tl (comps p))))"
proof (induction p arbitrary: b out)
  case Nil
  {
    case (1 b)
    then show ?case by (simp add: strip_slashes_app canon_def good_comp_def)
  next
    case (2 out)
    then show ?case by (simp add: strip_slashes_id)
  }
next
  case (Cons c p)
  {
    case (1 b)
    consider "c = SLASH" | "c = DOT" "p = [] \<or> hd p = SLASH"
      | "c \<noteq> SLASH" "\<not> (c = DOT \<and> (p = [] \<or> hd p = SLASH))" by blast
    then show ?case
    proof cases
      case 1
      with Cons.IH(1) [of b] "1.prems" show ?thesis
        by (simp add: canon_def good_comp_def)
    next
      case 2
      then obtain cs where "comps p = [] # cs"
        using hd_comps_Nil [of p] comps_ne [of p] by (cases "comps p") auto
      then have "canon (c # p) = canon p"
        using 2 by (simp add: canon_def good_comp_def)
      with 2 Cons.IH(1) [of b] "1.prems" show ?thesis by simp
    next
      case 3
      then have "good_comp (c # hd (comps p))"
        by (auto simp: good_comp_def hd_comps_Nil)
      with 3 Cons.IH(2) [of "b @ [SLASH, c]"] "1.prems" show ?thesis
        by (auto simp: canon_def)
    qed
  next
    case (2 out)
    show ?case
    proof (cases "c = SLASH")
      case True
      with Cons.IH(1) [of out] "2.prems" show ?thesis by (simp add: canon_def)
    next
      case False
      with Cons.IH(2) [of "out @ [c]"] "2.prems" show ?thesis by simp
    qed
  }
qed

text \<open>C37: for every path shorter than the buffer, the character loop of \<^verbatim>\<open>path_normalize\<close> computes
  the reference: split at slashes, drop the empty and the \<^verbatim>\<open>.\<close> components, and join.\<close>

theorem path_normalize_correct:
  assumes "length path < XXFS_MAX_PATH - 2"
  shows "path_normalize path = render (canon path)"
proof (cases "path = [] \<or> hd path \<noteq> SLASH")
  case True
  then show ?thesis
    using assms normalize_loop_comps(1) [of "[]" path]
    by (auto simp: path_normalize_def render_def)
next
  case False
  then obtain p where p: "path = SLASH # p" by (cases path) auto
  then have "canon path = canon p" by (simp add: canon_def good_comp_def)
  with p assms show ?thesis
    using normalize_loop_comps(1) [of "[]" p]
    by (auto simp: path_normalize_def render_def XXFS_MAX_PATH_def)
qed

theorem path_normalize_correct_witness:
  "path_normalize [SLASH, 0x61, SLASH, DOT, SLASH, SLASH, 0x62, SLASH] = [SLASH, 0x61, SLASH, 0x62]"
  using path_normalize_correct [of "[SLASH, 0x61, SLASH, DOT, SLASH, SLASH, 0x62, SLASH]"]
  by (simp add: XXFS_MAX_PATH_def render_def canon_def good_comp_def)

text \<open>Components hold no slash, and splitting a rendered path gives the components back.\<close>

lemma comps_no_slash: "c \<in> set (comps p) \<Longrightarrow> SLASH \<notin> set c"
proof (induction p arbitrary: c)
  case (Cons a p)
  show ?case
  proof (cases "a = SLASH")
    case False
    with Cons.prems consider "c = a # hd (comps p)" | "c \<in> set (tl (comps p))" by auto
    then show ?thesis
    proof cases
      case 1
      have "SLASH \<notin> set (hd (comps p))" by (rule Cons.IH) simp
      with 1 False show ?thesis by simp
    next
      case 2
      then have "c \<in> set (comps p)" by (meson comps_ne list.set_sel(2))
      then show ?thesis by (rule Cons.IH)
    qed
  qed (use Cons in auto)
qed simp

lemma canon_comp: "c \<in> set (canon p) \<Longrightarrow> SLASH \<notin> set c \<and> good_comp c"
  by (auto simp: canon_def dest: comps_no_slash)

lemma comps_append:
  "SLASH \<notin> set c \<Longrightarrow> comps (c @ p) = (c @ hd (comps p)) # tl (comps p)"
  by (induction c) auto

lemma comps_render:
  "(\<And>c. c \<in> set cs \<Longrightarrow> SLASH \<notin> set c) \<Longrightarrow> comps (concat (map (\<lambda>c. SLASH # c) cs)) = [] # cs"
  by (induction cs) (auto simp: comps_append)

lemma canon_render:
  "(\<And>c. c \<in> set cs \<Longrightarrow> SLASH \<notin> set c \<and> good_comp c) \<Longrightarrow> canon (render cs) = cs"
  by (auto simp: render_def canon_def comps_render good_comp_def [of "[]"])

lemma length_comps: "length (concat (map (\<lambda>c. SLASH # c) (comps p))) = Suc (length p)"
proof (induction p)
  case (Cons c p)
  then show ?case by (cases "comps p") auto
qed simp

lemma length_concat_filter:
  "length (concat (map f (filter P xs))) \<le> length (concat (map f xs))"
  by (induction xs) auto

lemma length_render_canon: "length (render (canon p)) \<le> Suc (length p)"
  using length_concat_filter [of "\<lambda>c. SLASH # c" good_comp "comps p"] length_comps [of p]
  by (simp add: render_def canon_def)

text \<open>Normalising twice is normalising once, for paths that are not truncated.\<close>

theorem path_normalize_idempotent:
  assumes "length path < XXFS_MAX_PATH - 3"
  shows "path_normalize (path_normalize path) = path_normalize path"
proof -
  have "path_normalize path = render (canon path)"
    using assms by (intro path_normalize_correct) (simp add: XXFS_MAX_PATH_def)
  moreover have "length (render (canon path)) < XXFS_MAX_PATH - 2"
    using assms length_render_canon [of path] by (simp add: XXFS_MAX_PATH_def)
  then have "path_normalize (render (canon path)) = render (canon (render (canon path)))"
    by (rule path_normalize_correct)
  ultimately show ?thesis
    by (simp add: canon_render canon_comp)
qed

theorem path_normalize_idempotent_witness:
  "path_normalize (path_normalize [0x61, SLASH, SLASH, 0x62]) =
    path_normalize [0x61, SLASH, SLASH, 0x62]"
  by (rule path_normalize_idempotent) (simp add: XXFS_MAX_PATH_def)

text \<open>Parent and basename of a rendered path.\<close>

lemma last_slash_app: "n \<le> length xs \<Longrightarrow> last_slash (xs @ ys) n = last_slash xs n"
  by (induction n) (auto simp: nth_append)

lemma last_slash_found:
  "SLASH \<notin> set c \<Longrightarrow> last_slash (xs @ SLASH # c) (length xs + 1 + length c) = length xs + 1"
proof (induction c rule: rev_induct)
  case Nil
  then show ?case by (simp add: nth_append)
next
  case (snoc x c)
  have "last_slash ((xs @ SLASH # c) @ [x]) (length xs + 1 + length c) =
      last_slash (xs @ SLASH # c) (length xs + 1 + length c)"
    by (rule last_slash_app) simp
  with snoc show ?case by (simp add: nth_append)
qed

lemma render_snoc: "render (cs @ [c]) = (if cs = [] then [] else render cs) @ SLASH # c"
  by (simp add: render_def)

lemma render_ne: "cs \<noteq> [] \<Longrightarrow> \<forall>c \<in> set cs. c \<noteq> [] \<Longrightarrow> 2 \<le> length (render cs)"
  by (cases cs) (auto simp: render_def neq_Nil_conv)

lemma basename_render:
  assumes "SLASH \<notin> set c"
  shows "get_basename (render (cs @ [c])) = c"
proof -
  let ?xs = "if cs = [] then [] else render cs"
  have "render (cs @ [c]) = ?xs @ SLASH # c" by (rule render_snoc)
  moreover have "last_slash (?xs @ SLASH # c) (length (?xs @ SLASH # c)) = length ?xs + 1"
    using last_slash_found [OF assms, of ?xs] by (simp only: length_append list.size add_Suc_right
        add_0_right One_nat_def add_Suc)
  ultimately show ?thesis
    by (simp add: get_basename_def)
qed

lemma parent_render:
  assumes "SLASH \<notin> set c" and "c \<noteq> []" and "\<forall>d \<in> set cs. d \<noteq> []"
  shows "get_parent_path (render (cs @ [c])) = render cs"
proof -
  let ?xs = "if cs = [] then [] else render cs"
  have r: "render (cs @ [c]) = ?xs @ SLASH # c" by (rule render_snoc)
  moreover have l: "last_slash (?xs @ SLASH # c) (length (?xs @ SLASH # c)) = length ?xs + 1"
    using last_slash_found [OF assms(1), of ?xs] by (simp only: length_append list.size add_Suc_right
        add_0_right One_nat_def add_Suc)
  ultimately show ?thesis
    using assms render_ne [of cs]
    by (cases "cs = []") (auto simp: get_parent_path_def Let_def render_def [of "[]"])
qed

text \<open>The parent and the name of a normalised path other than the root are its component list
  without the last component, and the last component: creating a file therefore registers it in
  exactly the directory that its path names.\<close>

theorem parent_basename_split:
  assumes "length path < XXFS_MAX_PATH - 2" and "canon path \<noteq> []"
  shows "get_parent_path (path_normalize path) = render (butlast (canon path)) \<and>
    get_basename (path_normalize path) = last (canon path)"
proof -
  have "path_normalize path = render (butlast (canon path) @ [last (canon path)])"
    using assms path_normalize_correct by simp
  moreover have "SLASH \<notin> set (last (canon path))" "last (canon path) \<noteq> []"
    using canon_comp [of "last (canon path)" path] assms(2) by (auto simp: good_comp_def)
  moreover have "\<forall>d \<in> set (butlast (canon path)). d \<noteq> []"
    using canon_comp [of _ path] by (auto simp: good_comp_def dest: in_set_butlastD)
  ultimately show ?thesis
    by (simp add: parent_render basename_render)
qed

theorem parent_basename_split_witness:
  "get_parent_path (path_normalize [SLASH, 0x61, SLASH, 0x62]) = [SLASH, 0x61] \<and>
    get_basename (path_normalize [SLASH, 0x61, SLASH, 0x62]) = [0x62]"
  using parent_basename_split [of "[SLASH, 0x61, SLASH, 0x62]"]
  by (simp add: XXFS_MAX_PATH_def canon_def good_comp_def render_def)

end
