(* ===== verification/Xxfs_State.thy ===== *)
theory Xxfs_State
  imports Xxfs_Inode Xxh64 Xxfs_Path Dp_Table
begin

text \<open>
  The in-memory state \<^verbatim>\<open>struct xxfs\<close> of \<^verbatim>\<open>lib/xxfs.c\<close> and the structs it is made of. The fixed
  arrays of the source, whose indices are always masked to the array size, are functions from
  indices; the pointer to a cached page is the \<open>pc_page\<close> member of its cache slot, so that a write
  through the pointer that \<^verbatim>\<open>page_load\<close> returned is an update of that slot.

  Results: an operation that can run into undefined behaviour (an out-of-range access on a corrupt
  image) or fail to return (a cyclic overflow chain) has an \<open>option\<close> result, where \<open>None\<close> stands for
  those two; every regular outcome, errors included, is a return code with the new state.
\<close>

record paged_dir =
  d_page_off :: "u64 list"
  d_dir_size :: u32
  d_global_depth :: u8

record paged_cache =
  pc_page_off :: u64
  pc_page :: "paged_page option"
  pc_dirty :: bool

record icache_entry =
  ic_hash :: u64
  ic_ctrl :: u8
  ic_dirty :: bool
  ic_key :: "bytes option"
  ic_inode :: xxfs_inode

text \<open>\<^verbatim>\<open>child_count\<close> is the length of the children list, \<^verbatim>\<open>path_len\<close> the length of the path.\<close>

record dir_cache_entry =
  de_path :: bytes
  de_children :: "xxfs_dir_child list"
  de_child_cap :: u32
  de_dirty :: bool
  de_valid :: bool

record xxfs =
  img :: os_file
  sb :: xxfs_super
  tbl :: dp_table
  pdir :: paged_dir
  pcache :: "nat \<Rightarrow> paged_cache"
  flags :: u64
  cow_gen :: u64
  wal_seq :: u64
  mounted :: bool
  icache :: "nat \<Rightarrow> icache_entry"
  icache_cap :: u32
  icache_count :: u32
  icache_mask :: u32
  icache_tick :: u64
  dcache :: "nat \<Rightarrow> dir_cache_entry"
  mmap_len :: "nat option"

text \<open>The struct as \<^verbatim>\<open>memset\<close> leaves it, on a given image.\<close>

definition zero_super :: xxfs_super where
  "zero_super = dec_super (zeros 4096)"

definition zero_paged_cache :: paged_cache where
  "zero_paged_cache = \<lparr>pc_page_off = 0, pc_page = None, pc_dirty = False\<rparr>"

definition zero_icache_entry :: icache_entry where
  "zero_icache_entry = \<lparr>ic_hash = 0, ic_ctrl = 0, ic_dirty = False, ic_key = None, ic_inode = zero_inode\<rparr>"

definition zero_dir_cache_entry :: dir_cache_entry where
  "zero_dir_cache_entry =
     \<lparr>de_path = [], de_children = [], de_child_cap = 0, de_dirty = False, de_valid = False\<rparr>"

definition zero_xxfs :: "os_file \<Rightarrow> xxfs" where
  "zero_xxfs f =
     \<lparr>img = f, sb = zero_super, tbl = table_init, pdir = \<lparr>d_page_off = [], d_dir_size = 0, d_global_depth = 0\<rparr>,
      pcache = (\<lambda>_. zero_paged_cache), flags = 0, cow_gen = 0, wal_seq = 0, mounted = False,
      icache = (\<lambda>_. zero_icache_entry), icache_cap = 0, icache_count = 0, icache_mask = 0,
      icache_tick = 0, dcache = (\<lambda>_. zero_dir_cache_entry), mmap_len = None\<rparr>"

text \<open>Calls into the OS layer on the image of a mounted file system.\<close>

definition fs_pwrite :: "xxfs \<Rightarrow> bytes \<Rightarrow> u64 \<Rightarrow> bool \<times> xxfs" where
  "fs_pwrite fs buf off =
     (case xxfs_os_file_pwrite (img fs) buf off of (r, f) \<Rightarrow> (r, fs\<lparr>img := f\<rparr>))"

definition fs_pread :: "xxfs \<Rightarrow> nat \<Rightarrow> u64 \<Rightarrow> bytes option \<times> xxfs" where
  "fs_pread fs len off =
     (case xxfs_os_file_pread (img fs) len off of (r, f) \<Rightarrow> (r, fs\<lparr>img := f\<rparr>))"

definition fs_alloc :: "xxfs \<Rightarrow> bool \<times> xxfs" where
  "fs_alloc fs = (case xxfs_os_alloc (img fs) of (r, f) \<Rightarrow> (r, fs\<lparr>img := f\<rparr>))"

definition fs_time :: "xxfs \<Rightarrow> u64 \<times> xxfs" where
  "fs_time fs = (case xxfs_os_time (img fs) of (t, f) \<Rightarrow> (t, fs\<lparr>img := f\<rparr>))"

definition fs_extend :: "xxfs \<Rightarrow> nat \<Rightarrow> bool \<times> xxfs" where
  "fs_extend fs n = (case xxfs_os_file_extend (img fs) n of (r, f) \<Rightarrow> (r, fs\<lparr>img := f\<rparr>))"

text \<open>The number of environment calls is the only thing a successful call to the clock or the
  allocator changes.\<close>

abbreviation tick :: "xxfs \<Rightarrow> xxfs" where
  "tick fs \<equiv> fs\<lparr>img := (img fs)\<lparr>os_calls := Suc (os_calls (img fs))\<rparr>\<rparr>"

lemma fs_alloc_ok [os_simps]: "fault_free (img fs) \<Longrightarrow> fs_alloc fs = (True, tick fs)"
  by (simp add: fs_alloc_def xxfs_os_alloc_def os_call_ok)

lemma fs_pwrite_ok [os_simps]:
  "fault_free (img fs) \<Longrightarrow> s64_ok off (length buf) \<Longrightarrow>
    fs_pwrite fs buf off = (True, (tick fs)\<lparr>img := poke (img (tick fs)) (unat off) buf\<rparr>)"
  by (simp add: fs_pwrite_def pwrite_ok)

lemma fs_pread_ok [os_simps]:
  "fault_free (img fs) \<Longrightarrow> s64_ok off 0 \<Longrightarrow>
    fs_pread fs len off =
      (Some (peek (img fs) (unat off) (min len (os_size (img fs) - unat off))), tick fs)"
  by (simp add: fs_pread_def pread_ok)

end
