(* ===== verification/Block_Alloc.thy ===== *)
theory Block_Alloc
  imports Xxfs_State
begin

text \<open>
  The block allocator of \<^verbatim>\<open>lib/xxfs.c\<close>: \<^verbatim>\<open>page_alloc\<close>, \<^verbatim>\<open>page_alloc_n\<close> and \<^verbatim>\<open>page_alloc_raw\<close>. The first
  two hand out blocks in ascending order behind \<^verbatim>\<open>s_data_off\<close>; nothing is ever given back. While free
  blocks remain, the extents handed out are disjoint (shown once for any bump allocator in the locale
  \<open>bump_allocator\<close>, which \<^verbatim>\<open>page_alloc_n\<close> is shown to be). When none remain, every call returns the
  first data block.
\<close>

section \<open>The code\<close>

definition alloc_off :: "xxfs_super \<Rightarrow> u64" where
  "alloc_off s = s_data_off s +
     (if s_free_blocks s > 0 then (s_block_count s - s_free_blocks s) * 4096 else 0)"

definition page_alloc :: "xxfs \<Rightarrow> u64 \<times> xxfs" where
  "page_alloc fs =
     (let off = alloc_off (sb fs) in
      if s_free_blocks (sb fs) = 0 then
        (case fs_extend fs (nat (sint off + 4096)) of (ok, fs) \<Rightarrow>
           if \<not> ok then (0, fs)
           else (off, fs\<lparr>sb := (sb fs)\<lparr>s_block_count := s_block_count (sb fs) + 1\<rparr>\<rparr>))
      else (off, fs\<lparr>sb := (sb fs)\<lparr>s_free_blocks := s_free_blocks (sb fs) - 1\<rparr>\<rparr>))"

definition page_alloc_n :: "xxfs \<Rightarrow> u64 \<Rightarrow> u64 \<times> xxfs" where
  "page_alloc_n fs n =
     (if n = 0 then (0, fs)
      else if n = 1 then page_alloc fs
      else
        let off = alloc_off (sb fs) in
        if s_free_blocks (sb fs) \<ge> n then
          (off, fs\<lparr>sb := (sb fs)\<lparr>s_free_blocks := s_free_blocks (sb fs) - n\<rparr>\<rparr>)
        else
          let need = n - s_free_blocks (sb fs) in
          case fs_extend fs (nat (sint (off + need * 4096))) of (ok, fs) \<Rightarrow>
            if \<not> ok then (0, fs)
            else (off, fs\<lparr>sb := (sb fs)\<lparr>s_block_count := s_block_count (sb fs) + need,
                                          s_free_blocks := 0\<rparr>\<rparr>))"

definition page_alloc_raw :: "xxfs \<Rightarrow> u64 \<times> xxfs" where
  "page_alloc_raw fs =
     (case xxfs_os_file_size (img fs) of
        (None, f) \<Rightarrow> (0, fs\<lparr>img := f\<rparr>)
      | (Some fsize, f) \<Rightarrow>
          let off = (of_nat fsize + 4096 - 1) AND NOT (4096 - 1) in
          case fs_extend (fs\<lparr>img := f\<rparr>) (nat (sint (off + 4096))) of (ok, fs) \<Rightarrow>
            if \<not> ok then (0, fs) else (off, fs))"

section \<open>Interface: bump allocators\<close>

text \<open>Running a list of requests.\<close>

primrec alloc_run :: "('s \<Rightarrow> nat \<Rightarrow> nat \<times> 's) \<Rightarrow> 's \<Rightarrow> nat list \<Rightarrow> (nat \<times> nat) list \<times> 's" where
  "alloc_run alloc s [] = ([], s)"
| "alloc_run alloc s (n # ns) =
     (let (off, s) = alloc s n; (es, s) = alloc_run alloc s ns in ((off, n) # es, s))"

text \<open>Two extents (offset in bytes, length in blocks) that share no byte.\<close>

definition extents_disjoint :: "nat \<times> nat \<Rightarrow> nat \<times> nat \<Rightarrow> bool" where
  "extents_disjoint a b \<longleftrightarrow> fst a + snd a * 4096 \<le> fst b \<or> fst b + snd b * 4096 \<le> fst a"

locale bump_allocator =
  fixes alloc :: "'s \<Rightarrow> nat \<Rightarrow> nat \<times> 's"
    and frontier :: "'s \<Rightarrow> nat"
    and avail :: "'s \<Rightarrow> nat"
    and inv :: "'s \<Rightarrow> bool"
  assumes alloc_bumps: "inv s \<Longrightarrow> 0 < n \<Longrightarrow> n \<le> avail s \<Longrightarrow> alloc s n = (off, s') \<Longrightarrow>
      off = frontier s \<and> frontier s' = frontier s + n * 4096 \<and> avail s' = avail s - n \<and> inv s'"
begin

lemma run_frontier:
  "inv s \<Longrightarrow> \<forall>n \<in> set ns. 0 < n \<Longrightarrow> sum_list ns \<le> avail s \<Longrightarrow> alloc_run alloc s ns = (es, s') \<Longrightarrow>
    inv s' \<and> frontier s' = frontier s + sum_list ns * 4096 \<and> avail s' = avail s - sum_list ns \<and>
    map snd es = ns \<and> (\<forall>e \<in> set es. frontier s \<le> fst e \<and> fst e + snd e * 4096 \<le> frontier s')"
proof (induction ns arbitrary: s es s')
  case (Cons n ns)
  obtain off s1 where a: "alloc s n = (off, s1)" by fastforce
  obtain es1 where r: "alloc_run alloc s1 ns = (es1, s')" and es: "es = (off, n) # es1"
    using Cons.prems(4) a by (auto split: prod.splits)
  have b: "off = frontier s" "frontier s1 = frontier s + n * 4096" "avail s1 = avail s - n" "inv s1"
    using alloc_bumps [OF Cons.prems(1) _ _ a] Cons.prems(2,3) by auto
  have "inv s' \<and> frontier s' = frontier s1 + sum_list ns * 4096 \<and> avail s' = avail s1 - sum_list ns \<and>
      map snd es1 = ns \<and> (\<forall>e \<in> set es1. frontier s1 \<le> fst e \<and> fst e + snd e * 4096 \<le> frontier s')"
    using b Cons.prems by (intro Cons.IH [OF _ _ _ r]) auto
  with b es show ?case by (auto simp: algebra_simps)
qed simp

lemma run_disjoint:
  "inv s \<Longrightarrow> \<forall>n \<in> set ns. 0 < n \<Longrightarrow> sum_list ns \<le> avail s \<Longrightarrow> alloc_run alloc s ns = (es, s') \<Longrightarrow>
    sorted_wrt extents_disjoint es"
proof (induction ns arbitrary: s es)
  case (Cons n ns)
  obtain off s1 where a: "alloc s n = (off, s1)" by fastforce
  obtain es1 where r: "alloc_run alloc s1 ns = (es1, s')" and es: "es = (off, n) # es1"
    using Cons.prems(4) a by (auto split: prod.splits)
  have b: "off = frontier s" "frontier s1 = frontier s + n * 4096" "avail s1 = avail s - n" "inv s1"
    using alloc_bumps [OF Cons.prems(1) _ _ a] Cons.prems(2,3) by auto
  then have "sorted_wrt extents_disjoint es1"
    using Cons.prems by (intro Cons.IH [OF _ _ _ r]) auto
  moreover have "\<forall>e \<in> set es1. frontier s1 \<le> fst e"
    using run_frontier [OF b(4) _ _ r] Cons.prems b by auto
  ultimately show ?case
    using b es by (auto simp: extents_disjoint_def [of "(_, _)"])
qed simp

end

section \<open>The allocator is a bump allocator while blocks are free\<close>

text \<open>No overflow of the 64-bit arithmetic, and the counters are consistent.\<close>

definition alloc_wf :: "xxfs_super \<Rightarrow> bool" where
  "alloc_wf s \<longleftrightarrow> s_free_blocks s \<le> s_block_count s \<and>
     unat (s_data_off s) + unat (s_block_count s) * 4096 < 2 ^ 63"

definition alloc_frontier :: "xxfs \<Rightarrow> nat" where
  "alloc_frontier fs =
     unat (s_data_off (sb fs)) + (unat (s_block_count (sb fs)) - unat (s_free_blocks (sb fs))) * 4096"

definition alloc_avail :: "xxfs \<Rightarrow> nat" where
  "alloc_avail fs = unat (s_free_blocks (sb fs))"

lemma unat_alloc_off:
  assumes "alloc_wf (sb fs)" and "s_free_blocks (sb fs) > 0"
  shows "unat (alloc_off (sb fs)) = alloc_frontier fs"
proof -
  let ?s = "sb fs"
  have d: "unat (s_block_count ?s - s_free_blocks ?s) = unat (s_block_count ?s) - unat (s_free_blocks ?s)"
    using assms(1) by (simp add: alloc_wf_def unat_sub)
  have b: "(unat (s_block_count ?s) - unat (s_free_blocks ?s)) * 4096 \<le> unat (s_block_count ?s) * 4096"
    by simp
  have "unat ((s_block_count ?s - s_free_blocks ?s) * 4096) =
      unat (s_block_count ?s - s_free_blocks ?s) * unat (4096 :: u64)"
    by (rule unat_mul_nowrap) (use d b assms(1) in \<open>auto simp: alloc_wf_def\<close>)
  then have m: "unat ((s_block_count ?s - s_free_blocks ?s) * 4096) =
      (unat (s_block_count ?s) - unat (s_free_blocks ?s)) * 4096"
    using d by simp
  have "unat (s_data_off ?s + (s_block_count ?s - s_free_blocks ?s) * 4096) =
      unat (s_data_off ?s) + unat ((s_block_count ?s - s_free_blocks ?s) * 4096)"
  proof (rule unat_add_nowrap)
    have "unat (s_data_off ?s) + unat (s_block_count ?s) * 4096 < 2 ^ 63"
      using assms(1) by (simp add: alloc_wf_def)
    then show "unat (s_data_off ?s) + unat ((s_block_count ?s - s_free_blocks ?s) * 4096) < 2 ^ LENGTH(64)"
      unfolding m using b by simp
  qed
  then show ?thesis
    using assms(2) by (simp only: alloc_off_def alloc_frontier_def m if_True)
qed

lemma page_alloc_n_free:
  assumes "0 < n" and "n \<le> s_free_blocks (sb fs)"
  shows "page_alloc_n fs n =
    (alloc_off (sb fs), fs\<lparr>sb := (sb fs)\<lparr>s_free_blocks := s_free_blocks (sb fs) - n\<rparr>\<rparr>)"
proof -
  have "s_free_blocks (sb fs) \<noteq> 0" using assms by auto
  with assms show ?thesis
    by (auto simp: page_alloc_n_def page_alloc_def Let_def)
qed

lemma alloc_wf_take:
  "alloc_wf s \<Longrightarrow> n \<le> s_free_blocks s \<Longrightarrow> alloc_wf (s\<lparr>s_free_blocks := s_free_blocks s - n\<rparr>)"
  by (auto simp: alloc_wf_def word_le_nat_alt unat_sub)

text \<open>Requests in blocks, offsets in bytes.\<close>

definition page_alloc_nat :: "xxfs \<Rightarrow> nat \<Rightarrow> nat \<times> xxfs" where
  "page_alloc_nat fs n = (case page_alloc_n fs (of_nat n) of (off, fs) \<Rightarrow> (unat off, fs))"

interpretation block_alloc:
  bump_allocator page_alloc_nat alloc_frontier alloc_avail "\<lambda>fs. alloc_wf (sb fs)"
proof
  fix fs fs' :: xxfs and n off :: nat
  assume wf: "alloc_wf (sb fs)" and n: "0 < n" "n \<le> alloc_avail fs"
    and a: "page_alloc_nat fs n = (off, fs')"
  have small: "n < 2 ^ 64"
    using n(2) unsigned_less [of "s_free_blocks (sb fs)", where ?'a = nat] by (simp add: alloc_avail_def)
  then have un: "unat (of_nat n :: u64) = n" by (simp add: unat_of_nat)
  have le: "of_nat n \<le> s_free_blocks (sb fs)"
    using n(2) un by (simp add: word_le_nat_alt alloc_avail_def)
  have pos: "0 < (of_nat n :: u64)" using n(1) un by (simp add: word_less_nat_alt)
  note eq = page_alloc_n_free [OF pos le]
  have free: "s_free_blocks (sb fs) > 0" using le pos by (meson less_le_trans)
  have uf: "unat (s_free_blocks (sb fs) - of_nat n) = unat (s_free_blocks (sb fs)) - n"
    using le un by (simp add: unat_sub)
  have fb: "unat (s_free_blocks (sb fs)) \<le> unat (s_block_count (sb fs))"
    using wf by (simp add: alloc_wf_def word_le_nat_alt)
  show "off = alloc_frontier fs \<and> alloc_frontier fs' = alloc_frontier fs + n * 4096 \<and>
      alloc_avail fs' = alloc_avail fs - n \<and> alloc_wf (sb fs')"
    using a eq unat_alloc_off [OF wf free] alloc_wf_take [OF wf le] n fb uf
    by (auto simp: page_alloc_nat_def alloc_frontier_def alloc_avail_def)
qed

text \<open>C34: as long as the requests fit into the free blocks, the allocator hands out pairwise disjoint
  extents, all of them inside the data area.\<close>

theorem allocated_extents_disjoint:
  assumes "alloc_wf (sb fs)" and "\<forall>n \<in> set ns. 0 < n" and "sum_list ns \<le> unat (s_free_blocks (sb fs))"
    and "alloc_run page_alloc_nat fs ns = (es, fs')"
  shows "sorted_wrt extents_disjoint es \<and> map snd es = ns \<and>
    (\<forall>e \<in> set es. unat (s_data_off (sb fs)) \<le> fst e \<and>
       fst e + snd e * 4096 \<le> unat (s_data_off (sb fs)) + unat (s_block_count (sb fs)) * 4096)"
proof -
  have av: "sum_list ns \<le> alloc_avail fs" using assms(3) by (simp add: alloc_avail_def)
  note fr = block_alloc.run_frontier [OF assms(1,2) av assms(4)]
  have "alloc_frontier fs' \<le> unat (s_data_off (sb fs)) + unat (s_block_count (sb fs)) * 4096"
  proof -
    have "unat (s_free_blocks (sb fs)) \<le> unat (s_block_count (sb fs))"
      using assms(1) by (simp add: alloc_wf_def word_le_nat_alt)
    then have "(unat (s_block_count (sb fs)) - unat (s_free_blocks (sb fs)) + sum_list ns) * 4096
        \<le> unat (s_block_count (sb fs)) * 4096"
      using assms(3) by (intro mult_right_mono) auto
    with fr show ?thesis by (simp only: alloc_frontier_def [of fs] add_mult_distrib)
  qed
  moreover have "unat (s_data_off (sb fs)) \<le> alloc_frontier fs"
    by (simp add: alloc_frontier_def)
  ultimately show ?thesis
    using fr block_alloc.run_disjoint [OF assms(1,2) av assms(4)] by fastforce
qed

definition alloc_sample :: xxfs where
  "alloc_sample = (zero_xxfs blank_file)
     \<lparr>sb := zero_super\<lparr>s_data_off := 8192, s_block_count := 16, s_free_blocks := 15\<rparr>\<rparr>"

theorem allocated_extents_disjoint_witness:
  "\<exists>es fs'. alloc_run page_alloc_nat alloc_sample [1, 3] = (es, fs') \<and> sorted_wrt extents_disjoint es"
proof -
  obtain es fs' where r: "alloc_run page_alloc_nat alloc_sample [1, 3] = (es, fs')"
    by fastforce
  moreover have "alloc_wf (sb alloc_sample)" "sum_list [1, 3] \<le> unat (s_free_blocks (sb alloc_sample))"
    by (simp_all add: alloc_sample_def alloc_wf_def)
  ultimately show ?thesis
    using allocated_extents_disjoint [of alloc_sample "[1, 3]" es fs'] by auto
qed

section \<open>The exhausted allocator\<close>

lemma fs_extend_ok:
  assumes "fault_free (img fs)" and "n < 2 ^ 63"
  shows "\<exists>f. fs_extend fs n = (True, fs\<lparr>img := f\<rparr>) \<and> fault_free f"
  using assms
  by (auto simp: fs_extend_def xxfs_os_file_extend_def xxfs_os_file_size_def xxfs_os_file_truncate_def
      os_call_ok fault_free_def os_call_def)

lemma page_alloc_exhausted:
  assumes "s_free_blocks (sb fs) = 0" and "fault_free (img fs)" and "unat (s_data_off (sb fs)) < 2 ^ 62"
  obtains f where "fault_free f" and "page_alloc fs =
    (s_data_off (sb fs), fs\<lparr>img := f, sb := (sb fs)\<lparr>s_block_count := s_block_count (sb fs) + 1\<rparr>\<rparr>)"
proof -
  have "sint (s_data_off (sb fs)) = int (unat (s_data_off (sb fs)))"
    using assms(3) by (intro sint_small) simp
  then have "nat (sint (s_data_off (sb fs)) + 4096) = unat (s_data_off (sb fs)) + 4096"
    by (simp only: nat_int_add of_nat_numeral [symmetric, where ?'a = int])
  then have "nat (sint (s_data_off (sb fs)) + 4096) < 2 ^ 63"
    using assms(3) by simp
  with fs_extend_ok [OF assms(2)] obtain f where
    "fs_extend fs (nat (sint (s_data_off (sb fs)) + 4096)) = (True, fs\<lparr>img := f\<rparr>)" "fault_free f"
    by blast
  then show thesis
    using that [of f] assms(1) by (simp add: page_alloc_def alloc_off_def)
qed

text \<open>C35: once no block is free, the allocator does not fail: every further call returns the first
  data block again, where the record of the root directory lives.\<close>

theorem exhausted_allocator_reuses_first_block:
  assumes "s_free_blocks (sb fs) = 0" and "fault_free (img fs)" and "unat (s_data_off (sb fs)) < 2 ^ 62"
  shows "fst (page_alloc fs) = s_data_off (sb fs) \<and>
    fst (page_alloc (snd (page_alloc fs))) = s_data_off (sb fs)"
proof -
  obtain f where f: "fault_free f" and 1: "page_alloc fs = (s_data_off (sb fs),
      fs\<lparr>img := f, sb := (sb fs)\<lparr>s_block_count := s_block_count (sb fs) + 1\<rparr>\<rparr>)"
    using assms by (rule page_alloc_exhausted)
  obtain f' where "page_alloc (snd (page_alloc fs)) = (s_data_off (sb fs), f')"
    using assms f by (rule_tac fs = "snd (page_alloc fs)" in page_alloc_exhausted) (auto simp: 1)
  with 1 show ?thesis by simp
qed

theorem exhausted_allocator_reuses_first_block_witness:
  "fst (page_alloc (alloc_sample\<lparr>sb := (sb alloc_sample)\<lparr>s_free_blocks := 0\<rparr>\<rparr>)) = 8192"
  using exhausted_allocator_reuses_first_block [of "alloc_sample\<lparr>sb := (sb alloc_sample)\<lparr>s_free_blocks := 0\<rparr>\<rparr>"]
  by (simp add: alloc_sample_def zero_xxfs_def)

end
