(* ===== verification/Page_Cache.thy ===== *)
theory Page_Cache
  imports Xxfs_State
begin

text \<open>
  The write-back cache of index pages of \<^verbatim>\<open>lib/xxfs.c\<close>: \<^verbatim>\<open>page_load\<close>, \<^verbatim>\<open>page_writeback\<close>,
  \<^verbatim>\<open>page_cache_invalidate\<close> and \<^verbatim>\<open>pcache_flush_all\<close>. The cache is direct mapped: a block has one slot,
  and loading another block of the same slot writes a dirty page back first.

  The cache is correct when nobody can tell that it is there: \<open>lblock\<close> is the contents of a block as
  seen through the cache, \<open>pc_inv\<close> the coherence invariant, and every operation is described by what it
  does to \<open>lblock\<close>. The contract is the locale \<open>page_provider\<close>.
\<close>

section \<open>The code\<close>

definition PCACHE_SIZE :: nat where "PCACHE_SIZE = 4096"

definition pcache_idx :: "u64 \<Rightarrow> nat" where
  "pcache_idx off = unat (drop_bit 12 off AND 4095)"

text \<open>The pages of the cache are reached through the pointers that \<^verbatim>\<open>page_load\<close> returns. Such a pointer is
  named by the offset of the page and is valid while the slot still holds that page.\<close>

definition cached :: "xxfs \<Rightarrow> u64 \<Rightarrow> paged_page option" where
  "cached fs off =
     (let c = pcache fs (pcache_idx off) in if pc_page_off c = off then pc_page c else None)"

definition set_pcache :: "nat \<Rightarrow> paged_cache \<Rightarrow> xxfs \<Rightarrow> xxfs" where
  "set_pcache i c fs = fs\<lparr>pcache := (pcache fs)(i := c)\<rparr>"

text \<open>The first half of \<^verbatim>\<open>page_load\<close>: the slot is written back when dirty and emptied. A failure of the
  write is ignored.\<close>

definition page_evict :: "xxfs \<Rightarrow> nat \<Rightarrow> xxfs" where
  "page_evict fs i =
     (let c = pcache fs i in
      case pc_page c of
        None \<Rightarrow> fs
      | Some pg \<Rightarrow>
          let fs = (if pc_dirty c then snd (fs_pwrite fs (enc_page pg) (pc_page_off c)) else fs)
          in set_pcache i (c\<lparr>pc_page := None, pc_dirty := False\<rparr>) fs)"

definition page_load :: "xxfs \<Rightarrow> u64 \<Rightarrow> paged_page option \<times> xxfs" where
  "page_load fs off =
     (let i = pcache_idx off in
      case cached fs off of
        Some pg \<Rightarrow> (Some pg, fs)
      | None \<Rightarrow>
          let fs = page_evict fs i in
          case fs_alloc fs of (ok, fs) \<Rightarrow>
            if \<not> ok then (None, fs)
            else
              case fs_pread fs 4096 off of
                (None, fs) \<Rightarrow> (None, fs)
              | (Some bs, fs) \<Rightarrow>
                  let pg = dec_page (into_buf bs (zeros 4096)) in
                  (Some pg, set_pcache i \<lparr>pc_page_off = off, pc_page = Some pg, pc_dirty = False\<rparr> fs))"

text \<open>Writing through the pointer to the page of \<open>off\<close>; \<open>None\<close> when the pointer dangles.\<close>

definition page_store :: "xxfs \<Rightarrow> u64 \<Rightarrow> paged_page \<Rightarrow> xxfs option" where
  "page_store fs off pg =
     (case cached fs off of
        None \<Rightarrow> None
      | Some _ \<Rightarrow>
          Some (set_pcache (pcache_idx off) ((pcache fs (pcache_idx off))\<lparr>pc_page := Some pg\<rparr>) fs))"

definition page_writeback :: "xxfs \<Rightarrow> paged_page \<Rightarrow> u64 \<Rightarrow> xxfs" where
  "page_writeback fs pg off =
     (let i = pcache_idx off; c = pcache fs i in
      if pc_page_off c = off \<and> pc_page c = Some pg then set_pcache i (c\<lparr>pc_dirty := True\<rparr>) fs
      else snd (fs_pwrite fs (enc_page pg) off))"

text \<open>The page is mutated in place and handed to \<^verbatim>\<open>page_writeback\<close>.\<close>

definition page_update :: "xxfs \<Rightarrow> u64 \<Rightarrow> paged_page \<Rightarrow> xxfs option" where
  "page_update fs off pg = do { fs \<leftarrow> page_store fs off pg; Some (page_writeback fs pg off) }"

definition pcache_flush_slot :: "xxfs \<Rightarrow> nat \<Rightarrow> xxfs" where
  "pcache_flush_slot fs i =
     (let c = pcache fs i in
      case pc_page c of
        Some pg \<Rightarrow>
          if pc_dirty c
          then set_pcache i (c\<lparr>pc_dirty := False\<rparr>) (snd (fs_pwrite fs (enc_page pg) (pc_page_off c)))
          else fs
      | None \<Rightarrow> fs)"

definition pcache_flush_all :: "xxfs \<Rightarrow> xxfs" where
  "pcache_flush_all fs = foldl pcache_flush_slot fs [0..<PCACHE_SIZE]"

definition page_cache_invalidate :: "xxfs \<Rightarrow> u64 \<Rightarrow> xxfs" where
  "page_cache_invalidate fs off =
     (let i = pcache_idx off; c = pcache fs i in
      case cached fs off of
        None \<Rightarrow> fs
      | Some pg \<Rightarrow>
          let fs = (if pc_dirty c then snd (fs_pwrite fs (enc_page pg) off) else fs)
          in set_pcache i \<lparr>pc_page_off = 0, pc_page = None, pc_dirty = False\<rparr> fs)"

section \<open>The disk seen through the cache\<close>

text \<open>Block offsets: aligned, and representable as a file offset.\<close>

definition blk :: "u64 \<Rightarrow> bool" where
  "blk off \<longleftrightarrow> 4096 dvd unat off \<and> unat off + 4096 < 2 ^ 63"

definition lblock :: "xxfs \<Rightarrow> u64 \<Rightarrow> bytes" where
  "lblock fs off = (case cached fs off of Some pg \<Rightarrow> enc_page pg | None \<Rightarrow> peek (img fs) (unat off) 4096)"

definition lpage :: "xxfs \<Rightarrow> u64 \<Rightarrow> paged_page" where
  "lpage fs off = dec_page (lblock fs off)"

definition slot_ok :: "os_file \<Rightarrow> nat \<Rightarrow> paged_cache \<Rightarrow> bool" where
  "slot_ok f i c \<longleftrightarrow>
     (case pc_page c of
        None \<Rightarrow> True
      | Some pg \<Rightarrow> pcache_idx (pc_page_off c) = i \<and> blk (pc_page_off c) \<and> wf_page pg \<and>
          (\<not> pc_dirty c \<longrightarrow> enc_page pg = peek f (unat (pc_page_off c)) 4096))"

definition pc_inv :: "xxfs \<Rightarrow> bool" where
  "pc_inv fs \<longleftrightarrow> fault_free (img fs) \<and> os_wf (img fs) \<and> (\<forall>i. slot_ok (img fs) i (pcache fs i))"

text \<open>Same contents of every block, and nothing changed but the image, which may have grown, and the
  cache.\<close>

definition same_blocks :: "xxfs \<Rightarrow> xxfs \<Rightarrow> bool" where
  "same_blocks fs fs' \<longleftrightarrow> (\<forall>off. blk off \<longrightarrow> lblock fs' off = lblock fs off) \<and>
     os_size (img fs) \<le> os_size (img fs') \<and>
     (\<exists>f p. fs' = fs\<lparr>img := f, pcache := p\<rparr>)"

lemma same_blocks_refl [simp]: "same_blocks fs fs"
  unfolding same_blocks_def
  by (intro conjI allI impI exI [of _ "img fs"] exI [of _ "pcache fs"]) (simp_all add: xxfs.equality)

lemma same_blocks_trans [trans]:
  assumes "same_blocks a b" and "same_blocks b c"
  shows "same_blocks a c"
proof -
  obtain f p g q where "b = a\<lparr>img := f, pcache := p\<rparr>" "c = b\<lparr>img := g, pcache := q\<rparr>"
    using assms by (auto simp: same_blocks_def)
  then have "c = a\<lparr>img := g, pcache := q\<rparr>" by simp
  moreover have "\<forall>off. blk off \<longrightarrow> lblock c off = lblock a off"
    using assms by (simp add: same_blocks_def)
  moreover have "os_size (img a) \<le> os_size (img c)"
    using assms unfolding same_blocks_def by linarith
  ultimately show ?thesis unfolding same_blocks_def by blast
qed

lemma blk_apart:
  assumes "blk a" and "blk b" and "a \<noteq> b"
  shows "unat a + 4096 \<le> unat b \<or> unat b + 4096 \<le> unat a"
proof -
  obtain m n where mn: "unat a = 4096 * m" "unat b = 4096 * n"
    using assms(1,2) unfolding blk_def by (elim conjE dvdE)
  moreover have "unat a \<noteq> unat b" using assms(3) by (simp add: word_unat_eq_iff [symmetric])
  then have "m \<noteq> n" unfolding mn by blast
  then have "Suc m \<le> n \<or> Suc n \<le> m" by linarith
  ultimately show ?thesis by fastforce
qed

lemma blk_s64: "blk off \<Longrightarrow> n \<le> 4096 \<Longrightarrow> s64_ok off n"
  by (simp add: blk_def s64_ok_def)

lemma cached_slot: "cached fs off = Some pg \<Longrightarrow>
    pc_page_off (pcache fs (pcache_idx off)) = off \<and> pc_page (pcache fs (pcache_idx off)) = Some pg"
  by (auto simp: cached_def Let_def split: if_splits)

lemma pc_inv_cached:
  assumes "pc_inv fs" and "cached fs off = Some pg"
  shows "blk off" and "wf_page pg" and "enc_page pg = lblock fs off" and "lpage fs off = pg"
proof -
  have "slot_ok (img fs) (pcache_idx off) (pcache fs (pcache_idx off))"
    using assms(1) by (simp add: pc_inv_def)
  with cached_slot [OF assms(2)] show "blk off" "wf_page pg"
    by (simp_all add: slot_ok_def)
  then show "enc_page pg = lblock fs off" "lpage fs off = pg"
    using assms(2) by (simp_all add: lpage_def lblock_def page_codec.dec_enc)
qed

lemma length_lblock [simp]: "pc_inv fs \<Longrightarrow> length (lblock fs off) = 4096"
  by (cases "cached fs off") (auto simp: lblock_def page_codec.enc_length dest: pc_inv_cached(2))

lemma wf_lpage [simp]: "pc_inv fs \<Longrightarrow> wf_page (lpage fs off)"
  by (simp add: lpage_def page_codec.wf_dec)

lemma same_lpage: "same_blocks fs fs' \<Longrightarrow> blk off \<Longrightarrow> lpage fs' off = lpage fs off"
  by (simp add: same_blocks_def lpage_def)

section \<open>Writing a slot back\<close>

text \<open>A clean slot may be emptied, and a dirty one written out, without a change of the view.\<close>

lemma set_pcache_fields [simp]:
  "img (set_pcache i c fs) = img fs" "pcache (set_pcache i c fs) = (pcache fs)(i := c)"
  by (simp_all add: set_pcache_def)

lemma cached_tick [simp]: "cached (fs\<lparr>img := f\<rparr>) = cached fs"
  by (simp add: cached_def fun_eq_iff)

lemma cached_set_pcache:
  "cached (set_pcache i c fs) off =
    (if pcache_idx off = i then (if pc_page_off c = off then pc_page c else None) else cached fs off)"
  by (simp add: cached_def set_pcache_def Let_def)

lemma slot_ok_poke:
  assumes "slot_ok f i c" and "blk off" and "length bs \<le> 4096"
    and "pc_page c \<noteq> None \<longrightarrow> pc_page_off c \<noteq> off"
  shows "slot_ok (poke f (unat off) bs) i c"
proof (cases "pc_page c")
  case (Some pg)
  then have "blk (pc_page_off c)" "pc_page_off c \<noteq> off" using assms by (auto simp: slot_ok_def)
  then have "peek (poke f (unat off) bs) (unat (pc_page_off c)) 4096 = peek f (unat (pc_page_off c)) 4096"
    using blk_apart [OF _ assms(2)] assms(3) by (intro peek_poke_other) fastforce
  with Some assms(1) show ?thesis by (simp add: slot_ok_def)
qed (simp add: slot_ok_def)

lemma slot_ok_calls [simp]: "slot_ok (f\<lparr>os_calls := n\<rparr>) i c = slot_ok f i c"
  by (simp add: slot_ok_def split: option.split)

lemma lblock_poke_other:
  assumes "blk off" and "blk r" and "r \<noteq> off" and "length bs \<le> 4096"
  shows "peek (poke f (unat off) bs) (unat r) 4096 = peek f (unat r) 4096"
  using blk_apart [OF assms(2,1,3)] assms(4) by (intro peek_poke_other) fastforce

text \<open>Emptying or cleaning one slot, after the page it holds was written when it was dirty.\<close>

lemma write_slot:
  assumes inv: "pc_inv fs" and pg: "pc_page (pcache fs i) = Some pg" and d: "pc_dirty c \<longrightarrow> pc_page c = None"
    and c: "pc_page c = None \<or> pc_page c = Some pg \<and> pc_page_off c = pc_page_off (pcache fs i)"
    and fs': "fs' = set_pcache i c (if pc_dirty (pcache fs i)
      then snd (fs_pwrite fs (enc_page pg) (pc_page_off (pcache fs i))) else fs)"
  shows "pc_inv fs' \<and> same_blocks fs fs' \<and> (\<forall>r. r \<noteq> pc_page_off (pcache fs i) \<longrightarrow> cached fs' r = cached fs r) \<and>
    peek (img fs') (unat (pc_page_off (pcache fs i))) 4096 = enc_page pg"
proof -
  let ?off = "pc_page_off (pcache fs i)"
  have ok: "slot_ok (img fs) i (pcache fs i)" and ff: "fault_free (img fs)" and wf: "os_wf (img fs)"
    using inv by (auto simp: pc_inv_def)
  have off: "blk ?off" "pcache_idx ?off = i" "wf_page pg"
    using ok pg by (simp_all add: slot_ok_def)
  have len: "length (enc_page pg) = 4096" using off(3) by (rule page_codec.enc_length)
  define f where "f = (if pc_dirty (pcache fs i) then
      poke ((img fs)\<lparr>os_calls := Suc (os_calls (img fs))\<rparr>) (unat ?off) (enc_page pg) else img fs)"
  have fs': "fs' = set_pcache i c (fs\<lparr>img := f\<rparr>)"
    unfolding fs' f_def using ff off len by (simp add: fs_pwrite_ok blk_s64)
  have on: "peek f (unat ?off) 4096 = enc_page pg"
    using ok pg len by (auto simp: f_def peek_poke_same slot_ok_def)
  have other: "peek f (unat r) 4096 = peek (img fs) (unat r) 4096" if "blk r" "r \<noteq> ?off" for r
    using lblock_poke_other [OF off(1) that] len by (simp add: f_def)
  have slots: "slot_ok f j (pcache fs j)" if "j \<noteq> i" for j
  proof -
    have "slot_ok (img fs) j (pcache fs j)" using inv by (simp add: pc_inv_def)
    moreover have "pc_page (pcache fs j) \<noteq> None \<longrightarrow> pc_page_off (pcache fs j) \<noteq> ?off"
      using calculation off(2) that by (auto simp: slot_ok_def)
    ultimately show ?thesis
      unfolding f_def using slot_ok_poke off(1) len by auto
  qed
  have "slot_ok f i c" using c d on off by (auto simp: slot_ok_def)
  with slots have "\<forall>j. slot_ok (img fs') j (pcache fs' j)"
    by (simp add: fs' set_pcache_def)
  moreover have "fault_free f" "os_wf f" using ff wf by (simp_all add: f_def os_wf_poke)
  ultimately have "pc_inv fs'" by (simp add: pc_inv_def fs' set_pcache_def)
  have cs: "cached fs' r = cached fs r" if "r \<noteq> ?off" for r
  proof (cases "pcache_idx r = i")
    case True
    then have "cached fs r = None" using that by (auto simp: cached_def)
    with True that c show ?thesis by (auto simp: fs' cached_set_pcache)
  qed (simp add: fs' cached_set_pcache)
  have "lblock fs' r = lblock fs r" if "blk r" for r
  proof (cases "r = ?off")
    case True
    have "cached fs r = Some pg" using True off(2) pg by (simp add: cached_def)
    moreover have "cached fs' r = None \<or> cached fs' r = Some pg"
      using True off(2) c by (auto simp: fs' cached_set_pcache)
    ultimately show ?thesis using on True by (auto simp: lblock_def fs' set_pcache_def)
  next
    case False
    then show ?thesis using other [OF that False] cs [OF False]
      by (simp add: lblock_def fs' set_pcache_def split: option.split)
  qed
  moreover have "fs' = fs\<lparr>img := f, pcache := (pcache fs)(i := c)\<rparr>"
    by (simp add: fs' set_pcache_def)
  moreover have "os_size (img fs) \<le> os_size (img fs')"
    using os_size_poke_le [of "(img fs)\<lparr>os_calls := Suc (os_calls (img fs))\<rparr>"] by (simp add: fs' f_def)
  ultimately have "same_blocks fs fs'"
    unfolding same_blocks_def by blast
  with \<open>pc_inv fs'\<close> cs on show ?thesis by (simp add: fs' set_pcache_def)
qed

lemma same_blocks_tick: "same_blocks fs (tick fs)"
  unfolding same_blocks_def lblock_def
  by (intro conjI allI impI exI [of _ "img (tick fs)"] exI [of _ "pcache fs"])
    (simp_all add: xxfs.equality split: option.split)

section \<open>Loading a page\<close>

lemma page_evict_ok:
  assumes "pc_inv fs"
  shows "pc_inv (page_evict fs i) \<and> same_blocks fs (page_evict fs i) \<and>
    pc_page (pcache (page_evict fs i) i) = None \<and>
    (\<forall>r. cached fs r = None \<longrightarrow> cached (page_evict fs i) r = None)"
proof (cases "pc_page (pcache fs i)")
  case None
  then show ?thesis using assms by (simp add: page_evict_def)
next
  case (Some pg)
  let ?c = "(pcache fs i)\<lparr>pc_page := None, pc_dirty := False\<rparr>"
  have eq: "page_evict fs i = set_pcache i ?c (if pc_dirty (pcache fs i)
      then snd (fs_pwrite fs (enc_page pg) (pc_page_off (pcache fs i))) else fs)"
    using Some by (simp add: page_evict_def Let_def)
  have "cached (page_evict fs i) r = None" if "cached fs r = None" for r
    using that by (auto simp: eq cached_set_pcache fs_pwrite_def split: prod.split)
  moreover have "pc_page (pcache (page_evict fs i) i) = None" by (simp add: eq set_pcache_def)
  ultimately show ?thesis
    using write_slot [OF assms Some _ _ eq] by simp
qed

text \<open>Installing a clean copy of a block in the empty slot.\<close>

lemma install_ok:
  assumes inv: "pc_inv fs" and e: "pc_page (pcache fs (pcache_idx off)) = None" and off: "blk off"
    and fs': "fs' = set_pcache (pcache_idx off)
      \<lparr>pc_page_off = off, pc_page = Some (dec_page (peek (img fs) (unat off) 4096)), pc_dirty = False\<rparr> (tick fs)"
  shows "pc_inv fs' \<and> same_blocks fs fs' \<and> cached fs' off = Some (lpage fs off) \<and>
    (\<forall>r. r \<noteq> off \<longrightarrow> cached fs r = None \<longrightarrow> cached fs' r = None)"
proof -
  have un: "cached fs off = None" using e by (simp add: cached_def Let_def)
  have cs: "cached fs' r = (if r = off then Some (dec_page (peek (img fs) (unat off) 4096)) else cached fs r)" for r
    using e by (auto simp: fs' cached_set_pcache) (simp add: cached_def Let_def)
  have im: "peek (img fs') = peek (img fs)" by (simp add: fs' set_pcache_def)
  have "pc_inv fs'"
    using inv off by (simp add: pc_inv_def fs' slot_ok_def [of _ "pcache_idx off"] page_codec.enc_dec page_codec.wf_dec)
  moreover have "lblock fs' r = lblock fs r" for r
    using un by (auto simp: lblock_def cs im page_codec.enc_dec split: option.split)
  then have "same_blocks fs fs'"
    unfolding same_blocks_def fs' set_pcache_def by auto
  moreover have "cached fs' off = Some (lpage fs off)"
    using un by (simp add: cs lpage_def lblock_def)
  ultimately show ?thesis by (simp add: cs)
qed

lemma page_load_ok:
  assumes inv: "pc_inv fs" and off: "blk off"
  obtains fs' where "page_load fs off = (Some (lpage fs off), fs')" and "pc_inv fs'" and "same_blocks fs fs'"
    and "cached fs' off = Some (lpage fs off)" and "\<And>r. r \<noteq> off \<Longrightarrow> cached fs r = None \<Longrightarrow> cached fs' r = None"
proof (cases "cached fs off")
  case (Some pg)
  then have "page_load fs off = (Some (lpage fs off), fs)"
    using pc_inv_cached [OF inv Some] by (simp add: page_load_def)
  with Some inv pc_inv_cached [OF inv Some] show thesis by (intro that [of fs]) auto
next
  case None
  define g where "g = page_evict fs (pcache_idx off)"
  have g: "pc_inv g" "same_blocks fs g" "pc_page (pcache g (pcache_idx off)) = None"
    "\<And>r. cached fs r = None \<Longrightarrow> cached g r = None"
    using page_evict_ok [OF inv] by (auto simp: g_def)
  have ff: "fault_free (img g)" "os_wf (img g)" using g(1) by (auto simp: pc_inv_def)
  let ?fs' = "set_pcache (pcache_idx off) \<lparr>pc_page_off = off,
      pc_page = Some (dec_page (peek (img g) (unat off) 4096)), pc_dirty = False\<rparr> (tick (tick g))"
  have g': "pc_inv (tick g)" using g(1) by (simp add: pc_inv_def)
  have tg: "same_blocks g (tick g)" by (rule same_blocks_tick)
  have e: "pc_page (pcache (tick g) (pcache_idx off)) = None" using g(3) by simp
  have s: "?fs' = set_pcache (pcache_idx off) \<lparr>pc_page_off = off,
      pc_page = Some (dec_page (peek (img (tick g)) (unat off) 4096)), pc_dirty = False\<rparr> (tick (tick g))"
    by simp
  note ins = install_ok [OF g' e off s]
  have same: "same_blocks fs ?fs'" using g(2) tg ins by (blast intro: same_blocks_trans)
  have lp: "lpage (tick g) off = lpage fs off"
    using same_lpage [OF same_blocks_trans [OF g(2) tg] off] .
  have un: "cached g off = None" using g(3) by (simp add: cached_def Let_def)
  have "into_buf (peek (img g) (unat off) (min 4096 (os_size (img g) - unat off))) (zeros 4096) =
      peek (img g) (unat off) 4096"
    by (rule into_buf_zeros [OF ff(2)])
  moreover have "dec_page (peek (img g) (unat off) 4096) = lpage fs off"
    using lp un by (simp add: lpage_def lblock_def)
  ultimately have "page_load fs off = (Some (lpage fs off), ?fs')"
    using None ff off by (simp add: page_load_def Let_def g_def [symmetric] fs_alloc_ok fs_pread_ok blk_s64)
  moreover have "cached ?fs' r = None" if "r \<noteq> off" "cached fs r = None" for r
    using ins that g(4) by simp
  ultimately show thesis using ins lp same by (intro that [of ?fs']) auto
qed

text \<open>C32: loading a page returns the contents of the block as seen through the cache, and no block
  changes its contents, whatever page has to make room.\<close>

theorem page_load_transparent:
  assumes "pc_inv fs" and "blk off"
  shows "\<exists>fs'. page_load fs off = (Some (lpage fs off), fs') \<and> pc_inv fs' \<and>
    (\<forall>r. blk r \<longrightarrow> lblock fs' r = lblock fs r) \<and> sb fs' = sb fs \<and> pdir fs' = pdir fs"
proof -
  obtain fs' where "page_load fs off = (Some (lpage fs off), fs')" "pc_inv fs'" "same_blocks fs fs'"
    using page_load_ok [OF assms] by metis
  then show ?thesis by (auto simp: same_blocks_def)
qed

lemma pc_inv_fresh: "fault_free f \<Longrightarrow> os_wf f \<Longrightarrow> pc_inv (zero_xxfs f)"
  by (simp add: pc_inv_def zero_xxfs_def zero_paged_cache_def slot_ok_def)

lemma os_wf_blank: "os_wf blank_file"
  by (simp add: os_wf_def blank_file_def)

theorem page_load_transparent_witness:
  "\<exists>fs'. page_load (zero_xxfs blank_file) 8192 = (Some (lpage (zero_xxfs blank_file) 8192), fs') \<and> pc_inv fs'"
  using page_load_transparent [of "zero_xxfs blank_file" 8192] pc_inv_fresh [of blank_file] os_wf_blank
  by (auto simp: blk_def)

section \<open>Changing a block\<close>

lemma page_update_ok:
  assumes inv: "pc_inv fs" and c: "cached fs off = Some p" and q: "wf_page q"
  obtains fs' where "page_update fs off q = Some fs'" and "pc_inv fs'"
    and "\<exists>pc. fs' = fs\<lparr>pcache := pc\<rparr>" and "\<And>r. cached fs' r = (if r = off then Some q else cached fs r)"
    and "\<And>r. lblock fs' r = (if r = off then enc_page q else lblock fs r)"
proof -
  let ?i = "pcache_idx off"
  let ?c = "(pcache fs ?i)\<lparr>pc_page := Some q, pc_dirty := True\<rparr>"
  let ?fs' = "set_pcache ?i ?c fs"
  note sl = cached_slot [OF c]
  have "page_update fs off q = Some ?fs'"
    using c sl by (simp add: page_update_def page_store_def page_writeback_def set_pcache_def Let_def)
  moreover have cs: "cached ?fs' r = (if r = off then Some q else cached fs r)" for r
    using sl by (auto simp: cached_set_pcache) (auto simp: cached_def Let_def)
  moreover have "pc_inv ?fs'"
    using inv q sl pc_inv_cached(1) [OF inv c] by (simp add: pc_inv_def set_pcache_def slot_ok_def)
  moreover have "lblock ?fs' r = (if r = off then enc_page q else lblock fs r)" for r
    by (simp add: lblock_def cs split: option.split)
  ultimately show thesis by (intro that [of ?fs']) (auto simp: set_pcache_def)
qed

text \<open>A write that bypasses the cache, inside a block that is not cached.\<close>

lemma direct_write_ok:
  assumes inv: "pc_inv fs" and off: "blk off" and un: "cached fs off = None"
    and len: "a + length bs \<le> 4096" and o: "o' = off + of_nat a"
  obtains fs' where "fs_pwrite fs bs o' = (True, fs')" and "pc_inv fs'" and "\<exists>f. fs' = fs\<lparr>img := f\<rparr>"
    and "cached fs' = cached fs" and "os_size (img fs) \<le> os_size (img fs')"
    and "bs \<noteq> [] \<Longrightarrow> unat off + a + length bs \<le> os_size (img fs')"
    and "\<And>r. blk r \<Longrightarrow> lblock fs' r = (if r = off then buf_put a bs (lblock fs off) else lblock fs r)"
proof -
  let ?f = "poke ((img fs)\<lparr>os_calls := Suc (os_calls (img fs))\<rparr>) (unat off + a) bs"
  have "unat (of_nat a :: u64) = a" using len by (simp add: unat_of_nat)
  then have u: "unat o' = unat off + a"
    unfolding o using off len by (subst unat_add_nowrap) (auto simp: blk_def)
  have ff: "fault_free (img fs)" and wf: "os_wf (img fs)" using inv by (auto simp: pc_inv_def)
  have w: "fs_pwrite fs bs o' = (True, fs\<lparr>img := ?f\<rparr>)"
    using ff off len u by (simp add: fs_pwrite_ok s64_ok_def blk_def)
  have other: "peek ?f (unat r) 4096 = peek (img fs) (unat r) 4096" if "blk r" "r \<noteq> off" for r
    using blk_apart [OF that(1) off that(2)] len by (subst peek_poke_other) auto
  have same: "peek ?f (unat off) 4096 = buf_put a bs (peek (img fs) (unat off) 4096)"
    by (rule nth_equalityI) (use len in \<open>auto simp: peek_nth buf_put_nth os_byte_poke\<close>)
  have sl: "slot_ok ?f i (pcache fs i)" for i
  proof (cases "pc_page (pcache fs i)")
    case (Some pg)
    have ok: "slot_ok (img fs) i (pcache fs i)" using inv by (simp add: pc_inv_def)
    then have "pc_page_off (pcache fs i) \<noteq> off"
      using un Some by (auto simp: slot_ok_def cached_def Let_def)
    with ok Some other show ?thesis by (simp add: slot_ok_def)
  qed (simp add: slot_ok_def)
  have "pc_inv (fs\<lparr>img := ?f\<rparr>)" using sl ff wf by (simp add: pc_inv_def os_wf_poke)
  moreover have "lblock (fs\<lparr>img := ?f\<rparr>) r = (if r = off then buf_put a bs (lblock fs off) else lblock fs r)"
    if "blk r" for r
    using same other [OF that] un by (auto simp: lblock_def split: option.split)
  ultimately show thesis using w by (intro that [of "fs\<lparr>img := ?f\<rparr>"]) (auto simp: poke_def)
qed

lemma page_cache_invalidate_uncached: "cached fs off = None \<Longrightarrow> page_cache_invalidate fs off = fs"
  by (simp add: page_cache_invalidate_def)

lemma page_cache_invalidate_ok:
  assumes "pc_inv fs"
  shows "pc_inv (page_cache_invalidate fs off) \<and> same_blocks fs (page_cache_invalidate fs off)"
proof (cases "cached fs off")
  case None
  then show ?thesis using assms by (simp add: page_cache_invalidate_uncached)
next
  case (Some pg)
  note sl = cached_slot [OF Some]
  have "page_cache_invalidate fs off = set_pcache (pcache_idx off)
      \<lparr>pc_page_off = 0, pc_page = None, pc_dirty = False\<rparr> (if pc_dirty (pcache fs (pcache_idx off))
      then snd (fs_pwrite fs (enc_page pg) (pc_page_off (pcache fs (pcache_idx off)))) else fs)"
    using Some sl by (simp add: page_cache_invalidate_def Let_def)
  from write_slot [OF assms _ _ _ this] sl show ?thesis by simp
qed

section \<open>Flushing\<close>

lemma flush_slot_ok:
  assumes "pc_inv fs"
  shows "pc_inv (pcache_flush_slot fs i) \<and> same_blocks fs (pcache_flush_slot fs i) \<and>
    (pc_page (pcache (pcache_flush_slot fs i) i) \<noteq> None \<longrightarrow> \<not> pc_dirty (pcache (pcache_flush_slot fs i) i)) \<and>
    (\<forall>j. j \<noteq> i \<longrightarrow> pcache (pcache_flush_slot fs i) j = pcache fs j)"
proof (cases "\<exists>pg. pc_page (pcache fs i) = Some pg \<and> pc_dirty (pcache fs i)")
  case False
  then have "pcache_flush_slot fs i = fs"
    by (auto simp: pcache_flush_slot_def Let_def split: option.split)
  with False assms show ?thesis by auto
next
  case True
  then obtain pg where pg: "pc_page (pcache fs i) = Some pg" and d: "pc_dirty (pcache fs i)" by blast
  have "pcache_flush_slot fs i = set_pcache i ((pcache fs i)\<lparr>pc_dirty := False\<rparr>) (if pc_dirty (pcache fs i)
      then snd (fs_pwrite fs (enc_page pg) (pc_page_off (pcache fs i))) else fs)"
    using pg d by (simp add: pcache_flush_slot_def Let_def)
  from this write_slot [OF assms pg _ _ this] pg show ?thesis
    by (auto simp: set_pcache_def fs_pwrite_def split: prod.split)
qed

lemma flush_slots_ok:
  "pc_inv fs \<Longrightarrow> distinct is \<Longrightarrow>
    pc_inv (foldl pcache_flush_slot fs is) \<and> same_blocks fs (foldl pcache_flush_slot fs is) \<and>
    (\<forall>j. j \<notin> set is \<longrightarrow> pcache (foldl pcache_flush_slot fs is) j = pcache fs j) \<and>
    (\<forall>j \<in> set is. pc_page (pcache (foldl pcache_flush_slot fs is) j) \<noteq> None \<longrightarrow>
       \<not> pc_dirty (pcache (foldl pcache_flush_slot fs is) j))"
proof (induction "is" arbitrary: fs)
  case (Cons i "is")
  note s = flush_slot_ok [OF Cons.prems(1), of i]
  with Cons.IH [of "pcache_flush_slot fs i"] Cons.prems show ?case
    by (auto intro: same_blocks_trans)
qed simp

lemma pcache_idx_less: "pcache_idx off < PCACHE_SIZE"
proof -
  have "drop_bit 12 off AND 4095 \<le> (4095 :: u64)" by (rule word_and_le1)
  then have "unat (drop_bit 12 off AND 4095) \<le> unat (4095 :: u64)" by (simp add: word_le_nat_alt)
  then show ?thesis by (simp add: pcache_idx_def PCACHE_SIZE_def)
qed

lemma flush_all_ok:
  assumes "pc_inv fs"
  shows "pc_inv (pcache_flush_all fs)" and "same_blocks fs (pcache_flush_all fs)"
    and "peek (img (pcache_flush_all fs)) (unat r) 4096 = lblock (pcache_flush_all fs) r"
proof -
  let ?g = "pcache_flush_all fs"
  have g: "pc_inv ?g" "same_blocks fs ?g" "\<forall>j < PCACHE_SIZE. pc_page (pcache ?g j) \<noteq> None \<longrightarrow> \<not> pc_dirty (pcache ?g j)"
    using flush_slots_ok [OF assms, of "[0..<PCACHE_SIZE]"] by (auto simp: pcache_flush_all_def)
  show "pc_inv ?g" "same_blocks fs ?g" by (rule g(1,2))+
  show "peek (img ?g) (unat r) 4096 = lblock ?g r"
  proof (cases "cached ?g r")
    case (Some pg)
    note sl = cached_slot [OF Some]
    with g(3) pcache_idx_less [of r] have "\<not> pc_dirty (pcache ?g (pcache_idx r))" by simp
    moreover have "slot_ok (img ?g) (pcache_idx r) (pcache ?g (pcache_idx r))"
      using g(1) by (simp add: pc_inv_def)
    ultimately show ?thesis using sl Some by (simp add: slot_ok_def lblock_def)
  qed (simp add: lblock_def)
qed

text \<open>C33: after \<^verbatim>\<open>pcache_flush_all\<close> the image itself holds every block as it was seen through the cache
  before, and no block changed.\<close>

theorem flush_makes_blocks_durable:
  assumes "pc_inv fs"
  shows "pc_inv (pcache_flush_all fs) \<and>
    (\<forall>r. blk r \<longrightarrow> lblock (pcache_flush_all fs) r = lblock fs r \<and>
       peek (img (pcache_flush_all fs)) (unat r) 4096 = lblock fs r)"
  using flush_all_ok [OF assms] by (simp add: same_blocks_def)

theorem flush_makes_blocks_durable_witness:
  "peek (img (pcache_flush_all (zero_xxfs blank_file))) 8192 4096 = lblock (zero_xxfs blank_file) 8192"
  using flush_makes_blocks_durable [of "zero_xxfs blank_file"] pc_inv_fresh [of blank_file] os_wf_blank
  by (auto simp: blk_def dest!: spec [where x = 8192])

section \<open>Interface: a store of pages\<close>

text \<open>What the index relies on: a page that is loaded is the page last stored there, and loading and
  storing elsewhere do not matter.\<close>

locale page_provider =
  fixes inv :: "'s \<Rightarrow> bool"
    and view :: "'s \<Rightarrow> 'a \<Rightarrow> 'p"
    and load :: "'s \<Rightarrow> 'a \<Rightarrow> 'p option \<times> 's"
    and upd :: "'s \<Rightarrow> 'a \<Rightarrow> 'p \<Rightarrow> 's option"
    and addr :: "'a \<Rightarrow> bool"
    and wf :: "'p \<Rightarrow> bool"
  assumes load_view: "inv s \<Longrightarrow> addr a \<Longrightarrow>
      \<exists>s'. load s a = (Some (view s a), s') \<and> inv s' \<and> (\<forall>b. addr b \<longrightarrow> view s' b = view s b)"
    and upd_view: "inv s \<Longrightarrow> addr a \<Longrightarrow> wf p \<Longrightarrow> load s a = (Some q, s') \<Longrightarrow>
      \<exists>s''. upd s' a p = Some s'' \<and> inv s'' \<and> view s'' a = p \<and>
        (\<forall>b. addr b \<longrightarrow> b \<noteq> a \<longrightarrow> view s'' b = view s b)"
begin

text \<open>A read-modify-write followed by a load, of the same or another page.\<close>

lemma modify_load:
  assumes "inv s" and "addr a" and "addr b" and "wf p" and l: "load s a = (Some q, s1)"
    and u: "upd s1 a p = Some s2"
  shows "\<exists>s3. load s2 b = (Some (if b = a then p else view s b), s3) \<and> inv s3"
proof -
  obtain t where "upd s1 a p = Some t" "inv t" "view t a = p" "\<forall>b. addr b \<longrightarrow> b \<noteq> a \<longrightarrow> view t b = view s b"
    using upd_view [OF assms(1,2,4) l] by auto
  moreover from this u have "t = s2" by simp
  ultimately show ?thesis
    using load_view [of s2 b] assms(3) by auto
qed

end

interpretation pages: page_provider pc_inv lpage page_load page_update blk wf_page
proof
  fix fs off assume "pc_inv fs" "blk off"
  then obtain fs' where "page_load fs off = (Some (lpage fs off), fs')" "pc_inv fs'" "same_blocks fs fs'"
    using page_load_ok by metis
  then show "\<exists>fs'. page_load fs off = (Some (lpage fs off), fs') \<and> pc_inv fs' \<and>
      (\<forall>r. blk r \<longrightarrow> lpage fs' r = lpage fs r)"
    by (auto simp: same_lpage)
next
  fix fs off p q s'
  assume *: "pc_inv fs" "blk off" "wf_page p" "page_load fs off = (Some q, s')"
  then have s': "pc_inv s'" "same_blocks fs s'" "cached s' off = Some (lpage fs off)"
    using page_load_ok [OF *(1,2)] by (metis prod.inject)+
  obtain g where "page_update s' off p = Some g" "pc_inv g"
    and g: "\<And>r. lblock g r = (if r = off then enc_page p else lblock s' r)"
    using page_update_ok [OF s'(1,3) *(3)] by metis
  moreover have "lpage g off = p" using g *(3) by (simp add: lpage_def page_codec.dec_enc)
  moreover have "\<forall>r. blk r \<longrightarrow> r \<noteq> off \<longrightarrow> lpage g r = lpage fs r"
    using g s'(2) by (simp add: lpage_def same_blocks_def)
  ultimately show "\<exists>g. page_update s' off p = Some g \<and> pc_inv g \<and> lpage g off = p \<and>
      (\<forall>r. blk r \<longrightarrow> r \<noteq> off \<longrightarrow> lpage g r = lpage fs r)"
    by blast
qed

text \<open>A page that was loaded, changed in place and handed to \<^verbatim>\<open>page_writeback\<close> is what a later
  \<^verbatim>\<open>page_load\<close> of the same block returns, also after its slot was taken by other blocks in between;
  every other block still loads with its old contents.\<close>

theorem page_write_read_back:
  assumes "pc_inv fs" and "blk a" and "blk b" and "blk c" and "wf_page p"
    and "page_load fs a = (Some q, fs1)" and "page_update fs1 a p = Some fs2"
    and "page_load fs2 c = (r, fs3)"
  shows "\<exists>fs4. page_load fs3 b = (Some (if b = a then p else lpage fs b), fs4) \<and> pc_inv fs4"
proof -
  obtain t where t: "page_update fs1 a p = Some t" "pc_inv t" "lpage t a = p"
    "\<forall>b. blk b \<longrightarrow> b \<noteq> a \<longrightarrow> lpage t b = lpage fs b"
    using pages.upd_view [OF assms(1,2,5,6)] by auto
  with assms(7) have "t = fs2" by simp
  then obtain u where "page_load fs2 c = (Some (lpage fs2 c), u)" "pc_inv u"
    "\<forall>b. blk b \<longrightarrow> lpage u b = lpage fs2 b"
    using t(2) assms(4) pages.load_view by meson
  moreover from this assms(8) have "u = fs3" by simp
  ultimately show ?thesis
    using t assms(3) \<open>t = fs2\<close> pages.load_view [of fs3 b] by auto
qed

theorem page_write_read_back_witness:
  "\<exists>q fs1 fs2 r fs3 fs4. page_load (zero_xxfs blank_file) 8192 = (q, fs1) \<and>
    page_update fs1 8192 (empty_page\<lparr>pg_count := 1\<rparr>) = Some fs2 \<and>
    page_load fs2 (8192 + 16777216) = (r, fs3) \<and>
    page_load fs3 8192 = (Some (empty_page\<lparr>pg_count := 1\<rparr>), fs4)"
proof -
  let ?fs = "zero_xxfs blank_file" and ?p = "empty_page\<lparr>pg_count := 1\<rparr>"
  have b: "blk 8192" "blk (8192 + 16777216)" by (simp_all add: blk_def)
  have p: "wf_page ?p" using wf_empty(2) by (simp add: wf_page_def)
  have i: "pc_inv ?fs" by (simp add: pc_inv_fresh os_wf_blank)
  obtain fs1 where 1: "page_load ?fs 8192 = (Some (lpage ?fs 8192), fs1)"
    using pages.load_view [OF i b(1)] by blast
  obtain fs2 where 2: "page_update fs1 8192 ?p = Some fs2"
    using pages.upd_view [OF i b(1) p 1] by blast
  obtain r fs3 where 3: "page_load fs2 (8192 + 16777216) = (r, fs3)" by fastforce
  show ?thesis
    using page_write_read_back [OF i b(1,1,2) p 1 2 3] 1 2 3 by simp blast
qed

end
