(* ===== verification/Paged_Index.thy ===== *)
theory Paged_Index
  imports Block_Alloc Page_Cache
begin

text \<open>
  The disk-paged hash index of \<^verbatim>\<open>lib/xxfs.c\<close>: the page directory, the chains of 4096-byte pages that
  its entries start, and the operations \<^verbatim>\<open>paged_put\<close>, \<^verbatim>\<open>paged_insert\<close>, \<^verbatim>\<open>paged_get\<close>, \<^verbatim>\<open>paged_del\<close> with
  their helpers \<^verbatim>\<open>write_record\<close>, \<^verbatim>\<open>paged_dir_double\<close> and \<^verbatim>\<open>page_split_and_retry\<close>.

  The loops over a chain follow \<^verbatim>\<open>overflow_next\<close> links read from the image, so they may run forever on a
  cyclic chain: they are partial functions with result \<open>None\<close> there. \<open>None\<close> is also the result where
  the C code has undefined behaviour: an index outside the slot array, the inline area or the
  directory, or the use of a page pointer after the page was freed. Lengths of keys and values are far
  below \<open>2^32\<close> (a path and an inode).
\<close>

section \<open>The directory\<close>

definition dir_index :: "u64 \<Rightarrow> u8 \<Rightarrow> u32" where
  "dir_index hash depth =
     (if depth = 0 then 0 else ucast (hash AND (push_bit (unat depth) 1 - 1)))"

definition paged_dir_double :: "xxfs \<Rightarrow> rc \<times> xxfs" where
  "paged_dir_double fs =
     (case fs_alloc fs of (ok, fs) \<Rightarrow>
        if \<not> ok then (XXFS_ENOMEM, fs)
        else
          let d = pdir fs; offs = take (unat (d_dir_size d)) (d_page_off d)
          in (XXFS_OK, fs\<lparr>pdir := \<lparr>d_page_off = offs @ offs, d_dir_size = d_dir_size d * 2,
                                      d_global_depth = d_global_depth d + 1\<rparr>\<rparr>))"

section \<open>Records outside the pages\<close>

definition record_bytes :: "bytes \<Rightarrow> bytes \<Rightarrow> bytes" where
  "record_bytes key val =
     enc_le 4 (of_nat (length key) :: u32) @ enc_le 4 (of_nat (length val) :: u32) @ key @ val"

definition write_record :: "xxfs \<Rightarrow> bytes \<Rightarrow> bytes \<Rightarrow> (rc + u64) \<times> xxfs" where
  "write_record fs key val =
     (let rec_len = 8 + length key + length val in
      case page_alloc fs of (write_off, fs) \<Rightarrow>
        if write_off = 0 then (Inl XXFS_ENOSPC, fs)
        else
          case (if rec_len \<le> 512 then (True, fs) else fs_alloc fs) of (ok, fs) \<Rightarrow>
            if \<not> ok then (Inl XXFS_ENOMEM, fs)
            else
              case fs_pwrite fs (record_bytes key val) write_off of (ok, fs) \<Rightarrow>
                (if ok then Inr write_off else Inl XXFS_EIO, fs))"

section \<open>Slots of a page\<close>

text \<open>The comparison that all operations make first: hash, key length and at most 16 bytes of the key.\<close>

definition slot_match :: "u64 \<Rightarrow> bytes \<Rightarrow> paged_slot \<Rightarrow> bool" where
  "slot_match h key s \<longleftrightarrow>
     (let pn = min (length key) KEY_PREFIX_LEN in
      ps_hash s = h \<and> ps_klen s = of_nat (length key) \<and> take pn (ps_key_prefix s) = take pn key)"

text \<open>The first matching slot. A page that claims more than 56 slots makes the scan leave the array.\<close>

definition find_slot :: "u64 \<Rightarrow> bytes \<Rightarrow> paged_page \<Rightarrow> nat option option" where
  "find_slot h key pg =
     (case find (\<lambda>i. slot_match h key (pg_slots pg ! i))
             [0..<min (unat (pg_count pg)) PAGED_SLOTS_PER_PAGE] of
        Some i \<Rightarrow> Some (Some i)
      | None \<Rightarrow> if unat (pg_count pg) \<le> PAGED_SLOTS_PER_PAGE then Some None else None)"

definition slot_inline :: "paged_slot \<Rightarrow> bool" where
  "slot_inline s \<longleftrightarrow> ps_flags s AND SLOT_F_INLINE \<noteq> 0"

text \<open>The body of \<^verbatim>\<open>paged_put\<close> for a matching slot \<open>i\<close>: overwrite in place when the new value is not longer,
  else write a fresh record. The key stored with the slot is not touched.\<close>

definition update_slot :: "xxfs \<Rightarrow> u64 \<Rightarrow> paged_page \<Rightarrow> nat \<Rightarrow> bytes \<Rightarrow> bytes \<Rightarrow> (rc \<times> xxfs) option" where
  "update_slot fs cur pg i key val =
     (let s = pg_slots pg ! i; vlen = of_nat (length val);
          base = unat (ps_file_off s) + length key;
          with_slot = (\<lambda>s. pg\<lparr>pg_slots := (pg_slots pg)[i := s]\<rparr>)
      in
      if vlen \<le> ps_vlen s then
        if slot_inline s then
          if base + length val \<le> PAGED_INLINE_SPACE then
            do { fs \<leftarrow> page_update fs cur ((with_slot (s\<lparr>ps_vlen := vlen\<rparr>))
                         \<lparr>pg_inline_area := buf_put base val (pg_inline_area pg)\<rparr>);
                 Some (XXFS_OK, fs) }
          else None
        else
          let fs = snd (fs_pwrite fs val (ps_file_off s + 8 + of_nat (length key))) in
          do { fs \<leftarrow> page_update fs cur (with_slot (s\<lparr>ps_vlen := vlen\<rparr>)); Some (XXFS_OK, fs) }
      else
        case write_record fs key val of
          (Inl rc, fs) \<Rightarrow> Some (rc, fs)
        | (Inr off, fs) \<Rightarrow>
            do { fs \<leftarrow> page_update fs cur (with_slot (s\<lparr>ps_vlen := vlen, ps_file_off := off, ps_flags := 0\<rparr>));
                 Some (XXFS_OK, fs) })"

text \<open>Appending a slot to a page that is not full. When the record cannot be written the count is
  taken back, but the page in the cache keeps the half-written slot behind it.\<close>

definition new_slot :: "paged_slot \<Rightarrow> u64 \<Rightarrow> bytes \<Rightarrow> bytes \<Rightarrow> paged_slot" where
  "new_slot s h key val =
     s\<lparr>ps_hash := h, ps_klen := of_nat (length key), ps_vlen := of_nat (length val), ps_flags := 0,
       ps_key_prefix := buf_put 0 (take KEY_PREFIX_LEN key) (ps_key_prefix s)\<rparr>"

definition append_slot :: "xxfs \<Rightarrow> u64 \<Rightarrow> paged_page \<Rightarrow> u64 \<Rightarrow> bytes \<Rightarrow> bytes \<Rightarrow> (rc \<times> xxfs) option" where
  "append_slot fs cur pg h key val =
     (let i = unat (pg_count pg); s = new_slot (pg_slots pg ! i) h key val;
          need = of_nat (length key) + of_nat (length val) :: u32; used = unat (pg_inline_used pg);
          with_slot = (\<lambda>s. pg\<lparr>pg_count := pg_count pg + 1, pg_slots := (pg_slots pg)[i := s]\<rparr>)
      in
      if pg_inline_used pg + need \<le> of_nat PAGED_INLINE_SPACE then
        if used + length key + length val \<le> PAGED_INLINE_SPACE then
          do { fs \<leftarrow> page_update fs cur
                 ((with_slot (s\<lparr>ps_file_off := ucast (pg_inline_used pg), ps_flags := SLOT_F_INLINE\<rparr>))
                   \<lparr>pg_inline_area := buf_put used (key @ val) (pg_inline_area pg),
                    pg_inline_used := pg_inline_used pg + need\<rparr>);
               Some (XXFS_OK, fs) }
        else None
      else
        case write_record fs key val of
          (Inl rc, fs) \<Rightarrow>
            do { fs \<leftarrow> page_store fs cur ((with_slot s)\<lparr>pg_count := pg_count pg\<rparr>); Some (rc, fs) }
        | (Inr off, fs) \<Rightarrow>
            do { fs \<leftarrow> page_update fs cur (with_slot (s\<lparr>ps_file_off := off\<rparr>)); Some (XXFS_OK, fs) })"

section \<open>Growing a chain\<close>

text \<open>How one turn of the loop of \<^verbatim>\<open>paged_put\<close> ends: a return, the next page of the chain, or a new
  start after a split.\<close>

datatype put_next = Done rc | Next u64 | Retry

text \<open>A page with no slot in use, as \<^verbatim>\<open>memset\<close> and the assignment of \<^verbatim>\<open>local_depth\<close> make it.\<close>

definition fresh_page :: "u16 \<Rightarrow> paged_page" where
  "fresh_page depth = empty_page\<lparr>pg_local_depth := depth\<rparr>"

text \<open>One slot of the page being split: it moves to the page that its hash selects, inline bytes
  included.\<close>

definition split_move :: "u8 \<Rightarrow> bytes \<Rightarrow> paged_slot \<Rightarrow> paged_page \<times> paged_page \<Rightarrow> (paged_page \<times> paged_page) option" where
  "split_move new_depth old_inline s pgs =
     (let to_new = dir_index (ps_hash s) new_depth AND push_bit (unat new_depth - 1) 1 \<noteq> 0;
          target = (if to_new then snd pgs else fst pgs);
          i = unat (pg_count target); need = ps_klen s + ps_vlen s;
          used = unat (pg_inline_used target); fo = unat (ps_file_off s);
          moved = (if slot_inline s then s\<lparr>ps_file_off := ucast (pg_inline_used target)\<rparr> else s);
          target' = target\<lparr>pg_slots := (pg_slots target)[i := moved], pg_count := pg_count target + 1\<rparr>
      in
      if \<not> slot_inline s then
        Some (if to_new then (fst pgs, target') else (target', snd pgs))
      else if fo + unat need \<le> PAGED_INLINE_SPACE \<and> used + unat need \<le> PAGED_INLINE_SPACE then
        let target'' = target'\<lparr>pg_inline_area := buf_put used (fld fo (unat need) old_inline) (pg_inline_area target'),
                                pg_inline_used := pg_inline_used target' + need\<rparr>
        in Some (if to_new then (fst pgs, target'') else (target'', snd pgs))
      else None)"

primrec split_moves :: "u8 \<Rightarrow> bytes \<Rightarrow> paged_slot list \<Rightarrow> paged_page \<times> paged_page \<Rightarrow> (paged_page \<times> paged_page) option" where
  "split_moves new_depth old_inline [] pgs = Some pgs"
| "split_moves new_depth old_inline (s # ss) pgs =
     do { pgs \<leftarrow> split_move new_depth old_inline s pgs; split_moves new_depth old_inline ss pgs }"

text \<open>The directory entries of the split page whose split bit is set move to the new page.\<close>

definition split_dir :: "u64 \<Rightarrow> u64 \<Rightarrow> u32 \<Rightarrow> u64 list \<Rightarrow> u64 list" where
  "split_dir page_off new_off split_bit offs =
     map (\<lambda>i. if offs ! i = page_off \<and> of_nat i AND split_bit \<noteq> 0 then new_off else offs ! i)
       [0..<length offs]"

text \<open>\<^verbatim>\<open>page_split_and_retry\<close> after its first page load and the doubling of the directory.\<close>

definition page_split :: "xxfs \<Rightarrow> u64 \<Rightarrow> paged_page \<Rightarrow> (put_next \<times> xxfs) option" where
  "page_split fs page_off pg =
     (let new_depth = ucast (pg_local_depth pg + 1) :: u8; count = unat (pg_count pg);
          used = unat (pg_inline_used pg);
          old_inline = take used (pg_inline_area pg) @ drop used (fresh_buf (img fs) PAGED_INLINE_SPACE)
      in
      if new_depth = 0 \<or> unat new_depth > 32 \<or> used > PAGED_INLINE_SPACE then None
      else
        case page_alloc fs of (new_off, fs) \<Rightarrow>
          if new_off = 0 then Some (Done XXFS_ENOSPC, fs)
          else if count > PAGED_SLOTS_PER_PAGE then None
          else
            do { (pg, new_pg) \<leftarrow> split_moves new_depth old_inline (take count (pg_slots pg))
                   (pg\<lparr>pg_slots := replicate PAGED_SLOTS_PER_PAGE empty_slot, pg_count := 0, pg_inline_used := 0,
                       pg_local_depth := ucast new_depth, pg_overflow_next := 0\<rparr>,
                    fresh_page (ucast new_depth));
                 fs \<leftarrow> page_store fs page_off pg;
                 let fs = fs\<lparr>pdir := (pdir fs)\<lparr>d_page_off :=
                            split_dir page_off new_off (push_bit (unat new_depth - 1) 1) (d_page_off (pdir fs))\<rparr>\<rparr>;
                     fs = snd (fs_pwrite fs (enc_page new_pg) new_off);
                     fs = page_cache_invalidate fs new_off
                 in case cached fs page_off of
                      None \<Rightarrow> None
                    | Some pg \<Rightarrow> Some (Retry, page_writeback fs pg page_off) })"

definition page_split_and_retry :: "xxfs \<Rightarrow> u64 \<Rightarrow> (put_next \<times> xxfs) option" where
  "page_split_and_retry fs page_off =
     (case page_load fs page_off of
        (None, fs) \<Rightarrow> Some (Done XXFS_EIO, fs)
      | (Some pg, fs) \<Rightarrow>
          if unat (pg_local_depth pg) \<ge> unat (d_global_depth (pdir fs)) then
            if d_global_depth (pdir fs) \<ge> 20 then Some (Done XXFS_ENOSPC, fs)
            else
              case paged_dir_double fs of (rc, fs) \<Rightarrow>
                if rc \<noteq> XXFS_OK then Some (Done rc, fs)
                else
                  case page_load fs page_off of
                    (None, fs) \<Rightarrow> Some (Done XXFS_EIO, fs)
                  | (Some pg, fs) \<Rightarrow> page_split fs page_off pg
          else page_split fs page_off pg)"

text \<open>A full page: the next page of the chain, which is created when there is none.\<close>

definition overflow_step :: "xxfs \<Rightarrow> u64 \<Rightarrow> paged_page \<Rightarrow> (put_next \<times> xxfs) option" where
  "overflow_step fs cur pg =
     (if pg_overflow_next pg \<noteq> 0 then Some (Next (pg_overflow_next pg), fs)
      else
        case page_alloc fs of (new_off, fs) \<Rightarrow>
          if new_off = 0 then page_split_and_retry fs cur
          else
            do { fs \<leftarrow> page_update fs cur (pg\<lparr>pg_overflow_next := new_off\<rparr>);
                 case fs_pwrite fs (enc_page (fresh_page (pg_local_depth pg))) new_off of (ok, fs) \<Rightarrow>
                   if \<not> ok then Some (Done XXFS_EIO, fs)
                   else
                     let fs = page_cache_invalidate fs new_off in
                     case cached fs cur of
                       None \<Rightarrow> None
                     | Some pg \<Rightarrow> Some (Next (pg_overflow_next pg), fs) })"

section \<open>Put and insert\<close>

text \<open>The first part of \<^verbatim>\<open>paged_put\<close> and \<^verbatim>\<open>paged_insert\<close>: the head of the chain, created when absent.\<close>

definition put_start :: "xxfs \<Rightarrow> bytes \<Rightarrow> ((rc + u64) \<times> xxfs) option" where
  "put_start fs key =
     (let d = pdir fs; dir_idx = unat (dir_index (xxh64 key) (d_global_depth d)) in
      if dir_idx \<ge> length (d_page_off d) then None
      else if d_page_off d ! dir_idx = - 1 then
        case page_alloc fs of (off, fs) \<Rightarrow>
          if off = 0 then Some (Inl XXFS_ENOSPC, fs)
          else
            let fs = fs\<lparr>pdir := d\<lparr>d_page_off := (d_page_off d)[dir_idx := off]\<rparr>\<rparr> in
            case fs_pwrite fs (enc_page (fresh_page (ucast (d_global_depth d)))) off of (ok, fs) \<Rightarrow>
              if \<not> ok then Some (Inl XXFS_EIO, fs)
              else Some (Inr off, page_cache_invalidate fs off)
      else Some (Inr (d_page_off d ! dir_idx), fs))"

definition finish :: "(rc \<times> xxfs) option \<Rightarrow> (put_next \<times> xxfs) option" where
  "finish r = map_option (map_prod Done id) r"

text \<open>The body of the loop; \<open>scan\<close> distinguishes \<^verbatim>\<open>paged_put\<close> from \<^verbatim>\<open>paged_insert\<close>, which does not look
  for an existing slot.\<close>

definition put_page :: "bool \<Rightarrow> bytes \<Rightarrow> bytes \<Rightarrow> u64 \<Rightarrow> xxfs \<Rightarrow> (put_next \<times> xxfs) option" where
  "put_page scan key val cur fs =
     (let h = xxh64 key in
      case page_load fs cur of
        (None, fs) \<Rightarrow> Some (Done XXFS_EIO, fs)
      | (Some pg, fs) \<Rightarrow>
          do { hit \<leftarrow> (if scan then find_slot h key pg else Some None);
               case hit of
                 Some i \<Rightarrow> finish (update_slot fs cur pg i key val)
               | None \<Rightarrow>
                   if unat (pg_count pg) \<ge> PAGED_SLOTS_PER_PAGE then overflow_step fs cur pg
                   else finish (append_slot fs cur pg h key val) })"

text \<open>\<open>pos\<close> is \<open>None\<close> at the start of the function and \<open>Some cur_off\<close> at the head of its loop.\<close>

partial_function (option) put_loop :: "bool \<Rightarrow> bytes \<Rightarrow> bytes \<Rightarrow> u64 option \<Rightarrow> xxfs \<Rightarrow> (rc \<times> xxfs) option" where
  "put_loop scan key val pos fs =
     (case pos of
        None \<Rightarrow>
          Option.bind (put_start fs key) (\<lambda>(r, fs).
            case r of Inl rc \<Rightarrow> Some (rc, fs) | Inr off \<Rightarrow> put_loop scan key val (Some off) fs)
      | Some cur \<Rightarrow>
          if cur = 0 then Some (XXFS_ENOSPC, fs)
          else
            Option.bind (put_page scan key val cur fs) (\<lambda>(r, fs).
              case r of
                Done rc \<Rightarrow> Some (rc, fs)
              | Next off \<Rightarrow> put_loop scan key val (Some off) fs
              | Retry \<Rightarrow> put_loop True key val None fs))"

definition paged_put :: "xxfs \<Rightarrow> bytes \<Rightarrow> bytes \<Rightarrow> (rc \<times> xxfs) option" where
  "paged_put fs key val = put_loop True key val None fs"

definition paged_insert :: "xxfs \<Rightarrow> bytes \<Rightarrow> bytes \<Rightarrow> (rc \<times> xxfs) option" where
  "paged_insert fs key val = put_loop False key val None fs"

section \<open>Get\<close>

text \<open>The outcome of looking at one slot or one page: the value, an error, or go on.\<close>

datatype get_step = Hit bytes | Fail rc | Miss

definition get_inline :: "bytes \<Rightarrow> u32 \<Rightarrow> paged_page \<Rightarrow> paged_slot \<Rightarrow> get_step option" where
  "get_inline key cap pg s =
     (let fo = unat (ps_file_off s); klen = length key in
      if klen > KEY_PREFIX_LEN \<and> fo + klen > PAGED_INLINE_SPACE then None
      else if klen > KEY_PREFIX_LEN \<and> fld fo klen (pg_inline_area pg) \<noteq> key then Some Miss
      else if ps_vlen s > cap then Some (Fail XXFS_ENOSPC)
      else if fo + klen + unat (ps_vlen s) \<le> PAGED_INLINE_SPACE
      then Some (Hit (fld (fo + klen) (unat (ps_vlen s)) (pg_inline_area pg)))
      else None)"

definition get_record :: "bytes \<Rightarrow> u32 \<Rightarrow> paged_slot \<Rightarrow> xxfs \<Rightarrow> (get_step \<times> xxfs) option" where
  "get_record key cap s fs =
     (let klen = length key; rec_len = 8 + of_nat klen + ps_vlen s :: u32 in
      case (if rec_len \<le> 512 then (True, fs) else fs_alloc fs) of (ok, fs) \<Rightarrow>
        if \<not> ok then Some (Miss, fs)
        else
          let buf = fresh_buf (img fs) (unat rec_len) in
          case fs_pread fs (unat rec_len) (ps_file_off s) of
            (None, fs) \<Rightarrow> Some (Miss, fs)
          | (Some bs, fs) \<Rightarrow>
              let buf = into_buf bs buf in
              if klen > KEY_PREFIX_LEN \<and> 8 + klen > unat rec_len then None
              else if klen > KEY_PREFIX_LEN \<and> fld 8 klen buf \<noteq> key then Some (Miss, fs)
              else if ps_vlen s > cap then Some (Fail XXFS_ENOSPC, fs)
              else if 8 + klen + unat (ps_vlen s) \<le> unat rec_len
              then Some (Hit (fld (8 + klen) (unat (ps_vlen s)) buf), fs)
              else None)"

definition get_slot :: "bytes \<Rightarrow> u32 \<Rightarrow> paged_page \<Rightarrow> paged_slot \<Rightarrow> xxfs \<Rightarrow> (get_step \<times> xxfs) option" where
  "get_slot key cap pg s fs =
     (if \<not> slot_match (xxh64 key) key s then Some (Miss, fs)
      else if slot_inline s then map_option (\<lambda>r. (r, fs)) (get_inline key cap pg s)
      else get_record key cap s fs)"

primrec get_slots :: "bytes \<Rightarrow> u32 \<Rightarrow> paged_page \<Rightarrow> paged_slot list \<Rightarrow> xxfs \<Rightarrow> (get_step \<times> xxfs) option" where
  "get_slots key cap pg [] fs = Some (Miss, fs)"
| "get_slots key cap pg (s # ss) fs =
     do { (r, fs) \<leftarrow> get_slot key cap pg s fs;
          if r = Miss then get_slots key cap pg ss fs else Some (r, fs) }"

definition get_page :: "bytes \<Rightarrow> u32 \<Rightarrow> paged_page \<Rightarrow> xxfs \<Rightarrow> (get_step \<times> xxfs) option" where
  "get_page key cap pg fs =
     do { (r, fs) \<leftarrow> get_slots key cap pg (take (unat (pg_count pg)) (pg_slots pg)) fs;
          if r = Miss \<and> unat (pg_count pg) > PAGED_SLOTS_PER_PAGE then None else Some (r, fs) }"

partial_function (option) get_loop :: "bytes \<Rightarrow> u32 \<Rightarrow> u64 \<Rightarrow> xxfs \<Rightarrow> ((rc + bytes) \<times> xxfs) option" where
  "get_loop key cap cur fs =
     (if cur = 0 then Some (Inl XXFS_ENOENT, fs)
      else
        case page_load fs cur of
          (None, fs) \<Rightarrow> Some (Inl XXFS_EIO, fs)
        | (Some pg, fs) \<Rightarrow>
            Option.bind (get_page key cap pg fs) (\<lambda>(r, fs).
              case r of
                Hit v \<Rightarrow> Some (Inr v, fs)
              | Fail rc \<Rightarrow> Some (Inl rc, fs)
              | Miss \<Rightarrow> get_loop key cap (pg_overflow_next pg) fs))"

text \<open>The entry of the directory for a key; \<open>None\<close> when the key has no chain.\<close>

definition chain_head :: "xxfs \<Rightarrow> bytes \<Rightarrow> u64 option" where
  "chain_head fs key =
     (let d = pdir fs; dir_idx = unat (dir_index (xxh64 key) (d_global_depth d)) in
      if dir_idx \<ge> unat (d_dir_size d) \<or> d_page_off d ! dir_idx = - 1 then None
      else Some (d_page_off d ! dir_idx))"

text \<open>\<open>cap\<close> is \<^verbatim>\<open>*vlen\<close> on entry, the size of the caller's buffer; the value returned is what the buffer
  holds on success.\<close>

definition paged_get :: "xxfs \<Rightarrow> bytes \<Rightarrow> u32 \<Rightarrow> ((rc + bytes) \<times> xxfs) option" where
  "paged_get fs key cap =
     (case chain_head fs key of
        None \<Rightarrow> Some (Inl XXFS_ENOENT, fs)
      | Some off \<Rightarrow> get_loop key cap off fs)"

section \<open>Delete\<close>

text \<open>The last slot in use takes the place of the deleted one.\<close>

definition drop_slot :: "nat \<Rightarrow> paged_page \<Rightarrow> paged_page" where
  "drop_slot i pg =
     (let last = unat (pg_count pg) - 1
      in pg\<lparr>pg_slots := (if i < last then (pg_slots pg)[i := pg_slots pg ! last] else pg_slots pg),
            pg_count := pg_count pg - 1\<rparr>)"

partial_function (option) del_loop :: "bytes \<Rightarrow> u64 \<Rightarrow> xxfs \<Rightarrow> (rc \<times> xxfs) option" where
  "del_loop key cur fs =
     (if cur = 0 then Some (XXFS_ENOENT, fs)
      else
        case page_load fs cur of
          (None, fs) \<Rightarrow> Some (XXFS_EIO, fs)
        | (Some pg, fs) \<Rightarrow>
            Option.bind (find_slot (xxh64 key) key pg) (\<lambda>hit.
              case hit of
                Some i \<Rightarrow>
                  (if unat (pg_count pg) > PAGED_SLOTS_PER_PAGE then None
                   else map_option (\<lambda>fs. (XXFS_OK, fs)) (page_update fs cur (drop_slot i pg)))
              | None \<Rightarrow> del_loop key (pg_overflow_next pg) fs))"

definition paged_del :: "xxfs \<Rightarrow> bytes \<Rightarrow> (rc \<times> xxfs) option" where
  "paged_del fs key =
     (case chain_head fs key of
        None \<Rightarrow> Some (XXFS_ENOENT, fs)
      | Some off \<Rightarrow> del_loop key off fs)"

end
