(* ===== verification/Index_Page.thy ===== *)
theory Index_Page
  imports Paged_Index "HOL-Library.Multiset"
begin

text \<open>
  One page of the index as a list of key-value pairs. A slot stores its pair as \<open>key @ value\<close>, either in
  the inline area of the page or, behind an eight-byte header, in a record block of its own; \<open>rd\<close>
  stands for the contents of the record blocks. The lemmas say what the slot operations of
  \<^verbatim>\<open>paged_put\<close> and \<^verbatim>\<open>paged_del\<close> do to the list of pairs.
\<close>

section \<open>Contents of a page\<close>

definition slot_size :: "paged_slot \<Rightarrow> nat" where
  "slot_size s = unat (ps_klen s) + unat (ps_vlen s)"

definition slot_bytes :: "(u64 \<Rightarrow> bytes) \<Rightarrow> paged_page \<Rightarrow> paged_slot \<Rightarrow> bytes" where
  "slot_bytes rd pg s =
     (if slot_inline s then fld (unat (ps_file_off s)) (slot_size s) (pg_inline_area pg)
      else fld 8 (slot_size s) (rd (ps_file_off s)))"

definition slot_key :: "(u64 \<Rightarrow> bytes) \<Rightarrow> paged_page \<Rightarrow> paged_slot \<Rightarrow> bytes" where
  "slot_key rd pg s = take (unat (ps_klen s)) (slot_bytes rd pg s)"

definition slot_val :: "(u64 \<Rightarrow> bytes) \<Rightarrow> paged_page \<Rightarrow> paged_slot \<Rightarrow> bytes" where
  "slot_val rd pg s = drop (unat (ps_klen s)) (slot_bytes rd pg s)"

definition slot_kv :: "(u64 \<Rightarrow> bytes) \<Rightarrow> paged_page \<Rightarrow> paged_slot \<Rightarrow> bytes \<times> bytes" where
  "slot_kv rd pg s = (slot_key rd pg s, slot_val rd pg s)"

definition page_kv :: "(u64 \<Rightarrow> bytes) \<Rightarrow> paged_page \<Rightarrow> (bytes \<times> bytes) list" where
  "page_kv rd pg = map (slot_kv rd pg) (take (unat (pg_count pg)) (pg_slots pg))"

definition page_recs :: "paged_page \<Rightarrow> u64 set" where
  "page_recs pg = ps_file_off ` {s \<in> set (take (unat (pg_count pg)) (pg_slots pg)). \<not> slot_inline s}"

text \<open>What the slot operations compare: all of a key that is not longer than the prefix.\<close>

definition fingerprint :: "bytes \<Rightarrow> u64 \<times> nat \<times> bytes" where
  "fingerprint key = (xxh64 key, length key, take KEY_PREFIX_LEN key)"

lemma short_keys_do_not_collide:
  "length k \<le> KEY_PREFIX_LEN \<Longrightarrow> fingerprint k = fingerprint k' \<longleftrightarrow> k = k'"
  by (auto simp: fingerprint_def)

section \<open>Well-formed pages\<close>

text \<open>\<open>sz\<close> is the size of the image, behind which no record may reach.\<close>

definition slot_good :: "(u64 \<Rightarrow> bytes) \<Rightarrow> nat \<Rightarrow> paged_page \<Rightarrow> paged_slot \<Rightarrow> bool" where
  "slot_good rd sz pg s \<longleftrightarrow>
     ps_hash s = xxh64 (slot_key rd pg s) \<and>
     take (min (unat (ps_klen s)) 16) (ps_key_prefix s) = take 16 (slot_key rd pg s) \<and>
     (if slot_inline s then unat (ps_file_off s) + slot_size s \<le> unat (pg_inline_used pg)
      else 8 + slot_size s \<le> 4096 \<and> unat (ps_file_off s) + 8 + slot_size s \<le> sz)"

definition slots_apart :: "paged_slot \<Rightarrow> paged_slot \<Rightarrow> bool" where
  "slots_apart s t \<longleftrightarrow>
     (if slot_inline s \<and> slot_inline t
      then unat (ps_file_off s) + slot_size s \<le> unat (ps_file_off t) \<or>
           unat (ps_file_off t) + slot_size t \<le> unat (ps_file_off s)
      else \<not> slot_inline s \<and> \<not> slot_inline t \<longrightarrow> ps_file_off s \<noteq> ps_file_off t)"

definition page_ok :: "(u64 \<Rightarrow> bytes) \<Rightarrow> nat \<Rightarrow> paged_page \<Rightarrow> bool" where
  "page_ok rd sz pg \<longleftrightarrow> wf_page pg \<and> unat (pg_count pg) \<le> 56 \<and> unat (pg_inline_used pg) \<le> 1392 \<and>
     (\<forall>i < unat (pg_count pg). slot_good rd sz pg (pg_slots pg ! i)) \<and>
     (\<forall>i < unat (pg_count pg). \<forall>j < unat (pg_count pg). i \<noteq> j \<longrightarrow>
        slots_apart (pg_slots pg ! i) (pg_slots pg ! j))"

lemma page_ok_len: "page_ok rd sz pg \<Longrightarrow> length (pg_slots pg) = 56 \<and> length (pg_inline_area pg) = 1392"
  by (simp add: page_ok_def wf_page_def)

lemma length_page_kv: "page_ok rd sz pg \<Longrightarrow> length (page_kv rd pg) = unat (pg_count pg)"
  by (simp add: page_kv_def page_ok_def wf_page_def)

lemma page_kv_nth:
  "page_ok rd sz pg \<Longrightarrow> i < unat (pg_count pg) \<Longrightarrow> page_kv rd pg ! i = slot_kv rd pg (pg_slots pg ! i)"
  by (simp add: page_kv_def page_ok_def wf_page_def)

lemma page_recs_alt: "page_ok rd sz pg \<Longrightarrow>
    page_recs pg = {ps_file_off (pg_slots pg ! i) | i. i < unat (pg_count pg) \<and> \<not> slot_inline (pg_slots pg ! i)}"
proof -
  assume "page_ok rd sz pg"
  then have "unat (pg_count pg) \<le> length (pg_slots pg)" by (simp add: page_ok_def wf_page_def)
  then show ?thesis
    by (simp add: page_recs_def nth_image [symmetric]) auto
qed

lemma page_recsI: "page_ok rd sz pg \<Longrightarrow> i < unat (pg_count pg) \<Longrightarrow> \<not> slot_inline (pg_slots pg ! i) \<Longrightarrow>
    ps_file_off (pg_slots pg ! i) \<in> page_recs pg"
  by (auto simp: page_recs_alt)

text \<open>A slot reads the same when its bytes are the same.\<close>

lemma slot_good_cong:
  assumes "slot_bytes rd' pg' s = slot_bytes rd pg s" and "slot_good rd sz pg s"
    and "unat (pg_inline_used pg) \<le> unat (pg_inline_used pg')" and "sz \<le> sz'"
  shows "slot_good rd' sz' pg' s"
  using assms by (auto simp: slot_good_def slot_key_def split: if_splits)

lemma slot_kv_cong: "slot_bytes rd' pg' s = slot_bytes rd pg s \<Longrightarrow> slot_kv rd' pg' s = slot_kv rd pg s"
  by (simp add: slot_kv_def slot_key_def slot_val_def)

lemma length_slot_bytes:
  assumes "page_ok rd sz pg" and "slot_good rd sz pg s" and "\<And>r. length (rd r) = 4096"
  shows "length (slot_bytes rd pg s) = slot_size s"
  using assms page_ok_len [OF assms(1)] by (auto simp: slot_bytes_def slot_good_def page_ok_def)

lemma page_kv_cong:
  assumes "page_ok rd sz pg" and "\<And>r. r \<in> page_recs pg \<Longrightarrow> rd' r = rd r" and "sz \<le> sz'"
  shows "page_kv rd' pg = page_kv rd pg \<and> page_ok rd' sz' pg"
proof -
  have b: "slot_bytes rd' pg (pg_slots pg ! i) = slot_bytes rd pg (pg_slots pg ! i)" if "i < unat (pg_count pg)" for i
    using assms(2) [OF page_recsI [OF assms(1) that]] by (simp add: slot_bytes_def)
  have "slot_good rd' sz' pg (pg_slots pg ! i)" if "i < unat (pg_count pg)" for i
    using assms(1) that by (intro slot_good_cong [OF b [OF that] _ _ assms(3)]) (simp_all add: page_ok_def)
  then have "page_ok rd' sz' pg"
    using assms(1) by (simp add: page_ok_def)
  moreover from this have "page_kv rd' pg = page_kv rd pg"
    using assms(1) slot_kv_cong [OF b]
    by (intro nth_equalityI) (simp_all add: length_page_kv page_kv_nth)
  ultimately show ?thesis by simp
qed

section \<open>Matching\<close>

lemma of_nat_eq_word: "n < 2 ^ LENGTH('a) \<Longrightarrow> w = (of_nat n :: 'a::len word) \<longleftrightarrow> unat w = n"
  by (simp add: word_unat_eq_iff [of w "of_nat n"] unat_of_nat)

lemma length_slot_key:
  assumes "page_ok rd sz pg" and "slot_good rd sz pg s" and "\<And>r. length (rd r) = 4096"
  shows "length (slot_key rd pg s) = unat (ps_klen s)"
  using length_slot_bytes [OF assms] by (simp add: slot_key_def slot_size_def)

lemma slot_match_iff:
  assumes "page_ok rd sz pg" and "slot_good rd sz pg s" and "\<And>r. length (rd r) = 4096"
    and "length key < 2 ^ 32"
  shows "slot_match (xxh64 key) key s \<longleftrightarrow> fingerprint (slot_key rd pg s) = fingerprint key"
proof -
  have "ps_klen s = of_nat (length key) \<longleftrightarrow> unat (ps_klen s) = length key"
    using assms(4) by (intro of_nat_eq_word) simp
  moreover have "take (min (length key) 16) (ps_key_prefix s) = take 16 (slot_key rd pg s)"
    if "unat (ps_klen s) = length key"
    using assms(2) that by (simp add: slot_good_def)
  moreover have "take (min (length key) 16) key = take 16 key"
    by (simp add: min_def)
  ultimately show ?thesis
    using assms(2) length_slot_key [OF assms(1-3)]
    by (auto simp: slot_match_def fingerprint_def KEY_PREFIX_LEN_def slot_good_def Let_def)
qed

lemma find_slot_cases:
  assumes "page_ok rd sz pg"
  obtains (hit) i where "find_slot h key pg = Some (Some i)" and "i < unat (pg_count pg)"
      and "slot_match h key (pg_slots pg ! i)" and "\<forall>j < i. \<not> slot_match h key (pg_slots pg ! j)"
    | (none) "find_slot h key pg = Some None" and "\<forall>j < unat (pg_count pg). \<not> slot_match h key (pg_slots pg ! j)"
proof (cases "find (\<lambda>i. slot_match h key (pg_slots pg ! i)) [0..<unat (pg_count pg)]")
  case None
  moreover from this have "\<forall>j < unat (pg_count pg). \<not> slot_match h key (pg_slots pg ! j)"
    by (auto simp: find_None_iff)
  ultimately show thesis using assms
    by (intro none) (auto simp: find_slot_def page_ok_def PAGED_SLOTS_PER_PAGE_def min_absorb1)
next
  case (Some i)
  then have "i < unat (pg_count pg) \<and> slot_match h key (pg_slots pg ! i) \<and> (\<forall>j < i. \<not> slot_match h key (pg_slots pg ! j))"
    by (auto simp: find_Some_iff)
  then show thesis using Some assms
    by (intro hit [of i]) (auto simp: find_slot_def page_ok_def PAGED_SLOTS_PER_PAGE_def min_absorb1)
qed

section \<open>Appending\<close>

lemma unat_Suc_count: "unat (c :: u16) < 56 \<Longrightarrow> unat (c + 1) = Suc (unat c)"
  by (subst unat_add_nowrap) simp_all

text \<open>The slot that is appended holds \<open>key @ val\<close>.\<close>

lemma page_ok_append:
  assumes ok: "page_ok rd sz pg" and room: "unat (pg_count pg) < 56"
    and rd: "\<And>r. r \<in> page_recs pg \<Longrightarrow> rd' r = rd r" and sz: "sz \<le> sz'"
    and area: "\<And>a n. a + n \<le> unat (pg_inline_used pg) \<Longrightarrow> fld a n area = fld a n (pg_inline_area pg)"
    and len: "length area = 1392" and used: "unat (pg_inline_used pg) \<le> unat u" "unat u \<le> 1392"
    and s: "wf_slot s" "slot_size s = length (key @ val)" "unat (ps_klen s) = length key"
    and kv: "slot_bytes rd' (pg\<lparr>pg_inline_area := area\<rparr>) s = key @ val"
    and good: "ps_hash s = xxh64 key" "take (min (length key) 16) (ps_key_prefix s) = take 16 key"
      "if slot_inline s then unat (pg_inline_used pg) \<le> unat (ps_file_off s) \<and> unat (ps_file_off s) + slot_size s \<le> unat u
       else 8 + slot_size s \<le> 4096 \<and> unat (ps_file_off s) + 8 + slot_size s \<le> sz' \<and> ps_file_off s \<notin> page_recs pg"
    and pg': "pg' = pg\<lparr>pg_count := pg_count pg + 1, pg_slots := (pg_slots pg)[unat (pg_count pg) := s],
      pg_inline_area := area, pg_inline_used := u\<rparr>"
  shows "page_ok rd' sz' pg' \<and> page_kv rd' pg' = page_kv rd pg @ [(key, val)] \<and>
    page_recs pg' = page_recs pg \<union> (if slot_inline s then {} else {ps_file_off s})"
proof -
  let ?n = "unat (pg_count pg)"
  have n': "unat (pg_count pg') = Suc ?n" using room by (simp add: pg' unat_Suc_count)
  note l = page_ok_len [OF ok]
  have old: "pg_slots pg' ! i = pg_slots pg ! i" if "i < ?n" for i using that by (simp add: pg')
  have new: "pg_slots pg' ! ?n = s" using room l by (simp add: pg')
  have g: "slot_good rd sz pg (pg_slots pg ! i)" if "i < ?n" for i using ok that by (simp add: page_ok_def)
  have b: "slot_bytes rd' pg' (pg_slots pg ! i) = slot_bytes rd pg (pg_slots pg ! i)" if i: "i < ?n" for i
    using g [OF i] rd [OF page_recsI [OF ok i]] area by (auto simp: slot_bytes_def slot_good_def pg')
  have bs: "slot_bytes rd' pg' s = key @ val" using kv by (simp add: pg' slot_bytes_def split: if_splits)
  have "slot_good rd' sz' pg' (pg_slots pg' ! i)" if "i < Suc ?n" for i
  proof (cases "i = ?n")
    case True
    then show ?thesis using bs s(2,3) good new
      by (auto simp: slot_good_def slot_key_def pg' split: if_splits)
  next
    case False
    then have "i < ?n" using that by simp
    with slot_good_cong [OF b g _ sz] used(1) old show ?thesis by (simp add: pg')
  qed
  moreover have "slots_apart (pg_slots pg ! i) s \<and> slots_apart s (pg_slots pg ! i)" if "i < ?n" for i
    using g [OF that] good(3) that by (auto simp: slots_apart_def slot_good_def page_recs_alt [OF ok] split: if_splits)
  then have "slots_apart (pg_slots pg' ! i) (pg_slots pg' ! j)" if "i < Suc ?n" "j < Suc ?n" "i \<noteq> j" for i j
    using that ok old new by (cases "i = ?n"; cases "j = ?n") (auto simp: page_ok_def less_Suc_eq)
  moreover have "wf_page pg'"
    using ok s(1) len set_update_subset_insert [of "pg_slots pg" ?n s] by (auto simp: page_ok_def wf_page_def pg')
  ultimately have ok': "page_ok rd' sz' pg'"
    using n' room used by (simp add: page_ok_def) (simp add: pg')
  have "page_kv rd' pg' = page_kv rd pg @ [(key, val)]"
  proof (rule nth_equalityI)
    fix i assume "i < length (page_kv rd' pg')"
    then have i: "i < Suc ?n" using length_page_kv [OF ok'] n' by simp
    show "page_kv rd' pg' ! i = (page_kv rd pg @ [(key, val)]) ! i"
    proof (cases "i < ?n")
      case True
      then show ?thesis using old n' slot_kv_cong [OF b [OF True]]
        by (simp add: page_kv_nth [OF ok] page_kv_nth [OF ok'] nth_append length_page_kv [OF ok])
    next
      case False
      with i have "i = ?n" by simp
      then show ?thesis using new n' bs s
        by (simp add: page_kv_nth [OF ok'] nth_append length_page_kv [OF ok] slot_kv_def slot_key_def slot_val_def)
    qed
  qed (simp add: length_page_kv [OF ok] length_page_kv [OF ok'] n')
  moreover have "page_recs pg' = page_recs pg \<union> (if slot_inline s then {} else {ps_file_off s})"
  proof -
    have "take (Suc ?n) (pg_slots pg') = take ?n (pg_slots pg) @ [s]"
      using room l by (simp add: pg' take_Suc_conv_app_nth)
    then show ?thesis unfolding page_recs_def n' by auto
  qed
  ultimately show ?thesis using ok' by simp
qed

section \<open>Replacing\<close>

lemma page_ok_replace:
  assumes ok: "page_ok rd sz pg" and i: "i < unat (pg_count pg)" and sz: "sz \<le> sz'"
    and pg': "pg' = pg\<lparr>pg_slots := (pg_slots pg)[i := s], pg_inline_area := area\<rparr>" and len: "length area = 1392"
    and other: "\<And>j. j < unat (pg_count pg) \<Longrightarrow> j \<noteq> i \<Longrightarrow>
      slot_bytes rd' pg' (pg_slots pg ! j) = slot_bytes rd pg (pg_slots pg ! j)"
    and s: "wf_slot s" "slot_good rd' sz' pg' s" "slot_bytes rd' pg' s = key @ val" "unat (ps_klen s) = length key"
    and apart: "\<And>j. j < unat (pg_count pg) \<Longrightarrow> j \<noteq> i \<Longrightarrow>
      slots_apart (pg_slots pg ! j) s \<and> slots_apart s (pg_slots pg ! j)"
  shows "page_ok rd' sz' pg' \<and> page_kv rd' pg' = (page_kv rd pg)[i := (key, val)] \<and>
    page_recs pg' \<subseteq> page_recs pg \<union> (if slot_inline s then {} else {ps_file_off s})"
proof -
  let ?n = "unat (pg_count pg)"
  note l = page_ok_len [OF ok]
  have i56: "i < length (pg_slots pg)" using ok i l by (simp add: page_ok_def)
  have n': "unat (pg_count pg') = ?n" by (simp add: pg')
  have nth: "pg_slots pg' ! j = (if j = i then s else pg_slots pg ! j)" for j using i56 by (simp add: pg')
  have "slot_good rd' sz' pg' (pg_slots pg' ! j)" if "j < ?n" for j
  proof (cases "j = i")
    case False
    have "slot_good rd' sz' pg' (pg_slots pg ! j)"
      using ok that by (intro slot_good_cong [OF other [OF that False] _ _ sz]) (simp_all add: page_ok_def pg')
    with False show ?thesis by (simp add: nth)
  qed (use s nth in simp)
  moreover have "slots_apart (pg_slots pg' ! a) (pg_slots pg' ! b)" if "a < ?n" "b < ?n" "a \<noteq> b" for a b
    using that ok apart by (auto simp: nth page_ok_def)
  moreover have "wf_page pg'"
    using ok s(1) len set_update_subset_insert [of "pg_slots pg" i s] by (auto simp: page_ok_def wf_page_def pg')
  ultimately have ok': "page_ok rd' sz' pg'"
    using ok n' by (simp add: page_ok_def) (simp add: pg')
  have "page_kv rd' pg' = (page_kv rd pg)[i := (key, val)]"
  proof (rule nth_equalityI)
    fix j assume "j < length (page_kv rd' pg')"
    then have j: "j < ?n" using length_page_kv [OF ok'] n' by simp
    show "page_kv rd' pg' ! j = (page_kv rd pg)[i := (key, val)] ! j"
    proof (cases "j = i")
      case True
      then show ?thesis using s n' i
        by (simp add: page_kv_nth [OF ok'] nth length_page_kv [OF ok] slot_kv_def slot_key_def slot_val_def)
    next
      case False
      then show ?thesis using slot_kv_cong [OF other [OF j False]] j n'
        by (simp add: page_kv_nth [OF ok'] page_kv_nth [OF ok] nth)
    qed
  qed (simp add: length_page_kv [OF ok] length_page_kv [OF ok'] n')
  moreover have "page_recs pg' \<subseteq> page_recs pg \<union> (if slot_inline s then {} else {ps_file_off s})"
  proof -
    have "take ?n (pg_slots pg') = (take ?n (pg_slots pg))[i := s]"
      by (simp add: pg' take_update_swap)
    then show ?thesis
      using set_update_subset_insert [of "take ?n (pg_slots pg)" i s] unfolding page_recs_def n' by auto
  qed
  ultimately show ?thesis using ok' by simp
qed

section \<open>Deleting\<close>

definition kv_drop :: "nat \<Rightarrow> 'a list \<Rightarrow> 'a list" where
  "kv_drop i xs = butlast (xs[i := last xs])"

lemma kv_drop_mset:
  assumes "i < length xs"
  shows "mset (kv_drop i xs) = mset xs - {#xs ! i#}"
proof -
  let ?ys = "xs[i := last xs]"
  have ne: "?ys \<noteq> []" "xs \<noteq> []" using assms by auto
  have "last ?ys = last xs" using ne assms by (simp add: last_list_update)
  moreover have "mset ?ys = add_mset (last xs) (mset xs - {#xs ! i#})"
    using assms by (simp add: mset_update)
  moreover have "mset ?ys = add_mset (last ?ys) (mset (butlast ?ys))"
    by (subst append_butlast_last_id [OF ne(1), symmetric]) (simp only: mset_append mset.simps union_mset_add_mset_right empty_neutral)
  ultimately show ?thesis by (simp add: kv_drop_def)
qed

lemma page_ok_drop:
  assumes ok: "page_ok rd sz pg" and i: "i < unat (pg_count pg)"
  shows "page_ok rd sz (drop_slot i pg) \<and> page_kv rd (drop_slot i pg) = kv_drop i (page_kv rd pg) \<and>
    page_recs (drop_slot i pg) \<subseteq> page_recs pg"
proof -
  let ?n = "unat (pg_count pg)" and ?pg = "drop_slot i pg"
  note l = page_ok_len [OF ok]
  have n56: "?n \<le> 56" using ok by (simp add: page_ok_def)
  have "unat (pg_count pg - 1) = ?n - 1"
    using i by (subst unat_sub) (simp_all add: word_le_nat_alt)
  then have n': "unat (pg_count ?pg) = ?n - 1" by (simp add: drop_slot_def Let_def)
  have nth: "pg_slots ?pg ! j = pg_slots pg ! (if j = i then ?n - 1 else j)" if "j < ?n - 1" for j
    using that i l n56 by (auto simp: drop_slot_def Let_def nth_list_update)
  let ?f = "\<lambda>j. if j = i then ?n - 1 else j"
  have f: "?f j < ?n" "j < ?n - 1 \<Longrightarrow> k < ?n - 1 \<Longrightarrow> j \<noteq> k \<Longrightarrow> ?f j \<noteq> ?f k" if "j < ?n - 1" for j k
    using that i by auto
  have same: "slot_good rd sz ?pg = slot_good rd sz pg" "slot_bytes rd ?pg = slot_bytes rd pg"
    by (simp_all add: slot_good_def slot_key_def slot_bytes_def drop_slot_def Let_def fun_eq_iff)
  have "set (pg_slots ?pg) \<subseteq> set (pg_slots pg)"
    using i l n56 by (auto simp: drop_slot_def Let_def dest!: subsetD [OF set_update_subset_insert])
  then have wf: "wf_page ?pg"
    using ok by (auto simp: page_ok_def wf_page_def drop_slot_def Let_def)
  have ok': "page_ok rd sz ?pg"
    unfolding page_ok_def n' same
  proof (intro conjI allI impI)
    show "unat (pg_inline_used ?pg) \<le> 1392" using ok by (simp add: page_ok_def drop_slot_def Let_def)
    show "slot_good rd sz pg (pg_slots ?pg ! j)" if "j < ?n - 1" for j
      using that ok f(1) [OF that] unfolding nth [OF that] by (simp add: page_ok_def)
    show "slots_apart (pg_slots ?pg ! j) (pg_slots ?pg ! k)" if "j < ?n - 1" "k < ?n - 1" "j \<noteq> k" for j k
      using that ok f(1) [OF that(1)] f(1) [OF that(2)] f(2) [OF that(1) that(1,2,3)]
      unfolding nth [OF that(1)] nth [OF that(2)] page_ok_def by blast
  qed (use wf n56 in auto)
  have kv: "slot_kv rd ?pg = slot_kv rd pg"
    by (simp add: fun_eq_iff slot_kv_def slot_key_def slot_val_def same)
  have "page_kv rd ?pg = kv_drop i (page_kv rd pg)"
  proof (rule nth_equalityI)
    fix j assume "j < length (page_kv rd ?pg)"
    then have j: "j < ?n - 1" using length_page_kv [OF ok'] n' by simp
    have "last (page_kv rd pg) = page_kv rd pg ! (?n - 1)"
      using i length_page_kv [OF ok] by (subst last_conv_nth) auto
    then show "page_kv rd ?pg ! j = kv_drop i (page_kv rd pg) ! j"
      using j i length_page_kv [OF ok]
      by (auto simp: page_kv_nth [OF ok'] n' kv nth kv_drop_def nth_butlast nth_list_update page_kv_nth [OF ok])
  qed (simp add: length_page_kv [OF ok] length_page_kv [OF ok'] n' kv_drop_def)
  moreover have "page_recs ?pg \<subseteq> page_recs pg"
  proof
    fix r assume "r \<in> page_recs ?pg"
    then obtain j where "j < ?n - 1" "\<not> slot_inline (pg_slots ?pg ! j)" "r = ps_file_off (pg_slots ?pg ! j)"
      unfolding page_recs_alt [OF ok'] n' by blast
    then show "r \<in> page_recs pg"
      using page_recsI [OF ok f(1)] nth by simp
  qed
  ultimately show ?thesis using ok' by simp
qed

end
