(* ===== verification/Index_Inv.thy ===== *)
theory Index_Inv
  imports Index_Page
begin

text \<open>
  The invariant of the whole index: every directory entry starts an acyclic chain of well-formed
  pages, no two chains share a page, every record block belongs to one slot, only index pages are in the
  page cache, and everything lies below the frontier of the block allocator. \<open>kv\<close> is the contents of a
  chain as a list of pairs, in the order in which \<^verbatim>\<open>paged_get\<close> meets them.
\<close>

section \<open>Chains\<close>

primrec chain :: "xxfs \<Rightarrow> u64 \<Rightarrow> u64 list \<Rightarrow> bool" where
  "chain fs off [] \<longleftrightarrow> off = 0"
| "chain fs off (p # ps) \<longleftrightarrow> off = p \<and> off \<noteq> 0 \<and> chain fs (pg_overflow_next (lpage fs p)) ps"

definition kv :: "xxfs \<Rightarrow> u64 list \<Rightarrow> (bytes \<times> bytes) list" where
  "kv fs ps = concat (map (\<lambda>p. page_kv (lblock fs) (lpage fs p)) ps)"

lemma kv_simps [simp]:
  "kv fs [] = []" "kv fs (p # ps) = page_kv (lblock fs) (lpage fs p) @ kv fs ps"
  "kv fs (ps @ qs) = kv fs ps @ kv fs qs"
  by (simp_all add: kv_def)

definition allocd :: "xxfs \<Rightarrow> u64 \<Rightarrow> bool" where
  "allocd fs r \<longleftrightarrow> blk r \<and> r \<noteq> 0 \<and> unat r + 4096 \<le> alloc_frontier fs"

abbreviation recs :: "xxfs \<Rightarrow> u64 \<Rightarrow> u64 set" where
  "recs fs p \<equiv> page_recs (lpage fs p)"

abbreviation pkv :: "xxfs \<Rightarrow> u64 \<Rightarrow> (bytes \<times> bytes) list" where
  "pkv fs p \<equiv> page_kv (lblock fs) (lpage fs p)"

abbreviation isize :: "xxfs \<Rightarrow> nat" where
  "isize fs \<equiv> os_size (img fs)"

text \<open>The invariant of a set of pages.\<close>

definition super_inv :: "xxfs_super \<Rightarrow> bool" where
  "super_inv s \<longleftrightarrow> alloc_wf s \<and> 4096 dvd unat (s_data_off s) \<and> 0 < unat (s_data_off s)"

definition pages_inv :: "xxfs \<Rightarrow> u64 set \<Rightarrow> bool" where
  "pages_inv fs P \<longleftrightarrow> pc_inv fs \<and> super_inv (sb fs) \<and> (\<forall>r. cached fs r \<noteq> None \<longrightarrow> r \<in> P) \<and>
     (\<forall>p \<in> P. allocd fs p \<and> page_ok (lblock fs) (isize fs) (lpage fs p) \<and>
        (\<forall>r \<in> recs fs p. allocd fs r \<and> r \<notin> P)) \<and>
     (\<forall>p \<in> P. \<forall>q \<in> P. p \<noteq> q \<longrightarrow> recs fs p \<inter> recs fs q = {})"

text \<open>The invariant of the index, with the pages of every chain.\<close>

definition dir_inv :: "xxfs \<Rightarrow> u64 list list \<Rightarrow> bool" where
  "dir_inv fs cs \<longleftrightarrow>
     length (d_page_off (pdir fs)) = length cs \<and> unat (d_dir_size (pdir fs)) = length cs \<and>
     length cs = 2 ^ unat (d_global_depth (pdir fs)) \<and> unat (d_global_depth (pdir fs)) \<le> 20 \<and>
     (\<forall>i < length cs. if d_page_off (pdir fs) ! i = - 1 then cs ! i = []
        else cs ! i \<noteq> [] \<and> chain fs (d_page_off (pdir fs) ! i) (cs ! i))"

definition pages_of :: "u64 list list \<Rightarrow> u64 set" where
  "pages_of cs = (\<Union>i < length cs. set (cs ! i))"

definition chains_apart :: "u64 list list \<Rightarrow> bool" where
  "chains_apart cs \<longleftrightarrow> (\<forall>i < length cs. distinct (cs ! i) \<and>
     (\<forall>j < length cs. i \<noteq> j \<longrightarrow> set (cs ! i) \<inter> set (cs ! j) = {}))"

definition index_inv :: "xxfs \<Rightarrow> u64 list list \<Rightarrow> bool" where
  "index_inv fs cs \<longleftrightarrow> pages_inv fs (pages_of cs) \<and> chains_apart cs \<and> dir_inv fs cs"

section \<open>Frame rules\<close>

lemma blk_minus_1: "\<not> blk (- 1)"
  by (simp add: blk_def unsigned_minus_1_eq_mask mask_eq_exp_minus_1)

lemma pages_invD:
  assumes "pages_inv fs P"
  shows "pc_inv fs" and "super_inv (sb fs)" and "cached fs r \<noteq> None \<Longrightarrow> r \<in> P"
    and "p \<in> P \<Longrightarrow> allocd fs p" and "p \<in> P \<Longrightarrow> blk p"
    and "p \<in> P \<Longrightarrow> page_ok (lblock fs) (isize fs) (lpage fs p)"
    and "p \<in> P \<Longrightarrow> r \<in> recs fs p \<Longrightarrow> allocd fs r \<and> blk r \<and> r \<notin> P \<and> cached fs r = None"
    and "p \<in> P \<Longrightarrow> q \<in> P \<Longrightarrow> p \<noteq> q \<Longrightarrow> recs fs p \<inter> recs fs q = {}"
  using assms unfolding pages_inv_def allocd_def by blast+

text \<open>What an operation on page \<open>p\<close> may change besides that page are the blocks in \<open>X\<close>.\<close>

lemma pages_step:
  assumes inv: "pages_inv fs P" and p: "p \<in> P" and pc: "pc_inv fs'" and sb: "super_inv (sb fs')"
    and fr: "alloc_frontier fs \<le> alloc_frontier fs'" and sz: "isize fs \<le> isize fs'"
    and ca: "\<And>r. cached fs' r \<noteq> None \<Longrightarrow> r \<in> P"
    and bl: "\<And>r. blk r \<Longrightarrow> r \<noteq> p \<Longrightarrow> r \<notin> X \<Longrightarrow> lblock fs' r = lblock fs r"
    and X: "\<And>r. r \<in> X \<Longrightarrow> allocd fs' r \<and> r \<notin> P" "\<And>q. q \<in> P \<Longrightarrow> q \<noteq> p \<Longrightarrow> X \<inter> recs fs q = {}"
    and ok: "page_ok (lblock fs') (isize fs') (lpage fs' p)" and rc: "recs fs' p \<subseteq> recs fs p \<union> X"
  shows "pages_inv fs' P \<and> (\<forall>q \<in> P. q \<noteq> p \<longrightarrow> lpage fs' q = lpage fs q \<and> pkv fs' q = pkv fs q)"
proof -
  have al: "allocd fs' r" if "allocd fs r" for r using that fr by (simp add: allocd_def)
  have lp: "lpage fs' q = lpage fs q" if "q \<in> P" "q \<noteq> p" for q
    using that pages_invD(5) [OF inv] bl X(1) by (metis lpage_def)
  have kv: "page_kv (lblock fs') (lpage fs q) = pkv fs q \<and> page_ok (lblock fs') (isize fs') (lpage fs q)"
    if "q \<in> P" "q \<noteq> p" for q
  proof (rule page_kv_cong [OF _ _ sz])
    show "page_ok (lblock fs) (isize fs) (lpage fs q)" using that pages_invD(6) [OF inv] by simp
    fix r assume "r \<in> recs fs q"
    then show "lblock fs' r = lblock fs r"
      using that pages_invD(7) [OF inv that(1)] X(2) [OF that] p by (intro bl) auto
  qed
  have rp: "allocd fs' r \<and> r \<notin> P" if "r \<in> recs fs' p" for r
    using that rc X(1) pages_invD(7) [OF inv p] al by blast
  have "pages_inv fs' P"
    unfolding pages_inv_def
  proof (intro conjI ballI allI impI)
    fix q assume q: "q \<in> P"
    show "allocd fs' q" using q al pages_invD(4) [OF inv] by blast
    show "page_ok (lblock fs') (isize fs') (lpage fs' q)"
      using q ok kv lp by (cases "q = p") auto
    fix r assume "r \<in> recs fs' q"
    then show "allocd fs' r" "r \<notin> P"
      using q rp lp [OF q] al pages_invD(7) [OF inv q] by (cases "q = p"; force)+
  next
    fix q q' assume q: "q \<in> P" "q' \<in> P" "q \<noteq> q'"
    have d: "recs fs q \<inter> recs fs q' = {}" using q pages_invD(8) [OF inv] by blast
    show "recs fs' q \<inter> recs fs' q' = {}"
      using q d rc X(2) [of q] X(2) [of q'] lp by (cases "q = p"; cases "q' = p"; fastforce)
  qed (use pc sb ca in auto)
  then show ?thesis using kv lp by simp
qed

text \<open>Loading pages changes nothing.\<close>

definition quiet :: "u64 set \<Rightarrow> xxfs \<Rightarrow> xxfs \<Rightarrow> bool" where
  "quiet P fs fs' \<longleftrightarrow> pc_inv fs' \<and> same_blocks fs fs' \<and> (\<forall>r. cached fs' r \<noteq> None \<longrightarrow> cached fs r \<noteq> None \<or> r \<in> P)"

lemma quiet_refl: "pc_inv fs \<Longrightarrow> quiet P fs fs"
  by (simp add: quiet_def)

lemma quiet_trans: "quiet P a b \<Longrightarrow> quiet P b c \<Longrightarrow> quiet P a c"
  unfolding quiet_def by (blast intro: same_blocks_trans)

lemma quiet_tick: "pc_inv fs \<Longrightarrow> quiet P fs (tick fs)"
  by (simp add: quiet_def same_blocks_tick) (simp add: pc_inv_def)

lemma quiet_sb: "quiet P fs fs' \<Longrightarrow> sb fs' = sb fs \<and> pdir fs' = pdir fs"
  by (auto simp: quiet_def same_blocks_def)

lemma page_load_quiet:
  assumes "pages_inv fs P" and "p \<in> P"
  obtains fs' where "page_load fs p = (Some (lpage fs p), fs')" and "quiet P fs fs'"
    and "cached fs' p = Some (lpage fs p)"
proof -
  obtain fs' where "page_load fs p = (Some (lpage fs p), fs')" "pc_inv fs'" "same_blocks fs fs'"
    "cached fs' p = Some (lpage fs p)" "\<And>r. r \<noteq> p \<Longrightarrow> cached fs r = None \<Longrightarrow> cached fs' r = None"
    using page_load_ok [OF pages_invD(1) [OF assms(1)] pages_invD(5) [OF assms]] by blast
  moreover from this have "quiet P fs fs'"
    unfolding quiet_def using assms(2) by (metis (no_types))
  ultimately show thesis by (intro that)
qed

text \<open>Changes outside the pages and the records of the index do not matter.\<close>

lemma pages_frame:
  assumes inv: "pages_inv fs P" and pc: "pc_inv fs'" and sb: "super_inv (sb fs')"
    and fr: "alloc_frontier fs \<le> alloc_frontier fs'" and sz: "isize fs \<le> isize fs'"
    and ca: "\<And>r. cached fs' r \<noteq> None \<Longrightarrow> r \<in> P"
    and bl: "\<And>r. blk r \<Longrightarrow> r \<in> P \<or> (\<exists>p \<in> P. r \<in> recs fs p) \<Longrightarrow> lblock fs' r = lblock fs r"
  shows "pages_inv fs' P \<and> (\<forall>p \<in> P. lpage fs' p = lpage fs p \<and> pkv fs' p = pkv fs p)"
proof -
  have al: "allocd fs' r" if "allocd fs r" for r using that fr by (simp add: allocd_def)
  have lp: "lpage fs' p = lpage fs p" if "p \<in> P" for p
    using that pages_invD(5) [OF inv that] bl by (simp add: lpage_def)
  have kv: "page_kv (lblock fs') (lpage fs p) = pkv fs p \<and> page_ok (lblock fs') (isize fs') (lpage fs p)"
    if "p \<in> P" for p
    using pages_invD(7) [OF inv that] bl that by (intro page_kv_cong [OF pages_invD(6) [OF inv that] _ sz]) blast
  have "pages_inv fs' P"
    unfolding pages_inv_def
  proof (intro conjI ballI allI impI)
    fix q assume q: "q \<in> P"
    show "allocd fs' q" using al pages_invD(4) [OF inv q] .
    show "page_ok (lblock fs') (isize fs') (lpage fs' q)" using q kv lp by simp
    fix r assume "r \<in> recs fs' q"
    then show "allocd fs' r" "r \<notin> P" using q lp al pages_invD(7) [OF inv q] by auto
  next
    fix q q' assume "q \<in> P" "q' \<in> P" "q \<noteq> q'"
    then show "recs fs' q \<inter> recs fs' q' = {}" using lp pages_invD(8) [OF inv] by simp
  qed (use pc sb ca in blast)+
  then show ?thesis using kv lp by simp
qed

lemma quiet_pages:
  assumes inv: "pages_inv fs P" and q: "quiet P fs fs'"
  shows "pages_inv fs' P \<and> (\<forall>p \<in> P. lpage fs' p = lpage fs p \<and> pkv fs' p = pkv fs p)"
proof (rule pages_frame [OF inv])
  note s = q [unfolded quiet_def]
  show "pc_inv fs'" "isize fs \<le> isize fs'" using s by (auto simp: same_blocks_def)
  show "super_inv (sb fs')" "alloc_frontier fs \<le> alloc_frontier fs'"
    using quiet_sb [OF q] pages_invD(2) [OF inv] by (simp_all add: alloc_frontier_def)
  show "r \<in> P" if "cached fs' r \<noteq> None" for r
    using s that pages_invD(3) [OF inv] by blast
  show "lblock fs' r = lblock fs r" if "blk r" for r
    using s that by (simp add: same_blocks_def)
qed

text \<open>Blocks that are allocated and do not belong to the index; an operation spares them if it neither writes them
  nor takes them over.\<close>

definition foreign :: "xxfs \<Rightarrow> u64 set \<Rightarrow> u64 \<Rightarrow> bool" where
  "foreign fs P r \<longleftrightarrow> blk r \<and> unat r + 4096 \<le> alloc_frontier fs \<and> r \<notin> P \<and> (\<forall>p \<in> P. r \<notin> recs fs p)"

definition spares :: "xxfs \<Rightarrow> u64 set \<Rightarrow> xxfs \<Rightarrow> u64 set \<Rightarrow> bool" where
  "spares fs P fs' P' \<longleftrightarrow> isize fs \<le> isize fs' \<and> (\<forall>r. foreign fs P r \<longrightarrow> foreign fs' P' r \<and> lblock fs' r = lblock fs r)"

lemma spares_refl [simp]: "spares fs P fs P"
  by (simp add: spares_def)

lemma spares_trans [trans]: "spares a P b Q \<Longrightarrow> spares b Q c R \<Longrightarrow> spares a P c R"
  by (simp add: spares_def)

lemma sparesI:
  assumes fr: "alloc_frontier fs \<le> alloc_frontier fs'" and sz: "isize fs \<le> isize fs'"
    and bl: "\<And>r. foreign fs P r \<Longrightarrow> lblock fs' r = lblock fs r"
    and pg: "\<And>r. r \<in> P' \<Longrightarrow> r \<in> P \<or> alloc_frontier fs \<le> unat r"
    and rc: "\<And>p r. p \<in> P' \<Longrightarrow> r \<in> recs fs' p \<Longrightarrow> (\<exists>q \<in> P. r \<in> recs fs q) \<or> alloc_frontier fs \<le> unat r"
  shows "spares fs P fs' P'"
  unfolding spares_def
proof (intro conjI [OF sz] allI impI)
  fix r assume r: "foreign fs P r"
  then have f: "blk r" "unat r + 4096 \<le> alloc_frontier fs" "r \<notin> P" "\<And>p. p \<in> P \<Longrightarrow> r \<notin> recs fs p" by (auto simp: foreign_def)
  have "r \<notin> P'" using pg [of r] f by auto
  moreover have "r \<notin> recs fs' p" if "p \<in> P'" for p using rc [OF that, of r] f by auto
  ultimately have "foreign fs' P' r" using f(1,2) fr by (auto simp: foreign_def)
  with bl [OF r] show "foreign fs' P' r \<and> lblock fs' r = lblock fs r" by blast
qed

lemma quiet_spares:
  assumes "pages_inv fs P" and q: "quiet P fs fs'"
  shows "spares fs P fs' P"
proof (rule sparesI)
  show "alloc_frontier fs \<le> alloc_frontier fs'" using quiet_sb [OF q] by (simp add: alloc_frontier_def)
  show "isize fs \<le> isize fs'" using q by (simp add: quiet_def same_blocks_def)
  show "lblock fs' r = lblock fs r" if "foreign fs P r" for r
    using that q by (simp add: foreign_def quiet_def same_blocks_def)
  show "(\<exists>q \<in> P. r \<in> recs fs q) \<or> alloc_frontier fs \<le> unat r" if "p \<in> P" "r \<in> recs fs' p" for p r
    using that quiet_pages [OF assms] by auto
qed simp

lemma chain_cong:
  "chain fs off ps \<Longrightarrow> (\<And>p. p \<in> set ps \<Longrightarrow> pg_overflow_next (lpage fs' p) = pg_overflow_next (lpage fs p)) \<Longrightarrow>
    chain fs' off ps"
  by (induction ps arbitrary: off) auto

lemma kv_cong: "(\<And>p. p \<in> set ps \<Longrightarrow> pkv fs' p = pkv fs p) \<Longrightarrow> kv fs' ps = kv fs ps"
  by (induction ps) auto

lemma nth_pages_of: "i < length cs \<Longrightarrow> set (cs ! i) \<subseteq> pages_of cs"
  by (auto simp: pages_of_def)

lemma dir_inv_cong:
  assumes d: "dir_inv fs cs" and "pdir fs' = pdir fs"
    and n: "\<And>p. p \<in> pages_of cs \<Longrightarrow> pg_overflow_next (lpage fs' p) = pg_overflow_next (lpage fs p)"
  shows "dir_inv fs' cs"
proof -
  have "chain fs' off (cs ! i)" if "chain fs off (cs ! i)" "i < length cs" for off i
    using chain_cong [OF that(1)] n nth_pages_of [OF that(2)] by blast
  then show ?thesis
    using d unfolding dir_inv_def assms(2) by (simp split: if_splits)
qed

lemma quiet_index:
  assumes "index_inv fs cs" and q: "quiet (pages_of cs) fs fs'"
  shows "index_inv fs' cs \<and> (\<forall>i < length cs. kv fs' (cs ! i) = kv fs (cs ! i))"
proof -
  have inv: "pages_inv fs (pages_of cs)" "dir_inv fs cs" "chains_apart cs"
    using assms(1) unfolding index_inv_def by blast+
  note p = quiet_pages [OF inv(1) q]
  have "dir_inv fs' cs"
    using p quiet_sb [OF q] by (intro dir_inv_cong [OF inv(2)]) metis+
  moreover have "kv fs' (cs ! i) = kv fs (cs ! i)" if "i < length cs" for i
    using p nth_pages_of [OF that] by (intro kv_cong) blast
  ultimately show ?thesis using inv p unfolding index_inv_def by blast
qed

end
