(* ===== verification/Index_Get.thy ===== *)
theory Index_Get
  imports Index_Inv
begin

text \<open>
  Correctness of \<^verbatim>\<open>paged_get\<close>: on a well-formed index it returns, and the result is the value of the
  first pair with that key in the chain of the key.
\<close>

section \<open>One slot\<close>

definition kv_step :: "bytes \<Rightarrow> u32 \<Rightarrow> bytes option \<Rightarrow> get_step" where
  "kv_step key cap r =
     (case r of
        None \<Rightarrow> Miss
      | Some v \<Rightarrow> if length v > unat cap then Fail XXFS_ENOSPC else Hit v)"

lemma kv_step_Miss [simp]: "kv_step key cap r = Miss \<longleftrightarrow> r = None"
  by (simp add: kv_step_def split: option.split)

text \<open>A matching slot has the length of the key, and its whole key when the key is short.\<close>

lemma match_klen:
  assumes ok: "page_ok rd sz pg" and good: "slot_good rd sz pg s" and len: "\<And>r. length (rd r) = 4096"
    and key: "length key < 2 ^ 32" and m: "slot_match (xxh64 key) key s"
  shows "unat (ps_klen s) = length key"
  using slot_match_iff [OF ok good len key] m length_slot_key [OF ok good len] by (simp add: fingerprint_def)

lemma match_short:
  assumes ok: "page_ok rd sz pg" and good: "slot_good rd sz pg s" and len: "\<And>r. length (rd r) = 4096"
    and key: "length key < 2 ^ 32" and m: "slot_match (xxh64 key) key s"
  shows "\<not> KEY_PREFIX_LEN < length key \<Longrightarrow> slot_key rd pg s = key"
  using slot_match_iff [OF ok good len key] m short_keys_do_not_collide [of key "slot_key rd pg s"] by simp

lemma match_val_len:
  assumes ok: "page_ok rd sz pg" and good: "slot_good rd sz pg s" and len: "\<And>r. length (rd r) = 4096"
  shows "length (slot_val rd pg s) = unat (ps_vlen s)"
  using length_slot_bytes [OF ok good len] by (simp add: slot_val_def slot_size_def)

lemma get_inline_ok:
  assumes ok: "page_ok rd sz pg" and good: "slot_good rd sz pg s" and len: "\<And>r. length (rd r) = 4096"
    and key: "length key < 2 ^ 32" and m: "slot_match (xxh64 key) key s"
    and inl: "slot_inline s"
  shows "get_inline key cap pg s = Some (kv_step key cap (map_of [slot_kv rd pg s] key))"
proof -
  let ?fo = "unat (ps_file_off s)" and ?k = "length key" and ?v = "unat (ps_vlen s)"
  note kl = match_klen [OF ok good len key m]
  have b: "?fo + ?k + ?v \<le> 1392" "length (pg_inline_area pg) = 1392"
    using ok good inl kl by (auto simp: page_ok_def slot_good_def slot_size_def wf_page_def)
  have k: "slot_key rd pg s = fld ?fo ?k (pg_inline_area pg)"
    using inl kl by (simp add: slot_key_def slot_bytes_def slot_size_def fld_def min_def)
  have v: "slot_val rd pg s = fld (?fo + ?k) ?v (pg_inline_area pg)"
    using inl kl by (simp add: slot_val_def slot_bytes_def slot_size_def fld_def drop_take add.commute)
  show ?thesis
    using b match_short [OF ok good len key m] match_val_len [OF ok good len]
    by (auto simp: get_inline_def k [symmetric] v [symmetric] kv_step_def slot_kv_def page_consts Let_def
        word_less_nat_alt)
qed

lemma get_record_ok:
  assumes inv: "pages_inv fs P" and p: "p \<in> P" and i: "i < unat (pg_count (lpage fs p))"
    and s: "s = pg_slots (lpage fs p) ! i" and ni: "\<not> slot_inline s" and key: "length key < 2 ^ 32"
    and m: "slot_match (xxh64 key) key s"
  obtains fs' where "get_record key cap s fs =
      Some (kv_step key cap (map_of [slot_kv (lblock fs) (lpage fs p) s] key), fs')" and "quiet P fs fs'"
proof -
  let ?pg = "lpage fs p" and ?off = "ps_file_off s" and ?k = "length key" and ?v = "unat (ps_vlen s)"
  note ok = pages_invD(6) [OF inv p] and pc = pages_invD(1) [OF inv]
  have good: "slot_good (lblock fs) (isize fs) ?pg s" using ok i s by (simp add: page_ok_def)
  have len: "length (lblock fs r) = 4096" for r using pc by simp
  note kl = match_klen [OF ok good len key m]
  have un: "blk ?off" "cached fs ?off = None"
    using pages_invD(7) [OF inv p page_recsI [OF ok i]] ni s by auto
  have b: "8 + ?k + ?v \<le> 4096" "unat ?off + (8 + ?k + ?v) \<le> isize fs"
    using good ni kl by (auto simp: slot_good_def slot_size_def)
  define l where "l = (8 + of_nat ?k + ps_vlen s :: u32)"
  have l: "unat l = 8 + ?k + ?v"
  proof -
    have "unat (of_nat ?k :: u32) = ?k" using b(1) by (simp add: unat_of_nat)
    moreover have "unat (8 + of_nat ?k :: u32) = unat (8 :: u32) + unat (of_nat ?k :: u32)"
      using b(1) calculation by (intro unat_add_nowrap) simp
    ultimately show ?thesis
      unfolding l_def using b(1) by (subst unat_add_nowrap) simp_all
  qed
  define buf where "buf = peek (img fs) (unat ?off) (unat l)"
  have lb: "length buf = unat l" by (simp add: buf_def)
  have bl: "lblock fs ?off = peek (img fs) (unat ?off) 4096" using un by (simp add: lblock_def)
  have k: "slot_key (lblock fs) ?pg s = fld 8 ?k buf"
    using ni kl b(1) by (simp add: buf_def slot_key_def slot_bytes_def slot_size_def bl fld_peek l) (simp add: peek_def take_map)
  have v: "slot_val (lblock fs) ?pg s = fld (8 + ?k) ?v buf"
    using ni kl b(1) by (simp add: buf_def slot_val_def slot_bytes_def slot_size_def bl fld_peek l)
      (simp add: peek_def drop_map add.assoc)
  define g where "g = (if l \<le> 512 then fs else tick fs)"
  have ff: "fault_free (img fs)" using pc by (simp add: pc_inv_def)
  have al: "(if l \<le> 512 then (True, fs) else fs_alloc fs) = (True, g)"
    using ff by (simp add: g_def fs_alloc_ok)
  have gi: "peek (img g) = peek (img fs)" "isize g = isize fs" "fault_free (img g)" "pc_inv g"
    using ff pc by (simp_all add: g_def pc_inv_def)
  have rd: "fs_pread g (unat l) ?off = (Some buf, tick g)"
    using gi un(1) b(2) l by (simp add: fs_pread_ok blk_s64 buf_def)
  have "quiet P fs (tick g)"
    using quiet_trans [OF _ quiet_tick [OF gi(4)]] quiet_tick [OF pc] quiet_refl [OF pc] by (simp add: g_def)
  moreover have "get_record key cap s fs =
      Some (kv_step key cap (map_of [slot_kv (lblock fs) ?pg s] key), tick g)"
    using match_short [OF ok good len key m] match_val_len [OF ok good len]
    unfolding get_record_def Let_def l_def [symmetric] al prod.case rd option.case
    by (auto simp: into_buf_full lb k [symmetric] v [symmetric] kv_step_def slot_kv_def l word_less_nat_alt)
  ultimately show thesis by (intro that)
qed

lemma get_slot_ok:
  assumes inv: "pages_inv fs P" and p: "p \<in> P" and i: "i < unat (pg_count (lpage fs p))"
    and s: "s = pg_slots (lpage fs p) ! i" and key: "length key < 2 ^ 32"
  obtains fs' where "get_slot key cap (lpage fs p) s fs =
      Some (kv_step key cap (map_of [slot_kv (lblock fs) (lpage fs p) s] key), fs')" and "quiet P fs fs'"
proof -
  let ?pg = "lpage fs p"
  note ok = pages_invD(6) [OF inv p] and pc = pages_invD(1) [OF inv]
  have good: "slot_good (lblock fs) (isize fs) ?pg s" using ok i s by (simp add: page_ok_def)
  have len: "length (lblock fs r) = 4096" for r using pc by simp
  consider (no) "\<not> slot_match (xxh64 key) key s" | (inl) "slot_match (xxh64 key) key s" "slot_inline s"
    | (rec) "slot_match (xxh64 key) key s" "\<not> slot_inline s" by blast
  then show thesis
  proof cases
    case no
    then have "slot_key (lblock fs) ?pg s \<noteq> key"
      using slot_match_iff [OF ok good len key] by auto
    with no show ?thesis
      by (intro that [of fs]) (simp_all add: get_slot_def kv_step_def slot_kv_def quiet_refl [OF pc])
  next
    case inl
    then show ?thesis
      using get_inline_ok [OF ok good len key inl, of cap]
      by (intro that [of fs]) (simp_all add: get_slot_def quiet_refl [OF pc])
  next
    case rec
    show ?thesis
      by (rule get_record_ok [OF inv p i s rec(2) key rec(1), of cap])
        (use rec in \<open>auto simp: get_slot_def intro: that\<close>)
  qed
qed

section \<open>One page, one chain\<close>

lemma get_slots_ok:
  assumes "pages_inv fs P" and "p \<in> P" and "length key < 2 ^ 32" and "pg = lpage fs p"
    and "\<forall>s \<in> set ss. \<exists>i < unat (pg_count (lpage fs p)). s = pg_slots (lpage fs p) ! i"
  shows "\<exists>fs'. get_slots key cap pg ss fs =
      Some (kv_step key cap (map_of (map (slot_kv (lblock fs) pg) ss) key), fs') \<and> quiet P fs fs'"
  using assms
proof (induction ss arbitrary: fs)
  case Nil
  then show ?case by (auto simp: kv_step_def intro: quiet_refl pages_invD(1))
next
  case (Cons s ss)
  note inv = Cons.prems(1) and p = Cons.prems(2)
  obtain i where i: "i < unat (pg_count (lpage fs p))" "s = pg_slots (lpage fs p) ! i"
    using Cons.prems(5) by auto
  obtain g where g: "get_slot key cap pg s fs = Some (kv_step key cap (map_of [slot_kv (lblock fs) pg s] key), g)"
    "quiet P fs g"
    using get_slot_ok [OF inv p i Cons.prems(3)] Cons.prems(4) by metis
  show ?case
  proof (cases "map_of [slot_kv (lblock fs) pg s] key")
    case None
    note q = quiet_pages [OF inv g(2)]
    have ih: "\<exists>fs'. get_slots key cap pg ss g =
        Some (kv_step key cap (map_of (map (slot_kv (lblock g) pg) ss) key), fs') \<and> quiet P g fs'"
      using q p Cons.prems(3-5) by (intro Cons.IH) simp_all
    have "slot_kv (lblock g) pg t = slot_kv (lblock fs) pg t" if t: "t \<in> set ss" for t
    proof (rule slot_kv_cong)
      obtain j where j: "j < unat (pg_count (lpage fs p))" "t = pg_slots (lpage fs p) ! j"
        using Cons.prems(5) t by auto
      have "lblock g (ps_file_off t) = lblock fs (ps_file_off t)" if "\<not> slot_inline t"
        using pages_invD(7) [OF inv p page_recsI [OF pages_invD(6) [OF inv p] j(1)]] that j(2) g(2)
        by (auto simp: quiet_def same_blocks_def)
      then show "slot_bytes (lblock g) pg t = slot_bytes (lblock fs) pg t"
        by (simp add: slot_bytes_def)
    qed
    then have "map (slot_kv (lblock g) pg) ss = map (slot_kv (lblock fs) pg) ss" by simp
    with None ih g quiet_trans [OF g(2)] show ?thesis
      by (auto simp: kv_step_def split: if_splits)
  next
    case (Some v)
    then have "map_of (map (slot_kv (lblock fs) pg) (s # ss)) key = Some v"
      by (auto split: if_splits)
    with Some g show ?thesis by (auto simp del: map_of.simps)
  qed
qed

lemma get_page_ok:
  assumes inv: "pages_inv fs P" and p: "p \<in> P" and key: "length key < 2 ^ 32"
  shows "\<exists>fs'. get_page key cap (lpage fs p) fs = Some (kv_step key cap (map_of (pkv fs p) key), fs') \<and> quiet P fs fs'"
proof -
  let ?pg = "lpage fs p"
  note ok = pages_invD(6) [OF inv p]
  have n: "unat (pg_count ?pg) \<le> 56" "length (pg_slots ?pg) = 56" using ok by (auto simp: page_ok_def wf_page_def)
  then have "\<forall>s \<in> set (take (unat (pg_count ?pg)) (pg_slots ?pg)). \<exists>i < unat (pg_count ?pg). s = pg_slots ?pg ! i"
    by (auto simp: in_set_conv_nth) blast
  from get_slots_ok [OF inv p key refl this, of cap] n show ?thesis
    by (auto simp: get_page_def page_kv_def PAGED_SLOTS_PER_PAGE_def)
qed

definition get_result :: "bytes \<Rightarrow> u32 \<Rightarrow> (bytes \<times> bytes) list \<Rightarrow> rc + bytes" where
  "get_result key cap L =
     (case map_of L key of
        None \<Rightarrow> Inl XXFS_ENOENT
      | Some v \<Rightarrow> if length v > unat cap then Inl XXFS_ENOSPC else Inr v)"

lemma get_loop_ok:
  assumes "pages_inv fs P" and "chain fs off ps" and "set ps \<subseteq> P" and "length key < 2 ^ 32"
  shows "\<exists>fs'. get_loop key cap off fs = Some (get_result key cap (kv fs ps), fs') \<and> quiet P fs fs'"
  using assms
proof (induction ps arbitrary: off fs)
  case Nil
  then show ?case
    by (subst get_loop.simps) (auto simp: get_result_def intro: quiet_refl pages_invD(1))
next
  case (Cons p ps)
  note inv = Cons.prems(1)
  have p: "p \<in> P" "off = p" "off \<noteq> 0" using Cons.prems by auto
  obtain g where g: "page_load fs p = (Some (lpage fs p), g)" "quiet P fs g"
    using page_load_quiet [OF inv p(1)] by blast
  note qg = quiet_pages [OF inv g(2)]
  obtain k where k: "get_page key cap (lpage fs p) g = Some (kv_step key cap (map_of (pkv fs p) key), k)" "quiet P g k"
    using get_page_ok [of g P p key cap] qg p(1) Cons.prems(4) by auto
  have fk: "quiet P fs k" using quiet_trans [OF g(2) k(2)] .
  note qk = quiet_pages [OF inv fk]
  have unf: "get_loop key cap off fs = Option.bind (get_page key cap (lpage fs p) g) (\<lambda>(r, fs).
      case r of Hit v \<Rightarrow> Some (Inr v, fs) | Fail rc \<Rightarrow> Some (Inl rc, fs)
      | Miss \<Rightarrow> get_loop key cap pn fs)" if "pn = pg_overflow_next (lpage fs p)" for pn
    unfolding that using p by (subst get_loop.simps) (simp add: g)
  show ?case
  proof (cases "map_of (pkv fs p) key")
    case None
    have sub: "set ps \<subseteq> P" and ch: "chain fs (pg_overflow_next (lpage fs p)) ps"
      using Cons.prems(2,3) by simp_all
    have "chain k (pg_overflow_next (lpage fs p)) ps"
      by (rule chain_cong [OF ch]) (use qk sub in \<open>metis subsetD\<close>)
    then have ih: "\<exists>fs'. get_loop key cap (pg_overflow_next (lpage fs p)) k =
        Some (get_result key cap (kv k ps), fs') \<and> quiet P k fs'"
      using qk sub Cons.prems(4) by (intro Cons.IH) blast+
    have "kv k ps = kv fs ps" by (rule kv_cong) (use qk sub in blast)
    moreover have "get_result key cap (kv fs (p # ps)) = get_result key cap (kv fs ps)"
      using None by (simp add: get_result_def map_add_def split: option.split)
    ultimately show ?thesis
      using ih None quiet_trans [OF fk] by (auto simp: unf [OF refl] k kv_step_def)
  next
    case (Some v)
    then show ?thesis
      using fk by (auto simp: unf [OF refl] k kv_step_def get_result_def map_add_Some_iff)
  qed
qed

end
