(* ===== verification/Index_Put.thy ===== *)
theory Index_Put
  imports Index_Get
begin

text \<open>
  What the steps of \<^verbatim>\<open>paged_put\<close> and \<^verbatim>\<open>paged_insert\<close> do to a well-formed index: a matching slot is
  overwritten, a slot is appended, a chain grows by a page.
\<close>

section \<open>Fresh blocks\<close>

abbreviation free_blocks :: "xxfs \<Rightarrow> nat" where
  "free_blocks fs \<equiv> unat (s_free_blocks (sb fs))"

definition fresh_block :: "xxfs \<Rightarrow> u64 set \<Rightarrow> u64 \<Rightarrow> bool" where
  "fresh_block fs P r \<longleftrightarrow> blk r \<and> r \<noteq> 0 \<and> r \<notin> P \<and> (\<forall>p \<in> P. r \<notin> recs fs p) \<and> cached fs r = None"

lemma fresh_alloc_off:
  assumes inv: "pages_inv fs P" and free: "0 < free_blocks fs"
  shows "fresh_block fs P (alloc_off (sb fs))" and "unat (alloc_off (sb fs)) = alloc_frontier fs"
proof -
  let ?off = "alloc_off (sb fs)" and ?s = "sb fs"
  have sup: "alloc_wf ?s" "4096 dvd unat (s_data_off ?s)" "0 < unat (s_data_off ?s)"
    using pages_invD(2) [OF inv] by (auto simp: super_inv_def)
  show u: "unat ?off = alloc_frontier fs"
    using free by (intro unat_alloc_off [OF sup(1)]) (simp add: word_less_nat_alt)
  have le: "unat (s_free_blocks ?s) \<le> unat (s_block_count ?s)"
    using sup(1) by (simp add: alloc_wf_def word_le_nat_alt)
  have "alloc_frontier fs + 4096 \<le> unat (s_data_off ?s) + unat (s_block_count ?s) * 4096"
  proof -
    have "Suc (unat (s_block_count ?s) - unat (s_free_blocks ?s)) \<le> unat (s_block_count ?s)"
      using free le by simp
    from mult_le_mono1 [OF this, of 4096] show ?thesis by (simp add: alloc_frontier_def)
  qed
  moreover have "4096 dvd alloc_frontier fs" using sup(2) by (simp add: alloc_frontier_def)
  ultimately have "blk ?off" using sup(1) u by (simp add: blk_def alloc_wf_def)
  moreover have "?off \<noteq> 0"
  proof
    assume "?off = 0"
    then have "alloc_frontier fs = 0" using u by simp
    then show False using sup(3) by (simp add: alloc_frontier_def)
  qed
  moreover have "\<not> allocd fs ?off" using u by (simp add: allocd_def)
  ultimately show "fresh_block fs P ?off"
    using pages_invD(3,4,7) [OF inv] unfolding fresh_block_def by blast
qed

text \<open>One block taken from the allocator.\<close>

definition took_block :: "xxfs \<Rightarrow> xxfs" where
  "took_block fs = fs\<lparr>sb := (sb fs)\<lparr>s_free_blocks := s_free_blocks (sb fs) - 1\<rparr>\<rparr>"

lemma page_alloc_free:
  "0 < free_blocks fs \<Longrightarrow> page_alloc fs = (alloc_off (sb fs), took_block fs)"
  by (auto simp: page_alloc_def Let_def took_block_def)

lemma took_block_fields [simp]:
  "img (took_block fs) = img fs" "pcache (took_block fs) = pcache fs" "pdir (took_block fs) = pdir fs"
  "cached (took_block fs) = cached fs" "lblock (took_block fs) = lblock fs" "lpage (took_block fs) = lpage fs"
  "pc_inv (took_block fs) = pc_inv fs"
  by (simp_all add: took_block_def cached_def lblock_def lpage_def pc_inv_def fun_eq_iff split: option.split)

lemma took_block_alloc:
  assumes sup: "super_inv (sb fs)" and free: "0 < free_blocks fs"
  shows "super_inv (sb (took_block fs))" and "alloc_frontier (took_block fs) = alloc_frontier fs + 4096"
    and "free_blocks (took_block fs) = free_blocks fs - 1"
proof -
  have one: "(1 :: u64) \<le> s_free_blocks (sb fs)" using free by (simp add: word_le_nat_alt)
  then show f: "free_blocks (took_block fs) = free_blocks fs - 1"
    by (simp add: took_block_def unat_sub)
  show "super_inv (sb (took_block fs))"
    using alloc_wf_take [OF _ one] sup by (simp add: super_inv_def took_block_def)
  have "unat (s_free_blocks (sb fs)) \<le> unat (s_block_count (sb fs))"
    using sup by (simp add: super_inv_def alloc_wf_def word_le_nat_alt)
  then show "alloc_frontier (took_block fs) = alloc_frontier fs + 4096"
    using f free by (simp add: alloc_frontier_def took_block_def)
qed

lemma allocd_fresh:
  assumes inv: "pages_inv fs P" and free: "0 < free_blocks fs"
  shows "allocd (took_block fs) (alloc_off (sb fs))"
  using fresh_alloc_off [OF inv free] took_block_alloc(2) [OF pages_invD(2) [OF inv] free]
  by (simp add: allocd_def fresh_block_def)

lemma length_record [simp]: "length (record_bytes key val) = 8 + length key + length val"
  by (simp add: record_bytes_def)

lemma fld_record: "fld 8 (length key + length val) (record_bytes key val) = key @ val"
  by (simp add: record_bytes_def fld_def)

lemma write_record_ok:
  assumes inv: "pages_inv fs P" and free: "0 < free_blocks fs" and len: "8 + length key + length val \<le> 4096"
  defines "off \<equiv> alloc_off (sb fs)"
  obtains fs' where "write_record fs key val = (Inr off, fs')" and "pc_inv fs'" and "sb fs' = sb (took_block fs)"
    and "pdir fs' = pdir fs" and "cached fs' = cached fs" and "isize fs \<le> isize fs'"
    and "unat off + 8 + length key + length val \<le> isize fs'"
    and "fld 8 (length key + length val) (lblock fs' off) = key @ val"
    and "\<And>r. blk r \<Longrightarrow> r \<noteq> off \<Longrightarrow> lblock fs' r = lblock fs r"
proof -
  have fr: "blk off" "off \<noteq> 0" "cached fs off = None"
    using fresh_alloc_off(1) [OF inv free] by (auto simp: fresh_block_def off_def)
  define g where "g = (if 8 + length key + length val \<le> 512 then took_block fs else tick (took_block fs))"
  have pc: "pc_inv fs" using pages_invD(1) [OF inv] .
  then have ff: "fault_free (img (took_block fs))" by (simp add: pc_inv_def)
  have lt: "lblock (tick h) = lblock h" for h by (simp add: lblock_def fun_eq_iff split: option.split)
  have gi: "pc_inv g" "cached g = cached fs" "lblock g = lblock fs" "sb g = sb (took_block fs)" "pdir g = pdir fs"
    "isize g = isize fs"
    using pc lt [of "took_block fs"] by (auto simp: g_def) (simp_all add: pc_inv_def)
  have al: "(if 8 + length key + length val \<le> 512 then (True, took_block fs) else fs_alloc (took_block fs)) = (True, g)"
    using ff by (simp add: g_def fs_alloc_ok)
  have un: "cached g off = None" using fr gi by simp
  obtain fs' where w: "fs_pwrite g (record_bytes key val) off = (True, fs')" and pc': "pc_inv fs'"
    and im: "\<exists>f. fs' = g\<lparr>img := f\<rparr>" and ca: "cached fs' = cached g" and sz: "isize g \<le> isize fs'"
    and sz': "record_bytes key val \<noteq> [] \<Longrightarrow> unat off + 0 + length (record_bytes key val) \<le> isize fs'"
    and bl: "\<And>r. blk r \<Longrightarrow> lblock fs' r = (if r = off then buf_put 0 (record_bytes key val) (lblock g off) else lblock g r)"
    using direct_write_ok [OF gi(1) fr(1) un, of 0 "record_bytes key val" off] len by auto
  have "write_record fs key val = (Inr off, fs')"
    unfolding write_record_def Let_def page_alloc_free [OF free] prod.case off_def [symmetric] al w
    using fr(2) by simp
  moreover have "unat off + 8 + length key + length val \<le> isize fs'"
    using sz' length_record [of key val] by (cases "record_bytes key val = []") auto
  moreover have "fld 8 (length key + length val) (lblock fs' off) = key @ val"
    using fld_record [of key val] len by (simp add: bl [OF fr(1)] buf_put_def fld_append1)
  ultimately show thesis
    using pc' im ca sz bl gi by (intro that [of fs']) auto
qed

section \<open>Changing one page\<close>

definition page_write :: "u64 set \<Rightarrow> xxfs \<Rightarrow> xxfs \<Rightarrow> u64 \<Rightarrow> paged_page \<Rightarrow> (bytes \<times> bytes) list \<Rightarrow> bool" where
  "page_write P fs fs' p q L \<longleftrightarrow> pages_inv fs' P \<and> pdir fs' = pdir fs \<and> lpage fs' p = q \<and> pkv fs' p = L \<and>
     (\<forall>r \<in> P. r \<noteq> p \<longrightarrow> lpage fs' r = lpage fs r \<and> pkv fs' r = pkv fs r) \<and>
     free_blocks fs \<le> Suc (free_blocks fs') \<and> spares fs P fs' P"

lemma page_update_write:
  assumes inv: "pages_inv fs P" and p: "p \<in> P" and c: "cached g p \<noteq> None" and pc: "pc_inv g"
    and sb: "super_inv (sb g)" "alloc_frontier fs \<le> alloc_frontier g" "free_blocks fs \<le> Suc (free_blocks g)"
    and pd: "pdir g = pdir fs" and ca: "cached g = cached fs" and sz: "isize fs \<le> isize g"
    and bl: "\<And>r. blk r \<Longrightarrow> r \<notin> X \<Longrightarrow> lblock g r = lblock fs r"
    and X: "\<And>r. r \<in> X \<Longrightarrow> allocd g r \<and> r \<notin> P" "\<And>r. r \<in> P \<Longrightarrow> r \<noteq> p \<Longrightarrow> X \<inter> recs fs r = {}"
      "\<And>r. r \<in> X \<Longrightarrow> r \<in> recs fs p \<or> alloc_frontier fs \<le> unat r"
    and q: "page_ok (lblock g) (isize g) q" "page_recs q \<subseteq> recs fs p \<union> X"
  obtains fs' where "page_update g p q = Some fs'" and "page_write P fs fs' p q (page_kv (lblock g) q)"
proof -
  have wf: "wf_page q" using q(1) by (simp add: page_ok_def)
  obtain fs' where u: "page_update g p q = Some fs'" "pc_inv fs'" and im: "\<exists>pc. fs' = g\<lparr>pcache := pc\<rparr>"
    and ca': "\<And>r. cached fs' r = (if r = p then Some q else cached g r)"
    and bl': "\<And>r. lblock fs' r = (if r = p then enc_page q else lblock g r)"
    using page_update_ok [OF pc _ wf, of p] c by auto
  have gf: "sb fs' = sb g" "img fs' = img g" "pdir fs' = pdir g" using im by auto
  have lp: "lpage fs' p = q" using wf by (simp add: lpage_def bl' page_codec.dec_enc)
  have np: "r \<noteq> p" if "r \<in> page_recs q" for r
    using that q(2) X(1) pages_invD(7) [OF inv p] p by blast
  have k: "page_kv (lblock fs') q = page_kv (lblock g) q \<and> page_ok (lblock fs') (isize fs') q"
    using np by (intro page_kv_cong [OF q(1)]) (auto simp: bl' gf)
  have al: "allocd fs' = allocd g" by (simp add: allocd_def alloc_frontier_def gf fun_eq_iff)
  have step: "pages_inv fs' P \<and> (\<forall>r \<in> P. r \<noteq> p \<longrightarrow> lpage fs' r = lpage fs r \<and> pkv fs' r = pkv fs r)"
  proof (rule pages_step [OF inv p u(2), where X = X])
    show "super_inv (sb fs')" "alloc_frontier fs \<le> alloc_frontier fs'" "isize fs \<le> isize fs'"
      using sb sz by (simp_all add: gf alloc_frontier_def)
    show "r \<in> P" if "cached fs' r \<noteq> None" for r
      using that pages_invD(3) [OF inv, of r] p by (auto simp: ca' ca split: if_splits)
    show "lblock fs' r = lblock fs r" if "blk r" "r \<noteq> p" "r \<notin> X" for r
      using that bl by (simp add: bl')
    show "page_ok (lblock fs') (isize fs') (lpage fs' p)" "recs fs' p \<subseteq> recs fs p \<union> X"
      using k q(2) by (simp_all add: lp)
  qed (use X al in auto)
  moreover have "pkv fs' p = page_kv (lblock g) q" using k lp by simp
  moreover have "spares fs P fs' P"
  proof (rule sparesI)
    show "alloc_frontier fs \<le> alloc_frontier fs'" "isize fs \<le> isize fs'"
      using sb(2) sz by (simp_all add: gf alloc_frontier_def)
    show "lblock fs' r = lblock fs r" if f: "foreign fs P r" for r
    proof -
      have "r \<noteq> p" "r \<notin> X" using f p X(3) [of r] by (auto simp: foreign_def)
      then show ?thesis using f bl by (simp add: bl' foreign_def)
    qed
    show "(\<exists>q \<in> P. r \<in> recs fs q) \<or> alloc_frontier fs \<le> unat r" if "s \<in> P" "r \<in> recs fs' s" for s r
      using that step p q(2) X(3) by (cases "s = p") (auto simp: lp)
  qed simp
  ultimately have "page_write P fs fs' p q (page_kv (lblock g) q)"
    unfolding page_write_def gf using lp sb(3) pd by blast
  with u(1) show thesis by (rule that)
qed

section \<open>Overwriting a slot\<close>

lemma fld_buf_put_into:
  assumes "a \<le> b" and "b + length xs \<le> length bs" and "n = b - a + length xs"
  shows "fld a n (buf_put b xs bs) = fld a (b - a) bs @ xs"
  by (rule nth_equalityI) (use assms in \<open>auto simp: fld_nth buf_put_nth nth_append add.commute\<close>)

lemma replace_inline:
  assumes ok: "page_ok rd sz pg" and len: "\<And>r. length (rd r) = 4096" and i: "i < unat (pg_count pg)"
    and s: "s = pg_slots pg ! i" and inl: "slot_inline s" and key: "slot_key rd pg s = key"
    and v: "of_nat (length val) \<le> ps_vlen s" and v32: "length val < 2 ^ 32"
  shows "unat (ps_file_off s) + length key + length val \<le> 1392"
    and "page_ok rd sz (pg\<lparr>pg_slots := (pg_slots pg)[i := s\<lparr>ps_vlen := of_nat (length val)\<rparr>],
        pg_inline_area := buf_put (unat (ps_file_off s) + length key) val (pg_inline_area pg)\<rparr>) \<and>
      page_kv rd (pg\<lparr>pg_slots := (pg_slots pg)[i := s\<lparr>ps_vlen := of_nat (length val)\<rparr>],
        pg_inline_area := buf_put (unat (ps_file_off s) + length key) val (pg_inline_area pg)\<rparr>) =
        (page_kv rd pg)[i := (key, val)] \<and>
      page_recs (pg\<lparr>pg_slots := (pg_slots pg)[i := s\<lparr>ps_vlen := of_nat (length val)\<rparr>],
        pg_inline_area := buf_put (unat (ps_file_off s) + length key) val (pg_inline_area pg)\<rparr>) \<subseteq> page_recs pg"
proof -
  let ?fo = "unat (ps_file_off s)" and ?area = "buf_put (unat (ps_file_off s) + length key) val (pg_inline_area pg)"
  let ?s = "s\<lparr>ps_vlen := of_nat (length val)\<rparr>"
  let ?pg = "pg\<lparr>pg_slots := (pg_slots pg)[i := ?s], pg_inline_area := ?area\<rparr>"
  have good: "slot_good rd sz pg s" using ok i s by (simp add: page_ok_def)
  have k: "unat (ps_klen s) = length key" using length_slot_key [OF ok good len] key by simp
  have uv: "unat (of_nat (length val) :: u32) = length val" using v32 by (simp add: unat_of_nat)
  have vl: "length val \<le> unat (ps_vlen s)" using v uv by (simp add: word_le_nat_alt)
  have used: "?fo + slot_size s \<le> unat (pg_inline_used pg)" "unat (pg_inline_used pg) \<le> 1392"
    "length (pg_inline_area pg) = 1392"
    using good inl ok by (auto simp: slot_good_def page_ok_def wf_page_def)
  show b: "?fo + length key + length val \<le> 1392"
    using used k vl by (simp add: slot_size_def)
  have sz': "slot_size ?s = length key + length val" by (simp add: slot_size_def k uv)
  have inl': "slot_inline ?s" using inl by (simp add: slot_inline_def)
  have "fld ?fo (length key) (pg_inline_area pg) = key"
    using key k inl by (simp add: slot_key_def slot_bytes_def slot_size_def fld_def min_def)
  then have sb: "slot_bytes rd ?pg ?s = key @ val"
    using b used inl' by (simp add: slot_bytes_def sz' fld_buf_put_into)
  have hash: "ps_hash s = xxh64 key" "take (min (length key) 16) (ps_key_prefix s) = take 16 key"
    using good key k by (simp_all add: slot_good_def)
  have hk: "slot_key rd ?pg ?s = key" using sb k by (simp add: slot_key_def)
  have g': "slot_good rd sz ?pg ?s"
    using hash hk k inl' used(1) vl unfolding slot_good_def sz' by (simp add: slot_size_def)
  have ap: "slots_apart (pg_slots pg ! j) s \<and> slots_apart s (pg_slots pg ! j)"
    if "j < unat (pg_count pg)" "j \<noteq> i" for j
    using ok that i s by (simp add: page_ok_def)
  have "slot_bytes rd ?pg (pg_slots pg ! j) = slot_bytes rd pg (pg_slots pg ! j)"
    if j: "j < unat (pg_count pg)" "j \<noteq> i" for j
  proof -
    have "slot_good rd sz pg (pg_slots pg ! j)" using ok j by (simp add: page_ok_def)
    then show ?thesis
      using ap [OF j] inl used b k vl
      by (auto simp: slot_bytes_def slots_apart_def slot_size_def slot_good_def intro!: fld_buf_put_other split: if_splits)
  qed
  moreover have "slots_apart (pg_slots pg ! j) ?s \<and> slots_apart ?s (pg_slots pg ! j)"
    if "j < unat (pg_count pg)" "j \<noteq> i" for j
    using ap [OF that] inl inl' sz' k vl by (auto simp: slots_apart_def slot_size_def [of s])
  moreover have "wf_slot ?s" using ok i s by (auto simp: page_ok_def wf_page_def wf_slot_def)
  ultimately show "page_ok rd sz ?pg \<and> page_kv rd ?pg = (page_kv rd pg)[i := (key, val)] \<and> page_recs ?pg \<subseteq> page_recs pg"
    using page_ok_replace [OF ok i le_refl refl, where s = ?s and area = ?area and rd' = rd and key = key and val = val] used b sb g' k inl' by simp
qed

text \<open>The slot of a record of its own: overwritten in place, or replaced by a new one.\<close>

lemma replace_record:
  assumes ok: "page_ok rd sz pg" and len: "\<And>r. length (rd r) = 4096" and i: "i < unat (pg_count pg)"
    and s: "s = pg_slots pg ! i" and key: "slot_key rd pg s = key" and v32: "length val < 2 ^ 32"
    and off: "\<And>j. j < unat (pg_count pg) \<Longrightarrow> j \<noteq> i \<Longrightarrow> \<not> slot_inline (pg_slots pg ! j) \<Longrightarrow> ps_file_off (pg_slots pg ! j) \<noteq> off"
    and rd': "\<And>r. r \<in> page_recs pg \<Longrightarrow> r \<noteq> off \<Longrightarrow> rd' r = rd r" and sz: "sz \<le> sz'"
    and rec: "fld 8 (length key + length val) (rd' off) = key @ val"
      "8 + length key + length val \<le> 4096" "unat off + 8 + length key + length val \<le> sz'"
    and fl: "fl AND SLOT_F_INLINE = 0"
    and pg': "pg' = pg\<lparr>pg_slots := (pg_slots pg)[i := s\<lparr>ps_vlen := of_nat (length val), ps_file_off := off, ps_flags := fl\<rparr>]\<rparr>"
  shows "page_ok rd' sz' pg' \<and> page_kv rd' pg' = (page_kv rd pg)[i := (key, val)] \<and>
    page_recs pg' \<subseteq> page_recs pg \<union> {off}"
proof -
  let ?s = "s\<lparr>ps_vlen := of_nat (length val), ps_file_off := off, ps_flags := fl\<rparr>"
  have good: "slot_good rd sz pg s" using ok i s by (simp add: page_ok_def)
  have k: "unat (ps_klen s) = length key" using length_slot_key [OF ok good len] key by simp
  have uv: "unat (of_nat (length val) :: u32) = length val" using v32 by (simp add: unat_of_nat)
  have sz': "slot_size ?s = length key + length val" by (simp add: slot_size_def k uv)
  have ni: "\<not> slot_inline ?s" using fl by (simp add: slot_inline_def)
  have sb: "slot_bytes rd' pg' ?s = key @ val" using rec(1) ni by (simp add: slot_bytes_def sz')
  have hash: "ps_hash s = xxh64 key" "take (min (length key) 16) (ps_key_prefix s) = take 16 key"
    using good key k by (simp_all add: slot_good_def)
  have hk: "slot_key rd' pg' ?s = key" using sb k by (simp add: slot_key_def)
  have g': "slot_good rd' sz' pg' ?s"
    using hash hk k ni rec(2,3) unfolding slot_good_def sz' by simp
  have "slot_bytes rd' pg' (pg_slots pg ! j) = slot_bytes rd pg (pg_slots pg ! j)"
    if j: "j < unat (pg_count pg)" "j \<noteq> i" for j
    using off [OF j] rd' [OF page_recsI [OF ok j(1)]] by (simp add: slot_bytes_def pg')
  moreover have "slots_apart (pg_slots pg ! j) ?s \<and> slots_apart ?s (pg_slots pg ! j)"
    if "j < unat (pg_count pg)" "j \<noteq> i" for j
    using off [OF that] ni by (auto simp: slots_apart_def)
  moreover have "wf_slot ?s" using ok i s by (auto simp: page_ok_def wf_page_def wf_slot_def)
  moreover have "pg' = pg\<lparr>pg_slots := (pg_slots pg)[i := ?s], pg_inline_area := pg_inline_area pg\<rparr>"
    by (simp add: pg')
  ultimately show ?thesis
    using page_ok_replace [OF ok i sz, where pg' = pg' and s = ?s and area = "pg_inline_area pg" and rd' = rd' and key = key and val = val] page_ok_len [OF ok] sb g' k ni by simp
qed

text \<open>The three ways in which \<^verbatim>\<open>paged_put\<close> overwrites slot \<open>i\<close> of page \<open>p\<close>.\<close>

definition slot_target :: "u64 set \<Rightarrow> xxfs \<Rightarrow> u64 \<Rightarrow> paged_page \<Rightarrow> nat \<Rightarrow> bytes \<Rightarrow> bytes \<Rightarrow> bool" where
  "slot_target P fs p pg i key val \<longleftrightarrow> pages_inv fs P \<and> p \<in> P \<and> cached fs p = Some pg \<and> pg = lpage fs p \<and>
     i < unat (pg_count pg) \<and> slot_key (lblock fs) pg (pg_slots pg ! i) = key \<and>
     8 + length key + length val \<le> 4096"

lemma slot_targetD:
  assumes "slot_target P fs p pg i key val"
  shows "pages_inv fs P" "p \<in> P" "cached fs p \<noteq> None" "pg = lpage fs p" "i < unat (pg_count pg)"
    and "slot_key (lblock fs) pg (pg_slots pg ! i) = key" "8 + length key + length val \<le> 4096" "length val < 2 ^ 32"
    and "page_ok (lblock fs) (isize fs) pg" "pc_inv fs" "super_inv (sb fs)" "length (lblock fs r) = 4096"
    and "slot_good (lblock fs) (isize fs) pg (pg_slots pg ! i)"
    and "r \<in> page_recs pg \<Longrightarrow> blk r"
proof -
  have inv: "pages_inv fs P" "p \<in> P" "pg = lpage fs p" using assms by (auto simp: slot_target_def)
  note * = pages_invD(1,2) [OF inv(1)] pages_invD(6) [OF inv(1,2)]
  then show "page_ok (lblock fs) (isize fs) pg" "pc_inv fs" "super_inv (sb fs)" "length (lblock fs r) = 4096"
    by (simp_all add: inv(3))
  moreover have "i < unat (pg_count pg)" using assms unfolding slot_target_def by blast
  ultimately show "slot_good (lblock fs) (isize fs) pg (pg_slots pg ! i)" unfolding page_ok_def by blast
  show "r \<in> page_recs pg \<Longrightarrow> blk r" using pages_invD(7) [OF inv(1,2), of r] inv(3) by simp
qed (use assms in \<open>auto simp: slot_target_def\<close>)

lemma update_slot_inline:
  assumes t: "slot_target P fs p pg i key val"
    and inl: "of_nat (length val) \<le> ps_vlen (pg_slots pg ! i)" "slot_inline (pg_slots pg ! i)"
  obtains fs' q where "update_slot fs p pg i key val = Some (XXFS_OK, fs')"
    and "page_write P fs fs' p q ((page_kv (lblock fs) pg)[i := (key, val)])" and "pg_overflow_next q = pg_overflow_next pg"
proof -
  note d = slot_targetD [OF t]
  let ?s = "pg_slots pg ! i"
  note r = replace_inline [OF d(9,12,5) refl inl(2) d(6) inl(1) d(8)]
  let ?q = "pg\<lparr>pg_slots := (pg_slots pg)[i := ?s\<lparr>ps_vlen := of_nat (length val)\<rparr>],
      pg_inline_area := buf_put (unat (ps_file_off ?s) + length key) val (pg_inline_area pg)\<rparr>"
  obtain fs' where u: "page_update fs p ?q = Some fs'" "page_write P fs fs' p ?q (page_kv (lblock fs) ?q)"
    by (rule page_update_write [OF d(1,2,3,10,11), where X = "{}" and q = ?q]) (use r d(4) in auto)
  moreover have "update_slot fs p pg i key val = Some (XXFS_OK, fs')"
    using inl r(1) u(1) by (simp add: update_slot_def Let_def page_consts)
  ultimately show thesis using r by (intro that [of fs' ?q]) simp_all
qed

lemma update_slot_record:
  assumes t: "slot_target P fs p pg i key val"
    and rec: "of_nat (length val) \<le> ps_vlen (pg_slots pg ! i)" "\<not> slot_inline (pg_slots pg ! i)"
  obtains fs' q where "update_slot fs p pg i key val = Some (XXFS_OK, fs')"
    and "page_write P fs fs' p q ((page_kv (lblock fs) pg)[i := (key, val)])" and "pg_overflow_next q = pg_overflow_next pg"
proof -
  note d = slot_targetD [OF t]
  let ?s = "pg_slots pg ! i" and ?off = "ps_file_off (pg_slots pg ! i)"
  have ro: "?off \<in> page_recs pg" using page_recsI [OF d(9,5) rec(2)] .
  have off: "allocd fs ?off" "blk ?off" "?off \<notin> P" "cached fs ?off = None"
    using pages_invD(7) [OF d(1,2)] ro d(4) by auto
  have kl: "unat (ps_klen ?s) = length key" using length_slot_key [OF d(9,13,12)] d(6) by simp
  have uv: "unat (of_nat (length val) :: u32) = length val" using d(8) by (simp add: unat_of_nat)
  have b: "unat ?off + 8 + length key + length val \<le> isize fs"
    using d(13) rec kl uv by (auto simp: slot_good_def slot_size_def word_le_nat_alt)
  obtain g where w: "fs_pwrite fs val (?off + of_nat (8 + length key)) = (True, g)" and pc: "pc_inv g"
    and im: "\<exists>f. g = fs\<lparr>img := f\<rparr>" and ca: "cached g = cached fs" and sz: "isize fs \<le> isize g"
    and bl: "\<And>r. blk r \<Longrightarrow> lblock g r = (if r = ?off then buf_put (8 + length key) val (lblock fs ?off) else lblock fs r)"
    by (rule direct_write_ok [OF d(10) off(2,4) d(7) refl]) blast
  have gf: "sb g = sb fs" "pdir g = pdir fs" using im by auto
  have "fld 8 (length key) (lblock fs ?off) = key"
    using d(6) rec(2) kl by (simp add: slot_key_def slot_bytes_def slot_size_def fld_def min_def)
  then have fb: "fld 8 (length key + length val) (lblock g ?off) = key @ val"
    using bl [OF off(2)] d(7) by (simp add: fld_buf_put_into d(12))
  let ?q = "pg\<lparr>pg_slots := (pg_slots pg)[i := ?s\<lparr>ps_vlen := of_nat (length val), ps_file_off := ?off, ps_flags := ps_flags ?s\<rparr>]\<rparr>"
  have q: "page_ok (lblock g) (isize g) ?q \<and> page_kv (lblock g) ?q = (page_kv (lblock fs) pg)[i := (key, val)] \<and>
      page_recs ?q \<subseteq> page_recs pg \<union> {?off}"
  proof (rule replace_record [where rd' = "lblock g" and off = ?off, OF d(9,12,5) refl d(6,8) _ _ sz fb d(7)])
    show "ps_file_off (pg_slots pg ! j) \<noteq> ?off" if "j < unat (pg_count pg)" "j \<noteq> i" "\<not> slot_inline (pg_slots pg ! j)" for j
      using d(9,5) that rec(2) by (auto simp: page_ok_def slots_apart_def)
    show "lblock g r = lblock fs r" if "r \<in> page_recs pg" "r \<noteq> ?off" for r
      using that bl d(14) by simp
  qed (use b sz rec(2) in \<open>auto simp: slot_inline_def\<close>)
  obtain fs' where u: "page_update g p ?q = Some fs'" "page_write P fs fs' p ?q (page_kv (lblock g) ?q)"
  proof (rule page_update_write [OF d(1,2) _ pc, where X = "{?off}" and q = ?q])
    show "allocd g r \<and> r \<notin> P" if "r \<in> {?off}" for r
      using that off gf by (simp add: allocd_def alloc_frontier_def)
    show "{?off} \<inter> recs fs r = {}" if "r \<in> P" "r \<noteq> p" for r
      using pages_invD(8) [OF d(1,2) that(1)] that(2) ro d(4) by auto
    show "r \<in> recs fs p \<or> alloc_frontier fs \<le> unat r" if "r \<in> {?off}" for r using that ro d(4) by simp
  qed (use d(3,4,11) ca gf sz bl q in \<open>auto simp: alloc_frontier_def\<close>)
  moreover have "update_slot fs p pg i key val = Some (XXFS_OK, fs')"
    using rec w u(1) by (simp add: update_slot_def Let_def add.assoc)
  ultimately show thesis using q by (intro that [of fs' ?q]) simp_all
qed

text \<open>A record in a fresh block, and the page that refers to it.\<close>

lemma record_page_write:
  assumes inv: "pages_inv fs P" and p: "p \<in> P" and c: "cached fs p \<noteq> None" and free: "0 < free_blocks fs"
    and g: "pc_inv g" "sb g = sb (took_block fs)" "pdir g = pdir fs" "cached g = cached fs" "isize fs \<le> isize g"
      "\<And>r. blk r \<Longrightarrow> r \<noteq> alloc_off (sb fs) \<Longrightarrow> lblock g r = lblock fs r"
    and q: "page_ok (lblock g) (isize g) q" "page_recs q \<subseteq> recs fs p \<union> {alloc_off (sb fs)}"
  obtains fs' where "page_update g p q = Some fs'" and "page_write P fs fs' p q (page_kv (lblock g) q)"
proof (rule page_update_write [OF inv p _ g(1), where X = "{alloc_off (sb fs)}" and q = q])
  note fr = fresh_alloc_off(1) [OF inv free, unfolded fresh_block_def]
  note tb = took_block_alloc [OF pages_invD(2) [OF inv] free]
  show "allocd g r \<and> r \<notin> P" if "r \<in> {alloc_off (sb fs)}" for r
    using that fr allocd_fresh [OF inv free] g(2) by (simp add: allocd_def alloc_frontier_def)
  show "{alloc_off (sb fs)} \<inter> recs fs r = {}" if "r \<in> P" "r \<noteq> p" for r using fr that by simp
  show "r \<in> recs fs p \<or> alloc_frontier fs \<le> unat r" if "r \<in> {alloc_off (sb fs)}" for r
    using that fresh_alloc_off(2) [OF inv free] by simp
  show "alloc_frontier fs \<le> alloc_frontier g" using tb(2) g(2) by (simp add: alloc_frontier_def)
  show "super_inv (sb g)" "free_blocks fs \<le> Suc (free_blocks g)" using tb g(2) free by auto
  show "lblock g r = lblock fs r" if "blk r" "r \<notin> {alloc_off (sb fs)}" for r using that g(6) by simp
qed (use c g q that in auto)

lemma update_slot_new:
  assumes t: "slot_target P fs p pg i key val" and free: "0 < free_blocks fs"
    and new: "\<not> of_nat (length val) \<le> ps_vlen (pg_slots pg ! i)"
  obtains fs' q where "update_slot fs p pg i key val = Some (XXFS_OK, fs')"
    and "page_write P fs fs' p q ((page_kv (lblock fs) pg)[i := (key, val)])" and "pg_overflow_next q = pg_overflow_next pg"
proof -
  note d = slot_targetD [OF t]
  let ?s = "pg_slots pg ! i" and ?off = "alloc_off (sb fs)"
  note fr = fresh_alloc_off(1) [OF d(1) free, unfolded fresh_block_def]
  obtain g where w: "write_record fs key val = (Inr ?off, g)"
    and g: "pc_inv g" "sb g = sb (took_block fs)" "pdir g = pdir fs" "cached g = cached fs" "isize fs \<le> isize g"
    and r: "unat ?off + 8 + length key + length val \<le> isize g"
      "fld 8 (length key + length val) (lblock g ?off) = key @ val"
    and bl: "\<And>r. blk r \<Longrightarrow> r \<noteq> ?off \<Longrightarrow> lblock g r = lblock fs r"
    using write_record_ok [OF d(1) free d(7)] by blast
  let ?q = "pg\<lparr>pg_slots := (pg_slots pg)[i := ?s\<lparr>ps_vlen := of_nat (length val), ps_file_off := ?off, ps_flags := 0\<rparr>]\<rparr>"
  have q: "page_ok (lblock g) (isize g) ?q \<and> page_kv (lblock g) ?q = (page_kv (lblock fs) pg)[i := (key, val)] \<and>
      page_recs ?q \<subseteq> page_recs pg \<union> {?off}"
  proof (rule replace_record [where rd' = "lblock g" and off = ?off, OF d(9,12,5) refl d(6,8) _ _ g(5) r(2) d(7) r(1)])
    show "ps_file_off (pg_slots pg ! j) \<noteq> ?off" if "j < unat (pg_count pg)" "j \<noteq> i" "\<not> slot_inline (pg_slots pg ! j)" for j
      using fr d(2,4) page_recsI [OF d(9) that(1,3)] by auto
    show "lblock g r = lblock fs r" if "r \<in> page_recs pg" "r \<noteq> ?off" for r
      using that bl d(14) by simp
  qed simp_all
  obtain fs' where u: "page_update g p ?q = Some fs'" "page_write P fs fs' p ?q (page_kv (lblock g) ?q)"
    using record_page_write [OF d(1,2,3) free g bl, of ?q] q d(4) by blast
  moreover have "update_slot fs p pg i key val = Some (XXFS_OK, fs')"
    using new w u(1) by (simp add: update_slot_def Let_def)
  ultimately show thesis using q by (intro that [of fs' ?q]) simp_all
qed

lemma update_slot_ok:
  assumes "slot_target P fs p pg i key val" and "0 < free_blocks fs"
  obtains fs' q where "update_slot fs p pg i key val = Some (XXFS_OK, fs')"
    and "page_write P fs fs' p q ((page_kv (lblock fs) pg)[i := (key, val)])" and "pg_overflow_next q = pg_overflow_next pg"
  using update_slot_inline [OF assms(1)] update_slot_record [OF assms(1)] update_slot_new [OF assms] by metis

section \<open>Appending a slot\<close>

lemma new_slot_fields:
  assumes "wf_slot s" and "length key < 2 ^ 32" and "length val < 2 ^ 32"
  shows "wf_slot (new_slot s h key val)" and "ps_hash (new_slot s h key val) = h"
    and "unat (ps_klen (new_slot s h key val)) = length key" and "unat (ps_vlen (new_slot s h key val)) = length val"
    and "take (min (length key) 16) (ps_key_prefix (new_slot s h key val)) = take 16 key"
    and "\<not> slot_inline (new_slot s h key val)"
  using assms
  by (simp_all add: new_slot_def wf_slot_def slot_inline_def KEY_PREFIX_LEN_def unat_of_nat)
    (simp add: buf_put_def min_def)

lemma append_slot_inline:
  assumes inv: "pages_inv fs P" and p: "p \<in> P" and c: "cached fs p = Some pg" and pg: "pg = lpage fs p"
    and room: "unat (pg_count pg) < 56" and len: "8 + length key + length val \<le> 4096"
    and fits: "pg_inline_used pg + (of_nat (length key) + of_nat (length val)) \<le> of_nat PAGED_INLINE_SPACE"
  obtains fs' q where "append_slot fs p pg (xxh64 key) key val = Some (XXFS_OK, fs')"
    and "page_write P fs fs' p q (page_kv (lblock fs) pg @ [(key, val)])" and "pg_overflow_next q = pg_overflow_next pg"
proof -
  let ?n = "unat (pg_count pg)" and ?u = "unat (pg_inline_used pg)" and ?need = "of_nat (length key) + of_nat (length val) :: u32"
  note ok = pages_invD(6) [OF inv p, folded pg] and pc = pages_invD(1) [OF inv]
  have wf: "wf_slot (pg_slots pg ! ?n)" "?u \<le> 1392" "length (pg_inline_area pg) = 1392"
    using ok room by (auto simp: page_ok_def wf_page_def)
  note f = new_slot_fields [OF wf(1), of key val "xxh64 key"]
  have l: "unat (of_nat (length key) :: u32) = length key" "unat (of_nat (length val) :: u32) = length val"
    using len by (simp_all add: unat_of_nat)
  have need: "unat ?need = length key + length val" using len l by (subst unat_add_nowrap) simp_all
  have un: "unat (pg_inline_used pg + ?need) = ?u + (length key + length val)"
    using len need wf(2) by (subst unat_add_nowrap) simp_all
  have b: "?u + (length key + length val) \<le> 1392"
    using fits un by (simp add: word_le_nat_alt page_consts)
  let ?s = "(new_slot (pg_slots pg ! ?n) (xxh64 key) key val)\<lparr>ps_file_off := ucast (pg_inline_used pg), ps_flags := SLOT_F_INLINE\<rparr>"
  let ?area = "buf_put ?u (key @ val) (pg_inline_area pg)"
  let ?q = "pg\<lparr>pg_count := pg_count pg + 1, pg_slots := (pg_slots pg)[?n := ?s], pg_inline_area := ?area,
      pg_inline_used := pg_inline_used pg + ?need\<rparr>"
  have inl: "slot_inline ?s" by (simp add: slot_inline_def SLOT_F_INLINE_def)
  have fo: "unat (ps_file_off ?s) = ?u" by (simp add: unat_ucast_up)
  have sz: "slot_size ?s = length key + length val" using f len by (simp add: slot_size_def)
  have q: "page_ok (lblock fs) (isize fs) ?q \<and> page_kv (lblock fs) ?q = page_kv (lblock fs) pg @ [(key, val)] \<and>
      page_recs ?q = page_recs pg \<union> (if slot_inline ?s then {} else {ps_file_off ?s})"
  proof (rule page_ok_append [OF ok room, where area = ?area and u = "pg_inline_used pg + ?need"])
    show "fld a n ?area = fld a n (pg_inline_area pg)" if "a + n \<le> ?u" for a n
      using that b wf by (intro fld_buf_put_other) auto
    show "slot_bytes (lblock fs) (pg\<lparr>pg_inline_area := ?area\<rparr>) ?s = key @ val"
      using inl fo sz b wf by (simp add: slot_bytes_def fld_buf_put_same)
    show "wf_slot ?s" using f(1) len by (simp add: wf_slot_def)
  qed (use f len b wf un inl fo sz in \<open>auto simp: slot_size_def\<close>)
  obtain fs' where u: "page_update fs p ?q = Some fs'" "page_write P fs fs' p ?q (page_kv (lblock fs) ?q)"
    by (rule page_update_write [OF inv p _ pc pages_invD(2) [OF inv], where X = "{}" and q = ?q]) (use q inl c pg in auto)
  moreover have "append_slot fs p pg (xxh64 key) key val = Some (XXFS_OK, fs')"
    using fits b u(1) by (simp add: append_slot_def Let_def page_consts add.assoc)
  ultimately show thesis using q by (intro that [of fs' ?q]) simp_all
qed

end
