(* ===== verification/Index_Chain.thy ===== *)
theory Index_Chain
  imports Index_Put
begin

text \<open>
  Correctness of the loop of \<^verbatim>\<open>paged_put\<close> over a chain: it returns, and the chain then holds the new
  value of the key and every other pair as before.
\<close>

section \<open>Appending a slot with a record of its own\<close>

lemma append_slot_record:
  assumes inv: "pages_inv fs P" and p: "p \<in> P" and c: "cached fs p = Some pg" and pg: "pg = lpage fs p"
    and room: "unat (pg_count pg) < 56" and len: "8 + length key + length val \<le> 4096" and free: "0 < free_blocks fs"
    and full: "\<not> pg_inline_used pg + (of_nat (length key) + of_nat (length val)) \<le> of_nat PAGED_INLINE_SPACE"
  obtains fs' q where "append_slot fs p pg (xxh64 key) key val = Some (XXFS_OK, fs')"
    and "page_write P fs fs' p q (page_kv (lblock fs) pg @ [(key, val)])" and "pg_overflow_next q = pg_overflow_next pg"
proof -
  let ?n = "unat (pg_count pg)" and ?off = "alloc_off (sb fs)"
  note ok = pages_invD(6) [OF inv p, folded pg]
  note fr = fresh_alloc_off(1) [OF inv free, unfolded fresh_block_def]
  have wf: "wf_slot (pg_slots pg ! ?n)" "unat (pg_inline_used pg) \<le> 1392" "length (pg_inline_area pg) = 1392"
    using ok room by (auto simp: page_ok_def wf_page_def)
  note f = new_slot_fields [OF wf(1), of key val "xxh64 key"]
  obtain g where w: "write_record fs key val = (Inr ?off, g)"
    and g: "pc_inv g" "sb g = sb (took_block fs)" "pdir g = pdir fs" "cached g = cached fs" "isize fs \<le> isize g"
    and r: "unat ?off + 8 + length key + length val \<le> isize g"
      "fld 8 (length key + length val) (lblock g ?off) = key @ val"
    and bl: "\<And>r. blk r \<Longrightarrow> r \<noteq> ?off \<Longrightarrow> lblock g r = lblock fs r"
    using write_record_ok [OF inv free len] by blast
  let ?s = "(new_slot (pg_slots pg ! ?n) (xxh64 key) key val)\<lparr>ps_file_off := ?off\<rparr>"
  let ?q = "pg\<lparr>pg_count := pg_count pg + 1, pg_slots := (pg_slots pg)[?n := ?s]\<rparr>"
  have ni: "\<not> slot_inline ?s" using f len by (simp add: slot_inline_def)
  have sz: "slot_size ?s = length key + length val" using f len by (simp add: slot_size_def)
  have q': "?q = pg\<lparr>pg_count := pg_count pg + 1, pg_slots := (pg_slots pg)[?n := ?s],
      pg_inline_area := pg_inline_area pg, pg_inline_used := pg_inline_used pg\<rparr>" by simp
  have q: "page_ok (lblock g) (isize g) ?q \<and> page_kv (lblock g) ?q = page_kv (lblock fs) pg @ [(key, val)] \<and>
      page_recs ?q = page_recs pg \<union> (if slot_inline ?s then {} else {ps_file_off ?s})"
  proof (rule page_ok_append [OF ok room _ g(5) _ _ _ _ _ _ _ _ _ _ _ q'])
    show "lblock g r = lblock fs r" if "r \<in> page_recs pg" for r
      using that bl fr pages_invD(7) [OF inv p, of r] p by (auto simp: pg)
    show "slot_bytes (lblock g) (pg\<lparr>pg_inline_area := pg_inline_area pg\<rparr>) ?s = key @ val"
      using ni r(2) by (simp add: slot_bytes_def sz)
    show "wf_slot ?s" using f(1) len by (simp add: wf_slot_def)
    show "if slot_inline ?s then unat (pg_inline_used pg) \<le> unat (ps_file_off ?s) \<and>
        unat (ps_file_off ?s) + slot_size ?s \<le> unat (pg_inline_used pg)
      else 8 + slot_size ?s \<le> 4096 \<and> unat (ps_file_off ?s) + 8 + slot_size ?s \<le> isize g \<and> ps_file_off ?s \<notin> page_recs pg"
      using ni sz len r(1) fr p by (auto simp: pg)
  qed (use f len wf sz in simp_all)
  obtain fs' where u: "page_update g p ?q = Some fs'" "page_write P fs fs' p ?q (page_kv (lblock g) ?q)"
    using record_page_write [OF inv p _ free g bl, of ?q] q ni c pg by auto
  moreover have "append_slot fs p pg (xxh64 key) key val = Some (XXFS_OK, fs')"
    using full w u(1) by (simp add: append_slot_def Let_def)
  ultimately show thesis using q by (intro that [of fs' ?q]) simp_all
qed

lemma append_slot_ok:
  assumes "pages_inv fs P" and "p \<in> P" and "cached fs p = Some pg" and "pg = lpage fs p"
    and "unat (pg_count pg) < 56" and "8 + length key + length val \<le> 4096" and "0 < free_blocks fs"
  obtains fs' q where "append_slot fs p pg (xxh64 key) key val = Some (XXFS_OK, fs')"
    and "page_write P fs fs' p q (page_kv (lblock fs) pg @ [(key, val)])" and "pg_overflow_next q = pg_overflow_next pg"
  using append_slot_inline [OF assms(1-6)] append_slot_record [OF assms] by metis

section \<open>Adding a page\<close>

lemma fresh_page_props:
  "page_ok rd sz (fresh_page d)" "page_kv rd (fresh_page d) = []" "page_recs (fresh_page d) = {}"
  "pg_overflow_next (fresh_page d) = 0"
  using wf_empty(2)
  by (simp_all add: page_ok_def page_kv_def page_recs_def fresh_page_def empty_page_def wf_page_def)

lemma pages_add:
  assumes inv: "pages_inv fs P" and fr: "fresh_block fs P off" and al: "allocd fs off"
  obtains fs' where "fs_pwrite fs (enc_page (fresh_page d)) off = (True, fs')" and "pages_inv fs' (insert off P)"
    and "lpage fs' off = fresh_page d" and "pkv fs' off = []" and "sb fs' = sb fs" and "pdir fs' = pdir fs"
    and "\<And>q. q \<in> P \<Longrightarrow> lpage fs' q = lpage fs q \<and> pkv fs' q = pkv fs q" and "cached fs' = cached fs"
    and "\<And>r. foreign fs P r \<Longrightarrow> r \<noteq> off \<Longrightarrow> foreign fs' (insert off P) r \<and> lblock fs' r = lblock fs r"
    and "isize fs \<le> isize fs'"
proof -
  have wf: "wf_page (fresh_page d)" using fresh_page_props(1) [of undefined 0 d] by (simp add: page_ok_def)
  have l: "length (enc_page (fresh_page d)) = 4096" using wf by (rule page_codec.enc_length)
  note pc = pages_invD(1) [OF inv]
  have off: "blk off" "cached fs off = None" using fr by (auto simp: fresh_block_def)
  have l0: "0 + length (enc_page (fresh_page d)) \<le> 4096" and o0: "off = off + of_nat 0" using l by simp_all
  obtain fs' where w: "fs_pwrite fs (enc_page (fresh_page d)) off = (True, fs')" and pc': "pc_inv fs'"
    and im: "\<exists>f. fs' = fs\<lparr>img := f\<rparr>" and ca: "cached fs' = cached fs" and sz: "isize fs \<le> isize fs'"
    and bl: "\<And>r. blk r \<Longrightarrow> lblock fs' r = (if r = off then buf_put 0 (enc_page (fresh_page d)) (lblock fs off) else lblock fs r)"
    by (rule direct_write_ok [OF pc off l0 o0]) blast
  have gf: "sb fs' = sb fs" "pdir fs' = pdir fs" using im by auto
  have lp: "lpage fs' off = fresh_page d"
    using bl [OF off(1)] l pc wf by (simp add: lpage_def buf_put_def page_codec.dec_enc)
  have al': "allocd fs' = allocd fs" by (simp add: allocd_def alloc_frontier_def gf fun_eq_iff)
  have step: "pages_inv fs' P \<and> (\<forall>p \<in> P. lpage fs' p = lpage fs p \<and> pkv fs' p = pkv fs p)"
  proof (rule pages_frame [OF inv pc' _ _ sz])
    show "r \<in> P" if "cached fs' r \<noteq> None" for r using that ca pages_invD(3) [OF inv] by simp
    show "lblock fs' r = lblock fs r" if "blk r" "r \<in> P \<or> (\<exists>p \<in> P. r \<in> recs fs p)" for r
      using that bl fr by (auto simp: fresh_block_def)
  qed (use gf pages_invD(2) [OF inv] in \<open>simp_all add: alloc_frontier_def\<close>)
  have same: "lpage fs' q = lpage fs q" "pkv fs' q = pkv fs q" if "q \<in> P" for q using step that by auto
  have rc: "r \<noteq> off" if "q \<in> P" "r \<in> recs fs' q" for q r
    using that same(1) fr by (auto simp: fresh_block_def)
  have "pages_inv fs' (insert off P)"
    unfolding pages_inv_def
  proof (intro conjI ballI allI impI)
    fix q assume q: "q \<in> insert off P"
    show "allocd fs' q" using q al al' pages_invD(4) [OF conjunct1 [OF step]] by auto
    show "page_ok (lblock fs') (isize fs') (lpage fs' q)"
      using q lp fresh_page_props(1) pages_invD(6) [OF conjunct1 [OF step]] by auto
    fix r assume r: "r \<in> recs fs' q"
    then have "q \<in> P" using q lp fresh_page_props(3) by auto
    then show "allocd fs' r" "r \<notin> insert off P"
      using r rc pages_invD(7) [OF conjunct1 [OF step]] by blast+
  next
    fix q q' assume q: "q \<in> insert off P" "q' \<in> insert off P" "q \<noteq> q'"
    then show "recs fs' q \<inter> recs fs' q' = {}"
      using lp fresh_page_props(3) pages_invD(8) [OF conjunct1 [OF step], of q q'] by auto
  next
    fix r assume "cached fs' r \<noteq> None"
    then show "r \<in> insert off P" using pages_invD(3) [OF conjunct1 [OF step]] by blast
  qed (use pages_invD(1,2) [OF conjunct1 [OF step]] in blast)+
  moreover have "foreign fs' (insert off P) r \<and> lblock fs' r = lblock fs r" if "foreign fs P r" "r \<noteq> off" for r
    using that same(1) lp bl gf fresh_page_props(3) by (auto simp: foreign_def alloc_frontier_def)
  moreover have "pkv fs' off = []" using lp fresh_page_props(2) by simp
  ultimately show thesis using w lp gf same ca sz by (intro that [of fs']) auto
qed

text \<open>The chain grows behind page \<open>p\<close>.\<close>

lemma overflow_step_new:
  assumes inv: "pages_inv fs P" and p: "p \<in> P" and c: "cached fs p = Some pg" and pg: "pg = lpage fs p"
    and last: "pg_overflow_next pg = 0" and free: "0 < free_blocks fs"
  obtains fs' off where "overflow_step fs p pg = Some (Next off, fs')" and "off \<notin> P" and "off \<noteq> 0"
    and "pages_inv fs' (insert off P)" and "pdir fs' = pdir fs" and "free_blocks fs \<le> Suc (free_blocks fs')"
    and "lpage fs' p = pg\<lparr>pg_overflow_next := off\<rparr>" and "\<exists>d. lpage fs' off = fresh_page d"
    and "\<And>q. q \<in> P \<Longrightarrow> q \<noteq> p \<Longrightarrow> lpage fs' q = lpage fs q" and "\<And>q. q \<in> P \<Longrightarrow> pkv fs' q = pkv fs q"
    and "pkv fs' off = []" and "spares fs P fs' (insert off P)"
proof -
  let ?off = "alloc_off (sb fs)" and ?g = "took_block fs"
  let ?q = "pg\<lparr>pg_overflow_next := ?off\<rparr>"
  note fr = fresh_alloc_off(1) [OF inv free] and tb = took_block_alloc [OF pages_invD(2) [OF inv] free]
  note ok = pages_invD(6) [OF inv p, folded pg]
  have sl: "slot_bytes rd ?q = slot_bytes rd pg" for rd by (simp add: slot_bytes_def fun_eq_iff)
  have q: "page_ok (lblock ?g) (isize ?g) ?q" "page_kv (lblock ?g) ?q = page_kv (lblock fs) pg" "page_recs ?q = page_recs pg"
    using ok by (simp_all add: page_ok_def slot_good_def slot_key_def sl wf_page_def page_kv_def slot_kv_def slot_val_def
        page_recs_def)
  obtain f1 where u: "page_update ?g p ?q = Some f1" and w: "page_write P fs f1 p ?q (page_kv (lblock ?g) ?q)"
    by (rule page_update_write [OF inv p, where X = "{}" and q = ?q and g = ?g])
      (use q c tb pg free pages_invD(1) [OF inv] in auto)
  have g: "pc_inv ?g" "cached ?g p = Some pg" "wf_page ?q"
    using pages_invD(1) [OF inv] c q(1) by (simp_all add: page_ok_def)
  obtain f where f: "page_update ?g p ?q = Some f" "\<exists>pc. f = ?g\<lparr>pcache := pc\<rparr>"
    "\<And>r. cached f r = (if r = p then Some ?q else cached ?g r)"
    by (rule page_update_ok [OF g]) blast
  have "f = f1" using f(1) u by simp
  then have f1: "sb f1 = sb ?g" and ca: "\<And>r. cached f1 r = (if r = p then Some ?q else cached fs r)"
    using f(2,3) by auto
  note w' = w [unfolded page_write_def]
  have "fresh_block f1 P ?off"
  proof -
    have "?off \<notin> recs f1 r" if "r \<in> P" for r
      using fr w' that q(3) pg p by (cases "r = p") (auto simp: fresh_block_def)
    moreover have "cached f1 ?off = None" using ca fr p by (auto simp: fresh_block_def)
    ultimately show ?thesis using fr by (simp add: fresh_block_def)
  qed
  moreover have "allocd f1 ?off"
    using allocd_fresh [OF inv free] f1(1) by (simp add: allocd_def alloc_frontier_def)
  ultimately obtain f2 where f2: "fs_pwrite f1 (enc_page (fresh_page (pg_local_depth pg))) ?off = (True, f2)"
    "pages_inv f2 (insert ?off P)" "lpage f2 ?off = fresh_page (pg_local_depth pg)" "pkv f2 ?off = []"
    "sb f2 = sb f1" "pdir f2 = pdir f1" and same: "\<And>q. q \<in> P \<Longrightarrow> lpage f2 q = lpage f1 q \<and> pkv f2 q = pkv f1 q"
    and ca2: "cached f2 = cached f1"
    and sz2: "isize f1 \<le> isize f2" and sp2: "\<And>r. foreign f1 P r \<Longrightarrow> r \<noteq> ?off \<Longrightarrow> foreign f2 (insert ?off P) r \<and> lblock f2 r = lblock f1 r"
    using pages_add [of f1 P ?off] w' by metis
  have "foreign f2 (insert ?off P) r \<and> lblock f2 r = lblock fs r" if r: "foreign fs P r" for r
  proof -
    have "r \<noteq> ?off" using r fresh_alloc_off(2) [OF inv free] by (auto simp: foreign_def)
    then show ?thesis using r sp2 [of r] w' unfolding spares_def by metis
  qed
  moreover have "isize fs \<le> isize f2" using sz2 w' unfolding spares_def by linarith
  ultimately have sp: "spares fs P f2 (insert ?off P)" unfolding spares_def by blast
  have "?off \<noteq> 0" "?off \<notin> P" "cached f2 ?off = None"
    using fr ca ca2 p by (auto simp: fresh_block_def)
  moreover from this have "overflow_step fs p pg = Some (Next ?off, f2)"
    using last u f2(1) ca ca2
    by (simp add: overflow_step_def page_alloc_free [OF free] page_cache_invalidate_uncached)
  moreover have "pkv f2 r = pkv fs r" if "r \<in> P" for r
    using same [OF that] w' q(2) pg that by (cases "r = p") auto
  ultimately show thesis
    using f2 same w' p sp by (intro that [of ?off f2]) auto
qed

section \<open>One turn of the loop\<close>

lemma quiet_page_write:
  assumes inv: "pages_inv fs P" and q: "quiet P fs g" and w: "page_write P g fs' p pg L"
  shows "page_write P fs fs' p pg L"
proof -
  have "\<forall>r \<in> P. r \<noteq> p \<longrightarrow> lpage fs' r = lpage fs r \<and> pkv fs' r = pkv fs r"
    using quiet_pages [OF inv q] w unfolding page_write_def by metis
  moreover have "spares fs P fs' P" using spares_trans [OF quiet_spares [OF inv q]] w unfolding page_write_def by blast
  ultimately show ?thesis using quiet_sb [OF q] w unfolding page_write_def by metis
qed

text \<open>No slot of the page has the fingerprint of the key.\<close>

definition no_match :: "bytes \<Rightarrow> paged_page \<Rightarrow> bool" where
  "no_match key pg \<longleftrightarrow> (\<forall>j < unat (pg_count pg). \<not> slot_match (xxh64 key) key (pg_slots pg ! j))"

lemma no_match_find:
  assumes "page_ok rd sz pg" and "no_match key pg"
  shows "find_slot (xxh64 key) key pg = Some None"
  using assms by (cases rule: find_slot_cases [OF assms(1), of "xxh64 key" key]) (auto simp: no_match_def)

lemma put_here:
  assumes inv: "pages_inv fs P" and p: "p \<in> P" and room: "unat (pg_count (lpage fs p)) < 56"
    and nm: "scan \<longrightarrow> no_match key (lpage fs p)"
    and len: "8 + length key + length val \<le> 4096" and free: "0 < free_blocks fs"
  obtains fs' q where "put_loop scan key val (Some p) fs = Some (XXFS_OK, fs')"
    and "page_write P fs fs' p q (pkv fs p @ [(key, val)])" and "pg_overflow_next q = pg_overflow_next (lpage fs p)"
proof -
  obtain g where g: "page_load fs p = (Some (lpage fs p), g)" "quiet P fs g" "cached g p = Some (lpage fs p)"
    using page_load_quiet [OF inv p] by blast
  note qg = quiet_pages [OF inv g(2)]
  have pg: "lpage fs p = lpage g p" using qg p by simp
  have fg: "0 < free_blocks g" using free quiet_sb [OF g(2)] by simp
  obtain fs' q where a: "append_slot g p (lpage fs p) (xxh64 key) key val = Some (XXFS_OK, fs')"
    and w: "page_write P g fs' p q (page_kv (lblock g) (lpage fs p) @ [(key, val)])"
    and n: "pg_overflow_next q = pg_overflow_next (lpage fs p)"
    by (rule append_slot_ok [OF conjunct1 [OF qg] p g(3) pg room len fg])
  have p0: "p \<noteq> 0" using pages_invD(4) [OF inv p] by (simp add: allocd_def)
  have "put_page scan key val p fs = Some (Done XXFS_OK, fs')"
    using no_match_find [OF pages_invD(6) [OF inv p]] nm room
    by (auto simp: put_page_def g(1) a finish_def PAGED_SLOTS_PER_PAGE_def)
  then have "put_loop scan key val (Some p) fs = Some (XXFS_OK, fs')"
    using p0 by (subst put_loop.simps) simp
  moreover have "page_kv (lblock g) (lpage fs p) = pkv fs p" using qg p by auto
  ultimately show thesis using quiet_page_write [OF inv g(2) w] n by (intro that [of fs' q]) auto
qed

lemma put_hit:
  assumes inv: "pages_inv fs P" and p: "p \<in> P" and find: "find_slot (xxh64 key) key (lpage fs p) = Some (Some i)"
    and i: "i < unat (pg_count (lpage fs p))" and key: "fst (pkv fs p ! i) = key"
    and len: "8 + length key + length val \<le> 4096" and free: "0 < free_blocks fs"
  obtains fs' q where "put_loop True key val (Some p) fs = Some (XXFS_OK, fs')"
    and "page_write P fs fs' p q ((pkv fs p)[i := (key, val)])" and "pg_overflow_next q = pg_overflow_next (lpage fs p)"
proof -
  obtain g where g: "page_load fs p = (Some (lpage fs p), g)" "quiet P fs g" "cached g p = Some (lpage fs p)"
    using page_load_quiet [OF inv p] by blast
  note qg = quiet_pages [OF inv g(2)]
  have kv: "page_kv (lblock g) (lpage fs p) = pkv fs p" and pg: "lpage fs p = lpage g p" using qg p by auto
  have "pkv fs p ! i = slot_kv (lblock g) (lpage fs p) (pg_slots (lpage fs p) ! i)"
    using page_kv_nth [OF pages_invD(6) [OF conjunct1 [OF qg] p], folded pg, OF i] by (simp only: kv)
  then have "slot_key (lblock g) (lpage fs p) (pg_slots (lpage fs p) ! i) = key"
    using key by (simp only: slot_kv_def fst_conv)
  then have t: "slot_target P g p (lpage fs p) i key val"
    unfolding slot_target_def using qg p g(3) pg i len by blast
  have fg: "0 < free_blocks g" using free quiet_sb [OF g(2)] by simp
  obtain fs' q where a: "update_slot g p (lpage fs p) i key val = Some (XXFS_OK, fs')"
    and w: "page_write P g fs' p q ((page_kv (lblock g) (lpage fs p))[i := (key, val)])"
    and n: "pg_overflow_next q = pg_overflow_next (lpage fs p)"
    by (rule update_slot_ok [OF t fg])
  have p0: "p \<noteq> 0" using pages_invD(4) [OF inv p] by (simp add: allocd_def)
  have "put_page True key val p fs = Some (Done XXFS_OK, fs')"
    using find by (simp add: put_page_def g(1) a finish_def)
  then have "put_loop True key val (Some p) fs = Some (XXFS_OK, fs')"
    using p0 by (subst put_loop.simps) simp
  then show thesis using quiet_page_write [OF inv g(2) w] n kv by (intro that [of fs' q]) auto
qed

text \<open>A full page without the key: on to the next page.\<close>

lemma put_next:
  assumes inv: "pages_inv fs P" and p: "p \<in> P" and full: "unat (pg_count (lpage fs p)) = 56"
    and nm: "scan \<longrightarrow> no_match key (lpage fs p)" and nx: "pg_overflow_next (lpage fs p) \<noteq> 0"
  obtains g where "put_loop scan key val (Some p) fs = put_loop scan key val (Some (pg_overflow_next (lpage fs p))) g"
    and "quiet P fs g"
proof -
  obtain g where g: "page_load fs p = (Some (lpage fs p), g)" "quiet P fs g"
    using page_load_quiet [OF inv p] by blast
  have p0: "p \<noteq> 0" using pages_invD(4) [OF inv p] by (simp add: allocd_def)
  have "put_page scan key val p fs = Some (Next (pg_overflow_next (lpage fs p)), g)"
    using no_match_find [OF pages_invD(6) [OF inv p]] nm full nx
    by (auto simp: put_page_def g(1) PAGED_SLOTS_PER_PAGE_def overflow_step_def)
  then have "put_loop scan key val (Some p) fs = put_loop scan key val (Some (pg_overflow_next (lpage fs p))) g"
    using p0 by (subst put_loop.simps) simp
  with g show thesis by (intro that)
qed

end
