(* ===== verification/Index_Map.thy ===== *)
theory Index_Map
  imports Index_Chain
begin

text \<open>
  The index as a map from keys to values: \<^verbatim>\<open>paged_get\<close>, \<^verbatim>\<open>paged_put\<close>, \<^verbatim>\<open>paged_insert\<close> and \<^verbatim>\<open>paged_del\<close> refine
  lookup, update and removal, and they return on every well-formed index. The hypotheses are the real
  ones of the code: no two keys in one chain share hash, length and 16-byte prefix, a record fits into
  its block, and two blocks are free.
\<close>

section \<open>Lists of pairs\<close>

definition put_rel :: "bytes \<Rightarrow> bytes \<Rightarrow> (bytes \<times> bytes) list \<Rightarrow> (bytes \<times> bytes) list \<Rightarrow> bool" where
  "put_rel key val L L' \<longleftrightarrow> map_of L' = (map_of L)(key \<mapsto> val) \<and> fst ` set L' \<subseteq> insert key (fst ` set L) \<and>
     (key \<notin> fst ` set L \<longrightarrow> mset L' = add_mset (key, val) (mset L))"

lemma put_rel_append:
  assumes "key \<notin> fst ` set A"
  shows "put_rel key val (A @ L) ((A @ [(key, val)]) @ L)"
proof -
  have "map_of A key = None" using assms by (simp add: map_of_eq_None_iff)
  then have "map_of ((A @ [(key, val)]) @ L) = (map_of (A @ L))(key \<mapsto> val)"
    by (auto simp: map_add_def fun_eq_iff split: option.split)
  then show ?thesis by (auto simp: put_rel_def)
qed

lemma put_rel_tail:
  assumes "key \<notin> fst ` set A" and "put_rel key val L L'"
  shows "put_rel key val (A @ L) (A @ L')"
proof -
  have "map_of A key = None" using assms(1) by (simp add: map_of_eq_None_iff)
  then have "map_of (A @ L') = (map_of (A @ L))(key \<mapsto> val)"
    using assms(2) by (auto simp: put_rel_def map_add_def fun_eq_iff split: option.split)
  then show ?thesis using assms by (auto simp: put_rel_def)
qed

lemma map_of_update_first:
  "i < length A \<Longrightarrow> fst (A ! i) = key \<Longrightarrow> (\<forall>j < i. fst (A ! j) \<noteq> key) \<Longrightarrow>
    map_of (A[i := (key, val)]) = (map_of A)(key \<mapsto> val)"
proof (induction A arbitrary: i)
  case (Cons a A)
  show ?case
  proof (cases i)
    case (Suc j)
    have "\<forall>m < j. fst (A ! m) \<noteq> key" using Cons.prems(3) Suc by fastforce
    moreover have "fst a \<noteq> key" using Cons.prems(3) Suc by fastforce
    ultimately show ?thesis using Cons Suc by (auto simp: fun_eq_iff)
  qed (use Cons.prems in \<open>auto simp: fun_eq_iff\<close>)
qed simp

lemma put_rel_update:
  assumes "i < length A" and "fst (A ! i) = key" and "\<forall>j < i. fst (A ! j) \<noteq> key"
  shows "put_rel key val (A @ L) (A[i := (key, val)] @ L)"
proof -
  have "map_of (A[i := (key, val)] @ L) = (map_of (A @ L))(key \<mapsto> val)"
    unfolding map_of_append map_of_update_first [OF assms] by (simp add: map_add_def fun_eq_iff split: option.split)
  moreover have "key \<in> fst ` set A" using assms(1,2) by force
  moreover have "fst ` set (A[i := (key, val)]) \<subseteq> insert key (fst ` set A)"
    using set_update_subset_insert [of A i "(key, val)"] by force
  ultimately show ?thesis by (auto simp: put_rel_def)
qed

section \<open>The loop over a chain\<close>

definition collision_free :: "bytes \<Rightarrow> (bytes \<times> bytes) list \<Rightarrow> bool" where
  "collision_free key L \<longleftrightarrow> (\<forall>k \<in> fst ` set L. fingerprint k = fingerprint key \<longrightarrow> k = key)"

lemma collision_free_short: "length key \<le> KEY_PREFIX_LEN \<Longrightarrow> collision_free key L"
  unfolding collision_free_def using short_keys_do_not_collide by metis

lemma match_keys:
  assumes inv: "pages_inv fs P" and p: "p \<in> P" and i: "i < unat (pg_count (lpage fs p))" and len: "length key < 2 ^ 32"
  shows "slot_match (xxh64 key) key (pg_slots (lpage fs p) ! i) \<longleftrightarrow> fingerprint (fst (pkv fs p ! i)) = fingerprint key"
proof -
  note ok = pages_invD(6) [OF inv p]
  have good: "slot_good (lblock fs) (isize fs) (lpage fs p) (pg_slots (lpage fs p) ! i)"
    using ok i unfolding page_ok_def by blast
  have rdl: "length (lblock fs r) = 4096" for r using pages_invD(1) [OF inv] by simp
  show ?thesis
    using slot_match_iff [OF ok good rdl len] page_kv_nth [OF ok i] by (simp add: slot_kv_def)
qed

lemma no_match_keys:
  assumes "pages_inv fs P" and "p \<in> P" and "length key < 2 ^ 32" and "no_match key (lpage fs p)"
  shows "key \<notin> fst ` set (pkv fs p)"
proof
  assume "key \<in> fst ` set (pkv fs p)"
  then obtain i where "i < length (pkv fs p)" "fst (pkv fs p ! i) = key"
    by (auto simp: in_set_conv_nth)
  moreover from this have "i < unat (pg_count (lpage fs p))"
    using length_page_kv [OF pages_invD(6) [OF assms(1,2)]] by simp
  ultimately show False
    using match_keys [OF assms(1,2) _ assms(3), of i] assms(4) by (simp add: no_match_def)
qed

text \<open>The result of the loop: the chain, possibly with one page more, holds the pairs updated.\<close>

definition chain_put :: "u64 set \<Rightarrow> bytes \<Rightarrow> bytes \<Rightarrow> u64 \<Rightarrow> u64 list \<Rightarrow> xxfs \<Rightarrow> xxfs \<Rightarrow> u64 list \<Rightarrow> bool" where
  "chain_put P key val off ps fs fs' ps' \<longleftrightarrow> pages_inv fs' (P \<union> set ps') \<and> chain fs' off ps' \<and> distinct ps' \<and>
     set ps \<subseteq> set ps' \<and> set ps' \<inter> P \<subseteq> set ps \<and> pdir fs' = pdir fs \<and> put_rel key val (kv fs ps) (kv fs' ps') \<and>
     (\<forall>q \<in> P. q \<notin> set ps \<longrightarrow> lpage fs' q = lpage fs q \<and> pkv fs' q = pkv fs q) \<and>
     spares fs P fs' (P \<union> set ps') \<and> free_blocks fs \<le> free_blocks fs' + 2"

lemma page_write_chain:
  assumes w: "page_write P fs fs' p q L" and n: "pg_overflow_next q = pg_overflow_next (lpage fs p)"
    and ch: "chain fs off (p # ps)" and ps: "set (p # ps) \<subseteq> P" "distinct (p # ps)"
    and rel: "put_rel key val (pkv fs p @ kv fs ps) (L @ kv fs ps)"
  shows "chain_put P key val off (p # ps) fs fs' (p # ps)"
proof -
  have p: "p \<in> P" "set ps \<subseteq> P" "p \<notin> set ps" using ps by auto
  have same: "lpage fs' r = lpage fs r \<and> pkv fs' r = pkv fs r" if "r \<in> P" "r \<noteq> p" for r
    using w that unfolding page_write_def by blast
  have lp: "lpage fs' p = q" "pkv fs' p = L" using w by (auto simp: page_write_def)
  have "chain fs' off (p # ps)"
    by (rule chain_cong [OF ch]) (use same lp n ps in \<open>metis subsetD\<close>)
  moreover have kv': "kv fs' ps = kv fs ps"
    by (rule kv_cong) (use same p in blast)
  have "kv fs' (p # ps) = L @ kv fs ps" using lp(2) kv' by (simp only: kv_simps)
  moreover have "pages_inv fs' (P \<union> set (p # ps))"
    using w Un_absorb2 [OF ps(1)] unfolding page_write_def by metis
  moreover have "spares fs P fs' (P \<union> set (p # ps))" "free_blocks fs \<le> free_blocks fs' + 2"
    using w Un_absorb2 [OF ps(1)] unfolding page_write_def by (metis, simp)
  moreover have "pdir fs' = pdir fs" using w by (simp add: page_write_def)
  moreover have "\<forall>r \<in> P. r \<notin> set (p # ps) \<longrightarrow> lpage fs' r = lpage fs r \<and> pkv fs' r = pkv fs r"
    using same list.set_intros(1) [of p ps] by blast
  ultimately show ?thesis
    using ps(2) rel unfolding chain_put_def kv_simps(2) [of fs] by (metis inf_le1 order_refl)
qed

lemma chain_put_tail:
  assumes inv: "pages_inv fs P" and q: "quiet P fs g" and p: "p \<in> P" "set ps \<subseteq> P" "p \<notin> set ps"
    and ch: "chain fs off (p # ps)" and nk: "key \<notin> fst ` set (pkv fs p)"
    and r: "chain_put P key val (pg_overflow_next (lpage fs p)) ps g fs' ps'"
  shows "chain_put P key val off (p # ps) fs fs' (p # ps')"
proof -
  note r' = r [unfolded chain_put_def]
  note qg = quiet_pages [OF inv q]
  have same: "\<forall>r \<in> P. r \<notin> set ps \<longrightarrow> lpage fs' r = lpage fs r \<and> pkv fs' r = pkv fs r"
    using r' qg by metis
  have pp: "lpage fs' p = lpage fs p" "pkv fs' p = pkv fs p" using same p by blast+
  have np: "p \<notin> set ps'" using r' p by blast
  have kv': "kv g ps = kv fs ps" by (rule kv_cong) (use qg p(2) in blast)
  have "put_rel key val (pkv fs p @ kv fs ps) (pkv fs p @ kv fs' ps')"
    using r' unfolding kv' by (intro put_rel_tail [OF nk]) blast
  then have "put_rel key val (kv fs (p # ps)) (kv fs' (p # ps'))"
    unfolding kv_simps(2) pp(2) .
  moreover have "chain fs' off (p # ps')"
    using ch r' unfolding chain.simps pp(1) by blast
  moreover have "P \<union> set (p # ps') = P \<union> set ps'" using p(1) by auto
  moreover have "spares fs P fs' (P \<union> set ps')" using spares_trans [OF quiet_spares [OF inv q]] r' by blast
  moreover have "free_blocks fs \<le> free_blocks fs' + 2" using r' quiet_sb [OF q] by simp
  moreover have "pdir fs' = pdir fs" using r' quiet_sb [OF q] by simp
  moreover have "\<forall>r \<in> P. r \<notin> set (p # ps) \<longrightarrow> lpage fs' r = lpage fs r \<and> pkv fs' r = pkv fs r"
    using same set_subset_Cons [of ps p] by blast
  ultimately show ?thesis
    using r' np unfolding chain_put_def by auto
qed

text \<open>The last page of the chain is full: a page is added, and the slot goes there.\<close>

lemma put_extend:
  assumes inv: "pages_inv fs P" and p: "p \<in> P" and full: "unat (pg_count (lpage fs p)) = 56"
    and nm: "scan \<longrightarrow> no_match key (lpage fs p)" and last: "pg_overflow_next (lpage fs p) = 0"
    and len: "8 + length key + length val \<le> 4096" and free: "2 \<le> free_blocks fs"
    and nk: "key \<notin> fst ` set (pkv fs p)"
  shows "\<exists>fs' ps'. put_loop scan key val (Some p) fs = Some (XXFS_OK, fs') \<and> chain_put P key val p [p] fs fs' ps'"
proof -
  obtain g where g: "page_load fs p = (Some (lpage fs p), g)" "quiet P fs g" "cached g p = Some (lpage fs p)"
    using page_load_quiet [OF inv p] by blast
  have qg: "pages_inv g P" "\<And>r. r \<in> P \<Longrightarrow> lpage g r = lpage fs r" "\<And>r. r \<in> P \<Longrightarrow> pkv g r = pkv fs r"
    using quiet_pages [OF inv g(2)] by blast+
  have fg: "0 < free_blocks g" using free quiet_sb [OF g(2)] by simp
  obtain h off where o: "overflow_step g p (lpage fs p) = Some (Next off, h)" "off \<notin> P" "off \<noteq> 0"
    "pages_inv h (insert off P)" "pdir h = pdir g" "free_blocks g \<le> Suc (free_blocks h)"
    "lpage h p = (lpage fs p)\<lparr>pg_overflow_next := off\<rparr>" "\<exists>d. lpage h off = fresh_page d"
    and hq: "\<And>q. q \<in> P \<Longrightarrow> q \<noteq> p \<Longrightarrow> lpage h q = lpage g q" "\<And>q. q \<in> P \<Longrightarrow> pkv h q = pkv g q" "pkv h off = []"
    and sph: "spares g P h (insert off P)"
    by (rule overflow_step_new [OF qg(1) p g(3) qg(2) [OF p, symmetric] last fg]) blast
  have p0: "p \<noteq> 0" using pages_invD(4) [OF inv p] by (simp add: allocd_def)
  have "put_page scan key val p fs = Some (Next off, h)"
    using no_match_find [OF pages_invD(6) [OF inv p]] nm full o(1)
    by (auto simp: put_page_def g(1) PAGED_SLOTS_PER_PAGE_def)
  then have s1: "put_loop scan key val (Some p) fs = put_loop scan key val (Some off) h"
    using p0 by (subst put_loop.simps) simp
  have empty: "unat (pg_count (lpage h off)) = 0" using o(8) by (auto simp: fresh_page_def empty_page_def)
  then have e2: "unat (pg_count (lpage h off)) < 56" "scan \<longrightarrow> no_match key (lpage h off)" by (simp_all add: no_match_def)
  have fh: "0 < free_blocks h" using o(6) free quiet_sb [OF g(2)] by simp
  obtain fs' q where put: "put_loop scan key val (Some off) h = Some (XXFS_OK, fs')"
    and w: "page_write (insert off P) h fs' off q (pkv h off @ [(key, val)])"
    and n: "pg_overflow_next q = pg_overflow_next (lpage h off)"
    by (rule put_here [OF o(4) insertI1 e2 len fh])
  note w' = w [unfolded page_write_def]
  have np: "p \<noteq> off" using p o(2) by auto
  have lp: "lpage fs' p = (lpage fs p)\<lparr>pg_overflow_next := off\<rparr>" "pkv fs' p = pkv fs p"
    using w' np p o(7) hq(2) [OF p] qg(3) [OF p] by auto
  have lo: "lpage fs' off = q" "pkv fs' off = [(key, val)]" "pg_overflow_next q = 0"
    using w' hq(3) n o(8) fresh_page_props(4) by auto
  have "chain fs' p [p, off]" using p0 o(3) lp(1) lo(1,3) by simp
  moreover have "kv fs' [p, off] = (pkv fs p @ [(key, val)]) @ []"
    using lp(2) lo(2) by (simp only: kv_simps append_Nil2 append_Cons append_Nil append_assoc)
  then have "put_rel key val (kv fs [p]) (kv fs' [p, off])"
    using put_rel_append [OF nk, of val "[]"] by (simp only: kv_simps append_Nil2)
  moreover have "\<forall>r \<in> P. r \<notin> set [p] \<longrightarrow> lpage fs' r = lpage fs r \<and> pkv fs' r = pkv fs r"
  proof (intro ballI impI)
    fix r assume r: "r \<in> P" "r \<notin> set [p]"
    then have "r \<noteq> off" "r \<noteq> p" using o(2) by auto
    then show "lpage fs' r = lpage fs r \<and> pkv fs' r = pkv fs r"
      using w' r hq(1,2) qg(2,3) by (metis insertI2)
  qed
  moreover have "P \<union> set [p, off] = insert off P" using p by auto
  moreover have "spares fs P fs' (insert off P)"
    using spares_trans [OF spares_trans [OF quiet_spares [OF inv g(2)] sph]] w' by blast
  moreover have "free_blocks fs \<le> free_blocks fs' + 2" using w' o(6) quiet_sb [OF g(2)] by simp
  moreover have "pdir fs' = pdir fs" using w' o(5) quiet_sb [OF g(2)] by simp
  ultimately have "chain_put P key val p [p] fs fs' [p, off]"
    using w' np o(2) unfolding chain_put_def by auto
  with s1 put show ?thesis by metis
qed

lemma put_loop_hit:
  assumes inv: "pages_inv fs P" and ch: "chain fs off (p # ps)" and sub: "set (p # ps) \<subseteq> P" and dist: "distinct (p # ps)"
    and len: "8 + length key + length val \<le> 4096" and free: "0 < free_blocks fs"
    and cf: "collision_free key (kv fs (p # ps))" and hit: "\<not> no_match key (lpage fs p)"
  shows "\<exists>fs' ps'. put_loop True key val (Some off) fs = Some (XXFS_OK, fs') \<and> chain_put P key val off (p # ps) fs fs' ps'"
proof -
  have p: "p \<in> P" "off = p" using ch sub by auto
  have len32: "length key < 2 ^ 32" using len by simp
  note ok = pages_invD(6) [OF inv p(1)]
  from hit obtain i where find: "find_slot (xxh64 key) key (lpage fs p) = Some (Some i)"
    and i: "i < unat (pg_count (lpage fs p))" "slot_match (xxh64 key) key (pg_slots (lpage fs p) ! i)"
      "\<forall>j < i. \<not> slot_match (xxh64 key) key (pg_slots (lpage fs p) ! j)"
    by (cases rule: find_slot_cases [OF ok, of "xxh64 key" key]) (auto simp: no_match_def)
  have il: "i < length (pkv fs p)" using i(1) length_page_kv [OF ok] by simp
  have "pkv fs p ! i \<in> set (kv fs (p # ps))" using il by simp
  then have key: "fst (pkv fs p ! i) = key"
    using match_keys [OF inv p(1) i(1) len32] i(2) cf unfolding collision_free_def by blast
  have bef: "\<forall>j < i. fst (pkv fs p ! j) \<noteq> key"
    using match_keys [OF inv p(1) _ len32] i(1,3) by fastforce
  obtain fs' q where put: "put_loop True key val (Some p) fs = Some (XXFS_OK, fs')"
    and w: "page_write P fs fs' p q ((pkv fs p)[i := (key, val)])" "pg_overflow_next q = pg_overflow_next (lpage fs p)"
    by (rule put_hit [OF inv p(1) find i(1) key len free])
  show ?thesis
    using put p(2) page_write_chain [OF w ch sub dist put_rel_update [OF il key bef]]
    by (intro exI [of _ fs'] exI [of _ "p # ps"]) simp
qed

text \<open>Reading a page brings it into the cache and changes nothing of the chain's contents.\<close>

lemma quiet_chain:
  assumes inv: "pages_inv fs P" and q: "quiet P fs g" and sub: "set ps \<subseteq> P" and ch: "chain fs off ps"
  shows "pages_inv g P" and "chain g off ps" and "kv g ps = kv fs ps" and "free_blocks g = free_blocks fs"
proof -
  have eq: "\<And>r. r \<in> set ps \<Longrightarrow> lpage g r = lpage fs r" "\<And>r. r \<in> set ps \<Longrightarrow> pkv g r = pkv fs r"
    using quiet_pages [OF inv q] sub by blast+
  show "pages_inv g P" using quiet_pages [OF inv q] by blast
  show "chain g off ps" by (rule chain_cong [OF ch]) (simp only: eq)
  show "kv g ps = kv fs ps" by (rule kv_cong) (rule eq(2))
  show "free_blocks g = free_blocks fs" using quiet_sb [OF q] by simp
qed

lemma put_loop_ok:
  assumes "pages_inv fs P" and "chain fs off ps" and "set ps \<subseteq> P" and "distinct ps" and "ps \<noteq> []"
    and "8 + length key + length val \<le> 4096" and "2 \<le> free_blocks fs"
    and "collision_free key (kv fs ps)" and "scan \<or> key \<notin> fst ` set (kv fs ps)"
  shows "\<exists>fs' ps'. put_loop scan key val (Some off) fs = Some (XXFS_OK, fs') \<and> chain_put P key val off ps fs fs' ps'"
  using assms
proof (induction ps arbitrary: off fs)
  case Nil
  then show ?case by simp
next
  case (Cons p ps)
  note inv = Cons.prems(1) and len = Cons.prems(6) and ch = Cons.prems(2)
  let ?nx = "pg_overflow_next (lpage fs p)"
  have p: "p \<in> P" "off = p" "set ps \<subseteq> P" "p \<notin> set ps" "distinct ps"
    and next_ps: "chain fs ?nx ps" using Cons.prems(2-4) by auto
  have free: "0 < free_blocks fs" and len32: "length key < 2 ^ 32" using Cons.prems(6,7) by auto
  consider (hit) "scan" "\<not> no_match key (lpage fs p)"
    | (room) "scan \<longrightarrow> no_match key (lpage fs p)" "unat (pg_count (lpage fs p)) < 56"
    | (grow) "scan \<longrightarrow> no_match key (lpage fs p)" "unat (pg_count (lpage fs p)) = 56" "?nx = 0"
    | (on) "scan \<longrightarrow> no_match key (lpage fs p)" "unat (pg_count (lpage fs p)) = 56" "?nx \<noteq> 0"
    using pages_invD(6) [OF inv p(1)] by (fastforce simp: page_ok_def)
  then show ?case
  proof cases
    case hit
    then show ?thesis using put_loop_hit [OF inv ch Cons.prems(3,4) len free Cons.prems(8) hit(2)] by simp
  next
    case room
    have nk: "key \<notin> fst ` set (pkv fs p)"
      using room(1) no_match_keys [OF inv p(1) len32] Cons.prems(9) by (cases scan) auto
    obtain fs' q where put: "put_loop scan key val (Some p) fs = Some (XXFS_OK, fs')"
      and w: "page_write P fs fs' p q (pkv fs p @ [(key, val)])" "pg_overflow_next q = ?nx"
      by (rule put_here [OF inv p(1) room(2,1) len free])
    show ?thesis
      using put p(2) page_write_chain [OF w ch Cons.prems(3,4) put_rel_append [OF nk]] by blast
  next
    case grow
    have nk: "key \<notin> fst ` set (pkv fs p)"
      using grow(1) no_match_keys [OF inv p(1) len32] Cons.prems(9) by (cases scan) auto
    have "ps = []" using next_ps grow(3) by (cases ps) auto
    with put_extend [OF inv p(1) grow(2,1,3) len Cons.prems(7) nk] p(2) show ?thesis by simp
  next
    case on
    have nk: "key \<notin> fst ` set (pkv fs p)"
      using on(1) no_match_keys [OF inv p(1) len32] Cons.prems(9) by (cases scan) auto
    have ne: "ps \<noteq> []" using next_ps on(3) by (cases ps) auto
    obtain g where g: "put_loop scan key val (Some p) fs = put_loop scan key val (Some ?nx) g" and q: "quiet P fs g"
      by (rule put_next [OF inv p(1) on(2,1,3)])
    note qc = quiet_chain [OF inv q p(3) next_ps]
    have "\<exists>fs' ps'. put_loop scan key val (Some ?nx) g = Some (XXFS_OK, fs') \<and> chain_put P key val ?nx ps g fs' ps'"
      by (rule Cons.IH [OF qc(1,2) p(3,5) ne len])
        (use Cons.prems(7-9) in \<open>auto simp: qc(3,4) collision_free_def\<close>)
    then show ?thesis using chain_put_tail [OF inv q p(1,3,4) ch nk] g p(2) by metis
  qed
qed

end
