(* ===== verification/Index_Spec.thy ===== *)
theory Index_Spec
  imports Index_Map
begin

text \<open>
  The operations of the index as a whole refine a finite map from keys to values. \<open>index_abs\<close> is that
  map; the contract is the locale \<open>kv_store\<close>, interpreted for \<^verbatim>\<open>paged_get\<close>, \<^verbatim>\<open>paged_put\<close> and \<^verbatim>\<open>paged_del\<close>.
\<close>

section \<open>The directory\<close>

definition key_idx :: "xxfs \<Rightarrow> bytes \<Rightarrow> nat" where
  "key_idx fs key = unat (dir_index (xxh64 key) (d_global_depth (pdir fs)))"

lemma dir_index_less:
  assumes "unat d \<le> 20"
  shows "unat (dir_index h d) < 2 ^ unat d"
proof (cases "d = 0")
  case False
  have "(push_bit (unat d) 1 - 1 :: u64) = mask (unat d)"
    by (simp add: mask_eq_exp_minus_1 push_bit_eq_mult)
  then have "hash AND (push_bit (unat d) 1 - 1) = take_bit (unat d) hash" for hash :: u64
    by (simp add: take_bit_eq_mask)
  then have "unat (dir_index h d) = take_bit 32 (take_bit (unat d) (unat h))"
    using False by (simp add: dir_index_def unsigned_ucast_eq unsigned_take_bit_eq min.commute)
  also have "\<dots> \<le> take_bit (unat d) (unat h)" by (rule take_bit_nat_less_eq_self)
  also have "\<dots> < 2 ^ unat d" by (rule take_bit_nat_less_exp)
  finally show ?thesis .
qed (simp add: dir_index_def)

lemma key_idx_less: "dir_inv fs cs \<Longrightarrow> key_idx fs key < length cs"
  using dir_index_less [of "d_global_depth (pdir fs)" "xxh64 key"] by (simp add: dir_inv_def key_idx_def)

lemma chain_unique: "chain fs off ps \<Longrightarrow> chain fs off qs \<Longrightarrow> ps = qs"
proof (induction ps arbitrary: off qs)
  case Nil
  then show ?case by (cases qs) auto
next
  case (Cons p ps)
  then show ?case by (cases qs) auto
qed

lemma dir_invD:
  assumes "dir_inv fs cs"
  shows "length (d_page_off (pdir fs)) = length cs" "unat (d_dir_size (pdir fs)) = length cs"
    and "i < length cs \<Longrightarrow> d_page_off (pdir fs) ! i = - 1 \<Longrightarrow> cs ! i = []"
    and "i < length cs \<Longrightarrow> d_page_off (pdir fs) ! i \<noteq> - 1 \<Longrightarrow> cs ! i \<noteq> []"
    and "i < length cs \<Longrightarrow> d_page_off (pdir fs) ! i \<noteq> - 1 \<Longrightarrow> chain fs (d_page_off (pdir fs) ! i) (cs ! i)"
  using assms unfolding dir_inv_def by metis+

lemma dir_inv_unique:
  assumes "dir_inv fs cs" and "dir_inv fs cs'"
  shows "cs = cs'"
proof (rule nth_equalityI)
  show l: "length cs = length cs'" using dir_invD(1) [OF assms(1)] dir_invD(1) [OF assms(2)] by simp
  fix i assume i: "i < length cs"
  then have i': "i < length cs'" using l by simp
  show "cs ! i = cs' ! i"
  proof (cases "d_page_off (pdir fs) ! i = - 1")
    case True
    then show ?thesis using dir_invD(3) [OF assms(1) i] dir_invD(3) [OF assms(2) i'] by simp
  next
    case False
    then show ?thesis
      using dir_invD(5) [OF assms(1) i] dir_invD(5) [OF assms(2) i'] chain_unique by blast
  qed
qed

section \<open>The abstract map\<close>

definition dir_chains :: "xxfs \<Rightarrow> u64 list list" where
  "dir_chains fs = (THE cs. dir_inv fs cs)"

lemma chains_eq: "dir_inv fs cs \<Longrightarrow> dir_chains fs = cs"
  unfolding dir_chains_def using dir_inv_unique by blast

definition chain_kv :: "xxfs \<Rightarrow> bytes \<Rightarrow> (bytes \<times> bytes) list" where
  "chain_kv fs key = kv fs (dir_chains fs ! key_idx fs key)"

definition index_abs :: "xxfs \<Rightarrow> bytes \<Rightarrow> bytes option" where
  "index_abs fs key = map_of (chain_kv fs key) key"

definition index_ok :: "xxfs \<Rightarrow> bool" where
  "index_ok fs \<longleftrightarrow> index_inv fs (dir_chains fs)"

text \<open>No key is stored twice.\<close>

definition index_unique :: "xxfs \<Rightarrow> bool" where
  "index_unique fs \<longleftrightarrow> (\<forall>i < length (dir_chains fs). distinct (map fst (kv fs (dir_chains fs ! i))))"

text \<open>The blocks that are allocated and not part of the index.\<close>

definition outside :: "xxfs \<Rightarrow> u64 \<Rightarrow> bool" where
  "outside fs r \<longleftrightarrow> foreign fs (pages_of (dir_chains fs)) r"

definition index_spares :: "xxfs \<Rightarrow> xxfs \<Rightarrow> bool" where
  "index_spares fs fs' \<longleftrightarrow> spares fs (pages_of (dir_chains fs)) fs' (pages_of (dir_chains fs'))"

lemma index_sparesD:
  "index_spares fs fs' \<Longrightarrow> outside fs r \<Longrightarrow> outside fs' r \<and> lblock fs' r = lblock fs r"
  "index_spares fs fs' \<Longrightarrow> isize fs \<le> isize fs'"
  by (simp_all add: index_spares_def spares_def outside_def)

lemma index_spares_refl [simp]: "index_spares fs fs"
  by (simp add: index_spares_def)

lemma index_spares_trans [trans]: "index_spares a b \<Longrightarrow> index_spares b c \<Longrightarrow> index_spares a c"
  unfolding index_spares_def by (rule spares_trans)

lemma index_okI: "index_inv fs cs \<Longrightarrow> index_ok fs \<and> dir_chains fs = cs"
  by (auto simp: index_ok_def index_inv_def dest: chains_eq)

lemma index_okD:
  assumes "index_ok fs"
  shows "index_inv fs (dir_chains fs)" "dir_inv fs (dir_chains fs)" "pages_inv fs (pages_of (dir_chains fs))"
    "chains_apart (dir_chains fs)" "key_idx fs key < length (dir_chains fs)"
  using assms key_idx_less by (auto simp: index_ok_def index_inv_def)

text \<open>States whose chains hold the same pairs stand for the same map.\<close>

lemma index_abs_cong:
  assumes "index_ok fs" and "length (dir_chains fs') = length (dir_chains fs)" and "pdir fs' = pdir fs"
    and "\<And>i. i < length (dir_chains fs) \<Longrightarrow> kv fs' (dir_chains fs' ! i) = kv fs (dir_chains fs ! i)"
  shows "index_abs fs' = index_abs fs" and "index_unique fs' = index_unique fs"
proof -
  have "chain_kv fs' key = chain_kv fs key" for key
    using assms(4) [OF index_okD(5) [OF assms(1)], of key] by (simp add: chain_kv_def key_idx_def assms(3))
  then show "index_abs fs' = index_abs fs" by (simp add: index_abs_def fun_eq_iff)
  show "index_unique fs' = index_unique fs"
    using assms(2,4) by (simp add: index_unique_def)
qed

lemma index_quiet:
  assumes ok: "index_ok fs" and q: "quiet (pages_of (dir_chains fs)) fs fs'"
  shows "index_ok fs' \<and> index_abs fs' = index_abs fs \<and> index_unique fs' = index_unique fs"
    and "index_spares fs fs'"
proof -
  note i = quiet_index [OF index_okD(1) [OF ok] q]
  then have c: "index_ok fs'" "dir_chains fs' = dir_chains fs" using index_okI by blast+
  with i show "index_ok fs' \<and> index_abs fs' = index_abs fs \<and> index_unique fs' = index_unique fs"
    using index_abs_cong [OF ok, of fs'] quiet_sb [OF q] by simp
  show "index_spares fs fs'" unfolding index_spares_def c(2) by (rule quiet_spares [OF index_okD(3) [OF ok] q])
qed

section \<open>Get\<close>

lemma chain_head_eq:
  assumes "index_ok fs"
  shows "chain_head fs key = (let off = d_page_off (pdir fs) ! key_idx fs key in if off = - 1 then None else Some off)"
  using dir_invD(2) [OF index_okD(2) [OF assms]] index_okD(5) [OF assms, of key]
  by (auto simp: chain_head_def key_idx_def Let_def)

lemma chain_head_cases:
  assumes ok: "index_ok fs"
  obtains (empty) "chain_head fs key = None" and "dir_chains fs ! key_idx fs key = []" and "chain_kv fs key = []"
    | (chain) off where "chain_head fs key = Some off" and "chain fs off (dir_chains fs ! key_idx fs key)"
        and "dir_chains fs ! key_idx fs key \<noteq> []" and "off = d_page_off (pdir fs) ! key_idx fs key"
proof (cases "d_page_off (pdir fs) ! key_idx fs key = - 1")
  case True
  moreover from this have "dir_chains fs ! key_idx fs key = []"
    using dir_invD(3) [OF index_okD(2) [OF ok] index_okD(5) [OF ok]] by blast
  ultimately show thesis using chain_head_eq [OF ok, of key] by (intro empty) (simp_all add: chain_kv_def)
next
  case False
  moreover from this have "dir_chains fs ! key_idx fs key \<noteq> []"
    "chain fs (d_page_off (pdir fs) ! key_idx fs key) (dir_chains fs ! key_idx fs key)"
    using dir_invD(4,5) [OF index_okD(2) [OF ok] index_okD(5) [OF ok]] by blast+
  ultimately show thesis using chain_head_eq [OF ok, of key] by (intro chain) simp_all
qed

lemma paged_get_ok:
  assumes ok: "index_ok fs" and len: "length key < 2 ^ 32"
  obtains fs' where "paged_get fs key cap = Some (get_result key cap (chain_kv fs key), fs')"
    and "quiet (pages_of (dir_chains fs)) fs fs'"
proof (cases rule: chain_head_cases [OF ok, of key])
  case 1
  have "quiet (pages_of (dir_chains fs)) fs fs"
    using pages_invD(1) [OF index_okD(3) [OF ok]] by (rule quiet_refl)
  with 1 show thesis by (intro that [of fs]) (simp_all add: paged_get_def get_result_def)
next
  case (2 off)
  obtain fs' where "get_loop key cap off fs = Some (get_result key cap (chain_kv fs key), fs')"
    "quiet (pages_of (dir_chains fs)) fs fs'"
    using get_loop_ok [OF index_okD(3) [OF ok] 2(2) nth_pages_of [OF index_okD(5) [OF ok]] len]
    by (auto simp: chain_kv_def)
  with 2 show thesis by (intro that [of fs']) (simp_all add: paged_get_def)
qed

text \<open>An empty index of one directory entry on an image with fifteen free blocks.\<close>

definition index_sample :: xxfs where
  "index_sample = (zero_xxfs blank_file)
     \<lparr>sb := zero_super\<lparr>s_data_off := 8192, s_block_count := 16, s_free_blocks := 15\<rparr>,
      pdir := \<lparr>d_page_off = [- 1], d_dir_size = 1, d_global_depth = 0\<rparr>\<rparr>"

lemma index_sample_ok: "index_ok index_sample" "index_unique index_sample" "chain_kv index_sample key = []"
    "index_abs index_sample key = None" "free_blocks index_sample = 15"
proof -
  have "pc_inv index_sample" using pc_inv_fresh [of blank_file] os_wf_blank
    by (simp add: index_sample_def pc_inv_def)
  then have "index_inv index_sample [[]]"
    by (simp add: index_inv_def pages_inv_def pages_of_def chains_apart_def dir_inv_def super_inv_def alloc_wf_def
        index_sample_def cached_def zero_xxfs_def zero_paged_cache_def Let_def)
  then have *: "index_ok index_sample" "dir_chains index_sample = [[]]" using index_okI by blast+
  moreover from this have "key_idx index_sample key = 0" using index_okD(5) [of index_sample key] by simp
  ultimately show "index_ok index_sample" "index_unique index_sample" "chain_kv index_sample key = []"
    "index_abs index_sample key = None"
    by (simp_all add: index_unique_def chain_kv_def index_abs_def)
qed (simp add: index_sample_def)

text \<open>C6: on a well-formed index \<^verbatim>\<open>paged_get\<close> returns: the stored value when there is one and it fits the
  caller's buffer, \<^verbatim>\<open>XXFS_ENOSPC\<close> when it does not fit, and \<^verbatim>\<open>XXFS_ENOENT\<close> when the key is absent; the
  index is left as it was.\<close>

theorem paged_get_correct:
  assumes "index_ok fs" and "length key < 2 ^ 32"
  shows "\<exists>fs'. paged_get fs key cap =
      Some (case index_abs fs key of
              None \<Rightarrow> Inl XXFS_ENOENT
            | Some v \<Rightarrow> if length v > unat cap then Inl XXFS_ENOSPC else Inr v, fs') \<and>
    index_ok fs' \<and> index_abs fs' = index_abs fs \<and> index_spares fs fs'"
proof -
  obtain fs' where g: "paged_get fs key cap = Some (get_result key cap (chain_kv fs key), fs')"
    and q: "quiet (pages_of (dir_chains fs)) fs fs'"
    by (rule paged_get_ok [OF assms])
  then show ?thesis
    using index_quiet [OF assms(1) q] by (simp add: get_result_def index_abs_def)
qed

theorem paged_get_correct_witness:
  "\<exists>fs'. paged_get index_sample [47] 560 = Some (Inl XXFS_ENOENT, fs')"
  using paged_get_correct [of index_sample "[47]" 560] by (auto simp: index_sample_ok)

section \<open>Put\<close>

lemma pages_of_update:
  assumes "i < length cs" and "set (cs ! i) \<subseteq> set ps"
  shows "pages_of (cs[i := ps]) = pages_of cs \<union> set ps"
proof -
  have "x \<in> pages_of (cs[i := ps]) \<longleftrightarrow> x \<in> pages_of cs \<or> x \<in> set ps" for x
  proof -
    have "x \<in> pages_of (cs[i := ps]) \<longleftrightarrow> x \<in> set ps \<or> (\<exists>j < length cs. j \<noteq> i \<and> x \<in> set (cs ! j))"
      unfolding pages_of_def using assms(1) by (auto simp: nth_list_update)
    also have "\<dots> \<longleftrightarrow> x \<in> set ps \<or> (\<exists>j < length cs. x \<in> set (cs ! j))"
      using assms(2) by blast
    finally show ?thesis unfolding pages_of_def by blast
  qed
  then show ?thesis by blast
qed

lemma chains_apart_update:
  assumes a: "chains_apart cs" and i: "i < length cs" and ps: "distinct ps" "set ps \<inter> pages_of cs \<subseteq> set (cs ! i)"
  shows "chains_apart (cs[i := ps])"
proof -
  have "set ps \<inter> set (cs ! j) = {}" if j: "j < length cs" "j \<noteq> i" for j
  proof -
    have "set (cs ! i) \<inter> set (cs ! j) = {}" using a i j unfolding chains_apart_def by metis
    then show ?thesis using ps(2) nth_pages_of [OF j(1)] by blast
  qed
  then show ?thesis
    using a i ps(1) unfolding chains_apart_def by (auto simp: nth_list_update split: if_splits)
qed

lemma dir_inv_update:
  assumes d: "dir_inv fs cs" and a: "chains_apart cs" and i: "i < length cs"
    and pd: "pdir g = (pdir fs)\<lparr>d_page_off := (d_page_off (pdir fs))[i := off]\<rparr>"
    and off: "off \<noteq> - 1" "ps \<noteq> []" "chain g off ps"
    and same: "\<And>p. p \<in> pages_of cs \<Longrightarrow> p \<notin> set (cs ! i) \<Longrightarrow> lpage g p = lpage fs p"
  shows "dir_inv g (cs[i := ps])"
proof -
  have "chain g o' (cs ! j)" if "chain fs o' (cs ! j)" "j < length cs" "j \<noteq> i" for o' j
  proof (rule chain_cong [OF that(1)])
    fix p assume p: "p \<in> set (cs ! j)"
    have "set (cs ! i) \<inter> set (cs ! j) = {}" using a i that(2,3) unfolding chains_apart_def by metis
    then have "p \<notin> set (cs ! i)" using p by blast
    then have "lpage g p = lpage fs p" using p nth_pages_of [OF that(2)] by (intro same) auto
    then show "pg_overflow_next (lpage g p) = pg_overflow_next (lpage fs p)" by simp
  qed
  moreover have "i < length (d_page_off (pdir fs))" using dir_invD(1) [OF d] i by simp
  ultimately show ?thesis
    using d off i dir_invD(3-5) [OF d] unfolding dir_inv_def pd
    by (auto simp: nth_list_update)
qed

text \<open>One chain of the index is replaced, the others stay.\<close>

definition chain_changed :: "xxfs \<Rightarrow> xxfs \<Rightarrow> nat \<Rightarrow> (bytes \<times> bytes) list \<Rightarrow> bool" where
  "chain_changed fs fs' i L \<longleftrightarrow> index_ok fs' \<and> length (dir_chains fs') = length (dir_chains fs) \<and>
     d_global_depth (pdir fs') = d_global_depth (pdir fs) \<and> kv fs' (dir_chains fs' ! i) = L \<and>
     (\<forall>j < length (dir_chains fs). j \<noteq> i \<longrightarrow> kv fs' (dir_chains fs' ! j) = kv fs (dir_chains fs ! j)) \<and>
     index_spares fs fs'"

lemma chain_changed_trans:
  "chain_changed a b i K \<Longrightarrow> chain_changed b c i L \<Longrightarrow> chain_changed a c i L"
  unfolding chain_changed_def using index_spares_trans by metis

lemma index_replace_chain:
  assumes ok: "index_ok fs" and i: "i < length (dir_chains fs)"
    and P: "pages_inv g (pages_of (dir_chains fs) \<union> set ps)"
    and pd: "pdir g = (pdir fs)\<lparr>d_page_off := (d_page_off (pdir fs))[i := off]\<rparr>"
    and ps: "off \<noteq> - 1" "ps \<noteq> []" "chain g off ps" "distinct ps" "set (dir_chains fs ! i) \<subseteq> set ps"
      "set ps \<inter> pages_of (dir_chains fs) \<subseteq> set (dir_chains fs ! i)"
    and same: "\<And>p. p \<in> pages_of (dir_chains fs) \<Longrightarrow> p \<notin> set (dir_chains fs ! i) \<Longrightarrow> lpage g p = lpage fs p \<and> pkv g p = pkv fs p"
    and sp: "spares fs (pages_of (dir_chains fs)) g (pages_of (dir_chains fs) \<union> set ps)"
  shows "chain_changed fs g i (kv g ps) \<and> dir_chains g = (dir_chains fs)[i := ps]"
proof -
  let ?cs = "(dir_chains fs)[i := ps]"
  note d = index_okD [OF ok]
  have pg: "pages_of ?cs = pages_of (dir_chains fs) \<union> set ps" using pages_of_update [OF i ps(5)] .
  then have "index_inv g ?cs"
    unfolding index_inv_def
    using P chains_apart_update [OF d(4) i ps(4,6)] dir_inv_update [OF d(2,4) i pd ps(1-3)] same by metis
  then have g: "index_ok g" "dir_chains g = ?cs" using index_okI by blast+
  have "kv g (dir_chains fs ! j) = kv fs (dir_chains fs ! j)" if j: "j < length (dir_chains fs)" "j \<noteq> i" for j
  proof (rule kv_cong)
    fix p assume p: "p \<in> set (dir_chains fs ! j)"
    have "set (dir_chains fs ! i) \<inter> set (dir_chains fs ! j) = {}" using d(4) i j unfolding chains_apart_def by metis
    then show "pkv g p = pkv fs p" using p nth_pages_of [OF j(1)] same by blast
  qed
  moreover have "index_spares fs g" using sp unfolding index_spares_def g(2) pg .
  ultimately show ?thesis using g i pd by (simp add: chain_changed_def)
qed

lemma pdir_update_fields [simp]:
  "cached (fs\<lparr>pdir := d\<rparr>) = cached fs" "lblock (fs\<lparr>pdir := d\<rparr>) = lblock fs" "lpage (fs\<lparr>pdir := d\<rparr>) = lpage fs"
  "pc_inv (fs\<lparr>pdir := d\<rparr>) = pc_inv fs" "alloc_frontier (fs\<lparr>pdir := d\<rparr>) = alloc_frontier fs"
  by (simp_all add: cached_def lblock_def lpage_def pc_inv_def alloc_frontier_def fun_eq_iff split: option.split)

lemma put_start_ok:
  assumes ok: "index_ok fs" and free: "0 < free_blocks fs"
  obtains g off where "put_start fs key = Some (Inr off, g)"
    and "chain_changed fs g (key_idx fs key) (chain_kv fs key)" and "free_blocks fs \<le> Suc (free_blocks g)"
    and "chain g off (dir_chains g ! key_idx fs key)" and "dir_chains g ! key_idx fs key \<noteq> []"
    and "off = d_page_off (pdir g) ! key_idx fs key" and "off \<noteq> - 1"
proof (cases rule: chain_head_cases [OF ok, of key])
  case (2 off)
  have l: "key_idx fs key < length (d_page_off (pdir fs))"
    using dir_invD(1) [OF index_okD(2) [OF ok]] index_okD(5) [OF ok, of key] by simp
  have n: "off \<noteq> - 1" using 2 chain_head_eq [OF ok, of key] by (auto simp: Let_def)
  have "put_start fs key = Some (Inr off, fs)"
    using l n 2(4) by (simp add: put_start_def key_idx_def Let_def)
  then show thesis using 2 n ok by (intro that [of off fs]) (simp_all add: chain_changed_def chain_kv_def)
next
  case 1
  let ?i = "key_idx fs key" and ?P = "pages_of (dir_chains fs)" and ?off = "alloc_off (sb fs)"
  note inv = index_okD(3) [OF ok] and i = index_okD(5) [OF ok, of key]
  have l: "?i < length (d_page_off (pdir fs))" using dir_invD(1) [OF index_okD(2) [OF ok]] i by simp
  have neg: "d_page_off (pdir fs) ! ?i = - 1"
    using 1(1) chain_head_eq [OF ok, of key] by (auto simp: Let_def split: if_splits)
  let ?d = "(pdir fs)\<lparr>d_page_off := (d_page_off (pdir fs))[?i := ?off]\<rparr>"
  let ?f = "(took_block fs)\<lparr>pdir := ?d\<rparr>"
  note fr = fresh_alloc_off(1) [OF inv free] and tb = took_block_alloc [OF pages_invD(2) [OF inv] free]
  have pf: "pages_inv ?f ?P"
    using pages_frame [OF inv, of ?f] tb pages_invD(1,3) [OF inv] by simp
  have ff: "fresh_block ?f ?P ?off" using fr by (simp add: fresh_block_def)
  have al: "allocd ?f ?off" using allocd_fresh [OF inv free] by (simp add: allocd_def)
  obtain g where g: "fs_pwrite ?f (enc_page (fresh_page (ucast (d_global_depth (pdir fs))))) ?off = (True, g)"
    "pages_inv g (insert ?off ?P)" "lpage g ?off = fresh_page (ucast (d_global_depth (pdir fs)))" "pkv g ?off = []"
    "sb g = sb ?f" "pdir g = pdir ?f"
    and same: "\<And>q. q \<in> ?P \<Longrightarrow> lpage g q = lpage ?f q \<and> pkv g q = pkv ?f q" and ca: "cached g = cached ?f"
    and sz: "isize ?f \<le> isize g" and sp: "\<And>r. foreign ?f ?P r \<Longrightarrow> r \<noteq> ?off \<Longrightarrow> foreign g (insert ?off ?P) r \<and> lblock g r = lblock ?f r"
    by (rule pages_add [OF pf ff al]) blast
  have off: "?off \<noteq> 0" "?off \<noteq> - 1" "?off \<notin> ?P" "cached g ?off = None"
    using fr blk_minus_1 ca by (auto simp: fresh_block_def)
  have put: "put_start fs key = Some (Inr ?off, g)"
    using l neg off g(1) by (simp add: put_start_def key_idx_def [symmetric] Let_def page_alloc_free [OF free]
        page_cache_invalidate_uncached)
  have "chain_changed fs g ?i (kv g [?off]) \<and> dir_chains g = (dir_chains fs)[?i := [?off]]"
  proof (rule index_replace_chain [OF ok i])
    show "pages_inv g (?P \<union> set [?off])" using g(2) by simp
    show "chain g ?off [?off]" using g(3) off(1) fresh_page_props(4) by simp
    show "lpage g p = lpage fs p \<and> pkv g p = pkv fs p" if "p \<in> ?P" for p
      using same [OF that] unfolding pdir_update_fields took_block_fields by blast
    have "foreign g (insert ?off ?P) r \<and> lblock g r = lblock fs r" if r: "foreign fs ?P r" for r
    proof -
      have "r \<noteq> ?off" using r fresh_alloc_off(2) [OF inv free] by (auto simp: foreign_def)
      moreover have "foreign ?f ?P r" using r tb(2) by (simp add: foreign_def)
      ultimately show ?thesis using sp [of r] by simp
    qed
    then show "spares fs ?P g (?P \<union> set [?off])" using sz by (simp add: spares_def)
  qed (use off 1 g(6) in auto)
  moreover have "kv g [?off] = chain_kv fs key" using g(4) 1(3) by (simp only: kv_simps append_Nil2)
  moreover have "d_page_off (pdir g) ! ?i = ?off" using g(6) l by simp
  moreover have "chain g ?off [?off]" using g(3) off(1) fresh_page_props(4) by simp
  ultimately show thesis
    using put off(2) i g(5) tb(3) free by (intro that [of ?off g]) simp_all
qed

lemma put_all_ok:
  assumes ok: "index_ok fs" and len: "8 + length key + length val \<le> 4096" and free: "3 \<le> free_blocks fs"
    and nc: "collision_free key (chain_kv fs key)" and scan: "scan \<or> key \<notin> fst ` set (chain_kv fs key)"
  obtains fs' L where "put_loop scan key val None fs = Some (XXFS_OK, fs')"
    and "chain_changed fs fs' (key_idx fs key) L" and "put_rel key val (chain_kv fs key) L"
    and "free_blocks fs \<le> free_blocks fs' + 3"
proof -
  let ?i = "key_idx fs key"
  obtain g off where g: "put_start fs key = Some (Inr off, g)"
    and ch: "chain_changed fs g ?i (chain_kv fs key)" and fg: "free_blocks fs \<le> Suc (free_blocks g)"
    and c: "chain g off (dir_chains g ! ?i)" "dir_chains g ! ?i \<noteq> []" "off = d_page_off (pdir g) ! ?i" "off \<noteq> - 1"
    using put_start_ok [OF ok] free by (metis gr0I not_numeral_le_zero)
  have gi: "index_ok g" "?i < length (dir_chains g)" "kv g (dir_chains g ! ?i) = chain_kv fs key"
    using ch index_okD(5) [OF ok, of key] by (auto simp: chain_changed_def)
  have da: "distinct (dir_chains g ! ?i)" using index_okD(4) [OF gi(1)] gi(2) unfolding chains_apart_def by blast
  have g2: "2 \<le> free_blocks g" using free fg by simp
  obtain fs' ps' where put: "put_loop scan key val (Some off) g = Some (XXFS_OK, fs')"
    and cp: "chain_put (pages_of (dir_chains g)) key val off (dir_chains g ! ?i) g fs' ps'"
    using put_loop_ok [OF index_okD(3) [OF gi(1)] c(1) nth_pages_of [OF gi(2)] da c(2) len g2, of scan]
      nc scan gi(3) by metis
  note cp' = cp [unfolded chain_put_def gi(3)]
  have "chain_changed g fs' ?i (kv fs' ps') \<and> dir_chains fs' = (dir_chains g)[?i := ps']"
  proof (rule index_replace_chain [OF gi(1,2)])
    show "pages_inv fs' (pages_of (dir_chains g) \<union> set ps')" using cp' by blast
    show "pdir fs' = (pdir g)\<lparr>d_page_off := (d_page_off (pdir g))[?i := off]\<rparr>"
      using cp' c(3) by simp
    show "ps' \<noteq> []" using cp' c(2) by auto
  qed (use cp' c(4) in blast)+
  then have "chain_changed fs fs' ?i (kv fs' ps')" using chain_changed_trans [OF ch] by blast
  moreover have "free_blocks fs \<le> free_blocks fs' + 3" using cp' fg by linarith
  moreover have "put_loop scan key val None fs = Some (XXFS_OK, fs')"
    using g put by (subst put_loop.simps) simp
  moreover have "put_rel key val (chain_kv fs key) (kv fs' ps')" using cp' by blast
  ultimately show thesis by (intro that)
qed

text \<open>What a change of one chain means for the map.\<close>

lemma changed_abs:
  assumes ok: "index_ok fs" and c: "chain_changed fs fs' (key_idx fs key) L"
    and L: "map_of L = (map_of (chain_kv fs key))(key := v)"
  shows "index_abs fs' = (index_abs fs)(key := v)"
proof
  fix k
  have ki: "key_idx fs' k = key_idx fs k" for k using c by (simp add: chain_changed_def key_idx_def)
  show "index_abs fs' k = ((index_abs fs)(key := v)) k"
  proof (cases "key_idx fs k = key_idx fs key")
    case True
    then have "chain_kv fs' k = L" "chain_kv fs k = chain_kv fs key"
      using c by (auto simp: chain_kv_def ki chain_changed_def)
    then show ?thesis using L by (simp add: index_abs_def fun_upd_def)
  next
    case False
    then have "chain_kv fs' k = chain_kv fs k"
      using c index_okD(5) [OF ok, of k] by (simp add: chain_kv_def ki chain_changed_def)
    then show ?thesis using False by (auto simp: index_abs_def)
  qed
qed

lemma changed_unique:
  assumes "index_unique fs" and c: "chain_changed fs fs' i L" and "distinct (map fst L)"
  shows "index_unique fs'"
  unfolding index_unique_def
proof (intro allI impI)
  fix j assume "j < length (dir_chains fs')"
  then show "distinct (map fst (kv fs' (dir_chains fs' ! j)))"
    using assms unfolding index_unique_def chain_changed_def by (cases "j = i") auto
qed

lemma put_rel_distinct: "put_rel key val L L' \<Longrightarrow> key \<notin> fst ` set L \<Longrightarrow> distinct (map fst L) \<Longrightarrow> distinct (map fst L')"
proof -
  assume "put_rel key val L L'" "key \<notin> fst ` set L" "distinct (map fst L)"
  then have "mset (map fst L') = mset (map fst ((key, val) # L))" "distinct (map fst ((key, val) # L))"
    by (auto simp: put_rel_def)
  then show ?thesis using mset_eq_imp_distinct_iff by blast
qed

definition room :: "xxfs \<Rightarrow> bytes \<Rightarrow> bytes \<Rightarrow> bool" where
  "room fs key val \<longleftrightarrow> 8 + length key + length val \<le> 4096 \<and> 3 \<le> free_blocks fs"

text \<open>The directory keeps its size, and no chain gets a key but the one stored.\<close>

definition adds_key :: "xxfs \<Rightarrow> bytes \<Rightarrow> xxfs \<Rightarrow> bool" where
  "adds_key fs key fs' \<longleftrightarrow> d_dir_size (pdir fs') = d_dir_size (pdir fs) \<and>
     (\<forall>q. fst ` set (chain_kv fs' q) \<subseteq> insert key (fst ` set (chain_kv fs q)))"

lemma changed_adds:
  assumes ok: "index_ok fs" and c: "chain_changed fs fs' (key_idx fs key) L" and L: "fst ` set L \<subseteq> insert key (fst ` set (chain_kv fs key))"
  shows "adds_key fs key fs'"
proof -
  have ki: "key_idx fs' k = key_idx fs k" for k using c by (simp add: chain_changed_def key_idx_def)
  have "fst ` set (chain_kv fs' q) \<subseteq> insert key (fst ` set (chain_kv fs q))" for q
  proof (cases "key_idx fs q = key_idx fs key")
    case True
    then have "chain_kv fs' q = L" "chain_kv fs q = chain_kv fs key"
      using c by (auto simp: chain_kv_def ki chain_changed_def)
    then show ?thesis using L by simp
  next
    case False
    then have "chain_kv fs' q = chain_kv fs q"
      using c index_okD(5) [OF ok, of q] by (simp add: chain_kv_def ki chain_changed_def)
    then show ?thesis by auto
  qed
  moreover have "d_dir_size (pdir fs') = d_dir_size (pdir fs)"
  proof -
    have "index_ok fs'" "length (dir_chains fs') = length (dir_chains fs)" using c by (simp_all add: chain_changed_def)
    then have "unat (d_dir_size (pdir fs')) = unat (d_dir_size (pdir fs))"
      using index_okD(2) [OF ok] index_okD(2) [of fs'] by (simp add: dir_inv_def)
    then show ?thesis by (simp add: word_unat_eq_iff)
  qed
  ultimately show ?thesis by (simp add: adds_key_def)
qed

lemma adds_collision_free:
  assumes "adds_key fs key fs'" and "collision_free q (chain_kv fs q)" and "xxh64 key \<noteq> xxh64 q"
  shows "collision_free q (chain_kv fs' q)"
proof -
  have "fingerprint key \<noteq> fingerprint q" using assms(3) by (simp add: fingerprint_def)
  then show ?thesis using assms(1,2) unfolding adds_key_def collision_free_def by blast
qed

text \<open>The laws of the two writing operations, with what they leave alone.\<close>

lemma put_law:
  assumes "index_ok fs" and "room fs key val" and "collision_free key (chain_kv fs key)"
  obtains fs' where "paged_put fs key val = Some (XXFS_OK, fs')" and "index_ok fs'"
    and "index_abs fs' = (index_abs fs)(key \<mapsto> val)" and "index_spares fs fs'" and "free_blocks fs \<le> free_blocks fs' + 3"
    and "adds_key fs key fs'"
proof -
  obtain fs' L where p: "put_loop True key val None fs = Some (XXFS_OK, fs')"
    and c: "chain_changed fs fs' (key_idx fs key) L" and r: "put_rel key val (chain_kv fs key) L"
    and f: "free_blocks fs \<le> free_blocks fs' + 3"
    by (rule put_all_ok [where scan = True and val = val, OF assms(1) _ _ assms(3)])
      (use assms(2) in \<open>auto simp: room_def\<close>)
  have "index_abs fs' = (index_abs fs)(key \<mapsto> val)"
    using r by (intro changed_abs [OF assms(1) c]) (simp add: put_rel_def)
  moreover have "adds_key fs key fs'" using r by (intro changed_adds [OF assms(1) c]) (simp add: put_rel_def)
  ultimately show thesis using p c f by (intro that [of fs']) (auto simp: paged_put_def chain_changed_def)
qed

lemma insert_law:
  assumes "index_ok fs" and "room fs key val" and "collision_free key (chain_kv fs key)" and "index_abs fs key = None"
  obtains fs' where "paged_insert fs key val = Some (XXFS_OK, fs')" and "index_ok fs'"
    and "index_abs fs' = (index_abs fs)(key \<mapsto> val)" and "index_spares fs fs'" and "free_blocks fs \<le> free_blocks fs' + 3"
    and "index_unique fs \<Longrightarrow> index_unique fs'" and "adds_key fs key fs'"
proof -
  have new: "key \<notin> fst ` set (chain_kv fs key)"
    using assms(4) by (simp add: index_abs_def map_of_eq_None_iff)
  obtain fs' L where p: "put_loop False key val None fs = Some (XXFS_OK, fs')"
    and c: "chain_changed fs fs' (key_idx fs key) L" and r: "put_rel key val (chain_kv fs key) L"
    and f: "free_blocks fs \<le> free_blocks fs' + 3"
    by (rule put_all_ok [where scan = False and val = val, OF assms(1) _ _ assms(3)])
      (use assms(2) new in \<open>auto simp: room_def\<close>)
  have "index_abs fs' = (index_abs fs)(key \<mapsto> val)"
    using r by (intro changed_abs [OF assms(1) c]) (simp add: put_rel_def)
  moreover have "index_unique fs'" if u: "index_unique fs"
  proof (rule changed_unique [OF u c put_rel_distinct [OF r new]])
    show "distinct (map fst (chain_kv fs key))"
      using u index_okD(5) [OF assms(1), of key] by (simp add: index_unique_def chain_kv_def)
  qed
  moreover have "adds_key fs key fs'" using r by (intro changed_adds [OF assms(1) c]) (simp add: put_rel_def)
  ultimately show thesis using p c f by (intro that [of fs']) (auto simp: paged_insert_def chain_changed_def)
qed

text \<open>C5: on a well-formed index with free blocks, and when no other key in the chain has the hash, the
  length and the 16-byte prefix of \<open>key\<close>, \<^verbatim>\<open>paged_put\<close> returns \<^verbatim>\<open>XXFS_OK\<close> and updates the map at that key
  and nowhere else, whichever of its branches it takes: a new chain, an overwrite in the page or in the
  record block, a fresh record, a new slot, or a new overflow page. Allocated blocks outside the index keep
  their contents.\<close>

theorem paged_put_correct:
  assumes "index_ok fs" and "room fs key val" and "collision_free key (chain_kv fs key)"
  shows "\<exists>fs'. paged_put fs key val = Some (XXFS_OK, fs') \<and> index_ok fs' \<and>
    index_abs fs' = (index_abs fs)(key \<mapsto> val) \<and> index_spares fs fs'"
  by (rule put_law [OF assms]) blast

lemma index_sample_room: "room index_sample [47] [1]" "collision_free [47] (chain_kv index_sample key)"
  by (simp_all add: room_def index_sample_ok collision_free_def)

theorem paged_put_correct_witness:
  "\<exists>fs'. paged_put index_sample [47] [1] = Some (XXFS_OK, fs') \<and> index_abs fs' [47] = Some [1]"
  using paged_put_correct [of index_sample "[47]" "[1]"] index_sample_room by (auto simp: index_sample_ok)

text \<open>\<^verbatim>\<open>paged_insert\<close>, which does not look for an existing slot, is correct for a key that is not stored
  yet: it returns \<^verbatim>\<open>XXFS_OK\<close>, updates the map, keeps the keys unique, and spares the blocks outside the index.\<close>

theorem paged_insert_correct:
  assumes "index_ok fs" and "index_unique fs" and "room fs key val" and "collision_free key (chain_kv fs key)"
    and "index_abs fs key = None"
  shows "\<exists>fs'. paged_insert fs key val = Some (XXFS_OK, fs') \<and> index_ok fs' \<and> index_unique fs' \<and>
    index_abs fs' = (index_abs fs)(key \<mapsto> val) \<and> index_spares fs fs'"
  by (rule insert_law [OF assms(1,3-5)]) (use assms(2) in blast)

theorem paged_insert_correct_witness:
  "\<exists>fs'. paged_insert index_sample [47] [1] = Some (XXFS_OK, fs') \<and> index_abs fs' [47] = Some [1]"
  using paged_insert_correct [of index_sample "[47]" "[1]"] index_sample_room by (auto simp: index_sample_ok)

end
