(* ===== verification/Index_Del.thy ===== *)
theory Index_Del
  imports Index_Spec
begin

text \<open>
  Correctness of \<^verbatim>\<open>paged_del\<close>, what it leaves behind when a key is stored twice, and the contract of
  the index as a key-value store.
\<close>

section \<open>Lists of pairs\<close>

definition del_rel :: "bytes \<Rightarrow> (bytes \<times> bytes) list \<Rightarrow> (bytes \<times> bytes) list \<Rightarrow> bool" where
  "del_rel key L L' \<longleftrightarrow> (\<exists>v. mset L = add_mset (key, v) (mset L'))"

lemma del_rel_tail: "del_rel key L L' \<Longrightarrow> del_rel key (A @ L) (A @ L')"
  by (auto simp: del_rel_def)

lemma del_rel_drop:
  assumes "i < length A" and "fst (A ! i) = key"
  shows "del_rel key (A @ L) (kv_drop i A @ L)"
proof -
  have "A ! i \<in># mset A" using assms(1) by simp
  then have "mset A = add_mset (A ! i) (mset (kv_drop i A))"
    using kv_drop_mset [OF assms(1)] by simp
  moreover have "A ! i = (key, snd (A ! i))" using assms(2) by (metis prod.collapse)
  ultimately show ?thesis unfolding del_rel_def by (metis mset_append union_mset_add_mset_left)
qed

lemma del_rel_map:
  assumes d: "distinct (map fst L)" and r: "del_rel key L L'"
  shows "map_of L' = (map_of L)(key := None)" and "distinct (map fst L')"
proof -
  obtain v where m: "mset L = add_mset (key, v) (mset L')" using r by (auto simp: del_rel_def)
  then have "mset (map fst L) = mset (key # map fst L')" by simp
  then have "distinct (key # map fst L')" using d mset_eq_imp_distinct_iff by blast
  then have d': "distinct (map fst L')" and nk: "key \<notin> fst ` set L'" by auto
  show "distinct (map fst L')" by (rule d')
  have s: "set L = insert (key, v) (set L')" using m by (metis set_mset_mset set_mset_add_mset_insert)
  show "map_of L' = (map_of L)(key := None)"
  proof
    fix k
    show "map_of L' k = ((map_of L)(key := None)) k"
    proof (cases "k = key")
      case True
      then show ?thesis using nk by (simp add: map_of_eq_None_iff)
    next
      case False
      have "map_of L' k = Some w \<longleftrightarrow> map_of L k = Some w" for w
        using d d' s False by auto
      then show ?thesis using False by (metis fun_upd_other not_None_eq)
    qed
  qed
qed

section \<open>The loop\<close>

definition chain_del :: "u64 set \<Rightarrow> bytes \<Rightarrow> u64 \<Rightarrow> u64 list \<Rightarrow> xxfs \<Rightarrow> rc \<Rightarrow> xxfs \<Rightarrow> bool" where
  "chain_del P key off ps fs rc fs' \<longleftrightarrow> pages_inv fs' P \<and> chain fs' off ps \<and> pdir fs' = pdir fs \<and>
     (\<forall>q \<in> P. q \<notin> set ps \<longrightarrow> lpage fs' q = lpage fs q \<and> pkv fs' q = pkv fs q) \<and>
     (if key \<in> fst ` set (kv fs ps) then rc = XXFS_OK \<and> del_rel key (kv fs ps) (kv fs' ps)
      else rc = XXFS_ENOENT \<and> kv fs' ps = kv fs ps) \<and> spares fs P fs' P"

text \<open>The slot is in this page.\<close>

lemma del_hit:
  assumes inv: "pages_inv fs P" and p: "p \<in> P" and find: "find_slot (xxh64 key) key (lpage fs p) = Some (Some i)"
    and i: "i < unat (pg_count (lpage fs p))"
  obtains fs' where "del_loop key p fs = Some (XXFS_OK, fs')"
    and "page_write P fs fs' p (drop_slot i (lpage fs p)) (kv_drop i (pkv fs p))"
proof -
  obtain g where g: "page_load fs p = (Some (lpage fs p), g)" "quiet P fs g" "cached g p = Some (lpage fs p)"
    using page_load_quiet [OF inv p] by blast
  have qg: "pages_inv g P" "lpage g p = lpage fs p" "pkv g p = pkv fs p" using quiet_pages [OF inv g(2)] p by blast+
  let ?q = "drop_slot i (lpage fs p)"
  have ok: "page_ok (lblock g) (isize g) (lpage fs p)" using pages_invD(6) [OF qg(1) p] unfolding qg(2) .
  note dr = page_ok_drop [OF ok i]
  obtain fs' where u: "page_update g p ?q = Some fs'" "page_write P g fs' p ?q (page_kv (lblock g) ?q)"
    by (rule page_update_write [OF qg(1) p, where X = "{}" and q = ?q and g = g])
      (use dr g(3) qg pages_invD(1,2) [OF qg(1)] in auto)
  have "page_kv (lblock g) ?q = kv_drop i (pkv fs p)" using dr qg(2,3) by simp
  moreover have "p \<noteq> 0" using pages_invD(4) [OF inv p] by (simp add: allocd_def)
  moreover have "unat (pg_count (lpage fs p)) \<le> 56" using ok by (simp add: page_ok_def)
  ultimately show thesis
    using u quiet_page_write [OF inv g(2) u(2)] find
    by (intro that [of fs']) (subst del_loop.simps, simp_all add: g(1) PAGED_SLOTS_PER_PAGE_def)
qed

lemma chain_del_tail:
  assumes inv: "pages_inv fs P" and q: "quiet P fs g" and p: "p \<in> P" "set ps \<subseteq> P" "p \<notin> set ps"
    and ch: "chain fs off (p # ps)" and nk: "key \<notin> fst ` set (pkv fs p)"
    and r: "chain_del P key (pg_overflow_next (lpage fs p)) ps g rc fs'"
  shows "chain_del P key off (p # ps) fs rc fs'"
proof -
  note r' = r [unfolded chain_del_def]
  note qg = quiet_pages [OF inv q]
  have same: "\<forall>r \<in> P. r \<notin> set ps \<longrightarrow> lpage fs' r = lpage fs r \<and> pkv fs' r = pkv fs r"
    using r' qg by metis
  have pp: "lpage fs' p = lpage fs p" "pkv fs' p = pkv fs p" using same p by blast+
  have kv': "kv g ps = kv fs ps" by (rule kv_cong) (use qg p(2) in blast)
  have kvs: "kv fs (p # ps) = pkv fs p @ kv fs ps" "kv fs' (p # ps) = pkv fs p @ kv fs' ps"
    unfolding kv_simps(2) pp(2) by (rule refl)+
  have mem: "key \<in> fst ` set (pkv fs p @ kv fs ps) \<longleftrightarrow> key \<in> fst ` set (kv fs ps)"
    using nk by auto
  have "if key \<in> fst ` set (pkv fs p @ kv fs ps)
      then rc = XXFS_OK \<and> del_rel key (pkv fs p @ kv fs ps) (pkv fs p @ kv fs' ps)
      else rc = XXFS_ENOENT \<and> pkv fs p @ kv fs' ps = pkv fs p @ kv fs ps"
    using r' del_rel_tail [of key "kv fs ps" "kv fs' ps" "pkv fs p"]
    unfolding mem kv' by (cases "key \<in> fst ` set (kv fs ps)") (simp_all only: if_True if_False simp_thms)
  moreover have "chain fs' off (p # ps)" using ch r' unfolding chain.simps pp(1) by blast
  moreover have "pdir fs' = pdir fs" using r' quiet_sb [OF q] by simp
  moreover have "\<forall>r \<in> P. r \<notin> set (p # ps) \<longrightarrow> lpage fs' r = lpage fs r \<and> pkv fs' r = pkv fs r"
    using same set_subset_Cons [of ps p] by blast
  moreover have "spares fs P fs' P" using spares_trans [OF quiet_spares [OF inv q]] r' by blast
  ultimately show ?thesis
    using r' unfolding chain_del_def kvs by blast
qed

lemma del_loop_ok:
  assumes "pages_inv fs P" and "chain fs off ps" and "set ps \<subseteq> P" and "distinct ps" and "length key < 2 ^ 32"
    and "collision_free key (kv fs ps)"
  shows "\<exists>rc fs'. del_loop key off fs = Some (rc, fs') \<and> chain_del P key off ps fs rc fs'"
  using assms
proof (induction ps arbitrary: off fs)
  case Nil
  then show ?case by (subst del_loop.simps) (simp add: chain_del_def)
next
  case (Cons p ps)
  note inv = Cons.prems(1) and ch = Cons.prems(2)
  have p: "p \<in> P" "off = p" "set ps \<subseteq> P" "p \<notin> set ps" "distinct ps"
    and next_ps: "chain fs (pg_overflow_next (lpage fs p)) ps" using Cons.prems(2-4) by auto
  note ok = pages_invD(6) [OF inv p(1)]
  show ?case
  proof (cases rule: find_slot_cases [OF ok, of "xxh64 key" key])
    case (1 i)
    have il: "i < length (pkv fs p)" using 1(2) length_page_kv [OF ok] by simp
    have "pkv fs p ! i \<in> set (kv fs (p # ps))" using il by simp
    then have key: "fst (pkv fs p ! i) = key" and mem: "key \<in> fst ` set (kv fs (p # ps))"
      using match_keys [OF inv p(1) 1(2) Cons.prems(5)] 1(3) Cons.prems(6) unfolding collision_free_def by force+
    obtain fs' where d: "del_loop key p fs = Some (XXFS_OK, fs')"
      and w: "page_write P fs fs' p (drop_slot i (lpage fs p)) (kv_drop i (pkv fs p))"
      by (rule del_hit [OF inv p(1) 1(1,2)])
    note w' = w [unfolded page_write_def]
    have "kv fs' ps = kv fs ps" by (rule kv_cong) (use w' p(3,4) in \<open>metis subsetD\<close>)
    then have "kv fs' (p # ps) = kv_drop i (pkv fs p) @ kv fs ps" using w' unfolding kv_simps(2) by metis
    then have "del_rel key (kv fs (p # ps)) (kv fs' (p # ps))"
      using del_rel_drop [OF il key] by (simp only: kv_simps)
    moreover have "pg_overflow_next (drop_slot i (lpage fs p)) = pg_overflow_next (lpage fs p)"
      by (simp add: drop_slot_def Let_def)
    then have "chain fs' off (p # ps)"
      by (intro chain_cong [OF ch]) (use w' Cons.prems(3) in \<open>metis subsetD\<close>)
    moreover have "\<forall>r \<in> P. r \<notin> set (p # ps) \<longrightarrow> lpage fs' r = lpage fs r \<and> pkv fs' r = pkv fs r"
      using w' list.set_intros(1) [of p ps] by metis
    ultimately have "chain_del P key off (p # ps) fs XXFS_OK fs'"
      unfolding chain_del_def using w' mem by (simp only: if_True simp_thms)
    then show ?thesis using d p(2) by blast
  next
    case 2
    have nk: "key \<notin> fst ` set (pkv fs p)"
      using no_match_keys [OF inv p(1) Cons.prems(5)] 2(2) by (simp add: no_match_def)
    obtain g where g: "page_load fs p = (Some (lpage fs p), g)" and q: "quiet P fs g"
      using page_load_quiet [OF inv p(1)] by blast
    have sub: "\<And>r. r \<in> set ps \<Longrightarrow> lpage g r = lpage fs r" "\<And>r. r \<in> set ps \<Longrightarrow> pkv g r = pkv fs r" and ig: "pages_inv g P"
      using quiet_pages [OF inv q] p(3) by blast+
    have "chain g (pg_overflow_next (lpage fs p)) ps" by (rule chain_cong [OF next_ps]) (simp only: sub)
    moreover have kv': "kv g ps = kv fs ps" by (rule kv_cong) (rule sub(2))
    have "collision_free key (kv g ps)" using Cons.prems(6) unfolding kv' by (simp add: collision_free_def)
    ultimately obtain rc fs' where r: "del_loop key (pg_overflow_next (lpage fs p)) g = Some (rc, fs')"
      "chain_del P key (pg_overflow_next (lpage fs p)) ps g rc fs'"
      using Cons.IH [OF ig _ p(3,5) Cons.prems(5)] by blast
    have "del_loop key off fs = Some (rc, fs')"
      using 2(1) g r(1) p(2) ch by (subst del_loop.simps) simp
    then show ?thesis using chain_del_tail [OF inv q p(1,3,4) ch nk r(2)] by blast
  qed
qed

section \<open>Delete on the index\<close>

lemma paged_del_ok:
  assumes ok: "index_ok fs" and len: "length key < 2 ^ 32" and nc: "collision_free key (chain_kv fs key)"
  obtains rc fs' L where "paged_del fs key = Some (rc, fs')" and "chain_changed fs fs' (key_idx fs key) L"
    and "if key \<in> fst ` set (chain_kv fs key) then rc = XXFS_OK \<and> del_rel key (chain_kv fs key) L
         else rc = XXFS_ENOENT \<and> L = chain_kv fs key"
proof (cases rule: chain_head_cases [OF ok, of key])
  case 1
  then show thesis using ok
    by (intro that [of XXFS_ENOENT fs "[]"]) (simp_all add: paged_del_def chain_changed_def)
next
  case (2 off)
  let ?i = "key_idx fs key" and ?ps = "dir_chains fs ! key_idx fs key"
  note i = index_okD(5) [OF ok, of key]
  have d: "distinct ?ps" using index_okD(4) [OF ok] i unfolding chains_apart_def by blast
  obtain rc fs' where r: "del_loop key off fs = Some (rc, fs')"
    and cd: "chain_del (pages_of (dir_chains fs)) key off ?ps fs rc fs'"
    using del_loop_ok [OF index_okD(3) [OF ok] 2(2) nth_pages_of [OF i] d len] nc
    unfolding chain_kv_def by blast
  note cd' = cd [unfolded chain_del_def]
  have "chain_changed fs fs' ?i (kv fs' ?ps) \<and> dir_chains fs' = (dir_chains fs)[?i := ?ps]"
  proof (rule index_replace_chain [OF ok i])
    show "pages_inv fs' (pages_of (dir_chains fs) \<union> set ?ps)"
      "spares fs (pages_of (dir_chains fs)) fs' (pages_of (dir_chains fs) \<union> set ?ps)"
      using cd' Un_absorb2 [OF nth_pages_of [OF i]] by metis+
    show "pdir fs' = (pdir fs)\<lparr>d_page_off := (d_page_off (pdir fs))[?i := off]\<rparr>" using cd' 2(4) by simp
    show "off \<noteq> - 1" using 2(1) chain_head_eq [OF ok, of key] by (auto simp: Let_def split: if_splits)
  qed (use cd' 2(3) d in blast)+
  moreover have "if key \<in> fst ` set (chain_kv fs key) then rc = XXFS_OK \<and> del_rel key (chain_kv fs key) (kv fs' ?ps)
         else rc = XXFS_ENOENT \<and> kv fs' ?ps = chain_kv fs key"
    using cd' unfolding chain_kv_def by blast
  ultimately show thesis
    using r 2(1) by (intro that [of rc fs' "kv fs' ?ps"]) (simp_all add: paged_del_def)
qed

text \<open>The law of \<^verbatim>\<open>paged_del\<close>.\<close>

lemma del_law:
  assumes "index_ok fs" and "index_unique fs" and "length key < 2 ^ 32" and "collision_free key (chain_kv fs key)"
  obtains fs' where "paged_del fs key = Some (if index_abs fs key = None then XXFS_ENOENT else XXFS_OK, fs')"
    and "index_ok fs'" and "index_unique fs'" and "index_abs fs' = (index_abs fs)(key := None)" and "index_spares fs fs'"
    and "adds_key fs key fs'"
proof -
  obtain rc fs' L where p: "paged_del fs key = Some (rc, fs')" and c: "chain_changed fs fs' (key_idx fs key) L"
    and r: "if key \<in> fst ` set (chain_kv fs key) then rc = XXFS_OK \<and> del_rel key (chain_kv fs key) L
         else rc = XXFS_ENOENT \<and> L = chain_kv fs key"
    by (rule paged_del_ok [OF assms(1,3,4)])
  have d: "distinct (map fst (chain_kv fs key))"
    using assms(2) index_okD(5) [OF assms(1), of key] by (simp add: index_unique_def chain_kv_def)
  have none: "index_abs fs key = None \<longleftrightarrow> key \<notin> fst ` set (chain_kv fs key)"
    by (simp add: index_abs_def map_of_eq_None_iff)
  have L: "map_of L = (map_of (chain_kv fs key))(key := None) \<and> distinct (map fst L)"
    using r d del_rel_map [OF d, of key L] none by (auto simp: index_abs_def fun_upd_idem split: if_splits)
  have "index_abs fs' = (index_abs fs)(key := None)" using changed_abs [OF assms(1) c] L by blast
  moreover have "index_unique fs'" using changed_unique [OF assms(2) c] L by blast
  moreover have "adds_key fs key fs'"
    by (rule changed_adds [OF assms(1) c]) (use r in \<open>auto simp: del_rel_def dest!: arg_cong [of _ _ set_mset] split: if_splits\<close>)
  ultimately show thesis using p c r none by (intro that [of fs']) (auto simp: chain_changed_def split: if_splits)
qed

text \<open>C7: on a well-formed index in which no key is stored twice, \<^verbatim>\<open>paged_del\<close> returns \<^verbatim>\<open>XXFS_OK\<close> and removes
  the key from the map and nothing else, or returns \<^verbatim>\<open>XXFS_ENOENT\<close> when the key is absent; blocks outside the
  index keep their contents.\<close>

theorem paged_del_correct:
  assumes "index_ok fs" and "index_unique fs" and "length key < 2 ^ 32" and "collision_free key (chain_kv fs key)"
  shows "\<exists>fs'. paged_del fs key = Some (if index_abs fs key = None then XXFS_ENOENT else XXFS_OK, fs') \<and>
    index_ok fs' \<and> index_unique fs' \<and> index_abs fs' = (index_abs fs)(key := None) \<and> index_spares fs fs'"
  by (rule del_law [OF assms]) blast

theorem paged_del_correct_witness:
  "\<exists>fs fs'. paged_insert index_sample [47] [1] = Some (XXFS_OK, fs) \<and> paged_del fs [47] = Some (XXFS_OK, fs')"
proof -
  obtain fs where fs: "paged_insert index_sample [47] [1] = Some (XXFS_OK, fs)" "index_ok fs"
    "index_abs fs = (index_abs index_sample)([47] \<mapsto> [1])" "index_unique fs"
    using insert_law [OF index_sample_ok(1) index_sample_room index_sample_ok(4)] index_sample_ok(2) by metis
  have "collision_free [47] (chain_kv fs [47])" by (rule collision_free_short) (simp add: KEY_PREFIX_LEN_def)
  then show ?thesis
    using paged_del_correct [of fs "[47]"] fs by auto
qed

section \<open>Interface: a key-value store\<close>

text \<open>What the file system relies on. \<open>pre\<close> collects what a put needs: room, and no collision.\<close>

locale kv_store =
  fixes inv :: "'s \<Rightarrow> bool"
    and abs :: "'s \<Rightarrow> 'k \<Rightarrow> 'v option"
    and key_ok :: "'s \<Rightarrow> 'k \<Rightarrow> bool"
    and put_ok :: "'s \<Rightarrow> 'k \<Rightarrow> 'v \<Rightarrow> bool"
    and get :: "'s \<Rightarrow> 'k \<Rightarrow> ((rc + 'v) \<times> 's) option"
    and put :: "'s \<Rightarrow> 'k \<Rightarrow> 'v \<Rightarrow> (rc \<times> 's) option"
  assumes get_law: "inv s \<Longrightarrow> key_ok s k \<Longrightarrow> \<exists>s'. inv s' \<and> abs s' = abs s \<and>
      get s k = Some (case abs s k of None \<Rightarrow> Inl XXFS_ENOENT | Some v \<Rightarrow> Inr v, s')"
    and put_law: "inv s \<Longrightarrow> put_ok s k v \<Longrightarrow>
      \<exists>s'. inv s' \<and> abs s' = (abs s)(k \<mapsto> v) \<and> put s k v = Some (XXFS_OK, s')"
begin

lemma get_after_put:
  assumes "inv s" and "put_ok s k v" and "put s k v = Some (r, s')" and "key_ok s' k'"
  shows "\<exists>s''. inv s'' \<and> get s' k' = Some (if k' = k then Inr v else
      (case abs s k' of None \<Rightarrow> Inl XXFS_ENOENT | Some w \<Rightarrow> Inr w), s'')"
proof -
  have "inv s'" "abs s' = (abs s)(k \<mapsto> v)"
    using put_law [OF assms(1,2)] assms(3) by auto
  with get_law [of s' k'] assms(4) show ?thesis by auto
qed

end

text \<open>The index, read with a buffer for values of at most \<open>cap\<close> bytes.\<close>

definition values_fit :: "u32 \<Rightarrow> xxfs \<Rightarrow> bool" where
  "values_fit cap fs \<longleftrightarrow> (\<forall>k v. index_abs fs k = Some v \<longrightarrow> length v \<le> unat cap)"

interpretation index_kv:
  kv_store "\<lambda>fs. index_ok fs \<and> values_fit 560 fs" index_abs "\<lambda>fs key. length key < 2 ^ 32"
    "\<lambda>fs key val. room fs key val \<and> collision_free key (chain_kv fs key) \<and> length val \<le> 560"
    "\<lambda>fs key. paged_get fs key 560" paged_put
proof
  fix fs and key :: bytes assume a: "index_ok fs \<and> values_fit 560 fs" and k: "length key < 2 ^ 32"
  obtain fs' where g: "paged_get fs key 560 = Some (get_result key 560 (chain_kv fs key), fs')"
    and q: "quiet (pages_of (dir_chains fs)) fs fs'"
    using paged_get_ok [of fs key 560] a k by metis
  have "get_result key 560 (chain_kv fs key) = (case index_abs fs key of None \<Rightarrow> Inl XXFS_ENOENT | Some v \<Rightarrow> Inr v)"
    using a by (auto simp: get_result_def index_abs_def values_fit_def split: option.split) fastforce
  then show "\<exists>fs'. (index_ok fs' \<and> values_fit 560 fs') \<and> index_abs fs' = index_abs fs \<and>
      paged_get fs key 560 = Some (case index_abs fs key of None \<Rightarrow> Inl XXFS_ENOENT | Some v \<Rightarrow> Inr v, fs')"
    using g index_quiet(1) [OF _ q] a by (auto simp: values_fit_def)
next
  fix fs key val
  assume a: "index_ok fs \<and> values_fit 560 fs"
    and p: "room fs key val \<and> collision_free key (chain_kv fs key) \<and> length val \<le> 560"
  then obtain fs' where "paged_put fs key val = Some (XXFS_OK, fs')" "index_ok fs'"
    and ab: "index_abs fs' = (index_abs fs)(key \<mapsto> val)"
    using put_law [of fs key val] by metis
  moreover have "values_fit 560 fs'" using a p by (simp add: values_fit_def ab)
  ultimately show "\<exists>fs'. (index_ok fs' \<and> values_fit 560 fs') \<and> index_abs fs' = (index_abs fs)(key \<mapsto> val) \<and>
      paged_put fs key val = Some (XXFS_OK, fs')"
    by blast
qed

text \<open>What \<^verbatim>\<open>paged_put\<close> stored is what \<^verbatim>\<open>paged_get\<close> returns, and every other key reads as before.\<close>

theorem put_then_get:
  assumes "index_ok fs" and "values_fit 560 fs" and "room fs key val" and "collision_free key (chain_kv fs key)"
    and "length val \<le> 560" and "paged_put fs key val = Some (r, fs')" and "length k < 2 ^ 32"
  shows "\<exists>fs''. paged_get fs' k 560 = Some (if k = key then Inr val else
      (case index_abs fs k of None \<Rightarrow> Inl XXFS_ENOENT | Some w \<Rightarrow> Inr w), fs'')"
  using index_kv.get_after_put [of fs key val r fs' k] assms by auto

theorem put_then_get_witness:
  "\<exists>fs' fs''. paged_put index_sample [47] [1] = Some (XXFS_OK, fs') \<and> paged_get fs' [47] 560 = Some (Inr [1], fs'')"
proof -
  have v: "values_fit 560 index_sample" by (simp add: values_fit_def index_sample_ok)
  obtain fs' where "paged_put index_sample [47] [1] = Some (XXFS_OK, fs')"
    using index_kv.put_law [of index_sample "[47]" "[1]"] v index_sample_room index_sample_ok(1) by auto
  then show ?thesis
    using put_then_get [of index_sample "[47]" "[1]" XXFS_OK fs' "[47]"] v index_sample_room index_sample_ok(1) by auto
qed

end
