(* ===== verification/Icache.thy ===== *)
theory Icache
  imports Paged_Index
begin

text \<open>
  The write-back cache of inodes of \<^verbatim>\<open>lib/xxfs.c\<close>, an open-addressing hash table keyed by the 64-bit hash
  of the path: \<^verbatim>\<open>icache_init\<close>, \<^verbatim>\<open>icache_destroy\<close>, \<^verbatim>\<open>icache_lookup\<close>, \<^verbatim>\<open>icache_evict_one\<close>, \<^verbatim>\<open>icache_grow\<close>,
  \<^verbatim>\<open>icache_put\<close>, \<^verbatim>\<open>icache_del\<close>, \<^verbatim>\<open>icache_invalidate\<close>, \<^verbatim>\<open>icache_flush_all\<close>. Probe loops are bounded by a count, as
  in the source. A pointer to an entry is its index.
\<close>

section \<open>The code\<close>

definition ICACHE_CAP_INIT :: u32 where "ICACHE_CAP_INIT = 16384"
definition ICACHE_MAX_ENTRIES :: u32 where "ICACHE_MAX_ENTRIES = 131072"
definition ICACHE_CTRL_EMPTY :: u8 where "ICACHE_CTRL_EMPTY = 0"
definition ICACHE_CTRL_VALID :: u8 where "ICACHE_CTRL_VALID = 0x80"

lemmas icache_consts =
  ICACHE_CAP_INIT_def ICACHE_MAX_ENTRIES_def ICACHE_CTRL_EMPTY_def ICACHE_CTRL_VALID_def

definition icache_ctrl :: "u64 \<Rightarrow> u8" where
  "icache_ctrl hash = ucast (hash AND 0x7F) OR ICACHE_CTRL_VALID"

definition icache_home :: "xxfs \<Rightarrow> u64 \<Rightarrow> u32" where
  "icache_home fs hash = ucast (hash AND ucast (icache_mask fs))"

definition set_icache :: "u32 \<Rightarrow> icache_entry \<Rightarrow> xxfs \<Rightarrow> xxfs" where
  "set_icache idx e fs = fs\<lparr>icache := (icache fs)(unat idx := e)\<rparr>"

text \<open>The caller does not check the allocation; \<open>None\<close> stands for the crash at the first access.\<close>

definition icache_init :: "xxfs \<Rightarrow> xxfs option" where
  "icache_init fs =
     (case fs_alloc fs of (ok, fs) \<Rightarrow>
        if ok
        then Some (fs\<lparr>icache_cap := ICACHE_CAP_INIT, icache_mask := ICACHE_CAP_INIT - 1, icache_count := 0,
                      icache_tick := 0, icache := (\<lambda>_. zero_icache_entry)\<rparr>)
        else None)"

definition icache_destroy :: "xxfs \<Rightarrow> xxfs" where
  "icache_destroy fs = fs\<lparr>icache := (\<lambda>_. zero_icache_entry)\<rparr>"

text \<open>At most sixteen entries are looked at, and keys are not compared.\<close>

primrec icache_probe :: "nat \<Rightarrow> xxfs \<Rightarrow> u64 \<Rightarrow> u32 \<Rightarrow> u32 option" where
  "icache_probe 0 fs hash idx = None"
| "icache_probe (Suc n) fs hash idx =
     (let e = icache fs (unat idx) in
      if ic_ctrl e = ICACHE_CTRL_EMPTY then None
      else if ic_ctrl e = icache_ctrl hash \<and> ic_hash e = hash then Some idx
      else icache_probe n fs hash ((idx + 1) AND icache_mask fs))"

definition icache_lookup :: "xxfs \<Rightarrow> u64 \<Rightarrow> u32 option" where
  "icache_lookup fs hash = icache_probe 16 fs hash (icache_home fs hash)"

text \<open>A dirty entry is stamped, sealed and stored in the index; the result of \<^verbatim>\<open>paged_put\<close> is ignored. An
  entry whose key could not be allocated has none to store under.\<close>

definition icache_write_entry :: "xxfs \<Rightarrow> icache_entry \<Rightarrow> (icache_entry \<times> xxfs) option" where
  "icache_write_entry fs e =
     (case fs_time fs of (t, fs) \<Rightarrow>
        let ino = inode_set_checksum_ecc ((ic_inode e)\<lparr>i_mtime := t, i_ctime := t\<rparr>) in
        do { key \<leftarrow> ic_key e;
             (rc, fs) \<leftarrow> paged_put fs key (inode_to_val ino);
             Some (e\<lparr>ic_inode := ino\<rparr>, fs) })"

definition clear_entry :: "icache_entry \<Rightarrow> icache_entry" where
  "clear_entry e = e\<lparr>ic_key := None, ic_ctrl := ICACHE_CTRL_EMPTY, ic_dirty := False\<rparr>"

primrec icache_evict_from :: "nat \<Rightarrow> xxfs \<Rightarrow> u32 \<Rightarrow> xxfs option" where
  "icache_evict_from 0 fs idx = Some fs"
| "icache_evict_from (Suc n) fs idx =
     (let e = icache fs (unat idx) in
      if ic_ctrl e \<noteq> ICACHE_CTRL_EMPTY then
        do { (e, fs) \<leftarrow> (if ic_dirty e then icache_write_entry fs e else Some (e, fs));
             Some ((set_icache idx (clear_entry e) fs)\<lparr>icache_count := icache_count fs - 1\<rparr>) }
      else icache_evict_from n fs ((idx + 1) AND icache_mask fs))"

definition icache_evict_one :: "xxfs \<Rightarrow> xxfs option" where
  "icache_evict_one fs =
     icache_evict_from (unat (icache_cap fs)) fs (ucast (icache_tick fs AND ucast (icache_mask fs)))"

text \<open>Rehashing into a table of twice the size.\<close>

primrec grow_place :: "nat \<Rightarrow> u32 \<Rightarrow> (nat \<Rightarrow> icache_entry) \<Rightarrow> icache_entry \<Rightarrow> u32 \<Rightarrow> nat \<Rightarrow> icache_entry" where
  "grow_place 0 msk nt e idx = nt"
| "grow_place (Suc n) msk nt e idx =
     (if ic_ctrl (nt (unat idx)) = ICACHE_CTRL_EMPTY then nt(unat idx := e)
      else grow_place n msk nt e ((idx + 1) AND msk))"

definition grow_entry :: "u32 \<Rightarrow> (nat \<Rightarrow> icache_entry) \<Rightarrow> icache_entry \<Rightarrow> nat \<Rightarrow> icache_entry" where
  "grow_entry new_cap nt e =
     (if ic_ctrl e = ICACHE_CTRL_EMPTY then nt
      else grow_place (unat new_cap) (new_cap - 1) nt e (ucast (ic_hash e AND ucast (new_cap - 1))))"

definition icache_grow :: "xxfs \<Rightarrow> xxfs" where
  "icache_grow fs =
     (let new_cap = icache_cap fs * 2 in
      case fs_alloc fs of (ok, fs) \<Rightarrow>
        if \<not> ok then fs
        else fs\<lparr>icache := foldl (\<lambda>nt i. grow_entry new_cap nt (icache fs i)) (\<lambda>_. zero_icache_entry)
                             [0..<unat (icache_cap fs)],
                icache_cap := new_cap, icache_mask := new_cap - 1\<rparr>)"

primrec icache_put_from :: "nat \<Rightarrow> xxfs \<Rightarrow> u64 \<Rightarrow> bytes \<Rightarrow> xxfs_inode \<Rightarrow> u32 \<Rightarrow> xxfs" where
  "icache_put_from 0 fs hash key ino idx = fs"
| "icache_put_from (Suc n) fs hash key ino idx =
     (let e = icache fs (unat idx) in
      if ic_ctrl e = ICACHE_CTRL_EMPTY then
        case fs_alloc fs of (ok, fs) \<Rightarrow>
          (set_icache idx \<lparr>ic_hash = hash, ic_ctrl = icache_ctrl hash, ic_dirty = True,
             ic_key = (if ok then Some key else None), ic_inode = ino\<rparr> fs)
            \<lparr>icache_count := icache_count fs + 1\<rparr>
      else if ic_hash e = hash then set_icache idx (e\<lparr>ic_dirty := True, ic_inode := ino\<rparr>) fs
      else icache_put_from n fs hash key ino ((idx + 1) AND icache_mask fs))"

definition icache_make_room :: "xxfs \<Rightarrow> xxfs option" where
  "icache_make_room fs =
     (if icache_count fs \<ge> ICACHE_MAX_ENTRIES then icache_evict_one fs
      else if icache_count fs * 2 \<ge> icache_cap fs then Some (icache_grow fs)
      else Some fs)"

definition icache_put :: "xxfs \<Rightarrow> u64 \<Rightarrow> bytes \<Rightarrow> xxfs_inode \<Rightarrow> xxfs option" where
  "icache_put fs hash key ino =
     do { fs \<leftarrow> icache_make_room fs;
          Some (icache_put_from (unat (icache_cap fs)) fs hash key ino (icache_home fs hash)) }"

definition icache_del :: "xxfs \<Rightarrow> u64 \<Rightarrow> xxfs" where
  "icache_del fs hash =
     (case icache_lookup fs hash of
        None \<Rightarrow> fs
      | Some idx \<Rightarrow>
          (set_icache idx (clear_entry (icache fs (unat idx))) fs)\<lparr>icache_count := icache_count fs - 1\<rparr>)"

definition icache_invalidate :: "xxfs \<Rightarrow> u64 \<Rightarrow> xxfs" where
  "icache_invalidate fs hash =
     (case icache_lookup fs hash of
        None \<Rightarrow> fs
      | Some idx \<Rightarrow>
          (set_icache idx (clear_entry (icache fs (unat idx))) fs)\<lparr>icache_count := icache_count fs - 1\<rparr>)"

text \<open>Every dirty entry is stored in the index and becomes clean.\<close>

definition icache_flush_entry :: "xxfs \<Rightarrow> nat \<Rightarrow> xxfs option" where
  "icache_flush_entry fs i =
     (let e = icache fs i in
      if ic_ctrl e \<noteq> ICACHE_CTRL_EMPTY \<and> ic_ctrl e AND ICACHE_CTRL_VALID \<noteq> 0 \<and> ic_dirty e then
        do { (e, fs) \<leftarrow> icache_write_entry fs e;
             Some (fs\<lparr>icache := (icache fs)(i := e\<lparr>ic_dirty := False\<rparr>)\<rparr>) }
      else Some fs)"

primrec icache_flush_from :: "nat list \<Rightarrow> xxfs \<Rightarrow> xxfs option" where
  "icache_flush_from [] fs = Some fs"
| "icache_flush_from (i # is) fs = do { fs \<leftarrow> icache_flush_entry fs i; icache_flush_from is fs }"

definition icache_flush_all :: "xxfs \<Rightarrow> xxfs option" where
  "icache_flush_all fs = icache_flush_from [0..<unat (icache_cap fs)] fs"

section \<open>Put and lookup\<close>

text \<open>The \<open>n\<close>-th position of the probe sequence of a hash.\<close>

primrec probe_pos :: "xxfs \<Rightarrow> u32 \<Rightarrow> nat \<Rightarrow> u32" where
  "probe_pos fs idx 0 = idx"
| "probe_pos fs idx (Suc n) = probe_pos fs ((idx + 1) AND icache_mask fs) n"

definition taken :: "xxfs \<Rightarrow> u64 \<Rightarrow> u32 \<Rightarrow> bool" where
  "taken fs hash idx \<longleftrightarrow> ic_ctrl (icache fs (unat idx)) \<noteq> ICACHE_CTRL_EMPTY \<and> ic_hash (icache fs (unat idx)) \<noteq> hash"

text \<open>Position \<open>n\<close> is the first of the sequence that is empty or holds the hash.\<close>

definition first_usable :: "xxfs \<Rightarrow> u64 \<Rightarrow> u32 \<Rightarrow> nat \<Rightarrow> bool" where
  "first_usable fs hash idx n \<longleftrightarrow> \<not> taken fs hash (probe_pos fs idx n) \<and> (\<forall>m < n. taken fs hash (probe_pos fs idx m))"

text \<open>Entries in use carry the control byte of their hash.\<close>

definition icache_tagged :: "xxfs \<Rightarrow> bool" where
  "icache_tagged fs \<longleftrightarrow> (\<forall>i. ic_ctrl (icache fs i) \<noteq> ICACHE_CTRL_EMPTY \<longrightarrow> ic_ctrl (icache fs i) = icache_ctrl (ic_hash (icache fs i)))"

lemma icache_ctrl_not_empty: "icache_ctrl hash \<noteq> ICACHE_CTRL_EMPTY"
proof
  assume "icache_ctrl hash = ICACHE_CTRL_EMPTY"
  then have "bit (icache_ctrl hash) 7 = bit ICACHE_CTRL_EMPTY 7" by simp
  then show False by (simp add: icache_ctrl_def icache_consts bit_simps)
qed

lemma fs_alloc_fields:
  "icache (snd (fs_alloc fs)) = icache fs" "icache_mask (snd (fs_alloc fs)) = icache_mask fs"
  "icache_cap (snd (fs_alloc fs)) = icache_cap fs" "icache_count (snd (fs_alloc fs)) = icache_count fs"
  by (simp_all add: fs_alloc_def split: prod.split)

lemma first_usable_Suc:
  "first_usable fs hash idx (Suc n) \<longleftrightarrow> taken fs hash idx \<and> first_usable fs hash ((idx + 1) AND icache_mask fs) n"
  unfolding first_usable_def by (auto simp: less_Suc_eq_0_disj)

text \<open>The entry that a put leaves at position \<open>idx\<close>.\<close>

definition put_entry :: "xxfs \<Rightarrow> u64 \<Rightarrow> bytes \<Rightarrow> xxfs_inode \<Rightarrow> u32 \<Rightarrow> icache_entry" where
  "put_entry fs hash key ino idx =
     (let e = icache fs (unat idx) in
      if ic_ctrl e = ICACHE_CTRL_EMPTY
      then \<lparr>ic_hash = hash, ic_ctrl = icache_ctrl hash, ic_dirty = True,
            ic_key = (if fst (fs_alloc fs) then Some key else None), ic_inode = ino\<rparr>
      else e\<lparr>ic_dirty := True, ic_inode := ino\<rparr>)"

lemma icache_put_from_eq:
  assumes "first_usable fs hash idx n" and "n < k"
  shows "icache (icache_put_from k fs hash key ino idx) =
      (icache fs)(unat (probe_pos fs idx n) := put_entry fs hash key ino (probe_pos fs idx n)) \<and>
    icache_mask (icache_put_from k fs hash key ino idx) = icache_mask fs"
  using assms
proof (induction k arbitrary: idx n)
  case (Suc k)
  obtain ok g where a: "fs_alloc fs = (ok, g)" by fastforce
  have g: "icache g = icache fs" "icache_mask g = icache_mask fs" using fs_alloc_fields [of fs] a by simp_all
  show ?case
  proof (cases n)
    case 0
    then show ?thesis
      using Suc.prems(1) by (auto simp: first_usable_def taken_def set_icache_def Let_def a g put_entry_def)
  next
    case n: (Suc m)
    with Suc.prems have t: "taken fs hash idx" and f: "first_usable fs hash ((idx + 1) AND icache_mask fs) m"
      by (simp_all add: first_usable_Suc)
    then show ?thesis using Suc.IH [OF f] n Suc.prems(2) by (simp add: taken_def Let_def)
  qed
qed simp

lemma icache_probe_finds:
  assumes "\<forall>m < n. taken fs hash (probe_pos fs idx m)" and "n < k"
    and "ic_hash (icache fs (unat (probe_pos fs idx n))) = hash"
    and "ic_ctrl (icache fs (unat (probe_pos fs idx n))) = icache_ctrl hash"
  shows "icache_probe k fs hash idx = Some (probe_pos fs idx n)"
  using assms
proof (induction k arbitrary: idx n)
  case (Suc k)
  show ?case
  proof (cases n)
    case 0
    then show ?thesis using Suc.prems icache_ctrl_not_empty [of hash] by (simp add: Let_def)
  next
    case n: (Suc m)
    have "taken fs hash idx" using Suc.prems(1) n by force
    moreover have "icache_probe k fs hash ((idx + 1) AND icache_mask fs) = Some (probe_pos fs ((idx + 1) AND icache_mask fs) m)"
      using Suc.prems n by (intro Suc.IH) force+
    ultimately show ?thesis using n by (simp add: taken_def Let_def)
  qed
qed simp

lemma probe_pos_cong: "icache_mask fs' = icache_mask fs \<Longrightarrow> probe_pos fs' idx n = probe_pos fs idx n"
  by (induction n arbitrary: idx) simp_all

text \<open>An inode put into the cache is found again, with its contents and marked dirty, when one of
  the first sixteen positions of its probe sequence is empty or already holds the hash.\<close>

theorem icache_put_then_lookup:
  assumes "icache_tagged fs" and "icache_count fs < ICACHE_MAX_ENTRIES" and "icache_count fs * 2 < icache_cap fs"
    and "first_usable fs hash (icache_home fs hash) n" and "n < 16" and "n < unat (icache_cap fs)"
  shows "\<exists>fs' idx. icache_put fs hash key ino = Some fs' \<and> icache_lookup fs' hash = Some idx \<and>
    ic_inode (icache fs' (unat idx)) = ino \<and> ic_dirty (icache fs' (unat idx))"
proof -
  let ?home = "icache_home fs hash"
  let ?p = "probe_pos fs ?home n"
  define fs' where "fs' = icache_put_from (unat (icache_cap fs)) fs hash key ino ?home"
  define e where "e = put_entry fs hash key ino ?p"
  have nt: "icache fs' = (icache fs)(unat ?p := e)" and mask: "icache_mask fs' = icache_mask fs"
    using icache_put_from_eq [OF assms(4,6), of key ino] by (simp_all add: fs'_def e_def)
  have us: "\<not> taken fs hash ?p" "\<forall>m < n. taken fs hash (probe_pos fs ?home m)"
    using assms(4) by (auto simp: first_usable_def)
  have e: "ic_hash e = hash" "ic_inode e = ino" "ic_dirty e" and ctrl: "ic_ctrl e = icache_ctrl hash"
    using us(1) assms(1) by (auto simp: e_def put_entry_def taken_def icache_tagged_def Let_def)
  have pos: "probe_pos fs' ?home m = probe_pos fs ?home m" for m using mask by (rule probe_pos_cong)
  have "taken fs' hash (probe_pos fs' ?home m)" if "m < n" for m
    using us that unfolding pos taken_def nt by (cases "unat (probe_pos fs ?home m) = unat ?p") auto
  then have "icache_probe 16 fs' hash ?home = Some (probe_pos fs' ?home n)"
    using e(1) ctrl assms(5) by (intro icache_probe_finds) (simp_all add: pos nt)
  moreover have "icache_home fs' hash = ?home" by (simp add: icache_home_def mask)
  moreover have "icache_put fs hash key ino = Some fs'"
    using assms(2,3) by (simp add: icache_put_def icache_make_room_def fs'_def not_le [symmetric])
  ultimately show ?thesis
    using e by (auto simp: icache_lookup_def pos nt)
qed

theorem icache_put_then_lookup_witness:
  "\<exists>fs' idx. icache_put ((zero_xxfs blank_file)\<lparr>icache_cap := 4, icache_mask := 3\<rparr>) 7 [47] zero_inode = Some fs' \<and>
    icache_lookup fs' 7 = Some idx \<and> ic_inode (icache fs' (unat idx)) = zero_inode"
proof -
  let ?fs = "(zero_xxfs blank_file)\<lparr>icache_cap := 4, icache_mask := 3\<rparr>"
  have "icache_tagged ?fs" "first_usable ?fs 7 (icache_home ?fs 7) 0"
    by (simp_all add: icache_tagged_def first_usable_def taken_def zero_xxfs_def zero_icache_entry_def icache_consts)
  then show ?thesis
    using icache_put_then_lookup [of ?fs 7 0 "[47]" zero_inode] by (auto simp: zero_xxfs_def icache_consts)
qed

text \<open>C36: \<^verbatim>\<open>icache_del\<close> empties the slot of the deleted hash, which ends the probe sequence of every other
  hash that passed over it: an inode that was cached right behind it, possibly dirty, is not found any
  more although it is still in the table.\<close>

theorem icache_del_hides_follower:
  assumes "icache_tagged fs" and "h1 \<noteq> h2" and "icache_home fs h1 = i" and "icache_home fs h2 = i"
    and "j = (i + 1) AND icache_mask fs" and "i \<noteq> j"
    and "ic_ctrl (icache fs (unat i)) \<noteq> ICACHE_CTRL_EMPTY" and "ic_hash (icache fs (unat i)) = h1"
    and "ic_ctrl (icache fs (unat j)) \<noteq> ICACHE_CTRL_EMPTY" and "ic_hash (icache fs (unat j)) = h2"
  shows "icache_lookup fs h2 = Some j \<and> icache_lookup (icache_del fs h1) h2 = None \<and>
    icache (icache_del fs h1) (unat j) = icache fs (unat j)"
proof -
  have ctrl: "ic_ctrl (icache fs (unat i)) = icache_ctrl h1" "ic_ctrl (icache fs (unat j)) = icache_ctrl h2"
    using assms(1,7-10) by (auto simp: icache_tagged_def)
  have step: "icache_probe 16 fs h i = (if ic_ctrl (icache fs (unat i)) = ICACHE_CTRL_EMPTY then None
      else if ic_ctrl (icache fs (unat i)) = icache_ctrl h \<and> ic_hash (icache fs (unat i)) = h then Some i
      else icache_probe 15 fs h ((i + 1) AND icache_mask fs))" for fs h i
    using icache_probe.simps(2) [of 15 fs h i] by (simp add: Let_def)
  have step15: "icache_probe 15 fs h2 j = Some j"
    using icache_probe.simps(2) [of 14 fs h2 j] assms(9,10) ctrl by (simp add: Let_def)
  have l1: "icache_lookup fs h1 = Some i" and l2: "icache_lookup fs h2 = Some j"
    using assms ctrl step15 by (simp_all add: icache_lookup_def step)
  have "icache_home (icache_del fs h1) h2 = i" using assms(4) l1 by (simp add: icache_del_def set_icache_def icache_home_def)
  moreover have "ic_ctrl (icache (icache_del fs h1) (unat i)) = ICACHE_CTRL_EMPTY"
    using l1 by (simp add: icache_del_def set_icache_def clear_entry_def)
  ultimately have "icache_lookup (icache_del fs h1) h2 = None" by (simp add: icache_lookup_def step)
  moreover have "unat j \<noteq> unat i" using assms(6) by (simp add: word_unat_eq_iff)
  ultimately show ?thesis using l1 l2 by (simp add: icache_del_def set_icache_def)
qed

theorem icache_del_hides_follower_witness:
  "\<exists>fs. icache_lookup fs 6 = Some 3 \<and> icache_lookup (icache_del fs 2) 6 = None"
proof -
  let ?e = "\<lambda>h. zero_icache_entry\<lparr>ic_hash := h, ic_ctrl := icache_ctrl h\<rparr>"
  let ?fs = "(zero_xxfs blank_file)\<lparr>icache_cap := 4, icache_mask := 3,
      icache := (\<lambda>_. zero_icache_entry)(2 := ?e 2, 3 := ?e 6)\<rparr>"
  have "icache_tagged ?fs" by (simp add: icache_tagged_def zero_icache_entry_def icache_consts)
  then show ?thesis
    using icache_del_hides_follower [of ?fs 2 6 2 3] icache_ctrl_not_empty
    by (intro exI [of _ ?fs]) (simp add: icache_home_def)
qed

end
