(* ===== verification/Super.thy ===== *)
theory Super
  imports Index_Del Icache
begin

text \<open>
  The superblock and the life of a mounted image: \<^verbatim>\<open>pdir_write\<close>, \<^verbatim>\<open>super_write\<close>, \<^verbatim>\<open>super_read\<close>,
  \<^verbatim>\<open>xxfs_mmap_refresh\<close>, \<^verbatim>\<open>xxfs_mount\<close>, \<^verbatim>\<open>inode_paged_get\<close> and \<^verbatim>\<open>xxfs_mkfs\<close> of \<^verbatim>\<open>lib/xxfs.c\<close>. The table \<^verbatim>\<open>tbl\<close>, which
  mounting allocates and nothing else uses, is not part of the state.
\<close>

section \<open>The code\<close>

definition XXFS_MAGIC :: u32 where "XXFS_MAGIC = 0x58585346"
definition XXFS_VERSION :: u32 where "XXFS_VERSION = 3"
definition XXFS_BG_BLOCKS :: u64 where "XXFS_BG_BLOCKS = 8192"
definition XXFS_WAL_BLOCKS :: u64 where "XXFS_WAL_BLOCKS = 2048"
definition XXFS_PP_BLOCKS :: u64 where "XXFS_PP_BLOCKS = 512"
definition XXFS_FT_REG :: u16 where "XXFS_FT_REG = 1"
definition XXFS_FT_DIR :: u16 where "XXFS_FT_DIR = 2"
definition XXFS_FT_LNK :: u16 where "XXFS_FT_LNK = 3"

lemmas super_consts =
  XXFS_MAGIC_def XXFS_VERSION_def XXFS_BG_BLOCKS_def XXFS_WAL_BLOCKS_def XXFS_PP_BLOCKS_def

text \<open>Offsets of \<^verbatim>\<open>s_checksum\<close> and \<^verbatim>\<open>s_ecc\<close>.\<close>

definition SUPER_CRC_OFF :: nat where "SUPER_CRC_OFF = 208"
definition SUPER_ECC_OFF :: nat where "SUPER_ECC_OFF = 228"

definition super_crc :: "xxfs_super \<Rightarrow> u32" where
  "super_crc s = xxfs_os_crc32c (take SUPER_CRC_OFF (enc_super s))"

definition seal_super :: "xxfs_super \<Rightarrow> xxfs_super" where
  "seal_super s =
     (let s = s\<lparr>s_checksum := super_crc s\<rparr>
      in dec_super (xxfs_os_ecc_compute_into (enc_super s) SUPER_CRC_OFF SUPER_ECC_OFF))"

definition pdir_write :: "xxfs \<Rightarrow> xxfs" where
  "pdir_write fs =
     (let d = pdir fs; nbytes = d_dir_size d * 8 in
      if d_dir_size d = 0 then fs
      else
        case (if s_pdir_off (sb fs) = 0 then page_alloc_raw fs else (s_pdir_off (sb fs), fs)) of (off, fs) \<Rightarrow>
          if off = 0 then fs
          else
            let fs = fs\<lparr>sb := (sb fs)\<lparr>s_pdir_off := off\<rparr>\<rparr> in
            case (if nbytes > 4096 then page_alloc_raw fs else (off, fs)) of (off, fs) \<Rightarrow>
              if off = 0 then fs
              else
                let fs = fs\<lparr>sb := (sb fs)\<lparr>s_pdir_off := off\<rparr>\<rparr>;
                    fs = snd (fs_pwrite fs (take (unat nbytes) (enc_array (enc_le 8) (d_page_off d))) off)
                in fs\<lparr>sb := (sb fs)\<lparr>s_pdir_size := d_dir_size d, s_pdir_depth := d_global_depth d\<rparr>\<rparr>)"

definition super_write :: "xxfs \<Rightarrow> xxfs" where
  "super_write fs =
     (let fs = pdir_write fs; fs = fs\<lparr>sb := seal_super (sb fs)\<rparr>
      in snd (fs_pwrite fs (enc_super (sb fs)) 0))"

definition super_read :: "xxfs \<Rightarrow> rc \<times> xxfs" where
  "super_read fs =
     (let check_magic = (\<lambda>fs. if s_magic (sb fs) \<noteq> XXFS_MAGIC then (XXFS_EIO, fs) else (XXFS_OK, fs)) in
      case fs_pread fs 4096 0 of
        (None, fs) \<Rightarrow> (XXFS_EIO, fs)
      | (Some bs, fs) \<Rightarrow>
          let fs = fs\<lparr>sb := dec_super (into_buf bs (enc_super (sb fs)))\<rparr> in
          if length bs < 4096 then (XXFS_EIO, fs)
          else if super_crc (sb fs) = s_checksum (sb fs) then check_magic fs
          else
            case xxfs_os_ecc_correct (enc_super (sb fs)) SUPER_CRC_OFF SUPER_ECC_OFF of (rc, m) \<Rightarrow>
              let fs = fs\<lparr>sb := dec_super m\<rparr> in
              if rc = XXFS_ECC_CORRECTED \<and> super_crc (sb fs) = s_checksum (sb fs)
              then check_magic (snd (fs_pwrite fs (enc_super (sb fs)) 0))
              else (XXFS_EIO, fs))"

definition xxfs_mmap_refresh :: "xxfs \<Rightarrow> xxfs" where
  "xxfs_mmap_refresh fs =
     (case xxfs_os_file_size (img fs) of
        (None, f) \<Rightarrow> fs\<lparr>img := f\<rparr>
      | (Some need, f) \<Rightarrow>
          let fs = fs\<lparr>img := f\<rparr> in
          if need = 0 \<or> (case mmap_len fs of Some n \<Rightarrow> n \<ge> need | None \<Rightarrow> False) then fs
          else
            case xxfs_os_file_mmap (img fs) of (ok, f) \<Rightarrow>
              fs\<lparr>img := f, mmap_len := (if ok then Some need else None)\<rparr>)"

text \<open>The error of \<^verbatim>\<open>inode_verify_ecc\<close> is ignored.\<close>

definition inode_paged_get :: "xxfs \<Rightarrow> bytes \<Rightarrow> ((rc + xxfs_inode) \<times> xxfs) option" where
  "inode_paged_get fs key =
     do { (r, fs) \<leftarrow> paged_get fs key (of_nat INODE_SIZE);
          Some (case r of
                  Inl rc \<Rightarrow> (Inl rc, fs)
                | Inr val \<Rightarrow> (Inr (snd (inode_verify_ecc
                    (val_to_inode (into_buf val (fresh_buf (img fs) INODE_SIZE))))), fs)) }"

subsection \<open>Mounting\<close>

text \<open>The directory of an image without a stored one is rebuilt by scanning all blocks. The loop that
  doubles the directory does not look at the result, so it does not end when memory is short.\<close>

partial_function (option) grow_dir_to :: "u8 \<Rightarrow> xxfs \<Rightarrow> xxfs option" where
  "grow_dir_to needed fs =
     (if d_global_depth (pdir fs) < needed then grow_dir_to needed (snd (paged_dir_double fs)) else Some fs)"

definition scan_page :: "paged_page \<Rightarrow> u64 \<Rightarrow> xxfs \<Rightarrow> xxfs option" where
  "scan_page pg scan fs =
     (if 0 < pg_count pg \<and> unat (pg_count pg) \<le> PAGED_SLOTS_PER_PAGE then
        do { fs \<leftarrow> grow_dir_to (ucast (pg_local_depth pg)) fs;
             let d = pdir fs; di = unat (dir_index (ps_hash (pg_slots pg ! 0)) (d_global_depth d)) in
             if di < unat (d_dir_size d) \<and> d_page_off d ! di = - 1
             then Some (fs\<lparr>pdir := d\<lparr>d_page_off := (d_page_off d)[di := scan]\<rparr>\<rparr>)
             else Some fs }
      else Some fs)"

partial_function (option) scan_blocks :: "u64 \<Rightarrow> u64 \<Rightarrow> xxfs \<Rightarrow> xxfs option" where
  "scan_blocks fsize scan fs =
     (if scan + 4096 \<le> fsize then
        let buf = fresh_buf (img fs) 4096 in
        case fs_pread fs 4096 scan of
          (None, fs) \<Rightarrow> Some fs
        | (Some bs, fs) \<Rightarrow>
            Option.bind (scan_page (dec_page (into_buf bs buf)) scan fs) (scan_blocks fsize (scan + 4096))
      else Some fs)"

definition load_pdir :: "xxfs \<Rightarrow> xxfs option" where
  "load_pdir fs =
     (let s = sb fs; dsz = s_pdir_size s; nbytes = unat dsz * 8 in
      if s_pdir_off s \<noteq> 0 \<and> dsz > 0 then
        case fs_alloc fs of (ok, fs) \<Rightarrow>
          if \<not> ok then Some fs
          else
            case fs_pread fs nbytes (s_pdir_off s) of
              (None, fs) \<Rightarrow> Some fs
            | (Some bs, fs) \<Rightarrow>
                if bs = [] then Some fs
                else Some (fs\<lparr>pdir := \<lparr>d_page_off = dec_array 8 dec_le (unat dsz) (into_buf bs (zeros nbytes)),
                                         d_dir_size = dsz, d_global_depth = s_pdir_depth s\<rparr>\<rparr>)
      else
        case xxfs_os_file_size (img fs) of (r, f) \<Rightarrow>
          scan_blocks (case r of None \<Rightarrow> - 1 | Some n \<Rightarrow> of_nat n) (s_data_off s) (fs\<lparr>img := f\<rparr>))"

text \<open>The caches and tables of a mounted file system. The allocation of the one-entry directory is not
  checked, and the result of \<^verbatim>\<open>table_alloc\<close> is ignored.\<close>

definition mount_tables :: "xxfs \<Rightarrow> xxfs option" where
  "mount_tables fs =
     do { fs \<leftarrow> icache_init fs;
          (case table_alloc (tbl fs) 1024 (img fs) of (_, t, f) \<Rightarrow>
             case fs_alloc (fs\<lparr>tbl := t, img := f\<rparr>) of (ok, fs) \<Rightarrow>
               if \<not> ok then None
               else load_pdir (fs\<lparr>pdir := \<lparr>d_page_off = [- 1], d_dir_size = 1, d_global_depth = 0\<rparr>\<rparr>)) }"

text \<open>\<open>Inl\<close> is the result \<^verbatim>\<open>NULL\<close>, with the image as it is then.\<close>

definition xxfs_mount :: "os_file \<Rightarrow> u64 \<Rightarrow> (os_file + xxfs) option" where
  "xxfs_mount f flg =
     (case xxfs_os_alloc f of (ok, f) \<Rightarrow>
        if \<not> ok then Some (Inl f)
        else
          case xxfs_os_file_open f 0 of (ok, f) \<Rightarrow>
            if \<not> ok then Some (Inl f)
            else
              case super_read ((zero_xxfs f)\<lparr>flags := flg\<rparr>) of (rc, fs) \<Rightarrow>
                if rc \<noteq> XXFS_OK then Some (Inl (img fs))
                else map_option Inr (mount_tables
                  (xxfs_mmap_refresh (fs\<lparr>cow_gen := s_cow_generation (sb fs),
                                          wal_seq := s_wal_seq (sb fs), mounted := True\<rparr>))))"

subsection \<open>Making a file system\<close>

definition mkfs_super :: "u64 \<Rightarrow> u64 \<Rightarrow> xxfs_super" where
  "mkfs_super total_blocks now =
     (let bg_count = ucast ((total_blocks + XXFS_BG_BLOCKS - 1) div XXFS_BG_BLOCKS) :: u32;
          bg_desc_off = (1 + XXFS_WAL_BLOCKS + 2 * XXFS_PP_BLOCKS) * 4096
      in zero_super
       \<lparr>s_magic := XXFS_MAGIC, s_version := XXFS_VERSION, s_block_size := 4096, s_block_size_bits := 12,
        s_block_count := total_blocks, s_free_blocks := total_blocks - 4, s_inodes_count := 1,
        s_free_inodes := total_blocks div 4, s_root_ino := 1, s_cow_generation := 1,
        s_wal_off := 4096, s_wal_blocks := ucast XXFS_WAL_BLOCKS,
        s_pp_ping_off := (1 + XXFS_WAL_BLOCKS) * 4096, s_pp_pong_off := (1 + XXFS_WAL_BLOCKS + XXFS_PP_BLOCKS) * 4096,
        s_pp_blocks := ucast XXFS_PP_BLOCKS, s_bg_count := bg_count, s_bg_blocks := ucast XXFS_BG_BLOCKS,
        s_bg_desc_off := bg_desc_off,
        s_data_off := bg_desc_off + (ucast bg_count * 64 + 4096 - 1) div 4096 * 4096,
        s_mtime := now, s_wtime := now, s_state := 1\<rparr>)"

definition with_crc :: "xxfs_super \<Rightarrow> xxfs_super" where
  "with_crc s = s\<lparr>s_checksum := super_crc s\<rparr>"

definition mkfs_root :: "u64 \<Rightarrow> xxfs_inode" where
  "mkfs_root now = inode_set_checksum_ecc
     (zero_inode\<lparr>i_mode := 493, i_file_type := XXFS_FT_DIR, i_nlinks := 2, i_atime := now, i_mtime := now,
       i_ctime := now, i_btime := now, i_generation := 1, i_name := buf_put 0 [0x2F, 0] (i_name zero_inode)\<rparr>)"

definition mkfs_page :: "u64 \<Rightarrow> paged_page" where
  "mkfs_page rec_off = empty_page
     \<lparr>pg_count := 1,
      pg_slots := (pg_slots empty_page)[0 := empty_slot\<lparr>ps_hash := xxh64 [0x2F], ps_file_off := rec_off, ps_klen := 1,
        ps_vlen := of_nat INODE_SIZE, ps_key_prefix := buf_put 0 [0x2F] (ps_key_prefix empty_slot)\<rparr>]\<rparr>"

text \<open>The writes after the first superblock; their results are not checked.\<close>

definition mkfs_fill :: "os_file \<Rightarrow> xxfs_super \<Rightarrow> u64 \<Rightarrow> u64 \<Rightarrow> os_file" where
  "mkfs_fill f s total_blocks now =
     (let wr = (\<lambda>f bs off. snd (xxfs_os_file_pwrite f bs off));
          rec_off = s_data_off s; page_off = rec_off + 4096;
          pdir_off = (page_off + 4096 + 4096 - 1) AND NOT (4096 - 1);
          f = wr f (enc_le 4 (1 :: u32) @ enc_le 4 (of_nat INODE_SIZE :: u32)) rec_off;
          f = wr f [0x2F] (rec_off + 8);
          f = wr f (enc_inode (mkfs_root now)) (rec_off + 9);
          f = wr f (enc_page (mkfs_page rec_off)) page_off;
          f = wr f (enc_le 8 page_off) pdir_off;
          s = s\<lparr>s_pdir_off := pdir_off, s_pdir_size := 1, s_pdir_depth := 0,
                s_free_blocks := total_blocks -
                  ucast (ucast ((pdir_off + 4096 - s_data_off s) div 4096) :: u32) - 4\<rparr>;
          f = wr f (enc_super (with_crc s)) 0
      in snd (xxfs_os_file_sync f))"

definition xxfs_mkfs :: "os_file \<Rightarrow> u64 \<Rightarrow> bool \<Rightarrow> rc \<times> os_file" where
  "xxfs_mkfs f size_mb is_blkdev =
     (let fill = (\<lambda>f size_mb.
            let total = size_mb * 1024 * 1024 div 4096; total = (if total < 100 then 100 else total) in
            case xxfs_os_time f of (now, f) \<Rightarrow>
              let s = mkfs_super total now in
              case xxfs_os_file_pwrite f (enc_super (with_crc s)) 0 of (ok, f) \<Rightarrow>
                if \<not> ok then (XXFS_EIO, f) else (XXFS_OK, mkfs_fill f s total now))
      in
      if is_blkdev then
        case xxfs_os_file_open f 0 of (ok, f) \<Rightarrow>
          if \<not> ok then (XXFS_EIO, f)
          else
            case xxfs_os_file_size f of (r, f) \<Rightarrow>
              (case r of
                 None \<Rightarrow> (XXFS_EIO, f)
               | Some dev_size \<Rightarrow>
                   if dev_size = 0 then (XXFS_EIO, f)
                   else fill f (let mb = of_nat (dev_size div (1024 * 1024)) in if mb < 1 then 1 else mb))
      else if size_mb < 1 then (XXFS_EINVAL, f)
      else
        case xxfs_os_file_open f 3 of (ok, f) \<Rightarrow>
          if \<not> ok then (XXFS_EIO, f)
          else
            case (if sint (size_mb * 1024 * 1024) < 0 then (False, snd (os_call f))
                  else xxfs_os_file_truncate f (nat (sint (size_mb * 1024 * 1024)))) of (ok, f) \<Rightarrow>
              if \<not> ok then (XXFS_EIO, f) else fill f size_mb)"

section \<open>Sealing\<close>

lemma wf_zero_super [simp]: "wf_super zero_super"
  by (simp add: zero_super_def super_codec.wf_dec)

lemma take_super_checksum: "take SUPER_CRC_OFF (enc_super (s\<lparr>s_checksum := c\<rparr>)) = take SUPER_CRC_OFF (enc_super s)"
  by (simp add: enc_super_def SUPER_CRC_OFF_def)

lemma super_crc_with_crc: "super_crc (with_crc s) = s_checksum (with_crc s)"
  by (simp add: with_crc_def super_crc_def take_super_checksum)

lemma wf_super_fields [simp]:
  "wf_super (s\<lparr>s_checksum := c\<rparr>) = wf_super s" "wf_super (s\<lparr>s_pdir_off := o'\<rparr>) = wf_super s"
  "wf_super (s\<lparr>s_pdir_size := n, s_pdir_depth := d\<rparr>) = wf_super s"
  by (simp_all add: wf_super_def)

lemma dec_super_fld:
  assumes "length r = 4096" and "length m = 4096" and "\<And>a n. a + n \<le> 228 \<Longrightarrow> fld a n r = fld a n m"
  shows "s_checksum (dec_super r) = s_checksum (dec_super m)" "s_magic (dec_super r) = s_magic (dec_super m)"
    "s_pdir_off (dec_super r) = s_pdir_off (dec_super m)" "s_pdir_size (dec_super r) = s_pdir_size (dec_super m)"
    "s_pdir_depth (dec_super r) = s_pdir_depth (dec_super m)" "s_data_off (dec_super r) = s_data_off (dec_super m)" "s_block_count (dec_super r) = s_block_count (dec_super m)" "s_free_blocks (dec_super r) = s_free_blocks (dec_super m)" "s_inodes_count (dec_super r) = s_inodes_count (dec_super m)"
  using assms(3) by (simp_all add: dec_super_def)

lemma seal_super_props:
  assumes "wf_super s"
  shows "wf_super (seal_super s)" and "super_crc (seal_super s) = s_checksum (seal_super s)"
    and "s_magic (seal_super s) = s_magic s" and "s_pdir_off (seal_super s) = s_pdir_off s"
    and "s_pdir_size (seal_super s) = s_pdir_size s" and "s_pdir_depth (seal_super s) = s_pdir_depth s"
    and "s_data_off (seal_super s) = s_data_off s"
    and "s_block_count (seal_super s) = s_block_count s"
    and "s_free_blocks (seal_super s) = s_free_blocks s"
    and "s_inodes_count (seal_super s) = s_inodes_count s"
proof -
  let ?s = "s\<lparr>s_checksum := super_crc s\<rparr>"
  let ?m = "enc_super ?s"
  let ?r = "xxfs_os_ecc_compute_into ?m SUPER_CRC_OFF SUPER_ECC_OFF"
  have wf: "wf_super ?s" using assms by simp
  have m: "length ?m = 4096" "dec_super ?m = ?s"
    using super_codec.enc_length [OF wf] super_codec.dec_enc [OF wf] by auto
  have r: "length ?r = 4096" using m by (simp add: xxfs_os_ecc_compute_into_def foldl_length_update)
  have eq: "seal_super s = dec_super ?r" by (simp add: seal_super_def Let_def)
  have below: "fld a n ?r = fld a n ?m" if "a + n \<le> 228" for a n
    using that by (intro ecc_compute_into_below) (simp add: SUPER_ECC_OFF_def)
  note d = dec_super_fld [OF r m(1) below]
  show "wf_super (seal_super s)" using r by (simp add: eq super_codec.wf_dec)
  have "take SUPER_CRC_OFF ?r = take SUPER_CRC_OFF ?m"
    using below [of 0 SUPER_CRC_OFF] by (simp add: fld_def SUPER_CRC_OFF_def)
  then have "super_crc (seal_super s) = super_crc s"
    using r by (simp add: eq super_crc_def super_codec.enc_dec take_super_checksum)
  then show "super_crc (seal_super s) = s_checksum (seal_super s)" using d(1) m(2) by (simp add: eq)
  show "s_magic (seal_super s) = s_magic s" "s_pdir_off (seal_super s) = s_pdir_off s"
    "s_pdir_size (seal_super s) = s_pdir_size s" "s_pdir_depth (seal_super s) = s_pdir_depth s"
    "s_data_off (seal_super s) = s_data_off s" "s_block_count (seal_super s) = s_block_count s" "s_free_blocks (seal_super s) = s_free_blocks s" "s_inodes_count (seal_super s) = s_inodes_count s"
    using d m(2) by (simp_all add: eq)
qed

section \<open>Mounting an image\<close>

lemma super_read_ok:
  assumes "fault_free (img fs)" and "4096 \<le> isize fs" and "peek (img fs) 0 4096 = enc_super s" and "wf_super s"
    and "super_crc s = s_checksum s" and "s_magic s = XXFS_MAGIC" and "wf_super (sb fs)"
  shows "super_read fs = (XXFS_OK, (tick fs)\<lparr>sb := s\<rparr>)"
proof -
  have "fs_pread fs 4096 0 = (Some (enc_super s), tick fs)"
    using assms(1-3) by (simp add: fs_pread_ok s64_ok_def)
  moreover have "length (enc_super s) = 4096" "dec_super (enc_super s) = s"
    using assms(4) by (simp_all add: super_codec.enc_length super_codec.dec_enc)
  moreover have "length (enc_super (sb fs)) = 4096" using assms(7) by (rule super_codec.enc_length)
  ultimately show ?thesis
    using assms(5,6) by (simp add: super_read_def Let_def into_buf_full)
qed

text \<open>Only the number of calls changes when every call succeeds.\<close>

definition only_calls :: "os_file \<Rightarrow> os_file \<Rightarrow> bool" where
  "only_calls f g \<longleftrightarrow> (\<exists>n. g = f\<lparr>os_calls := n\<rparr>)"

lemma mmap_refresh_ok:
  assumes "fault_free (img fs)"
  shows "\<exists>f m. xxfs_mmap_refresh fs = fs\<lparr>img := f, mmap_len := m\<rparr> \<and> only_calls (img fs) f"
proof -
  have *: "fs\<lparr>img := f\<rparr> = fs\<lparr>img := f, mmap_len := mmap_len fs\<rparr>" for f by simp
  show ?thesis
    using assms by (auto simp: xxfs_mmap_refresh_def xxfs_os_file_size_def xxfs_os_file_mmap_def os_call_ok Let_def
        only_calls_def intro!: * split: option.split)
qed

lemma load_pdir_ok:
  assumes ff: "fault_free (img fs)" and s: "s_pdir_off (sb fs) \<noteq> 0" "s64_ok (s_pdir_off (sb fs)) 0"
      "0 < s_pdir_size (sb fs)"
    and sz: "unat (s_pdir_off (sb fs)) + 8 * unat (s_pdir_size (sb fs)) \<le> isize fs"
  shows "load_pdir fs = Some ((tick (tick fs))\<lparr>pdir :=
    \<lparr>d_page_off = dec_array 8 dec_le (unat (s_pdir_size (sb fs)))
        (peek (img fs) (unat (s_pdir_off (sb fs))) (8 * unat (s_pdir_size (sb fs)))),
     d_dir_size = s_pdir_size (sb fs), d_global_depth = s_pdir_depth (sb fs)\<rparr>\<rparr>)"
proof -
  let ?n = "unat (s_pdir_size (sb fs))"
  have pos: "0 < ?n" using s(3) by (simp add: word_less_nat_alt)
  have "fs_pread (tick fs) (?n * 8) (s_pdir_off (sb fs)) =
      (Some (peek (img fs) (unat (s_pdir_off (sb fs))) (8 * ?n)), tick (tick fs))"
    using ff s(2) sz by (simp add: fs_pread_ok mult.commute)
  moreover have "peek (img fs) (unat (s_pdir_off (sb fs))) (8 * ?n) \<noteq> []"
    using pos by (metis length_peek list.size(3) mult_is_0 neq0_conv zero_neq_numeral)
  ultimately show ?thesis
    using ff s(1,3) by (simp add: load_pdir_def Let_def fs_alloc_ok into_buf_full mult.commute)
qed

lemma table_alloc_ok:
  "fault_free f \<Longrightarrow> \<exists>t'. table_alloc t cap f = (XXFS_OK, t', f\<lparr>os_calls := Suc (Suc (os_calls f))\<rparr>)"
  by (simp add: table_alloc_def Let_def xxfs_os_alloc_def os_call_ok)

lemma mount_tables_ok:
  assumes ff: "fault_free (img k)" and pd: "s_pdir_off (sb k) \<noteq> 0" "s64_ok (s_pdir_off (sb k)) 0"
      "0 < s_pdir_size (sb k)"
      "unat (s_pdir_off (sb k)) + 8 * unat (s_pdir_size (sb k)) \<le> os_size (img k)"
  shows "\<exists>f t. mount_tables k = Some (k\<lparr>img := f, tbl := t, icache_cap := ICACHE_CAP_INIT, icache_mask := ICACHE_CAP_INIT - 1,
      icache_count := 0, icache_tick := 0, icache := (\<lambda>_. zero_icache_entry),
      pdir := \<lparr>d_page_off = dec_array 8 dec_le (unat (s_pdir_size (sb k)))
          (peek (img k) (unat (s_pdir_off (sb k))) (8 * unat (s_pdir_size (sb k)))),
        d_dir_size = s_pdir_size (sb k), d_global_depth = s_pdir_depth (sb k)\<rparr>\<rparr>) \<and> only_calls (img k) f"
proof -
  define k1 where "k1 = (tick k)\<lparr>icache_cap := ICACHE_CAP_INIT, icache_mask := ICACHE_CAP_INIT - 1,
      icache_count := 0, icache_tick := 0, icache := (\<lambda>_. zero_icache_entry)\<rparr>"
  have ic: "icache_init k = Some k1" using ff by (simp add: icache_init_def fs_alloc_ok k1_def)
  have ff1: "fault_free (img k1)" using ff by (simp add: k1_def)
  obtain t where ta: "table_alloc (tbl k1) 1024 (img k1) = (XXFS_OK, t, (img k1)\<lparr>os_calls := Suc (Suc (os_calls (img k1)))\<rparr>)"
    using table_alloc_ok [OF ff1] by blast
  define k2 where "k2 = k1\<lparr>tbl := t, img := (img k1)\<lparr>os_calls := Suc (Suc (os_calls (img k1)))\<rparr>\<rparr>"
  have al: "fs_alloc k2 = (True, tick k2)" using ff1 by (simp add: fs_alloc_ok k2_def)
  define q where "q = (tick k2)\<lparr>pdir := \<lparr>d_page_off = [- 1], d_dir_size = 1, d_global_depth = 0\<rparr>\<rparr>"
  have qf: "sb q = sb k" "only_calls (img k) (img q)" "fault_free (img q)" "os_size (img q) = os_size (img k)" "peek (img q) = peek (img k)"
    using ff by (auto simp: q_def k2_def k1_def only_calls_def)
  have "mount_tables k = load_pdir q"
    by (simp only: mount_tables_def ic ta al k2_def [symmetric] q_def Option.bind.simps prod.case not_True_eq_False if_False)
  also have "\<dots> = Some ((tick (tick q))\<lparr>pdir := \<lparr>d_page_off = dec_array 8 dec_le (unat (s_pdir_size (sb k)))
        (peek (img k) (unat (s_pdir_off (sb k))) (8 * unat (s_pdir_size (sb k)))),
      d_dir_size = s_pdir_size (sb k), d_global_depth = s_pdir_depth (sb k)\<rparr>\<rparr>)"
    using load_pdir_ok [of q] pd qf by simp
  finally show ?thesis
    using qf(2) by (intro exI [of _ "img (tick (tick q))"] exI [of _ t]) (auto simp: only_calls_def q_def k2_def k1_def)
qed

lemma mount_ok:
  assumes ff: "fault_free f" and sz: "4096 \<le> os_size f" and pk: "peek f 0 4096 = enc_super s" and wf: "wf_super s"
    and crc: "super_crc s = s_checksum s" and mg: "s_magic s = XXFS_MAGIC"
    and pd: "s_pdir_off s \<noteq> 0" "s64_ok (s_pdir_off s) 0" "0 < s_pdir_size s"
      "unat (s_pdir_off s) + 8 * unat (s_pdir_size s) \<le> os_size f"
  shows "\<exists>fs. xxfs_mount f flg = Some (Inr fs) \<and> sb fs = s \<and> only_calls f (img fs) \<and>
    pcache fs = (\<lambda>_. zero_paged_cache) \<and> flags fs = flg \<and> mounted fs \<and> icache fs = (\<lambda>_. zero_icache_entry) \<and>
    icache_cap fs = ICACHE_CAP_INIT \<and> icache_mask fs = ICACHE_CAP_INIT - 1 \<and> icache_count fs = 0 \<and>
    dcache fs = (\<lambda>_. zero_dir_cache_entry) \<and>
    pdir fs = \<lparr>d_page_off = dec_array 8 dec_le (unat (s_pdir_size s))
        (peek f (unat (s_pdir_off s)) (8 * unat (s_pdir_size s))),
      d_dir_size = s_pdir_size s, d_global_depth = s_pdir_depth s\<rparr>"
proof -
  define f2 where "f2 = f\<lparr>os_calls := Suc (Suc (os_calls f))\<rparr>"
  have a: "xxfs_os_alloc f = (True, f\<lparr>os_calls := Suc (os_calls f)\<rparr>)" using ff by (simp add: xxfs_os_alloc_def os_call_ok)
  have o: "xxfs_os_file_open (f\<lparr>os_calls := Suc (os_calls f)\<rparr>) 0 = (True, f2)"
    using ff by (simp add: xxfs_os_file_open_def os_call_ok f2_def)
  define g where "g = (zero_xxfs f2)\<lparr>flags := flg\<rparr>"
  have gi: "img g = f2" by (simp add: g_def zero_xxfs_def)
  have r: "super_read g = (XXFS_OK, (tick g)\<lparr>sb := s\<rparr>)"
    using ff sz pk by (intro super_read_ok [OF _ _ _ wf crc mg]) (simp_all add: gi f2_def g_def zero_xxfs_def)
  define h where "h = ((tick g)\<lparr>sb := s\<rparr>)\<lparr>cow_gen := s_cow_generation s, wal_seq := s_wal_seq s, mounted := True\<rparr>"
  have "fault_free (img h)" using ff by (simp add: h_def gi f2_def)
  then obtain f3 m where mm: "xxfs_mmap_refresh h = h\<lparr>img := f3, mmap_len := m\<rparr>" and oc: "only_calls (img h) f3"
    using mmap_refresh_ok by blast
  have oc3: "only_calls f f3" using oc by (auto simp: only_calls_def h_def gi f2_def)
  define k where "k = h\<lparr>img := f3, mmap_len := m\<rparr>"
  have kf: "sb k = s" "img k = f3" "fault_free f3" "os_size f3 = os_size f" "peek f3 = peek f"
    using oc3 ff by (auto simp: k_def h_def only_calls_def)
  obtain f' t where mt: "mount_tables k = Some (k\<lparr>img := f', tbl := t, icache_cap := ICACHE_CAP_INIT, icache_mask := ICACHE_CAP_INIT - 1,
      icache_count := 0, icache_tick := 0, icache := (\<lambda>_. zero_icache_entry),
      pdir := \<lparr>d_page_off = dec_array 8 dec_le (unat (s_pdir_size s)) (peek f (unat (s_pdir_off s)) (8 * unat (s_pdir_size s))),
        d_dir_size = s_pdir_size s, d_global_depth = s_pdir_depth s\<rparr>\<rparr>)" and oc': "only_calls f3 f'"
    using mount_tables_ok [of k] pd kf by auto
  have "xxfs_mount f flg = map_option Inr (mount_tables k)"
    unfolding xxfs_mount_def a prod.case o g_def [symmetric] r by (simp add: h_def [symmetric] mm k_def)
  moreover have "only_calls f f'" using oc3 oc' by (auto simp: only_calls_def)
  ultimately show ?thesis
    unfolding mt by (auto simp: k_def h_def g_def zero_xxfs_def)
qed

section \<open>Writing and mounting\<close>

lemma pdir_write_ok:
  assumes ff: "fault_free (img fs)" and d: "0 < d_dir_size (pdir fs)" "unat (d_dir_size (pdir fs)) = length (d_page_off (pdir fs))"
      "length (d_page_off (pdir fs)) \<le> 512"
    and o: "s_pdir_off (sb fs) \<noteq> 0" "s64_ok (s_pdir_off (sb fs)) 4096"
  shows "pdir_write fs = fs\<lparr>img := poke (img (tick fs)) (unat (s_pdir_off (sb fs))) (enc_array (enc_le 8) (d_page_off (pdir fs))),
    sb := (sb fs)\<lparr>s_pdir_size := d_dir_size (pdir fs), s_pdir_depth := d_global_depth (pdir fs)\<rparr>\<rparr>"
proof -
  let ?n = "length (d_page_off (pdir fs))" and ?b = "enc_array (enc_le 8) (d_page_off (pdir fs))"
  have u: "unat (d_dir_size (pdir fs) * 8) = ?n * 8" using d by (subst unat_mul_nowrap) simp_all
  have l: "length ?b = 8 * ?n" by (rule u64_codec.length_enc_array) simp
  have "\<not> d_dir_size (pdir fs) * 8 > 4096" using u d(3) by (simp add: word_less_nat_alt)
  moreover have "take (unat (d_dir_size (pdir fs) * 8)) ?b = ?b" using u l by simp
  moreover have "fs_pwrite fs ?b (s_pdir_off (sb fs)) = (True, fs\<lparr>img := poke (img (tick fs)) (unat (s_pdir_off (sb fs))) ?b\<rparr>)"
    using o(2) l d(3) by (simp add: fs_pwrite_ok [OF ff] s64_ok_def)
  moreover have "fs\<lparr>sb := (sb fs)\<lparr>s_pdir_off := s_pdir_off (sb fs)\<rparr>\<rparr> = fs" by simp
  moreover have "d_dir_size (pdir fs) \<noteq> 0" using d(1) by auto
  ultimately show ?thesis
    unfolding pdir_write_def Let_def using o(1) by (simp only: if_False prod.case snd_conv) simp
qed

text \<open>The image after \<^verbatim>\<open>super_write\<close>, and that it can be mounted again, also after calls that change nothing else.\<close>

lemma super_write_mounts:
  assumes ff0: "fault_free (img fs)" and wf: "wf_super (sb fs)" and mg: "s_magic (sb fs) = XXFS_MAGIC"
    and d: "0 < d_dir_size (pdir fs)" "unat (d_dir_size (pdir fs)) = length (d_page_off (pdir fs))" "length (d_page_off (pdir fs)) \<le> 512"
    and pd: "4096 \<le> unat (s_pdir_off (sb fs))" "s64_ok (s_pdir_off (sb fs)) 4096"
  obtains g t where "super_write fs = fs\<lparr>img := g, sb := t\<rparr>"
    and "g = poke ((\<lambda>f. f\<lparr>os_calls := Suc (os_calls f)\<rparr>) (poke (img (tick fs)) (unat (s_pdir_off (sb fs))) (enc_array (enc_le 8) (d_page_off (pdir fs))))) 0 (enc_super t)"
    and "length (enc_super t) = 4096" and "length (enc_array (enc_le 8) (d_page_off (pdir fs))) \<le> 4096"
    and "t = seal_super ((sb fs)\<lparr>s_pdir_size := d_dir_size (pdir fs), s_pdir_depth := d_global_depth (pdir fs)\<rparr>)"
    and "\<And>f. only_calls g f \<Longrightarrow> \<exists>fs'. xxfs_mount f flg = Some (Inr fs') \<and> sb fs' = t \<and> pdir fs' = pdir fs \<and> only_calls f (img fs') \<and>
      pcache fs' = (\<lambda>_. zero_paged_cache) \<and> flags fs' = flg \<and> mounted fs' \<and> icache fs' = (\<lambda>_. zero_icache_entry) \<and>
      icache_cap fs' = ICACHE_CAP_INIT \<and> icache_mask fs' = ICACHE_CAP_INIT - 1 \<and> icache_count fs' = 0 \<and>
      dcache fs' = (\<lambda>_. zero_dir_cache_entry)"
proof -
  let ?d = "d_page_off (pdir fs)" and ?o = "unat (s_pdir_off (sb fs))"
  let ?b = "enc_array (enc_le 8) ?d"
  have o: "s_pdir_off (sb fs) \<noteq> 0" using pd(1) by auto
  note pw = pdir_write_ok [OF ff0 d o pd(2)]
  define s where "s = (sb fs)\<lparr>s_pdir_size := d_dir_size (pdir fs), s_pdir_depth := d_global_depth (pdir fs)\<rparr>"
  define t where "t = seal_super s"
  have "wf_super s" using wf by (simp add: s_def)
  note t = seal_super_props [OF this, folded t_def]
  have tl: "length (enc_super t) = 4096" using t(1) by (rule super_codec.enc_length)
  define f where "f = poke (img (tick fs)) ?o ?b"
  have ff: "fault_free f" using ff0 by (simp add: f_def)
  define g where "g = poke (f\<lparr>os_calls := Suc (os_calls f)\<rparr>) 0 (enc_super t)"
  have bl: "length ?b = 8 * length ?d" by (rule u64_codec.length_enc_array) simp
  have h: "pdir_write fs = fs\<lparr>img := f, sb := s\<rparr>" by (simp only: pw f_def s_def)
  have "fs_pwrite (fs\<lparr>img := f, sb := t\<rparr>) (enc_super t) 0 = (True, fs\<lparr>img := g, sb := t\<rparr>)"
    using ff tl by (simp add: fs_pwrite_ok s64_ok_def g_def)
  then have sw: "super_write fs = fs\<lparr>img := g, sb := t\<rparr>"
    by (simp add: super_write_def Let_def h t_def)
  have ne: "enc_super t \<noteq> []" "?b \<noteq> []" using tl bl d(1,2) by (auto simp: word_less_nat_alt)
  have p0: "peek g 0 4096 = enc_super t" using tl by (simp add: g_def peek_poke_same)
  have p1: "peek g ?o (8 * length ?d) = ?b"
    using pd(1) tl bl by (simp add: g_def f_def peek_poke_other peek_poke_same)
  have sz: "4096 \<le> os_size g" "?o + 8 * length ?d \<le> os_size g"
    using ne tl bl by (simp_all add: g_def f_def poke_def)
  have da: "dec_array 8 dec_le (length ?d) ?b = ?d" by (rule u64_codec.array_dec_enc) simp_all
  have tf: "s_magic t = XXFS_MAGIC" "s_pdir_off t = s_pdir_off (sb fs)" "s_pdir_size t = d_dir_size (pdir fs)"
    "s_pdir_depth t = d_global_depth (pdir fs)"
    using t mg by (simp_all add: s_def)
  show thesis
  proof (rule that [OF sw _ tl])
    fix f' assume oc: "only_calls g f'"
    have pk: "peek f' = peek g" "os_size f' = os_size g" "fault_free f'" using oc ff by (auto simp: only_calls_def g_def)
    show "\<exists>fs'. xxfs_mount f' flg = Some (Inr fs') \<and> sb fs' = t \<and> pdir fs' = pdir fs \<and> only_calls f' (img fs') \<and>
      pcache fs' = (\<lambda>_. zero_paged_cache) \<and> flags fs' = flg \<and> mounted fs' \<and> icache fs' = (\<lambda>_. zero_icache_entry) \<and>
      icache_cap fs' = ICACHE_CAP_INIT \<and> icache_mask fs' = ICACHE_CAP_INIT - 1 \<and> icache_count fs' = 0 \<and>
      dcache fs' = (\<lambda>_. zero_dir_cache_entry)"
      using mount_ok [of f' t flg] pk sz p0 p1 t(1,2) o d pd(2) tf da by (auto simp: s64_ok_def)
  qed (simp_all add: g_def f_def s_def t_def, use bl d(3) in simp)
qed

text \<open>\<^verbatim>\<open>super_write\<close> followed by \<^verbatim>\<open>xxfs_mount\<close> is lossless: mounting the image succeeds, the superblock
  passes its checksum and is the one that was written, and the page directory is the one in memory at
  the time of the write.\<close>

theorem mount_after_super_write:
  assumes "fault_free (img fs)" and "wf_super (sb fs)" and "s_magic (sb fs) = XXFS_MAGIC"
    and "0 < d_dir_size (pdir fs)" and "unat (d_dir_size (pdir fs)) = length (d_page_off (pdir fs))"
    and "length (d_page_off (pdir fs)) \<le> 512"
    and "4096 \<le> unat (s_pdir_off (sb fs))" and "s64_ok (s_pdir_off (sb fs)) 4096"
  shows "\<exists>fs'. xxfs_mount (img (super_write fs)) flg = Some (Inr fs') \<and>
    sb fs' = sb (super_write fs) \<and> pdir fs' = pdir fs"
proof -
  obtain g t where w: "super_write fs = fs\<lparr>img := g, sb := t\<rparr>"
    and m: "\<And>f. only_calls g f \<Longrightarrow> \<exists>fs'. xxfs_mount f flg = Some (Inr fs') \<and> sb fs' = t \<and> pdir fs' = pdir fs"
    by (rule super_write_mounts [OF assms, of flg]) blast
  have "only_calls g g" unfolding only_calls_def by (rule exI [of _ "os_calls g"]) simp
  then show ?thesis using m [of g] w by simp
qed

definition super_sample :: xxfs where
  "super_sample = (zero_xxfs blank_file)\<lparr>sb := zero_super\<lparr>s_magic := XXFS_MAGIC, s_pdir_off := 8192\<rparr>,
     pdir := \<lparr>d_page_off = [- 1], d_dir_size = 1, d_global_depth = 0\<rparr>\<rparr>"

theorem mount_after_super_write_witness:
  "\<exists>fs'. xxfs_mount (img (super_write super_sample)) 0 = Some (Inr fs') \<and> pdir fs' = pdir super_sample"
proof -
  have "wf_super (sb super_sample)" using wf_zero_super by (simp add: super_sample_def wf_super_def)
  then show ?thesis
    using mount_after_super_write [of super_sample 0]
    by (auto simp: super_sample_def zero_xxfs_def s64_ok_def)
qed

end
