(* ===== verification/Dir_Cache.thy ===== *)
theory Dir_Cache
  imports Super
begin

text \<open>
  The cache of directory contents of \<^verbatim>\<open>lib/xxfs.c\<close>: 256 slots, selected by the hash of the directory's path,
  each with the array of children of one directory; \<^verbatim>\<open>dcache_flush_entry\<close>, \<^verbatim>\<open>dcache_find\<close>, \<^verbatim>\<open>dcache_alloc\<close>,
  \<^verbatim>\<open>dcache_flush_all\<close>, \<^verbatim>\<open>dir_add_child\<close>, \<^verbatim>\<open>dir_remove_child\<close>, and \<^verbatim>\<open>xxfs_readdir\<close>. A pointer to an entry is its
  index. \<open>None\<close> is undefined behaviour, as in the other theories.
\<close>

section \<open>The code\<close>

definition DIR_CACHE_SIZE :: nat where "DIR_CACHE_SIZE = 256"

definition dcache_idx :: "bytes \<Rightarrow> nat" where
  "dcache_idx path = unat (xxh64 path AND (of_nat DIR_CACHE_SIZE - 1))"

definition set_dcache :: "nat \<Rightarrow> dir_cache_entry \<Rightarrow> xxfs \<Rightarrow> xxfs" where
  "set_dcache i e fs = fs\<lparr>dcache := (dcache fs)(i := e)\<rparr>"

subsection \<open>Writing a directory back\<close>

text \<open>\<^verbatim>\<open>(new_bytes + XXFS_BLOCK_SIZE - 1) / XXFS_BLOCK_SIZE\<close>, cut to 32 bits.\<close>

definition blocks_for :: "u64 \<Rightarrow> u32" where
  "blocks_for nbytes = ucast ((nbytes + 4096 - 1) div 4096)"

text \<open>Where the children go: the inode with its new extent, or \<open>None\<close> when the entry stays dirty. One
  page is allocated whatever the number of blocks, and the write into an existing extent is not
  checked.\<close>

definition dir_store :: "xxfs \<Rightarrow> xxfs_dir_child list \<Rightarrow> xxfs_inode \<Rightarrow> xxfs_inode option \<times> xxfs" where
  "dir_store fs children dino =
     (if children = [] then
        (Some ((set_extent_len 0 (set_extent_off 0 dino))\<lparr>i_size := 0, i_blocks := 0\<rparr>), fs)
      else
        let new_bytes = of_nat (length children) * of_nat DIRENT_SIZE; new_blocks = blocks_for new_bytes;
            buf = enc_array enc_dirent children
        in
        if i_extent_off dino \<noteq> 0 \<and> i_blocks dino \<ge> ucast new_blocks then
          (Some (dino\<lparr>i_size := new_bytes\<rparr>), snd (fs_pwrite fs buf (i_extent_off dino)))
        else
          case page_alloc fs of (new_off, fs) \<Rightarrow>
            if new_off = 0 then (None, fs)
            else
              case fs_pwrite fs buf new_off of (ok, fs) \<Rightarrow>
                if \<not> ok then (None, fs)
                else (Some ((set_extent_len new_blocks (set_extent_off new_off dino))
                              \<lparr>i_blocks := ucast new_blocks, i_size := new_bytes\<rparr>), fs))"

text \<open>The inode of a path: from the inode cache, else from the index.\<close>

definition get_inode :: "xxfs \<Rightarrow> bytes \<Rightarrow> ((rc + xxfs_inode) \<times> xxfs) option" where
  "get_inode fs path =
     (case icache_lookup fs (xxh64 path) of
        Some idx \<Rightarrow> Some (Inr (ic_inode (icache fs (unat idx))), fs)
      | None \<Rightarrow> inode_paged_get fs path)"

definition dcache_flush_entry :: "xxfs \<Rightarrow> nat \<Rightarrow> xxfs option" where
  "dcache_flush_entry fs i =
     (let e = dcache fs i in
      if \<not> de_dirty e \<or> \<not> de_valid e then Some fs
      else
        do { (r, fs) \<leftarrow> get_inode fs (de_path e);
             (case r of
                Inl _ \<Rightarrow> Some fs
              | Inr dino \<Rightarrow>
                  (case dir_store fs (de_children e) dino of
                     (None, fs) \<Rightarrow> Some fs
                   | (Some dino, fs) \<Rightarrow>
                       case fs_time fs of (t, fs) \<Rightarrow>
                         let dino = inode_set_checksum_ecc (dino\<lparr>i_mtime := t, i_ctime := t\<rparr>) in
                         do { (rc, fs) \<leftarrow> paged_put fs (de_path e) (inode_to_val dino);
                              fs \<leftarrow> (if rc = XXFS_OK then icache_put fs (xxh64 (de_path e)) (de_path e) dino
                                     else Some fs);
                              Some (set_dcache i (e\<lparr>de_dirty := False\<rparr>) fs) })) })"

primrec dcache_flush_from :: "nat list \<Rightarrow> xxfs \<Rightarrow> xxfs option" where
  "dcache_flush_from [] fs = Some fs"
| "dcache_flush_from (i # is) fs =
     do { fs \<leftarrow> (if de_dirty (dcache fs i) then dcache_flush_entry fs i else Some fs); dcache_flush_from is fs }"

definition dcache_flush_all :: "xxfs \<Rightarrow> xxfs option" where
  "dcache_flush_all fs = dcache_flush_from [0..<DIR_CACHE_SIZE] fs"

subsection \<open>Slots\<close>

definition dcache_find :: "xxfs \<Rightarrow> bytes \<Rightarrow> nat option" where
  "dcache_find fs path =
     (let i = dcache_idx path; e = dcache fs i in
      if de_valid e \<and> de_path e = path then Some i else None)"

text \<open>The entry that was there is dropped even when flushing it failed.\<close>

definition dcache_alloc :: "xxfs \<Rightarrow> bytes \<Rightarrow> (nat \<times> xxfs) option" where
  "dcache_alloc fs path =
     (case dcache_find fs path of
        Some i \<Rightarrow> Some (i, fs)
      | None \<Rightarrow>
          let i = dcache_idx path; e = dcache fs i in
          do { fs \<leftarrow> (if de_valid e \<and> de_dirty e then dcache_flush_entry fs i else Some fs);
               Some (i, set_dcache i \<lparr>de_path = path, de_children = [], de_child_cap = 0,
                                      de_dirty = False, de_valid = True\<rparr> fs) })"

subsection \<open>Loading a directory\<close>

text \<open>The children in the extent of a directory inode. The result of the read is not checked: what
  was not read is whatever the fresh buffer held.\<close>

definition load_children :: "xxfs \<Rightarrow> nat \<Rightarrow> xxfs_inode \<Rightarrow> xxfs" where
  "load_children fs i dino =
     (if i_size dino > 0 \<and> i_extent_off dino \<noteq> 0 then
        let child_bytes = unat (i_size dino); cnt = ucast (i_size dino div of_nat DIRENT_SIZE) :: u32 in
        case fs_alloc fs of (ok, fs) \<Rightarrow>
          if \<not> ok then fs
          else
            let buf = fresh_buf (img fs) child_bytes in
            case fs_pread fs child_bytes (i_extent_off dino) of (r, fs) \<Rightarrow>
              let buf = (case r of Some bs \<Rightarrow> into_buf bs buf | None \<Rightarrow> buf) in
              set_dcache i ((dcache fs i)\<lparr>de_children := dec_array DIRENT_SIZE dec_dirent (unat cnt) buf,
                                         de_child_cap := cnt\<rparr>) fs
      else fs)"

text \<open>The common start of \<^verbatim>\<open>dir_add_child\<close> and \<^verbatim>\<open>dir_remove_child\<close>: the entry of the directory, loaded when it was
  not cached. When the inode is missing the empty entry stays in its slot.\<close>

definition dir_entry :: "xxfs \<Rightarrow> bytes \<Rightarrow> ((rc + nat) \<times> xxfs) option" where
  "dir_entry fs dir_path =
     (case dcache_find fs dir_path of
        Some i \<Rightarrow> Some (Inr i, fs)
      | None \<Rightarrow>
          do { (i, fs) \<leftarrow> dcache_alloc fs dir_path;
               (case icache_lookup fs (xxh64 dir_path) of
                  Some idx \<Rightarrow>
                    let dino = ic_inode (icache fs (unat idx)) in
                    if i_file_type dino = XXFS_FT_DIR then Some (Inr i, load_children fs i dino)
                    else do { (r, fs) \<leftarrow> inode_paged_get fs dir_path;
                              Some (case r of Inl _ \<Rightarrow> (Inl XXFS_ENOENT, fs)
                                            | Inr dino \<Rightarrow> (Inr i, load_children fs i dino)) }
                | None \<Rightarrow>
                    do { (r, fs) \<leftarrow> inode_paged_get fs dir_path;
                         Some (case r of Inl _ \<Rightarrow> (Inl XXFS_ENOENT, fs)
                                       | Inr dino \<Rightarrow> (Inr i, load_children fs i dino)) }) })"

subsection \<open>Adding and removing\<close>

definition new_child :: "bytes \<Rightarrow> u8 \<Rightarrow> xxfs_dir_child" where
  "new_child name typ =
     (let name = take XXFS_MAX_NAME name
      in \<lparr>dc_hash = xxh64 name, dc_name = buf_put 0 name (zeros (XXFS_MAX_NAME + 1)), dc_type = typ, dc_pad = zeros 7\<rparr>)"

definition dir_add_child :: "xxfs \<Rightarrow> bytes \<Rightarrow> bytes \<Rightarrow> u8 \<Rightarrow> (rc \<times> xxfs) option" where
  "dir_add_child fs dir_path name typ =
     do { (r, fs) \<leftarrow> dir_entry fs dir_path;
          (case r of
             Inl rc \<Rightarrow> Some (rc, fs)
           | Inr i \<Rightarrow>
               let e = dcache fs i; cap = de_child_cap e in
               case (if length (de_children e) \<ge> unat cap
                     then (case fs_alloc fs of (ok, fs) \<Rightarrow> (ok, if cap \<noteq> 0 then cap * 2 else 16, fs))
                     else (True, cap, fs)) of (ok, cap, fs) \<Rightarrow>
                 if \<not> ok then Some (XXFS_ENOMEM, fs)
                 else if length (de_children e) < unat cap
                 then Some (XXFS_OK, set_dcache i (e\<lparr>de_children := de_children e @ [new_child name typ],
                                                     de_child_cap := cap, de_dirty := True\<rparr>) fs)
                 else None) }"

text \<open>\<^verbatim>\<open>memcmp(dc_name, name, nlen + 1)\<close>, which for a very long name runs on into the rest of the struct.\<close>

definition child_is :: "bytes \<Rightarrow> xxfs_dir_child \<Rightarrow> bool" where
  "child_is name c \<longleftrightarrow> dc_hash c = xxh64 name \<and>
     take (length name + 1) (drop 8 (enc_dirent c)) = name @ [0]"

text \<open>The last child takes the place of the removed one.\<close>

definition drop_child :: "nat \<Rightarrow> xxfs_dir_child list \<Rightarrow> xxfs_dir_child list" where
  "drop_child i cs = butlast (if i < length cs - 1 then cs[i := last cs] else cs)"

definition dir_remove_child :: "xxfs \<Rightarrow> bytes \<Rightarrow> bytes \<Rightarrow> (rc \<times> xxfs) option" where
  "dir_remove_child fs dir_path name =
     do { (r, fs) \<leftarrow> dir_entry fs dir_path;
          Some (case r of
             Inl rc \<Rightarrow> (rc, fs)
           | Inr i \<Rightarrow>
               let e = dcache fs i in
               (case find (\<lambda>k. child_is name (de_children e ! k)) [0..<length (de_children e)] of
                  None \<Rightarrow> (XXFS_ENOENT, fs)
                | Some k \<Rightarrow> (XXFS_OK, set_dcache i (e\<lparr>de_children := drop_child k (de_children e),
                                                       de_dirty := True\<rparr>) fs))) }"

subsection \<open>Listing\<close>

record xxfs_readdir_ctx =
  rd_entries :: "xxfs_dir_child list option"
  rd_count :: u32
  rd_cap :: u32

definition no_entries :: xxfs_readdir_ctx where
  "no_entries = \<lparr>rd_entries = None, rd_count = 0, rd_cap = 0\<rparr>"

definition xxfs_readdir :: "xxfs \<Rightarrow> bytes \<Rightarrow> (rc \<times> xxfs_readdir_ctx \<times> xxfs) option" where
  "xxfs_readdir fs path =
     (let norm = path_normalize path in
      case dcache_find fs norm of
        Some i \<Rightarrow>
          (let cs = de_children (dcache fs i); n = of_nat (length cs) in
           if cs = [] then Some (XXFS_OK, no_entries, fs)
           else case fs_alloc fs of (ok, fs) \<Rightarrow>
             Some (if ok then (XXFS_OK, \<lparr>rd_entries = Some cs, rd_count = n, rd_cap = n\<rparr>, fs)
                   else (XXFS_ENOMEM, \<lparr>rd_entries = None, rd_count = n, rd_cap = n\<rparr>, fs)))
      | None \<Rightarrow>
          do { (r, fs) \<leftarrow> inode_paged_get fs norm;
               (case r of
                  Inl _ \<Rightarrow> Some (XXFS_ENOENT, no_entries, fs)
                | Inr ino \<Rightarrow>
                    if i_file_type ino \<noteq> XXFS_FT_DIR then Some (XXFS_ENOTDIR, no_entries, fs)
                    else if i_size ino = 0 \<or> i_extent_off ino = 0 then Some (XXFS_OK, no_entries, fs)
                    else
                      case fs_alloc fs of (ok, fs) \<Rightarrow>
                        if \<not> ok then Some (XXFS_ENOMEM, no_entries, fs)
                        else
                          let n = ucast (i_size ino div of_nat DIRENT_SIZE) :: u32;
                              buf = fresh_buf (img fs) (unat (i_size ino)) in
                          (case fs_pread fs (unat (i_size ino)) (i_extent_off ino) of
                             (None, fs) \<Rightarrow> Some (XXFS_EIO, no_entries, fs)
                           | (Some bs, fs) \<Rightarrow>
                               Some (XXFS_OK, \<lparr>rd_entries = Some (dec_array DIRENT_SIZE dec_dirent (unat n) (into_buf bs buf)),
                                               rd_count = n, rd_cap = n\<rparr>, fs))) })"

definition xxfs_readdir_free :: "xxfs_readdir_ctx \<Rightarrow> xxfs_readdir_ctx" where
  "xxfs_readdir_free ctx = no_entries"

end
