(* ===== verification/File_Ops.thy ===== *)
theory File_Ops
  imports Dir_Cache
begin

text \<open>
  The operations of the library on a mounted file system, \<^verbatim>\<open>lib/xxfs.c\<close> from \<^verbatim>\<open>xxfs_umount\<close> to \<^verbatim>\<open>xxfs_write_fd\<close> and
  \<^verbatim>\<open>xxfs_info\<close>. Each operation is one step on the state here; \<open>Fs_Lock\<close> has the lock around it and its steps. The handle and the path are values, so the guards against
  \<^verbatim>\<open>NULL\<close> arguments have no counterpart; a path is its characters without the terminating zero.
\<close>

section \<open>The code\<close>

definition XXFS_FLAG_SYNC :: u64 where "XXFS_FLAG_SYNC = 1"

subsection \<open>Creating and removing\<close>

text \<open>The name of a path in an inode, cut to 255 bytes.\<close>

definition put_name :: "bytes \<Rightarrow> bytes \<Rightarrow> bytes" where
  "put_name name old = buf_put 0 (take XXFS_MAX_NAME name) old"

definition new_inode :: "xxfs \<Rightarrow> u16 \<Rightarrow> u16 \<Rightarrow> u16 \<Rightarrow> u16 \<Rightarrow> u32 \<Rightarrow> bytes \<Rightarrow> xxfs_inode" where
  "new_inode fs mode uid gid typ nlinks name = inode_set_checksum_ecc
     (zero_inode\<lparr>i_mode := mode, i_uid := uid, i_gid := gid, i_file_type := typ, i_nlinks := nlinks,
        i_generation := cow_gen fs, i_name := put_name name (i_name zero_inode)\<rparr>)"

text \<open>Only the inode cache is asked whether the path exists. The result of \<^verbatim>\<open>dir_add_child\<close> is ignored.\<close>

definition xxfs_create :: "xxfs \<Rightarrow> bytes \<Rightarrow> u16 \<Rightarrow> u16 \<Rightarrow> u16 \<Rightarrow> (rc \<times> xxfs) option" where
  "xxfs_create fs path mode uid gid =
     (let norm = path_normalize path; h = xxh64 norm in
      case icache_lookup fs h of
        Some _ \<Rightarrow> Some (XXFS_EEXIST, fs)
      | None \<Rightarrow>
          let name = get_basename norm; ino = new_inode fs mode uid gid XXFS_FT_REG 1 name;
              parent = get_parent_path norm
          in do { (rc, fs) \<leftarrow> paged_insert fs norm (inode_to_val ino);
                  if rc = XXFS_OK then
                    do { fs \<leftarrow> icache_put fs h norm ino;
                         (_, fs) \<leftarrow> dir_add_child fs parent name (ucast XXFS_FT_REG);
                         Some (rc, fs\<lparr>sb := (sb fs)\<lparr>s_inodes_count := s_inodes_count (sb fs) + 1,
                                                  s_free_inodes := s_free_inodes (sb fs) - 1\<rparr>\<rparr>) }
                  else Some (rc, fs) })"

definition xxfs_mkdir :: "xxfs \<Rightarrow> bytes \<Rightarrow> u16 \<Rightarrow> u16 \<Rightarrow> u16 \<Rightarrow> (rc \<times> xxfs) option" where
  "xxfs_mkdir fs path mode uid gid =
     (let norm = path_normalize path; h = xxh64 norm in
      case icache_lookup fs h of
        Some _ \<Rightarrow> Some (XXFS_EEXIST, fs)
      | None \<Rightarrow>
          let name = get_basename norm; ino = new_inode fs mode uid gid XXFS_FT_DIR 2 name;
              parent = get_parent_path norm
          in do { (rc, fs) \<leftarrow> paged_insert fs norm (inode_to_val ino);
                  if rc = XXFS_OK then
                    do { fs \<leftarrow> icache_put fs h norm ino;
                         (_, fs) \<leftarrow> dir_add_child fs parent name (ucast XXFS_FT_DIR);
                         Some (rc, fs\<lparr>sb := (sb fs)\<lparr>s_inodes_count := s_inodes_count (sb fs) + 1\<rparr>\<rparr>) }
                  else Some (rc, fs) })"

text \<open>The inode of a path as \<^verbatim>\<open>xxfs_unlink\<close>, \<^verbatim>\<open>xxfs_rmdir\<close> and \<^verbatim>\<open>xxfs_read\<close> fetch it: one that had to come from the index
  is put into the cache.\<close>

definition fetch_inode :: "xxfs \<Rightarrow> bytes \<Rightarrow> ((rc + xxfs_inode) \<times> xxfs) option" where
  "fetch_inode fs norm =
     (case icache_lookup fs (xxh64 norm) of
        Some idx \<Rightarrow> Some (Inr (ic_inode (icache fs (unat idx))), fs)
      | None \<Rightarrow>
          do { (r, fs) \<leftarrow> inode_paged_get fs norm;
               (case r of
                  Inl rc \<Rightarrow> Some (Inl rc, fs)
                | Inr ino \<Rightarrow> do { fs \<leftarrow> icache_put fs (xxh64 norm) norm ino; Some (Inr ino, fs) }) })"

definition remove_path :: "xxfs \<Rightarrow> bytes \<Rightarrow> (rc \<times> xxfs) option" where
  "remove_path fs norm =
     do { (rc, fs) \<leftarrow> paged_del fs norm;
          if rc = XXFS_OK then
            do { (_, fs) \<leftarrow> dir_remove_child (icache_del fs (xxh64 norm)) (get_parent_path norm) (get_basename norm);
                 Some (rc, fs\<lparr>sb := (sb fs)\<lparr>s_inodes_count := s_inodes_count (sb fs) - 1\<rparr>\<rparr>) }
          else Some (rc, fs) }"

definition xxfs_unlink :: "xxfs \<Rightarrow> bytes \<Rightarrow> (rc \<times> xxfs) option" where
  "xxfs_unlink fs path =
     (let norm = path_normalize path in
      do { (r, fs) \<leftarrow> fetch_inode fs norm;
           (case r of
              Inl _ \<Rightarrow> Some (XXFS_ENOENT, fs)
            | Inr ino \<Rightarrow>
                if i_file_type ino = XXFS_FT_DIR then Some (XXFS_EISDIR, fs)
                else remove_path fs norm) })"

definition xxfs_rmdir :: "xxfs \<Rightarrow> bytes \<Rightarrow> (rc \<times> xxfs) option" where
  "xxfs_rmdir fs path =
     (let norm = path_normalize path in
      if norm = [0x2F] then Some (XXFS_EINVAL, fs)
      else
        do { (r, fs) \<leftarrow> fetch_inode fs norm;
             (case r of
                Inl _ \<Rightarrow> Some (XXFS_ENOENT, fs)
              | Inr ino \<Rightarrow>
                  if i_file_type ino \<noteq> XXFS_FT_DIR then Some (XXFS_ENOTDIR, fs)
                  else do { (rc, fs) \<leftarrow> remove_path fs norm;
                            Some (rc, if rc = XXFS_OK \<and> flags fs AND XXFS_FLAG_SYNC \<noteq> 0 then super_write fs else fs) }) })"

subsection \<open>Inodes\<close>

text \<open>\<open>Inl\<close> is the error code; \<open>Inr\<close> the inode, with \<^verbatim>\<open>XXFS_OK\<close>.\<close>

definition xxfs_stat :: "xxfs \<Rightarrow> bytes \<Rightarrow> ((rc + xxfs_inode) \<times> xxfs) option" where
  "xxfs_stat fs path = fetch_inode fs (path_normalize path)"

text \<open>The common shape of \<^verbatim>\<open>xxfs_chmod\<close>, \<^verbatim>\<open>xxfs_chown\<close> and \<^verbatim>\<open>xxfs_utime\<close>: the inode is read from the index, not from the
  inode cache.\<close>

definition change_inode :: "xxfs \<Rightarrow> bytes \<Rightarrow> (xxfs_inode \<Rightarrow> xxfs_inode) \<Rightarrow> (rc \<times> xxfs) option" where
  "change_inode fs path upd =
     (let norm = path_normalize path in
      do { (r, fs) \<leftarrow> inode_paged_get fs norm;
           (case r of
              Inl _ \<Rightarrow> Some (XXFS_ENOENT, fs)
            | Inr ino \<Rightarrow>
                case fs_time fs of (t, fs) \<Rightarrow>
                  let ino = inode_set_checksum_ecc ((upd ino)\<lparr>i_ctime := t\<rparr>) in
                  do { (rc, fs) \<leftarrow> paged_put fs norm (inode_to_val ino);
                       fs \<leftarrow> (if rc = XXFS_OK then icache_put fs (xxh64 norm) norm ino else Some fs);
                       Some (rc, fs) }) })"

definition xxfs_chmod :: "xxfs \<Rightarrow> bytes \<Rightarrow> u16 \<Rightarrow> (rc \<times> xxfs) option" where
  "xxfs_chmod fs path mode = change_inode fs path (\<lambda>ino. ino\<lparr>i_mode := mode\<rparr>)"

definition xxfs_chown :: "xxfs \<Rightarrow> bytes \<Rightarrow> u16 \<Rightarrow> u16 \<Rightarrow> (rc \<times> xxfs) option" where
  "xxfs_chown fs path uid gid = change_inode fs path (\<lambda>ino. ino\<lparr>i_uid := uid, i_gid := gid\<rparr>)"

definition xxfs_utime :: "xxfs \<Rightarrow> bytes \<Rightarrow> u64 \<Rightarrow> u64 \<Rightarrow> (rc \<times> xxfs) option" where
  "xxfs_utime fs path atime mtime = change_inode fs path (\<lambda>ino. ino\<lparr>i_atime := atime, i_mtime := mtime\<rparr>)"

definition xxfs_rename :: "xxfs \<Rightarrow> bytes \<Rightarrow> bytes \<Rightarrow> (rc \<times> xxfs) option" where
  "xxfs_rename fs old_path new_path =
     (let old_norm = path_normalize old_path; new_norm = path_normalize new_path;
          old_h = xxh64 old_norm; new_h = xxh64 new_norm in
      do { (r, fs) \<leftarrow> inode_paged_get fs old_norm;
           (case r of
              Inl _ \<Rightarrow> Some (XXFS_ENOENT, fs)
            | Inr ino \<Rightarrow>
                case fs_time fs of (t, fs) \<Rightarrow>
                  let name = take XXFS_MAX_NAME (get_basename new_norm);
                      ino = inode_set_checksum_ecc (ino\<lparr>i_ctime := t, i_name := buf_put 0 (name @ [0]) (i_name ino)\<rparr>)
                  in do { (_, fs) \<leftarrow> paged_del fs old_norm;
                          (rc, fs) \<leftarrow> paged_put (icache_del fs old_h) new_norm (inode_to_val ino);
                          if rc = XXFS_OK then do { fs \<leftarrow> icache_put fs new_h new_norm ino; Some (rc, fs) }
                          else do { (_, fs) \<leftarrow> paged_put fs old_norm (inode_to_val ino);
                                    fs \<leftarrow> icache_put fs old_h old_norm ino;
                                    Some (rc, fs) } }) })"

definition xxfs_symlink :: "xxfs \<Rightarrow> bytes \<Rightarrow> bytes \<Rightarrow> (rc \<times> xxfs) option" where
  "xxfs_symlink fs target linkpath =
     (let norm = path_normalize linkpath; h = xxh64 norm; tlen = of_nat (length target) :: u32 in
      if tlen > of_nat XXFS_INLINE_MAX then Some (XXFS_ENAMETOOLONG, fs)
      else
        do { (r, fs) \<leftarrow> fetch_inode fs norm;
             (case r of
                Inr _ \<Rightarrow> Some (XXFS_EEXIST, fs)
              | Inl _ \<Rightarrow>
                  case fs_time fs of (now, fs) \<Rightarrow>
                    let ino = inode_set_checksum_ecc
                          (zero_inode\<lparr>i_file_type := XXFS_FT_LNK, i_nlinks := 1, i_size := ucast tlen,
                             i_atime := now, i_mtime := now, i_ctime := now, i_btime := now,
                             i_inline := buf_put 0 (take (unat tlen) target) (i_inline zero_inode)\<rparr>)
                    in do { (rc, fs) \<leftarrow> paged_put fs norm (inode_to_val ino);
                            fs \<leftarrow> (if rc = XXFS_OK then icache_put fs h norm ino else Some fs);
                            Some (rc, fs) }) })"

text \<open>\<open>len\<close> is the size of the caller's buffer; a copy that leaves the inline area or the buffer is
  undefined.\<close>

definition xxfs_readlink :: "xxfs \<Rightarrow> bytes \<Rightarrow> u32 \<Rightarrow> ((rc + bytes) \<times> xxfs) option" where
  "xxfs_readlink fs path len =
     do { (r, fs) \<leftarrow> xxfs_stat fs path;
          (case r of
             Inl rc \<Rightarrow> Some (Inl rc, fs)
           | Inr ino \<Rightarrow>
               if i_file_type ino \<noteq> XXFS_FT_LNK then Some (Inl XXFS_EINVAL, fs)
               else
                 let n = ucast (i_size ino); n = (if n > len - 1 then len - 1 else n) in
                 if unat n \<le> XXFS_INLINE_MAX \<and> n < len then Some (Inr (take (unat n) (i_inline ino)), fs) else None) }"

definition xxfs_count :: "xxfs \<Rightarrow> u64" where
  "xxfs_count fs = s_inodes_count (sb fs)"

end
