(* ===== verification/File_Io.thy ===== *)
theory File_Io
  imports File_Ops
begin

text \<open>
  File contents: \<^verbatim>\<open>xxfs_write\<close> and \<^verbatim>\<open>xxfs_read\<close> by path, \<^verbatim>\<open>xxfs_open\<close>, \<^verbatim>\<open>xxfs_read_fd\<close>, \<^verbatim>\<open>xxfs_write_fd\<close> and \<^verbatim>\<open>xxfs_close\<close> by handle,
  and \<^verbatim>\<open>xxfs_sync\<close>, \<^verbatim>\<open>xxfs_umount\<close>, \<^verbatim>\<open>xxfs_info\<close>. A file of at most 128 bytes lives in its inode; a larger one in one extent, whose
  offset shares the bytes of the inline area.
\<close>

section \<open>The code\<close>

subsection \<open>Writing by path\<close>

text \<open>The first block of a file that was inline so far. \<open>Inl\<close> is the error return.\<close>

definition spill_inline :: "xxfs \<Rightarrow> xxfs_inode \<Rightarrow> (rc + xxfs_inode) \<times> xxfs" where
  "spill_inline fs ino =
     (if i_size ino > 0 \<and> i_blocks ino = 0 then
        let old_size = min (unat (i_size ino)) XXFS_INLINE_MAX in
        case page_alloc fs of (new_off, fs) \<Rightarrow>
          if new_off = 0 then (Inl XXFS_ENOSPC, fs)
          else
            case fs_pwrite fs (take old_size (i_inline ino)) new_off of (ok, fs) \<Rightarrow>
              if \<not> ok then (Inl XXFS_EIO, fs)
              else (Inr ((set_extent_len 1 (set_extent_off new_off ino))\<lparr>i_blocks := 1\<rparr>), fs)
      else (Inr ino, fs))"

text \<open>\<^verbatim>\<open>(end + XXFS_BLOCK_SIZE - 1) / XXFS_BLOCK_SIZE\<close>, in 64 bits.\<close>

definition need_blocks :: "u64 \<Rightarrow> u64" where
  "need_blocks end_off = (end_off + 4096 - 1) div 4096"

text \<open>Copying the old extent to the new one; no result is checked.\<close>

definition copy_extent :: "xxfs \<Rightarrow> nat \<Rightarrow> u64 \<Rightarrow> u64 \<Rightarrow> xxfs" where
  "copy_extent fs nbytes old_off new_off =
     (case fs_alloc fs of (ok, fs) \<Rightarrow>
        if \<not> ok then fs
        else
          let tmp = fresh_buf (img fs) nbytes in
          case fs_pread fs nbytes old_off of (r, fs) \<Rightarrow>
            let tmp = (case r of Some bs \<Rightarrow> into_buf bs tmp | None \<Rightarrow> tmp)
            in snd (fs_pwrite fs tmp new_off))"

text \<open>More blocks: allocated as a new extent, which replaces the old one also when it just follows it.\<close>

definition grow_extent :: "xxfs \<Rightarrow> xxfs_inode \<Rightarrow> u64 \<Rightarrow> (rc + xxfs_inode) \<times> xxfs" where
  "grow_extent fs ino need =
     (if need > i_blocks ino then
        case page_alloc_n fs (need - i_blocks ino) of (new_off, fs) \<Rightarrow>
          if new_off = 0 then (Inl XXFS_ENOSPC, fs)
          else
            let old = i_extent_off ino;
                fs = (if i_blocks ino > 0 \<and> old \<noteq> 0 \<and> new_off \<noteq> old + i_blocks ino * 4096
                      then copy_extent fs (unat (i_blocks ino * 4096)) old new_off else fs)
            in (Inr ((set_extent_len (ucast need) (set_extent_off new_off ino))\<lparr>i_blocks := need\<rparr>), fs)
      else (Inr ino, fs))"

text \<open>\<open>Inr\<close> is \<^verbatim>\<open>XXFS_OK\<close> with the number of bytes written. An end offset that wraps around past an inline size
  makes the copy leave the inode.\<close>

definition write_inode :: "xxfs \<Rightarrow> bytes \<Rightarrow> xxfs_inode \<Rightarrow> bytes \<Rightarrow> u64 \<Rightarrow> ((rc + u32) \<times> xxfs) option" where
  "write_inode fs norm ino buf off =
     (let h = xxh64 norm; len = of_nat (length buf) :: u32; end_off = off + ucast len;
          grown = (\<lambda>ino. ino\<lparr>i_size := (if end_off > i_size ino then end_off else i_size ino)\<rparr>) in
      if end_off \<le> of_nat XXFS_INLINE_MAX then
        if unat off + length buf \<le> XXFS_INLINE_MAX then
          do { fs \<leftarrow> icache_put fs h norm (grown (ino\<lparr>i_inline := buf_put (unat off) buf (i_inline ino)\<rparr>));
               Some (Inr len, fs) }
        else None
      else
        case spill_inline fs ino of
          (Inl rc, fs) \<Rightarrow> Some (Inl rc, fs)
        | (Inr ino, fs) \<Rightarrow>
            (case grow_extent fs ino (need_blocks end_off) of
               (Inl rc, fs) \<Rightarrow> Some (Inl rc, fs)
             | (Inr ino, fs) \<Rightarrow>
                 case fs_pwrite fs buf (i_extent_off ino + off) of (ok, fs) \<Rightarrow>
                   if \<not> ok then Some (Inl XXFS_EIO, fs)
                   else do { fs \<leftarrow> icache_put fs h norm (grown ino); Some (Inr len, fs) }))"

definition xxfs_write :: "xxfs \<Rightarrow> bytes \<Rightarrow> bytes \<Rightarrow> u64 \<Rightarrow> ((rc + u32) \<times> xxfs) option" where
  "xxfs_write fs path buf off =
     (if buf = [] then Some (Inl XXFS_EINVAL, fs)
      else
        let norm = path_normalize path in
        do { (r, fs) \<leftarrow> get_inode fs norm;
             (case r of
                Inl _ \<Rightarrow> Some (Inl XXFS_ENOENT, fs)
              | Inr ino \<Rightarrow>
                  if i_file_type ino = XXFS_FT_DIR then Some (Inl XXFS_EISDIR, fs)
                  else write_inode fs norm ino buf off) })"

subsection \<open>Reading by path\<close>

text \<open>\<open>buf\<close> is the caller's buffer before the call, and the second result the buffer after it; \<open>Inr n\<close> is \<^verbatim>\<open>XXFS_OK\<close>
  with \<^verbatim>\<open>*read_bytes = n\<close>.\<close>

definition read_inode :: "xxfs \<Rightarrow> xxfs_inode \<Rightarrow> bytes \<Rightarrow> u64 \<Rightarrow> ((rc + u32) \<times> bytes \<times> xxfs) option" where
  "read_inode fs ino buf off =
     (if off \<ge> i_size ino then Some (Inr 0, buf, fs)
      else
        let avail = i_size ino - off; len = of_nat (length buf) :: u32;
            len = (if ucast len > avail then ucast avail else len)
        in
        if i_size ino \<le> of_nat XXFS_INLINE_MAX \<and> i_blocks ino = 0 then
          Some (Inr len, into_buf (fld (unat off) (unat len) (i_inline ino)) buf, fs)
        else if i_extent_off ino \<noteq> 0 \<and> i_blocks ino > 0 then
          (case fs_pread fs (unat len) (i_extent_off ino + off) of
             (None, fs) \<Rightarrow> Some (Inl XXFS_EIO, buf, fs)
           | (Some bs, fs) \<Rightarrow> Some (Inr len, into_buf bs buf, fs))
        else Some (Inl XXFS_EIO, buf, fs))"

definition xxfs_read :: "xxfs \<Rightarrow> bytes \<Rightarrow> bytes \<Rightarrow> u64 \<Rightarrow> ((rc + u32) \<times> bytes \<times> xxfs) option" where
  "xxfs_read fs path buf off =
     (if buf = [] then Some (Inl XXFS_EINVAL, buf, fs)
      else
        do { (r, fs) \<leftarrow> fetch_inode fs (path_normalize path);
             (case r of
                Inl _ \<Rightarrow> Some (Inl XXFS_ENOENT, buf, fs)
              | Inr ino \<Rightarrow> read_inode fs ino buf off) })"

subsection \<open>File handles\<close>

record xxfs_file =
  xf_hash :: u64
  xf_extent_off :: u64
  xf_size :: u64
  xf_blocks :: u64
  xf_path :: bytes
  xf_flags :: u32

definition xxfs_open :: "xxfs \<Rightarrow> bytes \<Rightarrow> u32 \<Rightarrow> ((rc + xxfs_file) \<times> xxfs) option" where
  "xxfs_open fs path flg =
     (let norm = path_normalize path in
      do { (r, fs) \<leftarrow> get_inode fs norm;
           Some (case r of
              Inl _ \<Rightarrow> (Inl XXFS_ENOENT, fs)
            | Inr ino \<Rightarrow>
                if i_file_type ino = XXFS_FT_DIR then (Inl XXFS_EISDIR, fs)
                else
                  case fs_alloc fs of (ok, fs) \<Rightarrow>
                    if \<not> ok then (Inl XXFS_ENOMEM, fs)
                    else (Inr \<lparr>xf_hash = xxh64 norm, xf_extent_off = i_extent_off ino, xf_size = i_size ino,
                               xf_blocks = i_blocks ino, xf_path = norm, xf_flags = flg\<rparr>, fs)) })"

text \<open>The size and the number of blocks of the handle go into the cached inode; the offset of the extent
  does not. An inode that is not cached is left alone.\<close>

definition xxfs_close :: "xxfs \<Rightarrow> xxfs_file \<Rightarrow> (rc \<times> xxfs) option" where
  "xxfs_close fs fp =
     (case icache_lookup fs (xf_hash fp) of
        None \<Rightarrow> Some (XXFS_OK, fs)
      | Some idx \<Rightarrow>
          case fs_time fs of (t, fs) \<Rightarrow>
            let e = icache fs (unat idx);
                ino = inode_set_checksum_ecc ((ic_inode e)\<lparr>i_size := xf_size fp, i_blocks := xf_blocks fp,
                  i_mtime := t, i_ctime := t\<rparr>);
                fs = set_icache idx (e\<lparr>ic_inode := ino\<rparr>) fs
            in do { (_, fs) \<leftarrow> paged_put fs (xf_path fp) (inode_to_val ino); Some (XXFS_OK, fs) })"

text \<open>\<open>Inr n\<close> is the result \<open>n\<close>, \<open>Inl\<close> a negative error code.\<close>

definition xxfs_read_fd :: "xxfs \<Rightarrow> xxfs_file \<Rightarrow> bytes \<Rightarrow> u64 \<Rightarrow> ((rc + nat) \<times> bytes \<times> xxfs)" where
  "xxfs_read_fd fs fp buf off =
     (if buf = [] then (Inl XXFS_EINVAL, buf, fs)
      else if off \<ge> xf_size fp then (Inr 0, zeros (length buf), fs)
      else
        let count = min (length buf) (unat (xf_size fp - off)) in
        case fs_pread fs count (xf_extent_off fp + off) of
          (None, fs) \<Rightarrow> (Inl XXFS_EIO, buf, fs)
        | (Some bs, fs) \<Rightarrow> (Inr count, into_buf bs buf, fs))"

definition fd_blocks :: "xxfs \<Rightarrow> xxfs_file \<Rightarrow> u64 \<Rightarrow> (rc + xxfs_file) \<times> xxfs" where
  "fd_blocks fs fp end_off =
     (let need = need_blocks end_off in
      if end_off > of_nat XXFS_INLINE_MAX \<and> xf_blocks fp = 0 then
        case page_alloc_n fs need of (new_off, fs) \<Rightarrow>
          if new_off = 0 then (Inl XXFS_ENOSPC, fs)
          else (Inr (fp\<lparr>xf_extent_off := new_off, xf_blocks := need\<rparr>), fs)
      else if end_off > xf_blocks fp * 4096 then
        case page_alloc_n fs (need - xf_blocks fp) of (new_off, fs) \<Rightarrow>
          if new_off = 0 then (Inl XXFS_ENOSPC, fs)
          else
            let old = xf_extent_off fp;
                fs = (if xf_blocks fp > 0 \<and> old \<noteq> 0 \<and> new_off \<noteq> old + xf_blocks fp * 4096
                      then copy_extent fs (unat (xf_blocks fp * 4096)) old new_off else fs)
            in (Inr (fp\<lparr>xf_extent_off := new_off, xf_blocks := need\<rparr>), fs)
      else (Inr fp, fs))"

text \<open>The handle is updated in place, also when the write fails.\<close>

definition xxfs_write_fd :: "xxfs \<Rightarrow> xxfs_file \<Rightarrow> bytes \<Rightarrow> u64 \<Rightarrow> (rc + nat) \<times> xxfs_file \<times> xxfs" where
  "xxfs_write_fd fs fp buf off =
     (if buf = [] then (Inl XXFS_EINVAL, fp, fs)
      else
        let end_off = off + of_nat (length buf) in
        case fd_blocks fs fp end_off of
          (Inl rc, fs) \<Rightarrow> (Inl rc, fp, fs)
        | (Inr fp, fs) \<Rightarrow>
            case fs_pwrite fs buf (xf_extent_off fp + off) of (ok, fs) \<Rightarrow>
              if \<not> ok then (Inl XXFS_EIO, fp, fs)
              else (Inr (length buf), fp\<lparr>xf_size := (if end_off > xf_size fp then end_off else xf_size fp)\<rparr>, fs))"

subsection \<open>Durability\<close>

definition xxfs_sync :: "xxfs \<Rightarrow> (rc \<times> xxfs) option" where
  "xxfs_sync fs =
     do { fs \<leftarrow> icache_flush_all fs;
          fs \<leftarrow> dcache_flush_all fs;
          let fs = super_write (pcache_flush_all fs);
              fs = fs\<lparr>img := snd (xxfs_os_file_sync (img fs))\<rparr>
          in Some (XXFS_OK, xxfs_mmap_refresh fs) }"

text \<open>The result of \<^verbatim>\<open>fsync\<close> is passed on.\<close>

definition xxfs_sync_file :: "xxfs \<Rightarrow> bool \<times> xxfs" where
  "xxfs_sync_file fs = (case xxfs_os_file_sync (img fs) of (ok, f) \<Rightarrow> (ok, fs\<lparr>img := f\<rparr>))"

text \<open>What is left of an unmounted file system is its image. The inode cache is not flushed.\<close>

definition xxfs_umount :: "xxfs \<Rightarrow> os_file option" where
  "xxfs_umount fs =
     do { fs \<leftarrow> dcache_flush_all fs;
          let fs = super_write (pcache_flush_all fs);
              fs = fs\<lparr>img := snd (xxfs_os_file_sync (img fs))\<rparr>;
              fs = fs\<lparr>pcache := (\<lambda>_. zero_paged_cache), dcache := (\<lambda>_. zero_dir_cache_entry), tbl := table_destroy (tbl fs)\<rparr>
          in Some (img (icache_destroy fs)) }"

subsection \<open>Information\<close>

record xxfs_fs_info =
  fi_version :: u32
  fi_block_size :: u32
  fi_block_count :: u64
  fi_free_blocks :: u64
  fi_inodes_count :: u64
  fi_cow_generation :: u64

definition xxfs_info :: "xxfs \<Rightarrow> xxfs_fs_info" where
  "xxfs_info fs =
     \<lparr>fi_version = s_version (sb fs), fi_block_size = s_block_size (sb fs), fi_block_count = s_block_count (sb fs),
      fi_free_blocks = s_free_blocks (sb fs), fi_inodes_count = s_inodes_count (sb fs),
      fi_cow_generation = s_cow_generation (sb fs)\<rparr>"

subsection \<open>Announced operations\<close>

text \<open>Defragmentation, snapshots and the repair of parity groups are part of the interface; each ignores its arguments and reports success.\<close>

definition xxfs_defrag_file :: "xxfs \<Rightarrow> bytes \<Rightarrow> rc \<times> xxfs" where
  "xxfs_defrag_file fs path = (XXFS_OK, fs)"

definition xxfs_defrag_all :: "xxfs \<Rightarrow> rc \<times> xxfs" where
  "xxfs_defrag_all fs = (XXFS_OK, fs)"

definition xxfs_defrag_index :: "xxfs \<Rightarrow> rc \<times> xxfs" where
  "xxfs_defrag_index fs = (XXFS_OK, fs)"

definition xxfs_snapshot_create :: "xxfs \<Rightarrow> bytes \<Rightarrow> rc \<times> xxfs" where
  "xxfs_snapshot_create fs name = (XXFS_OK, fs)"

definition xxfs_snapshot_rollback :: "xxfs \<Rightarrow> bytes \<Rightarrow> rc \<times> xxfs" where
  "xxfs_snapshot_rollback fs name = (XXFS_OK, fs)"

definition xxfs_lrc_verify :: "xxfs \<Rightarrow> u32 \<Rightarrow> rc \<times> xxfs" where
  "xxfs_lrc_verify fs group_id = (XXFS_OK, fs)"

definition xxfs_lrc_repair :: "xxfs \<Rightarrow> u32 \<Rightarrow> u32 \<Rightarrow> rc \<times> xxfs" where
  "xxfs_lrc_repair fs group_id index = (XXFS_OK, fs)"

end
