(* ===== verification/Tool_Text.thy ===== *)
theory Tool_Text
  imports File_Io
begin

text \<open>
  What the command-line tools use of the C library: strings in buffers, \<^verbatim>\<open>printf\<close> conversions and number parsing. A
  C string is the list of its bytes before the terminating zero; the text a tool prints is the list of the bytes.
\<close>

section \<open>Strings\<close>

definition str :: "string \<Rightarrow> bytes" where
  "str s = map of_char s"

definition NL :: bytes where "NL = [0x0A]"

text \<open>The string in a buffer.\<close>

definition cstr :: "bytes \<Rightarrow> bytes" where
  "cstr buf = takeWhile (\<lambda>b. b \<noteq> 0) buf"

text \<open>\<^verbatim>\<open>snprintf(buf, n, ...)\<close> into a buffer of \<open>n\<close> bytes.\<close>

definition snprintf :: "nat \<Rightarrow> bytes \<Rightarrow> bytes" where
  "snprintf n s = take (n - 1) s"

text \<open>\<^verbatim>\<open>strchr\<close>: the text before the first \<open>c\<close> and the text behind it.\<close>

definition strchr :: "bytes \<Rightarrow> u8 \<Rightarrow> (bytes \<times> bytes) option" where
  "strchr s c = (if c \<in> set s then Some (takeWhile (\<lambda>b. b \<noteq> c) s, tl (dropWhile (\<lambda>b. b \<noteq> c) s)) else None)"

section \<open>Numbers\<close>

definition digit :: "nat \<Rightarrow> u8" where
  "digit d = (if d < 10 then of_nat (48 + d) else of_nat (87 + d))"

fun fmt_nat :: "nat \<Rightarrow> nat \<Rightarrow> bytes" where
  "fmt_nat b n = (if b < 2 \<or> n < b then [digit n] else fmt_nat b (n div b) @ [digit (n mod b)])"

declare fmt_nat.simps [simp del]

text \<open>\<^verbatim>\<open>%u\<close>, \<^verbatim>\<open>%lu\<close>; \<^verbatim>\<open>%o\<close>; \<^verbatim>\<open>%08x\<close>; \<^verbatim>\<open>%d\<close>.\<close>

definition fmt_u :: "'a::len word \<Rightarrow> bytes" where
  "fmt_u w = fmt_nat 10 (unat w)"

definition fmt_o :: "u16 \<Rightarrow> bytes" where
  "fmt_o w = fmt_nat 8 (unat w)"

definition fmt_x8 :: "u32 \<Rightarrow> bytes" where
  "fmt_x8 w = (let ds = fmt_nat 16 (unat w) in replicate (8 - length ds) 0x30 @ ds)"

definition fmt_d :: "int \<Rightarrow> bytes" where
  "fmt_d i = (if i < 0 then 0x2D # fmt_nat 10 (nat (- i)) else fmt_nat 10 (nat i))"

text \<open>The return codes as the integers they are.\<close>

fun rc_int :: "rc \<Rightarrow> int" where
  "rc_int XXFS_OK = 0"
| "rc_int XXFS_ENOENT = - 2"
| "rc_int XXFS_EEXIST = - 17"
| "rc_int XXFS_ENOMEM = - 12"
| "rc_int XXFS_ENOSPC = - 28"
| "rc_int XXFS_EIO = - 5"
| "rc_int XXFS_EINVAL = - 22"
| "rc_int XXFS_ENOTDIR = - 20"
| "rc_int XXFS_EISDIR = - 21"
| "rc_int XXFS_ENOTEMPTY = - 39"
| "rc_int XXFS_EACCES = - 13"
| "rc_int XXFS_ENAMETOOLONG = - 36"

abbreviation fmt_rc :: "rc \<Rightarrow> bytes" where
  "fmt_rc rc \<equiv> fmt_d (rc_int rc)"

text \<open>\<^verbatim>\<open>strtol\<close> and \<^verbatim>\<open>atol\<close>: leading white space, a sign, then digits of the base up to the first other character. The value
  of a \<^verbatim>\<open>long\<close> saturates.\<close>

definition is_space :: "u8 \<Rightarrow> bool" where
  "is_space c \<longleftrightarrow> c = 0x20 \<or> (0x09 \<le> c \<and> c \<le> 0x0D)"

fun digits_value :: "nat \<Rightarrow> nat \<Rightarrow> bytes \<Rightarrow> nat" where
  "digits_value b acc [] = acc"
| "digits_value b acc (c # s) = (if 0x30 \<le> c \<and> unat c < 48 + b then digits_value b (acc * b + (unat c - 48)) s else acc)"

definition strtol :: "nat \<Rightarrow> bytes \<Rightarrow> int" where
  "strtol b s =
     (let s = dropWhile is_space s;
          neg = s \<noteq> [] \<and> hd s = 0x2D;
          s = (if s \<noteq> [] \<and> (hd s = 0x2D \<or> hd s = 0x2B) then tl s else s);
          v = int (digits_value b 0 s); v = (if neg then - v else v)
      in max (- (2 ^ 63)) (min (2 ^ 63 - 1) v))"

section \<open>Lemmas\<close>

lemma fmt_nat_ne [simp]: "fmt_nat b n \<noteq> []"
  by (subst fmt_nat.simps) simp

lemma digits_value_append:
  "\<forall>c \<in> set s. 0x30 \<le> c \<and> unat c < 48 + b \<Longrightarrow> digits_value b acc (s @ t) = digits_value b (digits_value b acc s) t"
  by (induction s arbitrary: acc) auto

lemma digit_ok: "d < b \<Longrightarrow> b \<le> 10 \<Longrightarrow> 0x30 \<le> digit d \<and> unat (digit d) = 48 + d"
  by (simp add: digit_def unat_of_nat word_le_nat_alt del: of_nat_add)

text \<open>Reading back a printed number.\<close>

lemma digits_of_fmt:
  assumes "2 \<le> b" and "b \<le> 10"
  shows "(\<forall>c \<in> set (fmt_nat b n). 0x30 \<le> c \<and> unat c < 48 + b) \<and> digits_value b 0 (fmt_nat b n) = n"
proof (induction n rule: less_induct)
  case (less n)
  show ?case
  proof (cases "n < b")
    case True
    then show ?thesis using digit_ok [OF True assms(2)] by (simp add: fmt_nat.simps [of b n])
  next
    case False
    note ih = less.IH [of "n div b"]
    have lt: "n div b < n" using False assms by simp
    have d: "0x30 \<le> digit (n mod b) \<and> unat (digit (n mod b)) = 48 + n mod b"
      using assms by (intro digit_ok) simp_all
    have m: "n mod b < b" using assms by simp
    have f: "fmt_nat b n = fmt_nat b (n div b) @ [digit (n mod b)]" using False assms by (simp add: fmt_nat.simps [of b n])
    show ?thesis
      unfolding f using ih [OF lt] d m by (simp add: digits_value_append)
  qed
qed

lemma strtol_fmt:
  assumes "2 \<le> b" and "b \<le> 10" and "n < 2 ^ 63"
  shows "strtol b (fmt_nat b n) = int n"
proof -
  obtain c s where s: "fmt_nat b n = c # s" using fmt_nat_ne [of b n] by (cases "fmt_nat b n") blast
  have d: "0x30 \<le> c" "unat c < 48 + b" "digits_value b 0 (fmt_nat b n) = n"
    using digits_of_fmt [OF assms(1,2), of n] by (auto simp: s)
  have "c \<noteq> 0x2D" "c \<noteq> 0x2B" "\<not> is_space c" using d(1) by (auto simp: is_space_def word_le_nat_alt)
  then have "strtol b (fmt_nat b n) = max (- (2 ^ 63)) (min (2 ^ 63 - 1) (int n))"
    using d(3) by (simp add: strtol_def s Let_def)
  then show ?thesis using assms(3) by simp
qed

end
