(* ===== verification/Fs_Frame.thy ===== *)
theory Fs_Frame
  imports Index_Del Icache
begin

text \<open>
  What the parts of the mounted state have to do with each other: the index lives in the image, the
  superblock, the page directory and the page cache (its \<open>core\<close>), and its operations touch nothing else;
  the inode cache and the directory cache live in the rest of the state, and changing them does not
  touch the index.
\<close>

section \<open>The index does not depend on the rest\<close>

text \<open>Of the superblock, the index uses the three fields of the allocator.\<close>

definition alloc_same :: "xxfs_super \<Rightarrow> xxfs_super \<Rightarrow> bool" where
  "alloc_same s s' \<longleftrightarrow> s_data_off s' = s_data_off s \<and> s_block_count s' = s_block_count s \<and> s_free_blocks s' = s_free_blocks s"

lemma alloc_same_inv: "alloc_same s s' \<Longrightarrow> super_inv s' = super_inv s"
  by (simp add: alloc_same_def super_inv_def alloc_wf_def)

definition same_core :: "xxfs \<Rightarrow> xxfs \<Rightarrow> bool" where
  "same_core fs fs' \<longleftrightarrow> img fs' = img fs \<and> alloc_same (sb fs) (sb fs') \<and> pdir fs' = pdir fs \<and> pcache fs' = pcache fs"

lemma same_core_views:
  assumes "same_core fs fs'"
  shows "cached fs' = cached fs" "lblock fs' = lblock fs" "lpage fs' = lpage fs" "pc_inv fs' = pc_inv fs"
    "alloc_frontier fs' = alloc_frontier fs" "allocd fs' = allocd fs" "kv fs' = kv fs" "key_idx fs' = key_idx fs"
proof -
  show c: "cached fs' = cached fs" using assms by (simp add: same_core_def cached_def fun_eq_iff)
  show b: "lblock fs' = lblock fs" using assms c by (simp add: same_core_def lblock_def fun_eq_iff split: option.split)
  show p: "lpage fs' = lpage fs" using b by (simp add: lpage_def fun_eq_iff)
  show f: "alloc_frontier fs' = alloc_frontier fs" using assms by (simp add: same_core_def alloc_frontier_def alloc_same_def)
  show "allocd fs' = allocd fs" using f by (simp add: allocd_def fun_eq_iff)
  show "kv fs' = kv fs" unfolding kv_def b p by (rule refl)
  show "pc_inv fs' = pc_inv fs" "key_idx fs' = key_idx fs"
    using assms by (simp_all add: same_core_def pc_inv_def key_idx_def fun_eq_iff)
qed

lemma same_core_index:
  assumes "same_core fs fs'"
  shows "index_ok fs' = index_ok fs" "index_abs fs' = index_abs fs" "index_unique fs' = index_unique fs"
    "chain_kv fs' = chain_kv fs" "free_blocks fs' = free_blocks fs" "values_fit cap fs' = values_fit cap fs"
    "room fs' = room fs" "index_spares fs fs'"
proof -
  note v = same_core_views [OF assms]
  have c: "chain fs' off ps = chain fs off ps" for off ps by (induction ps arbitrary: off) (simp_all add: v)
  have d: "dir_inv fs' = dir_inv fs" using assms by (simp add: dir_inv_def same_core_def c fun_eq_iff)
  then have dc: "dir_chains fs' = dir_chains fs" by (simp add: dir_chains_def)
  have "super_inv (sb fs') = super_inv (sb fs)" using assms by (simp add: same_core_def alloc_same_inv)
  then have "pages_inv fs' = pages_inv fs" using assms by (simp add: pages_inv_def same_core_def v fun_eq_iff)
  then show "index_ok fs' = index_ok fs" by (simp add: index_ok_def index_inv_def dc d)
  show kv: "chain_kv fs' = chain_kv fs" by (simp add: chain_kv_def dc v fun_eq_iff)
  then show ab: "index_abs fs' = index_abs fs" by (simp add: index_abs_def fun_eq_iff)
  show "index_unique fs' = index_unique fs" by (simp add: index_unique_def dc v)
  show "free_blocks fs' = free_blocks fs" "room fs' = room fs"
    using assms by (simp_all add: same_core_def alloc_same_def room_def fun_eq_iff)
  show "values_fit cap fs' = values_fit cap fs" by (simp add: values_fit_def ab)
  show "index_spares fs fs'"
    using assms by (simp add: index_spares_def spares_def foreign_def dc v same_core_def)
qed

text \<open>The core up to the number of environment calls.\<close>

definition calm :: "xxfs \<Rightarrow> xxfs \<Rightarrow> bool" where
  "calm fs fs' \<longleftrightarrow> (\<exists>n. img fs' = (img fs)\<lparr>os_calls := n\<rparr>) \<and> alloc_same (sb fs) (sb fs') \<and> pdir fs' = pdir fs \<and> pcache fs' = pcache fs"

lemma calm_refl [simp]: "calm fs fs"
  unfolding calm_def alloc_same_def by (auto intro: exI [of _ "os_calls (img fs)"])

lemma calm_trans [trans]: "calm a b \<Longrightarrow> calm b c \<Longrightarrow> calm a c"
  by (auto simp: calm_def alloc_same_def)

lemma calm_core: "same_core fs fs' \<Longrightarrow> calm fs fs'"
  unfolding calm_def same_core_def by (auto intro: exI [of _ "os_calls (img fs)"])

lemma calm_index:
  assumes c: "calm fs fs'" and ok: "index_ok fs"
  shows "index_ok fs'" "index_abs fs' = index_abs fs" "index_unique fs' = index_unique fs"
    "chain_kv fs' = chain_kv fs" "free_blocks fs' = free_blocks fs" "room fs' = room fs" "index_spares fs fs'"
proof -
  obtain n where n: "img fs' = (img fs)\<lparr>os_calls := n\<rparr>" using c by (auto simp: calm_def)
  define g where "g = fs\<lparr>img := (img fs)\<lparr>os_calls := n\<rparr>\<rparr>"
  have g: "same_core g fs'" using c n by (simp add: calm_def same_core_def g_def)
  have pc: "pc_inv fs" using pages_invD(1) [OF index_okD(3) [OF ok]] .
  have views: "cached g = cached fs" "lblock g = lblock fs" by (simp_all add: g_def cached_def lblock_def fun_eq_iff split: option.split)
  have "g = fs\<lparr>img := (img fs)\<lparr>os_calls := n\<rparr>, pcache := pcache fs\<rparr>" by (simp add: g_def)
  then have "\<exists>f p. g = fs\<lparr>img := f, pcache := p\<rparr>" by blast
  moreover have "isize fs \<le> isize g" by (simp add: g_def)
  ultimately have "same_blocks fs g" unfolding same_blocks_def views by blast
  then have q: "quiet P fs g" for P
    using pc unfolding quiet_def views by (simp add: g_def pc_inv_def)
  note i = index_quiet [OF ok q] and kv = quiet_index [OF index_okD(1) [OF ok] q]
  have gc: "dir_chains g = dir_chains fs" using kv index_okI by blast
  then have "chain_kv g = chain_kv fs"
    using kv index_okD(5) [OF ok] by (simp add: chain_kv_def fun_eq_iff) (simp add: key_idx_def g_def)
  then show "index_ok fs'" "index_abs fs' = index_abs fs" "index_unique fs' = index_unique fs"
    "chain_kv fs' = chain_kv fs" "free_blocks fs' = free_blocks fs" "room fs' = room fs"
    using same_core_index [OF g] i by (simp_all add: g_def room_def fun_eq_iff)
  show "index_spares fs fs'" using index_spares_trans [OF i(2) same_core_index(8) [OF g]] .
qed

section \<open>The rest does not depend on the index\<close>

definition rest :: "xxfs \<Rightarrow> xxfs" where
  "rest fs = fs\<lparr>img := blank_file, sb := (sb fs)\<lparr>s_free_blocks := 0, s_block_count := 0\<rparr>, pdir := \<lparr>d_page_off = [], d_dir_size = 0, d_global_depth = 0\<rparr>,
     pcache := (\<lambda>_. zero_paged_cache)\<rparr>"

lemma rest_update [simp]:
  "rest (fs\<lparr>img := f\<rparr>) = rest fs" "rest (fs\<lparr>pdir := d\<rparr>) = rest fs"
  "rest (fs\<lparr>sb := (sb fs)\<lparr>s_free_blocks := n\<rparr>\<rparr>) = rest fs" "rest (fs\<lparr>sb := (sb fs)\<lparr>s_block_count := n\<rparr>\<rparr>) = rest fs"
  "rest (fs\<lparr>sb := (sb fs)\<lparr>s_block_count := m, s_free_blocks := n\<rparr>\<rparr>) = rest fs"
  "rest (fs\<lparr>pcache := p\<rparr>) = rest fs" "rest (set_pcache i c fs) = rest fs"
  by (simp_all add: rest_def set_pcache_def)

lemma restD:
  assumes "rest fs' = rest fs"
  shows "icache fs' = icache fs" "icache_cap fs' = icache_cap fs" "icache_count fs' = icache_count fs"
    "icache_mask fs' = icache_mask fs" "icache_tick fs' = icache_tick fs" "dcache fs' = dcache fs"
    "flags fs' = flags fs" "cow_gen fs' = cow_gen fs" "mounted fs' = mounted fs" "tbl fs' = tbl fs"
    "s_inodes_count (sb fs') = s_inodes_count (sb fs)" "s_free_inodes (sb fs') = s_free_inodes (sb fs)"
proof -
  have "icache (rest fs') = icache (rest fs)" "icache_cap (rest fs') = icache_cap (rest fs)"
    "icache_count (rest fs') = icache_count (rest fs)" "icache_mask (rest fs') = icache_mask (rest fs)"
    "icache_tick (rest fs') = icache_tick (rest fs)" "dcache (rest fs') = dcache (rest fs)"
    "flags (rest fs') = flags (rest fs)" "cow_gen (rest fs') = cow_gen (rest fs)"
    "mounted (rest fs') = mounted (rest fs)" "tbl (rest fs') = tbl (rest fs)"
    "s_inodes_count (sb (rest fs')) = s_inodes_count (sb (rest fs))" "s_free_inodes (sb (rest fs')) = s_free_inodes (sb (rest fs))"
    using assms by simp_all
  then show "icache fs' = icache fs" "icache_cap fs' = icache_cap fs" "icache_count fs' = icache_count fs"
    "icache_mask fs' = icache_mask fs" "icache_tick fs' = icache_tick fs" "dcache fs' = dcache fs"
    "flags fs' = flags fs" "cow_gen fs' = cow_gen fs" "mounted fs' = mounted fs" "tbl fs' = tbl fs"
    "s_inodes_count (sb fs') = s_inodes_count (sb fs)" "s_free_inodes (sb fs') = s_free_inodes (sb fs)"
    by (simp_all add: rest_def)
qed

lemma rest_os [simp]:
  "rest (snd (fs_pwrite fs b off)) = rest fs" "rest (snd (fs_pread fs n off)) = rest fs" "rest (snd (fs_alloc fs)) = rest fs"
  "rest (snd (fs_time fs)) = rest fs" "rest (snd (fs_extend fs n)) = rest fs"
  by (simp_all add: fs_pwrite_def fs_pread_def fs_alloc_def fs_time_def fs_extend_def split: prod.split)

lemma rest_os_eq:
  "fs_pwrite fs b off = (r, fs') \<Longrightarrow> rest fs' = rest fs" "fs_pread fs n off = (q, fs') \<Longrightarrow> rest fs' = rest fs"
  "fs_alloc fs = (r, fs') \<Longrightarrow> rest fs' = rest fs" "fs_extend fs n = (r, fs') \<Longrightarrow> rest fs' = rest fs"
  "fs_time fs = (t, fs') \<Longrightarrow> rest fs' = rest fs"
  using rest_os by (metis snd_conv)+

lemma rest_page_alloc: "page_alloc fs = (off, fs') \<Longrightarrow> rest fs' = rest fs"
  by (auto simp: page_alloc_def Let_def dest: rest_os_eq split: prod.splits if_splits)

lemma rest_page_alloc_n: "page_alloc_n fs n = (off, fs') \<Longrightarrow> rest fs' = rest fs"
  by (auto simp: page_alloc_n_def Let_def dest: rest_os_eq rest_page_alloc split: prod.splits if_splits)

lemma rest_page_evict [simp]: "rest (page_evict fs i) = rest fs"
  by (auto simp: page_evict_def Let_def split: option.split)

lemma rest_page_load: "page_load fs off = (r, fs') \<Longrightarrow> rest fs' = rest fs"
  unfolding page_load_def Let_def
  by (auto dest!: rest_os_eq split: prod.splits option.splits if_splits)

lemma rest_page_store: "page_store fs off pg = Some fs' \<Longrightarrow> rest fs' = rest fs"
  by (auto simp: page_store_def split: option.splits)

lemma rest_page_writeback [simp]: "rest (page_writeback fs pg off) = rest fs"
  by (simp add: page_writeback_def Let_def)

lemma rest_page_update: "page_update fs off pg = Some fs' \<Longrightarrow> rest fs' = rest fs"
  by (auto simp: page_update_def Option.bind_eq_Some_conv dest: rest_page_store)

lemma rest_invalidate [simp]: "rest (page_cache_invalidate fs off) = rest fs"
  by (auto simp: page_cache_invalidate_def Let_def split: option.split)

lemmas rest_rules = rest_os_eq rest_page_alloc rest_page_load rest_page_store rest_page_update

lemma rest_write_record: "write_record fs key val = (r, fs') \<Longrightarrow> rest fs' = rest fs"
  unfolding write_record_def Let_def
  by (auto dest!: rest_rules split: prod.splits if_splits)

lemma rest_update_slot: "update_slot fs cur pg i key val = Some (r, fs') \<Longrightarrow> rest fs' = rest fs"
  unfolding update_slot_def Let_def
  by (auto simp: Option.bind_eq_Some_conv dest!: rest_page_update rest_write_record split: prod.splits if_splits sum.splits)

lemma rest_append_slot: "append_slot fs cur pg h key val = Some (r, fs') \<Longrightarrow> rest fs' = rest fs"
  unfolding append_slot_def Let_def
  by (auto simp: Option.bind_eq_Some_conv dest!: rest_page_update rest_page_store rest_write_record
      split: prod.splits if_splits sum.splits)

lemma rest_dir_double: "paged_dir_double fs = (r, fs') \<Longrightarrow> rest fs' = rest fs"
  unfolding paged_dir_double_def Let_def by (auto dest!: rest_os_eq split: prod.splits if_splits)

lemma rest_page_split: "page_split fs off pg = Some (r, fs') \<Longrightarrow> rest fs' = rest fs"
  unfolding page_split_def Let_def
  by (auto simp: Option.bind_eq_Some_conv dest!: rest_page_store rest_page_alloc split: prod.splits if_splits option.splits)

lemma rest_split_and_retry: "page_split_and_retry fs off = Some (r, fs') \<Longrightarrow> rest fs' = rest fs"
  unfolding page_split_and_retry_def
  by (auto dest!: rest_page_load rest_dir_double rest_page_split split: prod.splits if_splits option.splits)

lemma rest_overflow_step:
  assumes "overflow_step fs cur pg = Some (r, fs')"
  shows "rest fs' = rest fs"
proof -
  obtain off g where a: "page_alloc fs = (off, g)" by fastforce
  show ?thesis
  proof (cases "pg_overflow_next pg = 0 \<and> off \<noteq> 0")
    case False
    then show ?thesis
      using assms rest_page_alloc [OF a] a
      by (auto simp: overflow_step_def dest: rest_split_and_retry split: if_splits)
  next
    case True
    then obtain h where u: "page_update g cur (pg\<lparr>pg_overflow_next := off\<rparr>) = Some h"
      using assms a by (auto simp: overflow_step_def Option.bind_eq_Some_conv)
    obtain ok k where w: "fs_pwrite h (enc_page (fresh_page (pg_local_depth pg))) off = (ok, k)" by fastforce
    have "rest k = rest fs" using rest_page_alloc [OF a] rest_page_update [OF u] rest_os_eq(1) [OF w] by simp
    then show ?thesis
      using assms True a u w by (auto simp: overflow_step_def Let_def split: if_splits option.splits)
  qed
qed

lemma rest_put_start: "put_start fs key = Some (r, fs') \<Longrightarrow> rest fs' = rest fs"
  unfolding put_start_def Let_def
  by (auto dest!: rest_page_alloc rest_os_eq split: prod.splits if_splits)

lemma rest_put_page: "put_page scan key val cur fs = Some (r, fs') \<Longrightarrow> rest fs' = rest fs"
  unfolding put_page_def Let_def finish_def
  by (auto simp: Option.bind_eq_Some_conv dest!: rest_page_load rest_update_slot rest_append_slot rest_overflow_step
      split: prod.splits if_splits option.splits)

lemma rest_put_loop:
  assumes "put_loop scan key val pos fs = Some r"
  shows "rest (snd r) = rest fs"
proof (rule put_loop.raw_induct [where P = "\<lambda>scan key val pos fs r. rest (snd r) = rest fs", OF _ assms])
  fix loop scan key val pos fs r
  assume 1: "\<And>scan key val pos fs r. loop scan key val pos fs = Some r \<Longrightarrow> rest (snd r) = rest fs"
    and 2: "(case pos of
        None \<Rightarrow> put_start fs key \<bind>
          (\<lambda>(r, fs). case r of Inl rc \<Rightarrow> Some (rc, fs) | Inr off \<Rightarrow> loop scan key val (Some off) fs)
      | Some cur \<Rightarrow>
          if cur = 0 then Some (XXFS_ENOSPC, fs)
          else put_page scan key val cur fs \<bind>
            (\<lambda>(r, fs). case r of Done rc \<Rightarrow> Some (rc, fs) | Next off \<Rightarrow> loop scan key val (Some off) fs
              | Retry \<Rightarrow> loop True key val None fs)) = Some r"
  show "rest (snd r) = rest fs"
  proof (cases pos)
    case None
    with 2 obtain q g where p: "put_start fs key = Some (q, g)"
      and c: "(case q of Inl rc \<Rightarrow> Some (rc, g) | Inr off \<Rightarrow> loop scan key val (Some off) g) = Some r"
      by (auto simp: Option.bind_eq_Some_conv)
    then show ?thesis using rest_put_start [OF p] 1 by (cases q) auto
  next
    case (Some cur)
    show ?thesis
    proof (cases "cur = 0")
      case False
      with 2 Some obtain q g where p: "put_page scan key val cur fs = Some (q, g)"
        and c: "(case q of Done rc \<Rightarrow> Some (rc, g) | Next off \<Rightarrow> loop scan key val (Some off) g
           | Retry \<Rightarrow> loop True key val None g) = Some r"
        by (auto simp: Option.bind_eq_Some_conv)
      then show ?thesis using rest_put_page [OF p] 1 by (cases q) auto
    qed (use 2 Some in auto)
  qed
qed

lemma rest_paged_put: "paged_put fs key val = Some (r, fs') \<Longrightarrow> rest fs' = rest fs"
  and rest_paged_insert: "paged_insert fs key val = Some (r, fs') \<Longrightarrow> rest fs' = rest fs"
  using rest_put_loop by (fastforce simp: paged_put_def paged_insert_def)+

lemma rest_get_slot: "get_slot key cap pg s fs = Some (r, fs') \<Longrightarrow> rest fs' = rest fs"
  unfolding get_slot_def get_record_def Let_def
  by (auto dest!: rest_os_eq split: prod.splits if_splits option.splits)

lemma rest_get_slots: "get_slots key cap pg ss fs = Some (r, fs') \<Longrightarrow> rest fs' = rest fs"
  by (induction ss arbitrary: fs) (auto simp: Option.bind_eq_Some_conv dest!: rest_get_slot split: if_splits)

lemma rest_get_page: "get_page key cap pg fs = Some (r, fs') \<Longrightarrow> rest fs' = rest fs"
  by (auto simp: get_page_def Option.bind_eq_Some_conv dest!: rest_get_slots split: if_splits)

lemma rest_get_loop:
  assumes "get_loop key cap cur fs = Some r"
  shows "rest (snd r) = rest fs"
proof (rule get_loop.raw_induct [where P = "\<lambda>key cap cur fs r. rest (snd r) = rest fs", OF _ assms])
  fix loop key cap cur fs r
  assume 1: "\<And>key cap cur fs r. loop key cap cur fs = Some r \<Longrightarrow> rest (snd r) = rest fs"
    and 2: "(if cur = 0 then Some (Inl XXFS_ENOENT, fs)
      else case page_load fs cur of
          (None, fs) \<Rightarrow> Some (Inl XXFS_EIO, fs)
        | (Some pg, fs) \<Rightarrow> get_page key cap pg fs \<bind>
            (\<lambda>(r, fs). case r of Hit v \<Rightarrow> Some (Inr v, fs) | Fail rc \<Rightarrow> Some (Inl rc, fs)
              | Miss \<Rightarrow> loop key cap (pg_overflow_next pg) fs)) = Some r"
  obtain q g where l: "page_load fs cur = (q, g)" by fastforce
  show "rest (snd r) = rest fs"
  proof (cases "cur = 0 \<or> q = None")
    case False
    with 2 l obtain pg s h where p: "get_page key cap pg g = Some (s, h)"
      and c: "(case s of Hit v \<Rightarrow> Some (Inr v, h) | Fail rc \<Rightarrow> Some (Inl rc, h)
        | Miss \<Rightarrow> loop key cap (pg_overflow_next pg) h) = Some r"
      by (auto simp: Option.bind_eq_Some_conv)
    then show ?thesis using rest_page_load [OF l] rest_get_page [OF p] 1 by (cases s) auto
  qed (use 2 l rest_page_load [OF l] in \<open>auto split: if_splits\<close>)
qed

lemma rest_paged_get: "paged_get fs key cap = Some (r, fs') \<Longrightarrow> rest fs' = rest fs"
  using rest_get_loop by (fastforce simp: paged_get_def split: option.splits)

text \<open>Deleting allocates nothing.\<close>

lemma sb_page_load: "page_load fs off = (r, fs') \<Longrightarrow> sb fs' = sb fs"
  unfolding page_load_def Let_def
  by (auto simp: page_evict_def fs_pread_def fs_pwrite_def fs_alloc_def set_pcache_def Let_def split: prod.splits option.splits if_splits)

lemma sb_page_update: "page_update fs off pg = Some fs' \<Longrightarrow> sb fs' = sb fs"
  by (auto simp: page_update_def page_store_def page_writeback_def set_pcache_def fs_pwrite_def Let_def Option.bind_eq_Some_conv split: prod.splits option.splits if_splits)

lemma rest_del_loop:
  assumes "del_loop key cur fs = Some r"
  shows "rest (snd r) = rest fs \<and> sb (snd r) = sb fs"
proof (rule del_loop.raw_induct [where P = "\<lambda>key cur fs r. rest (snd r) = rest fs \<and> sb (snd r) = sb fs", OF _ assms])
  fix loop key cur fs r
  assume 1: "\<And>key cur fs r. loop key cur fs = Some r \<Longrightarrow> rest (snd r) = rest fs \<and> sb (snd r) = sb fs"
    and 2: "(if cur = 0 then Some (XXFS_ENOENT, fs)
      else case page_load fs cur of
          (None, fs) \<Rightarrow> Some (XXFS_EIO, fs)
        | (Some pg, fs) \<Rightarrow> find_slot (xxh64 key) key pg \<bind>
            (\<lambda>hit. case hit of
               Some i \<Rightarrow> (if unat (pg_count pg) > PAGED_SLOTS_PER_PAGE then None
                  else map_option (\<lambda>fs. (XXFS_OK, fs)) (page_update fs cur (drop_slot i pg)))
             | None \<Rightarrow> loop key (pg_overflow_next pg) fs)) = Some r"
  obtain q g where l: "page_load fs cur = (q, g)" by fastforce
  show "rest (snd r) = rest fs \<and> sb (snd r) = sb fs"
  proof (cases "cur = 0 \<or> q = None")
    case False
    with 2 l obtain pg hit where "(case hit of
          Some i \<Rightarrow> (if unat (pg_count pg) > PAGED_SLOTS_PER_PAGE then None
              else map_option (\<lambda>fs. (XXFS_OK, fs)) (page_update g cur (drop_slot i pg)))
        | None \<Rightarrow> loop key (pg_overflow_next pg) g) = Some r"
      by (auto simp: Option.bind_eq_Some_conv)
    then show ?thesis
      using rest_page_load [OF l] sb_page_load [OF l] 1 by (cases hit) (auto dest: rest_page_update sb_page_update split: if_splits)
  qed (use 2 l rest_page_load [OF l] sb_page_load [OF l] in \<open>auto split: if_splits\<close>)
qed

lemma rest_paged_del: "paged_del fs key = Some (r, fs') \<Longrightarrow> rest fs' = rest fs"
  and sb_paged_del: "paged_del fs key = Some (r, fs') \<Longrightarrow> sb fs' = sb fs"
  using rest_del_loop by (fastforce simp: paged_del_def split: option.splits)+

lemmas rest_index = rest_paged_put rest_paged_insert rest_paged_get rest_paged_del

end
