(* ===== verification/Icache_Laws.thy ===== *)
theory Icache_Laws
  imports Icache
begin

text \<open>
  The inode cache as a map from path hashes to inodes. As long as no entry is deleted, every entry in use is
  reached by its probe sequence without crossing an empty slot; \<open>icache_inv\<close> says so, and under it
  \<^verbatim>\<open>icache_put\<close> changes what \<^verbatim>\<open>icache_lookup\<close> returns for the hash that was put and for no other.
\<close>

section \<open>The invariant\<close>

definition in_use :: "xxfs \<Rightarrow> nat \<Rightarrow> bool" where
  "in_use fs i \<longleftrightarrow> ic_ctrl (icache fs i) \<noteq> ICACHE_CTRL_EMPTY"

text \<open>Entry \<open>idx\<close> is the one that the probe sequence of \<open>hash\<close> meets at step \<open>n\<close>, behind entries of other hashes.\<close>

definition sits_at :: "xxfs \<Rightarrow> u64 \<Rightarrow> nat \<Rightarrow> u32 \<Rightarrow> bool" where
  "sits_at fs hash n idx \<longleftrightarrow> idx = probe_pos fs (icache_home fs hash) n \<and> in_use fs (unat idx) \<and>
     ic_hash (icache fs (unat idx)) = hash \<and> (\<forall>m < n. taken fs hash (probe_pos fs (icache_home fs hash) m))"

definition icache_inv :: "xxfs \<Rightarrow> bool" where
  "icache_inv fs \<longleftrightarrow> icache_tagged fs \<and> icache_mask fs = icache_cap fs - 1 \<and>
     (\<exists>k < 32. icache_cap fs = 2 ^ k) \<and>
     unat (icache_count fs) = card {i. i < unat (icache_cap fs) \<and> in_use fs i} \<and>
     (\<forall>i < unat (icache_cap fs). in_use fs i \<longrightarrow>
        (\<exists>n < unat (icache_cap fs). sits_at fs (ic_hash (icache fs i)) n (of_nat i)))"

lemma icache_inv_sits:
  "icache_inv fs \<Longrightarrow> i < unat (icache_cap fs) \<Longrightarrow> in_use fs i \<Longrightarrow>
    \<exists>n < unat (icache_cap fs). sits_at fs (ic_hash (icache fs i)) n (of_nat i)"
  unfolding icache_inv_def by (elim conjE allE impE)

text \<open>Room for \<open>k\<close> more entries without eviction or growth.\<close>

definition icache_room :: "xxfs \<Rightarrow> nat \<Rightarrow> bool" where
  "icache_room fs k \<longleftrightarrow> unat (icache_count fs) + k \<le> unat ICACHE_MAX_ENTRIES \<and>
     2 * (unat (icache_count fs) + k) \<le> unat (icache_cap fs)"

text \<open>What a lookup sees.\<close>

definition cached_inode :: "xxfs \<Rightarrow> u64 \<Rightarrow> xxfs_inode option" where
  "cached_inode fs hash = map_option (\<lambda>idx. ic_inode (icache fs (unat idx))) (icache_lookup fs hash)"

text \<open>A put for the hash goes to a place where a lookup finds it.\<close>

definition icache_near :: "xxfs \<Rightarrow> u64 \<Rightarrow> bool" where
  "icache_near fs hash \<longleftrightarrow> (\<exists>n < 16. first_usable fs hash (icache_home fs hash) n)"

section \<open>Probe sequences\<close>

lemma icache_geometry:
  assumes "icache_inv fs"
  obtains k where "k < 32" and "unat (icache_cap fs) = 2 ^ k" and "icache_mask fs = mask k"
proof -
  obtain k where k: "k < 32" "icache_cap fs = 2 ^ k" "icache_mask fs = icache_cap fs - 1"
    using assms by (auto simp: icache_inv_def)
  show thesis
  proof (rule that [OF k(1)])
    have "unat (of_nat (2 ^ k) :: u32) = 2 ^ k"
      using k(1) power_strict_increasing [of k 32 "2 :: nat"] by (subst unat_of_nat) simp
    then show "unat (icache_cap fs) = 2 ^ k" using k by simp
    show "icache_mask fs = mask k" using k by (simp add: mask_eq_exp_minus_1)
  qed
qed

lemma unat_home:
  assumes "icache_inv fs"
  shows "unat (icache_home fs hash) < unat (icache_cap fs)"
proof -
  obtain k where k: "k < 32" "unat (icache_cap fs) = 2 ^ k" "icache_mask fs = mask k" by (rule icache_geometry [OF assms])
  have "icache_home fs hash = take_bit k (ucast hash :: u32)"
    unfolding icache_home_def k(3) by (rule bit_word_eqI) (use k(1) in \<open>auto simp: bit_simps\<close>)
  then have "unat (icache_home fs hash) = unat (ucast hash :: u32) mod 2 ^ k"
    by (simp add: take_bit_eq_mask unat_and_mask)
  then show ?thesis using k by simp
qed

lemma unat_probe_pos:
  assumes "icache_inv fs" and "unat idx < unat (icache_cap fs)"
  shows "unat (probe_pos fs idx n) = (unat idx + n) mod unat (icache_cap fs)"
  using assms(2)
proof (induction n arbitrary: idx)
  case (Suc n)
  obtain k where k: "k < 32" "unat (icache_cap fs) = 2 ^ k" "icache_mask fs = mask k" by (rule icache_geometry [OF assms(1)])
  have "unat idx + 1 < 2 ^ 32"
    using Suc.prems k power_strict_increasing [of k 32 "2 :: nat"] by simp
  then have "unat (idx + 1) = unat idx + 1" by (simp add: unat_word_ariths)
  then have step: "unat ((idx + 1) AND icache_mask fs) = (unat idx + 1) mod unat (icache_cap fs)"
    using k by (simp add: unat_and_mask)
  then have "unat ((idx + 1) AND icache_mask fs) < unat (icache_cap fs)" using k by simp
  from Suc.IH [OF this] step show ?case by (simp add: mod_add_left_eq)
qed simp

lemma probe_pos_covers:
  assumes inv: "icache_inv fs" and i: "i < unat (icache_cap fs)"
  shows "\<exists>n < unat (icache_cap fs). unat (probe_pos fs (icache_home fs hash) n) = i"
proof -
  let ?c = "unat (icache_cap fs)" and ?h = "unat (icache_home fs hash)"
  have h: "?h < ?c" by (rule unat_home [OF inv])
  define n where "n = (i + ?c - ?h) mod ?c"
  have "(?h + n) mod ?c = (?h + (i + ?c - ?h)) mod ?c" unfolding n_def by (simp add: mod_add_right_eq)
  also have "\<dots> = i" using h i by simp
  finally show ?thesis using unat_probe_pos [OF inv h, of n] h n_def by (intro exI [of _ n]) simp
qed

lemma probe_pos_less:
  assumes "icache_inv fs"
  shows "unat (probe_pos fs (icache_home fs hash) n) < unat (icache_cap fs)"
  using unat_probe_pos [OF assms unat_home [OF assms]] unat_home [OF assms, of hash] by simp

lemma usable_exists:
  assumes inv: "icache_inv fs" and room: "icache_room fs 1"
  obtains n where "n < unat (icache_cap fs)" and "first_usable fs hash (icache_home fs hash) n"
proof -
  let ?c = "unat (icache_cap fs)"
  have "unat (icache_count fs) = card {i. i < ?c \<and> in_use fs i}" using inv by (simp add: icache_inv_def)
  then have "card {i. i < ?c \<and> in_use fs i} < ?c" using room by (simp add: icache_room_def)
  then have "{i. i < ?c \<and> in_use fs i} \<noteq> {..<?c}" by (metis card_lessThan less_irrefl)
  then obtain i where "i < ?c" "\<not> in_use fs i" by blast
  then obtain n where n: "n < ?c" "\<not> taken fs hash (probe_pos fs (icache_home fs hash) n)"
    using probe_pos_covers [OF inv, of i hash] by (auto simp: taken_def in_use_def)
  let ?P = "\<lambda>n. \<not> taken fs hash (probe_pos fs (icache_home fs hash) n)"
  define m where "m = (LEAST n. ?P n)"
  have "?P m" unfolding m_def by (rule LeastI [of ?P n]) (rule n(2))
  moreover have "\<forall>j < m. \<not> ?P j" unfolding m_def using not_less_Least [of _ ?P] by blast
  ultimately have "first_usable fs hash (icache_home fs hash) m" by (simp add: first_usable_def)
  moreover have "m \<le> n" unfolding m_def by (rule Least_le [of ?P]) (rule n(2))
  ultimately show thesis using n(1) by (intro that [of m]) simp_all
qed

section \<open>Lookups\<close>

lemma sits_at_unique: "sits_at fs hash n i \<Longrightarrow> sits_at fs hash m j \<Longrightarrow> n = m \<and> i = j"
  unfolding sits_at_def taken_def by (metis linorder_neqE_nat)

lemma probe_stops:
  assumes "icache_probe k fs hash idx = Some j"
  shows "\<exists>n < k. j = probe_pos fs idx n \<and> in_use fs (unat j) \<and> ic_hash (icache fs (unat j)) = hash \<and>
    (\<forall>m < n. taken fs hash (probe_pos fs idx m) \<or> (in_use fs (unat (probe_pos fs idx m)) \<and>
       ic_ctrl (icache fs (unat (probe_pos fs idx m))) \<noteq> icache_ctrl hash))"
  using assms
proof (induction k arbitrary: idx)
  case (Suc k)
  show ?case
  proof (cases "ic_ctrl (icache fs (unat idx)) = icache_ctrl hash \<and> ic_hash (icache fs (unat idx)) = hash")
    case True
    then show ?thesis using Suc.prems by (intro exI [of _ 0]) (auto simp: Let_def in_use_def split: if_splits)
  next
    case False
    with Suc.prems have u: "in_use fs (unat idx)" and r: "icache_probe k fs hash ((idx + 1) AND icache_mask fs) = Some j"
      by (auto simp: Let_def in_use_def split: if_splits)
    from Suc.IH [OF r] obtain n where "n < k" "j = probe_pos fs ((idx + 1) AND icache_mask fs) n" "in_use fs (unat j)"
      "ic_hash (icache fs (unat j)) = hash"
      "\<forall>m < n. taken fs hash (probe_pos fs ((idx + 1) AND icache_mask fs) m) \<or>
        (in_use fs (unat (probe_pos fs ((idx + 1) AND icache_mask fs) m)) \<and>
         ic_ctrl (icache fs (unat (probe_pos fs ((idx + 1) AND icache_mask fs) m))) \<noteq> icache_ctrl hash)" by blast
    then show ?thesis
      using False u by (intro exI [of _ "Suc n"]) (auto simp: less_Suc_eq_0_disj taken_def in_use_def)
  qed
qed simp

lemma lookup_iff:
  assumes "icache_tagged fs"
  shows "icache_lookup fs hash = Some idx \<longleftrightarrow> (\<exists>n < 16. sits_at fs hash n idx)"
proof
  assume "icache_lookup fs hash = Some idx"
  from probe_stops [OF this [unfolded icache_lookup_def]] obtain n where
    n: "n < 16" "idx = probe_pos fs (icache_home fs hash) n" "in_use fs (unat idx)" "ic_hash (icache fs (unat idx)) = hash"
    and t: "\<And>m. m < n \<Longrightarrow> taken fs hash (probe_pos fs (icache_home fs hash) m) \<or>
      (in_use fs (unat (probe_pos fs (icache_home fs hash) m)) \<and>
       ic_ctrl (icache fs (unat (probe_pos fs (icache_home fs hash) m))) \<noteq> icache_ctrl hash)" by blast
  have "taken fs hash (probe_pos fs (icache_home fs hash) m)" if "m < n" for m
    using t [OF that] assms unfolding icache_tagged_def in_use_def taken_def by metis
  then show "\<exists>n < 16. sits_at fs hash n idx" using n unfolding sits_at_def by blast
next
  assume "\<exists>n < 16. sits_at fs hash n idx"
  then obtain n where n: "n < 16" "sits_at fs hash n idx" by blast
  then show "icache_lookup fs hash = Some idx"
    unfolding icache_lookup_def
    using icache_probe_finds [of n fs hash "icache_home fs hash" 16] assms
    by (auto simp: sits_at_def icache_tagged_def in_use_def)
qed

text \<open>What is cached can be put again.\<close>

lemma cached_near:
  assumes "icache_tagged fs" and "cached_inode fs hash \<noteq> None"
  shows "icache_near fs hash"
proof -
  obtain idx where "icache_lookup fs hash = Some idx" using assms(2) by (auto simp: cached_inode_def)
  then obtain n where "n < 16" "sits_at fs hash n idx" using lookup_iff [OF assms(1)] by blast
  then show ?thesis unfolding icache_near_def first_usable_def sits_at_def taken_def by blast
qed

lemma first_usable_unique: "first_usable fs h i n \<Longrightarrow> first_usable fs h i m \<Longrightarrow> n = m"
  unfolding first_usable_def by (meson linorder_neqE_nat)

section \<open>Put\<close>

text \<open>The state after a put at step \<open>n\<close> of the probe sequence, which is position \<open>p\<close>.\<close>

definition put_at :: "xxfs \<Rightarrow> xxfs \<Rightarrow> u64 \<Rightarrow> nat \<Rightarrow> u32 \<Rightarrow> icache_entry \<Rightarrow> bool" where
  "put_at fs fs' hash n p e \<longleftrightarrow> icache_tagged fs \<and> first_usable fs hash (icache_home fs hash) n \<and>
     p = probe_pos fs (icache_home fs hash) n \<and> icache fs' = (icache fs)(unat p := e) \<and>
     icache_mask fs' = icache_mask fs \<and> ic_hash e = hash \<and> ic_ctrl e = icache_ctrl hash"

lemma put_atD:
  assumes "put_at fs fs' hash n p e"
  shows "probe_pos fs' idx m = probe_pos fs idx m" "icache_home fs' h = icache_home fs h"
    and "\<not> in_use fs (unat p) \<or> ic_hash (icache fs (unat p)) = hash"
    and "in_use fs' i \<longleftrightarrow> i = unat p \<or> in_use fs i" and "icache_tagged fs'"
    and "i \<noteq> unat p \<Longrightarrow> icache fs' i = icache fs i"
proof -
  note a = assms [unfolded put_at_def]
  have m: "icache_mask fs' = icache_mask fs" and i: "icache fs' = (icache fs)(unat p := e)" using a by blast+
  have e: "ic_ctrl e \<noteq> ICACHE_CTRL_EMPTY" "ic_ctrl e = icache_ctrl (ic_hash e)"
    using a icache_ctrl_not_empty [of hash] by metis+
  show "probe_pos fs' idx m = probe_pos fs idx m" "icache_home fs' h = icache_home fs h"
    using probe_pos_cong [OF m] m by (simp_all add: icache_home_def)
  show "\<not> in_use fs (unat p) \<or> ic_hash (icache fs (unat p)) = hash"
    using a unfolding first_usable_def taken_def in_use_def by blast
  show "in_use fs' i \<longleftrightarrow> i = unat p \<or> in_use fs i" using e(1) by (simp add: in_use_def i)
  show "icache_tagged fs'" using a e(2) unfolding icache_tagged_def i by simp
  show "i \<noteq> unat p \<Longrightarrow> icache fs' i = icache fs i" by (simp add: i)
qed

lemma put_at_taken:
  assumes a: "put_at fs fs' hash n p e" and t: "taken fs h idx" and n: "h \<noteq> hash \<or> idx \<noteq> p"
  shows "taken fs' h idx"
proof (cases "idx = p")
  case True
  have "in_use fs' (unat p)" "icache fs' (unat p) = e" "ic_hash e = hash" using put_atD(4) [OF a] a by (simp_all add: put_at_def)
  with True n show ?thesis by (simp add: taken_def in_use_def)
next
  case False
  then have "icache fs' (unat idx) = icache fs (unat idx)" using put_atD(6) [OF a] by (simp add: word_unat_eq_iff)
  then show ?thesis using t by (simp add: taken_def)
qed

lemma put_at_sits:
  assumes a: "put_at fs fs' hash n p e"
  shows "sits_at fs' hash n p"
proof -
  have u: "first_usable fs hash (icache_home fs hash) n" "p = probe_pos fs (icache_home fs hash) n"
    using a by (simp_all add: put_at_def)
  have "taken fs' hash (probe_pos fs (icache_home fs hash) m)" if m: "m < n" for m
  proof (rule put_at_taken [OF a])
    show t: "taken fs hash (probe_pos fs (icache_home fs hash) m)" using m u by (simp add: first_usable_def)
    show "hash \<noteq> hash \<or> probe_pos fs (icache_home fs hash) m \<noteq> p" using t u by (auto simp: first_usable_def)
  qed
  moreover have "icache fs' (unat p) = e" "ic_hash e = hash" using a by (simp_all add: put_at_def)
  ultimately show ?thesis using u(2) put_atD(4) [OF a] by (simp add: sits_at_def put_atD(1,2) [OF a])
qed

lemma put_at_other:
  assumes a: "put_at fs fs' hash n p e" and h: "h \<noteq> hash" and s: "sits_at fs h m idx"
  shows "sits_at fs' h m idx" and "icache fs' (unat idx) = icache fs (unat idx)"
proof -
  have "unat idx \<noteq> unat p" using s h put_atD(3) [OF a] by (auto simp: sits_at_def)
  then show same: "icache fs' (unat idx) = icache fs (unat idx)" using put_atD(6) [OF a] by blast
  show "sits_at fs' h m idx"
    unfolding sits_at_def put_atD(1,2) [OF a] same put_atD(4) [OF a]
    using s put_at_taken [OF a] h unfolding sits_at_def by blast
qed

text \<open>What a put leaves untouched: everything outside the inode cache, up to one environment call.\<close>

definition icache_only :: "xxfs \<Rightarrow> xxfs \<Rightarrow> bool" where
  "icache_only fs fs' \<longleftrightarrow> (\<exists>c k n. fs' = fs\<lparr>icache := c, icache_count := k, img := (img fs)\<lparr>os_calls := n\<rparr>\<rparr>)"

lemma icache_put_from_only: "icache_only fs (icache_put_from k fs hash key ino idx)"
proof (induction k arbitrary: idx)
  case 0
  then show ?case
    unfolding icache_only_def by (intro exI [of _ "icache fs"] exI [of _ "icache_count fs"] exI [of _ "os_calls (img fs)"]) simp
next
  case (Suc k)
  have "icache_only fs (set_icache idx e fs)" for e
    unfolding icache_only_def set_icache_def
    by (intro exI [of _ "(icache fs)(unat idx := e)"] exI [of _ "icache_count fs"] exI [of _ "os_calls (img fs)"]) simp
  moreover have "icache_only fs ((set_icache idx e (snd (fs_alloc fs)))\<lparr>icache_count := c\<rparr>)" for e c
    unfolding icache_only_def set_icache_def fs_alloc_def xxfs_os_alloc_def os_call_def
    by (intro exI [of _ "(icache fs)(unat idx := e)"] exI [of _ c] exI [of _ "Suc (os_calls (img fs))"]) simp
  ultimately show ?case using Suc.IH by (auto simp: Let_def split: prod.split)
qed

lemma icache_put_room:
  assumes "icache_room fs 1"
  shows "icache_put fs hash key ino = Some (icache_put_from (unat (icache_cap fs)) fs hash key ino (icache_home fs hash))"
proof -
  have c: "unat (icache_count fs) < 131072" "2 * unat (icache_count fs) < unat (icache_cap fs)"
    using assms by (simp_all add: icache_room_def icache_consts)
  then have "unat (icache_count fs * 2) = unat (icache_count fs) * 2" by (subst unat_mul_nowrap) simp_all
  then have "icache_make_room fs = Some fs"
    using c by (simp add: icache_make_room_def word_le_nat_alt icache_consts)
  then show ?thesis by (simp add: icache_put_def)
qed

lemma icache_put_from_count:
  assumes "first_usable fs hash idx n" and "n < k"
  shows "icache_count (icache_put_from k fs hash key ino idx) =
    (if in_use fs (unat (probe_pos fs idx n)) then icache_count fs else icache_count fs + 1)"
  using assms
proof (induction k arbitrary: idx n)
  case (Suc k)
  show ?case
  proof (cases n)
    case 0
    then show ?thesis
      using Suc.prems(1) fs_alloc_fields [of fs]
      by (auto simp: first_usable_def taken_def in_use_def set_icache_def Let_def split: prod.split)
  next
    case n: (Suc m)
    with Suc.prems have t: "taken fs hash idx" and f: "first_usable fs hash ((idx + 1) AND icache_mask fs) m"
      by (simp_all add: first_usable_Suc)
    then show ?thesis using Suc.IH [OF f] n Suc.prems(2) by (simp add: taken_def Let_def)
  qed
qed simp

lemma icache_put_at:
  assumes inv: "icache_inv fs" and room: "icache_room fs 1"
  obtains fs' n p e where "icache_put fs hash key ino = Some fs'" and "put_at fs fs' hash n p e" and "n < unat (icache_cap fs)"
    and "ic_inode e = ino" and "e = put_entry fs hash key ino p" and "icache_only fs fs'"
    and "icache_count fs' = (if in_use fs (unat p) then icache_count fs else icache_count fs + 1)"
proof -
  have tagged: "icache_tagged fs" using inv by (simp add: icache_inv_def)
  obtain n where n: "n < unat (icache_cap fs)" "first_usable fs hash (icache_home fs hash) n"
    by (rule usable_exists [OF inv room])
  let ?p = "probe_pos fs (icache_home fs hash) n"
  define fs' where "fs' = icache_put_from (unat (icache_cap fs)) fs hash key ino (icache_home fs hash)"
  have f: "icache fs' = (icache fs)(unat ?p := put_entry fs hash key ino ?p)" "icache_mask fs' = icache_mask fs"
    using icache_put_from_eq [OF n(2,1), of key ino] by (simp_all add: fs'_def)
  have e: "ic_inode (put_entry fs hash key ino ?p) = ino" "ic_hash (put_entry fs hash key ino ?p) = hash"
    "ic_ctrl (put_entry fs hash key ino ?p) = icache_ctrl hash"
    using n(2) tagged by (auto simp: put_entry_def Let_def first_usable_def taken_def icache_tagged_def)
  show thesis
  proof (rule that)
    show "icache_put fs hash key ino = Some fs'" using icache_put_room [OF room] by (simp add: fs'_def)
    show "put_at fs fs' hash n ?p (put_entry fs hash key ino ?p)" using tagged n(2) f e by (simp add: put_at_def)
    show "icache_only fs fs'" unfolding fs'_def by (rule icache_put_from_only)
    show "icache_count fs' = (if in_use fs (unat ?p) then icache_count fs else icache_count fs + 1)"
      unfolding fs'_def by (rule icache_put_from_count [OF n(2,1)])
  qed (use n e in simp_all)
qed

lemma put_at_back:
  assumes a: "put_at fs fs' hash n p e" and inv: "icache_inv fs" and h: "h \<noteq> hash" and s: "sits_at fs' h m idx"
    and i: "unat idx < unat (icache_cap fs)"
  shows "sits_at fs h m idx"
proof -
  have ne: "unat idx \<noteq> unat p" using s h a by (auto simp: sits_at_def put_at_def)
  then have "in_use fs (unat idx)" "ic_hash (icache fs (unat idx)) = h"
    using s put_atD(4,6) [OF a] by (auto simp: sits_at_def)
  then obtain k where k: "sits_at fs h k (of_nat (unat idx))" using inv i by (auto simp: icache_inv_def)
  then have k': "sits_at fs h k idx" by simp
  from put_at_other(1) [OF a h this] sits_at_unique [OF s] have "m = k" by blast
  with k' show ?thesis by simp
qed

lemma put_at_inv:
  assumes a: "put_at fs fs' hash n p e" and inv: "icache_inv fs" and room: "icache_room fs 1" and n: "n < unat (icache_cap fs)"
    and cap: "icache_cap fs' = icache_cap fs"
    and cnt: "icache_count fs' = (if in_use fs (unat p) then icache_count fs else icache_count fs + 1)"
  shows "icache_inv fs'"
proof -
  let ?c = "unat (icache_cap fs)"
  note i = inv [unfolded icache_inv_def]
  have p: "unat p < ?c" using a probe_pos_less [OF inv] by (auto simp: put_at_def)
  have c: "unat (icache_count fs + 1) = unat (icache_count fs) + 1"
    using room by (subst unat_add_nowrap) (simp_all add: icache_room_def icache_consts)
  have "{i. i < ?c \<and> in_use fs' i} = insert (unat p) {i. i < ?c \<and> in_use fs i}" using put_atD(4) [OF a] p by auto
  then have "unat (icache_count fs') = card {i. i < ?c \<and> in_use fs' i}"
    using i p cnt c by (auto simp: card_insert_if insert_absorb)
  moreover have "\<exists>m < ?c. sits_at fs' (ic_hash (icache fs' i)) m (of_nat i)" if il: "i < ?c" and iu: "in_use fs' i" for i
  proof (cases "i = unat p")
    case True
    then show ?thesis using put_at_sits [OF a] n a by (auto simp: put_at_def)
  next
    case False
    then have u: "in_use fs i" "icache fs' i = icache fs i" using iu put_atD(4,6) [OF a] by auto
    then obtain m where m: "m < ?c" "sits_at fs (ic_hash (icache fs i)) m (of_nat i)" using icache_inv_sits [OF inv il] by blast
    have "ic_hash (icache fs i) \<noteq> hash"
    proof
      assume h: "ic_hash (icache fs i) = hash"
      then have "sits_at fs hash m (of_nat i)" using m by simp
      moreover have "unat (icache_cap fs) < 2 ^ 32" using unsigned_less [of "icache_cap fs"] by simp
      then have "unat (of_nat i :: u32) = i" using il by (simp add: unat_of_nat)
      ultimately have "m \<noteq> n" using False a by (auto simp: sits_at_def put_at_def)
      then consider "m < n" | "n < m" by linarith
      then show False
        using \<open>sits_at fs hash m (of_nat i)\<close> a unfolding sits_at_def put_at_def first_usable_def taken_def by cases metis+
    qed
    with m show ?thesis using put_at_other(1) [OF a] u(2) by auto
  qed
  moreover have "icache_tagged fs'" "icache_mask fs' = icache_cap fs' - 1" "\<exists>k<32. icache_cap fs' = 2 ^ k"
    using put_atD(5) [OF a] i cap a by (auto simp: put_at_def)
  ultimately show ?thesis by (simp add: icache_inv_def cap)
qed

lemma put_at_lookup:
  assumes a: "put_at fs fs' hash n p e" and inv: "icache_inv fs" and inv': "icache_inv fs'" and cap: "icache_cap fs' = icache_cap fs"
  shows "h \<noteq> hash \<Longrightarrow> cached_inode fs' h = cached_inode fs h"
    and "cached_inode fs' hash = (if n < 16 then Some (ic_inode e) else None)"
    and "16 \<le> n \<Longrightarrow> cached_inode fs hash = None"
proof -
  have t: "icache_tagged fs" "icache_tagged fs'" using inv inv' by (simp_all add: icache_inv_def)
  show "cached_inode fs' h = cached_inode fs h" if h: "h \<noteq> hash"
  proof -
    have "icache_lookup fs' h = Some idx \<longleftrightarrow> icache_lookup fs h = Some idx" for idx
    proof
      assume "icache_lookup fs' h = Some idx"
      then obtain m where m: "m < 16" "sits_at fs' h m idx" by (auto simp: lookup_iff [OF t(2)])
      then have "unat idx < unat (icache_cap fs)" using probe_pos_less [OF inv', of h m] by (simp add: sits_at_def cap)
      from put_at_back [OF a inv h m(2) this] show "icache_lookup fs h = Some idx" using m by (auto simp: lookup_iff [OF t(1)])
    next
      assume "icache_lookup fs h = Some idx"
      then show "icache_lookup fs' h = Some idx"
        using put_at_other(1) [OF a h] by (auto simp: lookup_iff [OF t(1)] lookup_iff [OF t(2)])
    qed
    then have l: "icache_lookup fs' h = icache_lookup fs h" by (metis not_Some_eq)
    have "icache fs' (unat idx) = icache fs (unat idx)" if "icache_lookup fs h = Some idx" for idx
      using that put_at_other(2) [OF a h] by (auto simp: lookup_iff [OF t(1)])
    then show ?thesis by (cases "icache_lookup fs h") (simp_all add: cached_inode_def l)
  qed
  have s: "sits_at fs' hash n p" by (rule put_at_sits [OF a])
  have e: "icache fs' (unat p) = e" using a by (simp add: put_at_def)
  show "cached_inode fs' hash = (if n < 16 then Some (ic_inode e) else None)"
  proof (cases "n < 16")
    case True
    then have "icache_lookup fs' hash = Some p" using s by (auto simp: lookup_iff [OF t(2)])
    then show ?thesis using True e by (simp add: cached_inode_def)
  next
    case False
    have "icache_lookup fs' hash \<noteq> Some idx" for idx
      using False sits_at_unique [OF s] unfolding lookup_iff [OF t(2)] by blast
    then have "icache_lookup fs' hash = None" by (cases "icache_lookup fs' hash") auto
    then show ?thesis using False by (simp add: cached_inode_def)
  qed
  show "cached_inode fs hash = None" if n: "16 \<le> n"
  proof -
    have "\<not> sits_at fs hash m idx" if "m < 16" for m idx
      using that n a unfolding sits_at_def put_at_def first_usable_def taken_def by (metis less_le_trans)
    then have "icache_lookup fs hash \<noteq> Some idx" for idx unfolding lookup_iff [OF t(1)] by blast
    then have "icache_lookup fs hash = None" by (cases "icache_lookup fs hash") auto
    then show ?thesis by (simp add: cached_inode_def)
  qed
qed

text \<open>What a put does to the slots: one slot now has the hash, and is marked as changed; the others are as before, and where they were.\<close>

definition same_slots :: "xxfs \<Rightarrow> xxfs \<Rightarrow> bool" where
  "same_slots fs fs' \<longleftrightarrow> icache fs' = icache fs \<and> icache_mask fs' = icache_mask fs \<and> icache_cap fs' = icache_cap fs"

definition slot_kept :: "xxfs \<Rightarrow> u64 \<Rightarrow> xxfs \<Rightarrow> nat \<Rightarrow> bool" where
  "slot_kept fs hash fs' i \<longleftrightarrow> in_use fs i \<and> icache fs' i = icache fs i \<and> ic_hash (icache fs i) \<noteq> hash \<and>
     (\<forall>n. sits_at fs (ic_hash (icache fs i)) n (of_nat i) \<longrightarrow> sits_at fs' (ic_hash (icache fs i)) n (of_nat i))"

definition slot_put :: "xxfs \<Rightarrow> u64 \<Rightarrow> bytes \<Rightarrow> xxfs \<Rightarrow> nat \<Rightarrow> bool" where
  "slot_put fs hash key fs' i \<longleftrightarrow> i < unat (icache_cap fs) \<and> ic_hash (icache fs' i) = hash \<and> ic_dirty (icache fs' i) \<and>
     (if in_use fs i then ic_hash (icache fs i) = hash \<and> ic_key (icache fs' i) = ic_key (icache fs i)
      else fault_free (img fs) \<longrightarrow> ic_key (icache fs' i) = Some key) \<and>
     (icache_near fs hash \<longrightarrow> (\<exists>n < 16. sits_at fs' hash n (of_nat i)))"

definition cache_step :: "xxfs \<Rightarrow> u64 \<Rightarrow> bytes \<Rightarrow> xxfs \<Rightarrow> bool" where
  "cache_step fs hash key fs' \<longleftrightarrow> icache_cap fs' = icache_cap fs \<and> (\<forall>i. in_use fs' i \<and> i < unat (icache_cap fs) \<longrightarrow> slot_kept fs hash fs' i \<or> slot_put fs hash key fs' i) \<and>
     (\<forall>i. unat (icache_cap fs) \<le> i \<longrightarrow> icache fs' i = icache fs i)"

lemma same_slots_sits: "same_slots fs fs' \<Longrightarrow> sits_at fs' = sits_at fs \<and> in_use fs' = in_use fs \<and> icache_near fs' = icache_near fs"
proof -
  assume s: "same_slots fs fs'"
  then have e: "icache fs' = icache fs" "icache_mask fs' = icache_mask fs" by (simp_all add: same_slots_def)
  have p: "probe_pos fs' = probe_pos fs" using probe_pos_cong [OF e(2)] by (simp add: fun_eq_iff)
  have "icache_home fs' = icache_home fs" "taken fs' = taken fs" "in_use fs' = in_use fs"
    using e by (simp_all add: icache_home_def taken_def in_use_def fun_eq_iff)
  then show ?thesis using e p by (simp add: sits_at_def icache_near_def first_usable_def fun_eq_iff)
qed

lemma cache_step_cong:
  assumes "cache_step fs hash key fs'" and "same_slots g fs" and "same_slots fs' g'" and "fault_free (img fs) = fault_free (img g)"
  shows "cache_step g hash key g'"
proof -
  have e: "icache fs = icache g" "icache_cap fs = icache_cap g" "icache g' = icache fs'" "icache_cap g' = icache_cap fs'"
    using assms(2,3) by (simp_all add: same_slots_def)
  have t: "sits_at fs = sits_at g" "in_use fs = in_use g" "icache_near fs = icache_near g" "sits_at g' = sits_at fs'" "in_use g' = in_use fs'"
    using same_slots_sits [OF assms(2)] same_slots_sits [OF assms(3)] by simp_all
  have "slot_kept g hash g' = slot_kept fs hash fs'" "slot_put g hash key g' = slot_put fs hash key fs'"
    by (simp_all add: fun_eq_iff slot_kept_def slot_put_def e t assms(4))
  then show ?thesis using assms(1) e t by (simp add: cache_step_def)
qed

lemma put_at_step:
  assumes a: "put_at fs fs' hash n p e" and inv: "icache_inv fs" and cap: "icache_cap fs' = icache_cap fs" and e: "e = put_entry fs hash key ino p"
  shows "cache_step fs hash key fs'"
  unfolding cache_step_def
proof (intro conjI allI impI)
  have pc: "unat p < unat (icache_cap fs)" using a probe_pos_less [OF inv] by (simp add: put_at_def)
  show "icache_cap fs' = icache_cap fs" by (rule cap)
  show "icache fs' i = icache fs i" if "unat (icache_cap fs) \<le> i" for i using put_atD(6) [OF a, of i] pc that by (cases "i = unat p") auto
  fix i assume i: "in_use fs' i \<and> i < unat (icache_cap fs)"
  have "unat (icache_cap fs) < 2 ^ 32" using unsigned_less [of "icache_cap fs"] by simp
  then have ui: "unat (of_nat i :: u32) = i" using i by (simp add: unat_of_nat)
  show "slot_kept fs hash fs' i \<or> slot_put fs hash key fs' i"
  proof (cases "i = unat p")
    case True
    have ei: "icache fs' i = e" using a True by (simp add: put_at_def)
    have "n < 16" if "icache_near fs hash" using that a first_usable_unique unfolding icache_near_def put_at_def by blast
    then have "icache_near fs hash \<longrightarrow> (\<exists>n < 16. sits_at fs' hash n (of_nat i))" using put_at_sits [OF a] True by auto
    moreover have "ic_dirty e" using e by (simp add: put_entry_def Let_def)
    moreover have "if in_use fs i then ic_hash (icache fs i) = hash \<and> ic_key e = ic_key (icache fs i) else fault_free (img fs) \<longrightarrow> ic_key e = Some key"
      using put_atD(3) [OF a] fs_alloc_ok [of fs] True e by (auto simp: put_entry_def Let_def in_use_def)
    ultimately have "slot_put fs hash key fs' i" using ei i a by (auto simp: slot_put_def put_at_def)
    then show ?thesis ..
  next
    case False
    then have k: "in_use fs i" "icache fs' i = icache fs i" using put_atD(4,6) [OF a] i by auto
    obtain m where m: "sits_at fs (ic_hash (icache fs i)) m (of_nat i)" using icache_inv_sits [OF inv] i k(1) by blast
    have h: "ic_hash (icache fs i) \<noteq> hash"
    proof
      assume h: "ic_hash (icache fs i) = hash"
      have "m \<noteq> n" using m h a False ui by (auto simp: sits_at_def put_at_def)
      then consider "m < n" | "n < m" by linarith
      then show False using m h a unfolding sits_at_def put_at_def first_usable_def taken_def by cases metis+
    qed
    then have "slot_kept fs hash fs' i" using k put_at_other(1) [OF a h] by (simp add: slot_kept_def)
    then show ?thesis ..
  qed
qed

lemma icache_onlyD:
  assumes "icache_only fs fs'"
  shows "icache_cap fs' = icache_cap fs" "icache_mask fs' = icache_mask fs" "dcache fs' = dcache fs" "flags fs' = flags fs"
    "cow_gen fs' = cow_gen fs" "sb fs' = sb fs" "pdir fs' = pdir fs" "pcache fs' = pcache fs" "mounted fs' = mounted fs"
    "\<exists>n. img fs' = (img fs)\<lparr>os_calls := n\<rparr>"
  using assms by (auto simp: icache_only_def)

text \<open>The law of \<^verbatim>\<open>icache_put\<close>: the inode is cached, or the cache still has nothing for the hash because the first
  sixteen steps of its probe sequence are taken; other hashes are not affected.\<close>

lemma icache_put_law:
  assumes inv: "icache_inv fs" and room: "icache_room fs (Suc k)"
  obtains fs' where "icache_put fs hash key ino = Some fs'" and "icache_inv fs'" and "icache_room fs' k" and "icache_only fs fs'"
    and "\<And>h. h \<noteq> hash \<Longrightarrow> cached_inode fs' h = cached_inode fs h"
    and "cached_inode fs' hash = Some ino \<or> (cached_inode fs' hash = None \<and> cached_inode fs hash = None)"
    and "icache_near fs hash \<Longrightarrow> cached_inode fs' hash = Some ino" and "cache_step fs hash key fs'"
proof -
  have room1: "icache_room fs 1" using room by (simp add: icache_room_def)
  obtain fs' n p e where f: "icache_put fs hash key ino = Some fs'" "put_at fs fs' hash n p e" "n < unat (icache_cap fs)"
    "ic_inode e = ino" "e = put_entry fs hash key ino p" "icache_only fs fs'"
    "icache_count fs' = (if in_use fs (unat p) then icache_count fs else icache_count fs + 1)"
    by (rule icache_put_at [OF inv room1])
  note cap = icache_onlyD(1) [OF f(6)]
  have inv': "icache_inv fs'" by (rule put_at_inv [OF f(2) inv room1 f(3) cap f(7)])
  have "unat (icache_count fs + 1) = unat (icache_count fs) + 1"
    using room by (subst unat_add_nowrap) (simp_all add: icache_room_def icache_consts)
  then have "icache_room fs' k" using room f(7) cap by (simp add: icache_room_def)
  moreover have "n < 16" if "icache_near fs hash"
    using that f(2) first_usable_unique unfolding icache_near_def put_at_def by blast
  ultimately show thesis
    using that [OF f(1) inv' _ f(6)] put_at_lookup [OF f(2) inv inv' cap] f(4) put_at_step [OF f(2) inv cap f(5)] by (metis not_le)
qed

section \<open>Deletion\<close>

text \<open>The law of \<^verbatim>\<open>icache_del\<close>: the hash is gone; what a lookup of another hash finds is what it found before, or
  nothing, because the emptied slot may cut its probe sequence.\<close>

lemma icache_del_law:
  assumes inv: "icache_inv fs"
  shows "cached_inode (icache_del fs h) h = None"
    and "cached_inode (icache_del fs h) q = cached_inode fs q \<or> cached_inode (icache_del fs h) q = None"
proof -
  let ?g = "icache_del fs h"
  have m: "icache_mask ?g = icache_mask fs" by (simp add: icache_del_def set_icache_def split: option.split)
  have pp: "probe_pos ?g idx n = probe_pos fs idx n" "icache_home ?g q = icache_home fs q" for idx n q
    using probe_pos_cong [OF m] m by (simp_all add: icache_home_def)
  have keep: "in_use fs i \<and> icache ?g i = icache fs i \<and> (\<forall>idx. icache_lookup fs h = Some idx \<longrightarrow> i \<noteq> unat idx)" if "in_use ?g i" for i
    using that by (auto simp: in_use_def icache_del_def set_icache_def clear_entry_def split: option.splits if_splits)
  have found: "icache_lookup fs q = Some j \<and> q \<noteq> h \<and> icache ?g (unat j) = icache fs (unat j)" if l: "icache_lookup ?g q = Some j" for q j
  proof -
    obtain n where n: "n < 16" "j = probe_pos fs (icache_home fs q) n" and u: "in_use ?g (unat j)" "ic_hash (icache ?g (unat j)) = q"
      and b: "\<forall>k < n. in_use ?g (unat (probe_pos fs (icache_home fs q) k))"
      using probe_stops [OF l [unfolded icache_lookup_def]] unfolding pp taken_def in_use_def by blast
    note kj = keep [OF u(1)]
    have jc: "unat j < unat (icache_cap fs)" using probe_pos_less [OF inv] n(2) by simp
    have uf: "in_use fs (unat j)" "ic_hash (icache fs (unat j)) = q" using kj u(2) by simp_all
    obtain m where mm: "m < unat (icache_cap fs)" "sits_at fs q m j"
      using icache_inv_sits [OF inv jc uf(1)] uf(2) by auto
    have "m \<le> n"
    proof (rule ccontr)
      assume "\<not> m \<le> n"
      then have "taken fs q (probe_pos fs (icache_home fs q) n)" using mm(2) by (simp add: sits_at_def)
      then show False using n(2) uf(2) by (simp add: taken_def)
    qed
    then have lf: "icache_lookup fs q = Some j"
      using mm(2) n(1) lookup_iff [of fs q j] inv unfolding icache_inv_def by (metis le_less_trans)
    then have "q \<noteq> h" using kj by auto
    with lf kj show ?thesis by blast
  qed
  show "cached_inode ?g h = None"
    using found [of h] by (cases "icache_lookup ?g h") (auto simp: cached_inode_def)
  show "cached_inode ?g q = cached_inode fs q \<or> cached_inode ?g q = None"
    using found [of q] by (cases "icache_lookup ?g q") (auto simp: cached_inode_def)
qed

lemma icache_del_frame:
  "\<exists>c k. icache_del fs h = fs\<lparr>icache := c, icache_count := k\<rparr>"
proof (cases "icache_lookup fs h")
  case None
  then show ?thesis by (intro exI [of _ "icache fs"] exI [of _ "icache_count fs"]) (simp add: icache_del_def)
next
  case (Some idx)
  then show ?thesis unfolding icache_del_def set_icache_def by auto
qed

text \<open>No entry has been put behind the one of the hash: no probe sequence on its way to an entry runs over that slot.\<close>

definition icache_lone :: "xxfs \<Rightarrow> u64 \<Rightarrow> bool" where
  "icache_lone fs h \<longleftrightarrow> (\<forall>idx q n j m. icache_lookup fs h = Some idx \<and> sits_at fs q n j \<and> m < n \<longrightarrow>
     probe_pos fs (icache_home fs q) m \<noteq> idx)"

lemma icache_del_slots:
  assumes "icache_lookup fs h = Some idx"
  shows "in_use (icache_del fs h) i \<longleftrightarrow> in_use fs i \<and> i \<noteq> unat idx" and "i \<noteq> unat idx \<Longrightarrow> icache (icache_del fs h) i = icache fs i"
    and "probe_pos (icache_del fs h) = probe_pos fs" and "icache_home (icache_del fs h) = icache_home fs"
    and "icache_cap (icache_del fs h) = icache_cap fs" and "icache_mask (icache_del fs h) = icache_mask fs"
    and "icache_count (icache_del fs h) = icache_count fs - 1"
proof -
  show m: "icache_mask (icache_del fs h) = icache_mask fs" using assms by (simp add: icache_del_def set_icache_def)
  show "probe_pos (icache_del fs h) = probe_pos fs" using probe_pos_cong [OF m] by (simp add: fun_eq_iff)
  show "icache_home (icache_del fs h) = icache_home fs" using m by (simp add: icache_home_def fun_eq_iff)
qed (use assms in \<open>auto simp: icache_del_def set_icache_def in_use_def clear_entry_def\<close>)

lemma icache_del_sits:
  assumes l: "icache_lone fs h" and i: "icache_lookup fs h = Some idx" and s: "sits_at fs q n j" and j: "j \<noteq> idx"
  shows "sits_at (icache_del fs h) q n j"
proof -
  note d = icache_del_slots [OF i]
  have ne: "unat j \<noteq> unat idx" using j by (simp add: word_unat_eq_iff)
  have "taken (icache_del fs h) q (probe_pos fs (icache_home fs q) m)" if m: "m < n" for m
  proof -
    have "probe_pos fs (icache_home fs q) m \<noteq> idx" using l i s m unfolding icache_lone_def by blast
    then have "unat (probe_pos fs (icache_home fs q) m) \<noteq> unat idx" by (simp add: word_unat_eq_iff)
    then show ?thesis using d(2) s m by (simp add: taken_def sits_at_def)
  qed
  then show ?thesis using s ne d(2) [OF ne] by (auto simp: sits_at_def d(1,3,4))
qed

text \<open>Deleting such an entry takes away this entry only, and keeps the invariant.\<close>

lemma icache_del_lone:
  assumes inv: "icache_inv fs" and l: "icache_lone fs h"
  shows "icache_inv (icache_del fs h)" and "q \<noteq> h \<Longrightarrow> cached_inode (icache_del fs h) q = cached_inode fs q"
    and "icache_room fs k \<Longrightarrow> icache_room (icache_del fs h) k"
proof -
  have "icache_inv (icache_del fs h) \<and> (q \<noteq> h \<longrightarrow> cached_inode (icache_del fs h) q = cached_inode fs q) \<and>
    (icache_room fs k \<longrightarrow> icache_room (icache_del fs h) k)"
  proof (cases "icache_lookup fs h")
    case None
    then show ?thesis using inv by (simp add: icache_del_def)
  next
    case (Some idx)
    let ?g = "icache_del fs h" and ?c = "unat (icache_cap fs)"
    note d = icache_del_slots [OF Some] and i = inv [unfolded icache_inv_def]
    have tf: "icache_tagged fs" using i by blast
    obtain n where s: "sits_at fs h n idx" using Some lookup_iff [OF tf] by blast
    have idx: "unat idx < ?c" "in_use fs (unat idx)" "ic_hash (icache fs (unat idx)) = h"
      using s probe_pos_less [OF inv] by (auto simp: sits_at_def)
    have tg: "icache_tagged ?g" using tf d(1,2) unfolding icache_tagged_def in_use_def by metis
    have "{i. i < ?c \<and> in_use ?g i} = {i. i < ?c \<and> in_use fs i} - {unat idx}" using d(1) by auto
    moreover have "unat idx \<in> {i. i < ?c \<and> in_use fs i}" using idx by simp
    ultimately have card: "card {i. i < ?c \<and> in_use ?g i} = unat (icache_count fs) - 1" "0 < unat (icache_count fs)"
      using i by (auto simp: card_gt_0_iff)
    then have cnt: "unat (icache_count ?g) = unat (icache_count fs) - 1" by (simp add: d(7) unat_minus_one unat_gt_0)
    have "\<exists>n < ?c. sits_at ?g (ic_hash (icache ?g j)) n (of_nat j)" if j: "j < ?c" "in_use ?g j" for j
    proof -
      have n: "j \<noteq> unat idx" "in_use fs j" using j(2) d(1) by simp_all
      have "?c < 2 ^ 32" using unsigned_less [of "icache_cap fs"] by simp
      then have "unat (of_nat j :: u32) = j" using j(1) by (simp add: unat_of_nat)
      then have "of_nat j \<noteq> idx" using n(1) by auto
      then show ?thesis using icache_inv_sits [OF inv j(1) n(2)] icache_del_sits [OF l Some] d(2) [OF n(1)] by auto
    qed
    then have "icache_inv ?g" using i tg cnt card by (simp add: icache_inv_def d(5,6))
    moreover have "cached_inode ?g q = cached_inode fs q" if q: "q \<noteq> h"
    proof (cases "icache_lookup fs q")
      case None
      then show ?thesis using icache_del_law(2) [OF inv, of h q] by (auto simp: cached_inode_def)
    next
      case (Some j)
      then obtain n where n: "n < 16" "sits_at fs q n j" using lookup_iff [OF tf] by blast
      have j: "j \<noteq> idx" using n(2) idx(3) q by (auto simp: sits_at_def)
      then have "icache_lookup ?g q = Some j" using n icache_del_sits [OF l \<open>icache_lookup fs h = Some idx\<close> n(2)] lookup_iff [OF tg] by blast
      moreover have "unat j \<noteq> unat idx" using j by (simp add: word_unat_eq_iff)
      ultimately show ?thesis using Some d(2) by (simp add: cached_inode_def)
    qed
    moreover have "icache_room fs k \<longrightarrow> icache_room ?g k" using cnt by (auto simp: icache_room_def d(5))
    ultimately show ?thesis by blast
  qed
  then show "icache_inv (icache_del fs h)" "q \<noteq> h \<Longrightarrow> cached_inode (icache_del fs h) q = cached_inode fs q"
    "icache_room fs k \<Longrightarrow> icache_room (icache_del fs h) k" by blast+
qed

text \<open>An entry that has just been put into an empty slot is such an entry: no probe sequence ran over that slot before.\<close>

lemma icache_put_lone:
  assumes inv: "icache_inv fs" and room: "icache_room fs 1" and l: "icache_lookup fs hash = None" and p: "icache_put fs hash key ino = Some fs'"
  shows "icache_lone fs' hash"
proof -
  obtain n pos e where a: "put_at fs fs' hash n pos e" "icache_only fs fs'"
    by (rule icache_put_at [OF inv room, of hash key ino]) (use p in simp)
  note cap = icache_onlyD(1) [OF a(2)]
  have tf: "icache_tagged fs" using inv by (simp add: icache_inv_def)
  have "probe_pos fs' (icache_home fs' q) m \<noteq> idx" if h: "icache_lookup fs' hash = Some idx" "sits_at fs' q k j" "m < k" for idx q k j m
  proof
    assume e: "probe_pos fs' (icache_home fs' q) m = idx"
    obtain n' where n': "n' < 16" "sits_at fs' hash n' idx" using h(1) lookup_iff [OF put_atD(5) [OF a(1)]] by blast
    have i: "n' = n" "idx = pos" using sits_at_unique [OF n'(2) put_at_sits [OF a(1)]] by auto
    have t: "taken fs' q pos" using h(2,3) e i(2) by (auto simp: sits_at_def)
    have qh: "q \<noteq> hash" using t a(1) by (auto simp: taken_def put_at_def)
    have jp: "unat j \<noteq> unat pos" using h(2) qh a(1) by (auto simp: sits_at_def put_at_def)
    have uj: "in_use fs (unat j)" "ic_hash (icache fs (unat j)) = q" "unat j < unat (icache_cap fs)"
      using h(2) jp put_atD(4,6) [OF a(1)] probe_pos_less [OF inv] by (auto simp: sits_at_def put_atD(1,2) [OF a(1)])
    obtain k' where k': "sits_at fs q k' j" using icache_inv_sits [OF inv uj(3,1)] uj(2) by auto
    have "k' = k" using sits_at_unique [OF put_at_other(1) [OF a(1) qh k'] h(2)] by simp
    then have "in_use fs (unat pos)"
      using k' h(3) e i(2) by (auto simp: sits_at_def taken_def in_use_def put_atD(1,2) [OF a(1)])
    then have "sits_at fs hash n pos" using a(1) put_atD(3) [OF a(1)] by (auto simp: sits_at_def put_at_def first_usable_def)
    then have "icache_lookup fs hash = Some pos" using lookup_iff [OF tf] n'(1) i(1) by blast
    then show False using l by simp
  qed
  then show ?thesis unfolding icache_lone_def by blast
qed

lemma icache_lone_cong:
  assumes "same_slots fs fs'"
  shows "icache_lone fs' = icache_lone fs"
proof -
  have e: "icache fs' = icache fs" "icache_mask fs' = icache_mask fs" using assms by (simp_all add: same_slots_def)
  have "icache_probe k fs' h idx = icache_probe k fs h idx" for k h idx
    using e by (induction k arbitrary: idx) (simp_all add: Let_def)
  then show ?thesis
    using same_slots_sits [OF assms] probe_pos_cong [OF e(2)] e by (simp add: icache_lone_def icache_lookup_def icache_home_def fun_eq_iff)
qed

text \<open>So is the only entry of the cache.\<close>

lemma icache_lone_only:
  assumes inv: "icache_inv fs" and o: "\<And>i. i < unat (icache_cap fs) \<Longrightarrow> in_use fs i \<Longrightarrow> ic_hash (icache fs i) = h"
  shows "icache_lone fs h"
proof -
  have "ic_hash (icache fs (unat (probe_pos fs (icache_home fs q) m))) = h" if "in_use fs (unat (probe_pos fs (icache_home fs q) m))" for q m
    using o [OF probe_pos_less [OF inv] that] .
  then have "\<not> (sits_at fs q n j \<and> m < n)" for q n j m unfolding sits_at_def taken_def in_use_def by metis
  then show ?thesis unfolding icache_lone_def by blast
qed

end
