(* ===== verification/Fs_View.thy ===== *)
theory Fs_View
  imports Fs_Frame Icache_Laws File_Io
begin

text \<open>
  The mounted file system as a map from normalised paths to inodes. An inode is looked up by the hash of its
  path in the inode cache, and in the index when it is not there; \<open>inode_view\<close> is that map. The laws below say
  what the two layers do to it, and the operations of the library are specified over it.
\<close>

section \<open>The view\<close>

definition decode :: "bytes \<Rightarrow> xxfs_inode" where
  "decode v = snd (inode_verify_ecc (val_to_inode v))"

definition index_inode :: "xxfs \<Rightarrow> bytes \<Rightarrow> xxfs_inode option" where
  "index_inode fs p = map_option decode (index_abs fs p)"

definition inode_view :: "xxfs \<Rightarrow> bytes \<Rightarrow> xxfs_inode option" where
  "inode_view fs p = (case cached_inode fs (xxh64 p) of None \<Rightarrow> index_inode fs p | Some ino \<Rightarrow> Some ino)"

definition inode_sized :: "xxfs \<Rightarrow> bool" where
  "inode_sized fs \<longleftrightarrow> (\<forall>p v. index_abs fs p = Some v \<longrightarrow> length v = INODE_SIZE)"

text \<open>The invariant of the stored inodes, and with it that of the inode cache, which deletions break.\<close>

definition fs_base :: "xxfs \<Rightarrow> bool" where
  "fs_base fs \<longleftrightarrow> index_ok fs \<and> inode_sized fs"

definition fs_inv :: "xxfs \<Rightarrow> bool" where
  "fs_inv fs \<longleftrightarrow> fs_base fs \<and> icache_inv fs"

text \<open>Two paths that the inode cache can tell apart.\<close>

definition apart :: "bytes \<Rightarrow> bytes \<Rightarrow> bool" where
  "apart p q \<longleftrightarrow> xxh64 p \<noteq> xxh64 q"

text \<open>The index holds the same pairs.\<close>

definition same_index :: "xxfs \<Rightarrow> xxfs \<Rightarrow> bool" where
  "same_index fs fs' \<longleftrightarrow> index_ok fs' \<and> index_abs fs' = index_abs fs \<and> index_unique fs' = index_unique fs \<and>
     chain_kv fs' = chain_kv fs \<and> free_blocks fs' = free_blocks fs \<and> index_spares fs fs' \<and> pdir fs' = pdir fs"

lemma same_index_trans: "same_index a b \<Longrightarrow> same_index b c \<Longrightarrow> same_index a c"
  unfolding same_index_def using index_spares_trans by metis

lemma same_indexD:
  assumes "same_index fs fs'"
  shows "index_ok fs'" "index_abs fs' = index_abs fs" "index_inode fs' = index_inode fs"
    "index_unique fs' = index_unique fs" "chain_kv fs' = chain_kv fs" "inode_sized fs' = inode_sized fs"
    "free_blocks fs' = free_blocks fs" "index_spares fs fs'" "room fs' = room fs" "pdir fs' = pdir fs"
  using assms by (simp_all add: same_index_def index_inode_def inode_sized_def room_def fun_eq_iff)

lemma fs_invD:
  assumes "fs_inv fs"
  shows "index_ok fs" "inode_sized fs" "icache_inv fs" "fs_base fs"
  using assms by (simp_all add: fs_inv_def fs_base_def)

lemma fs_baseD: "fs_base fs \<Longrightarrow> index_ok fs" "fs_base fs \<Longrightarrow> inode_sized fs"
  by (simp_all add: fs_base_def)

lemma decode_sealed: "wf_inode ino \<Longrightarrow> decode (inode_to_val (inode_set_checksum_ecc ino)) = inode_set_checksum_ecc ino"
  using seal_crc [of ino] inode_codec.dec_enc [OF wf_seal [of ino]]
  by (simp add: decode_def inode_to_val_def val_to_inode_def inode_verify_ecc_def)

lemma sealed_fields:
  assumes "wf_inode ino"
  shows "i_file_type (inode_set_checksum_ecc ino) = i_file_type ino" "i_mode (inode_set_checksum_ecc ino) = i_mode ino"
    "i_size (inode_set_checksum_ecc ino) = i_size ino" "i_blocks (inode_set_checksum_ecc ino) = i_blocks ino"
    "i_inline (inode_set_checksum_ecc ino) = i_inline ino" "i_uid (inode_set_checksum_ecc ino) = i_uid ino"
    "i_gid (inode_set_checksum_ecc ino) = i_gid ino" "i_name (inode_set_checksum_ecc ino) = i_name ino"
    "i_nlinks (inode_set_checksum_ecc ino) = i_nlinks ino"
proof -
  obtain e c where s: "inode_set_checksum_ecc ino = ino\<lparr>i_checksum := c, i_ecc := e\<rparr>"
    using seal_fields [OF assms] by blast
  show "i_file_type (inode_set_checksum_ecc ino) = i_file_type ino" "i_mode (inode_set_checksum_ecc ino) = i_mode ino"
    "i_size (inode_set_checksum_ecc ino) = i_size ino" "i_blocks (inode_set_checksum_ecc ino) = i_blocks ino"
    "i_inline (inode_set_checksum_ecc ino) = i_inline ino" "i_uid (inode_set_checksum_ecc ino) = i_uid ino"
    "i_gid (inode_set_checksum_ecc ino) = i_gid ino" "i_name (inode_set_checksum_ecc ino) = i_name ino"
    "i_nlinks (inode_set_checksum_ecc ino) = i_nlinks ino"
    by (simp_all add: s)
qed

lemma dec_le_zeros [simp]: "dec_le (replicate n 0) = 0"
  by (induction n) simp_all

lemma zero_inode_fields: "i_size zero_inode = 0" "i_blocks zero_inode = 0" "i_inline zero_inode = zeros 128" "i_name zero_inode = zeros 256"
  by (simp_all add: zero_inode_def dec_inode_def INODE_SIZE_def fld_def zeros_def)

lemma length_ecc_loop:
  "\<forall>i \<in> set is. 8 * i + 8 \<le> length m \<Longrightarrow> ecc_correct_loop is stored computed c m = (r, m') \<Longrightarrow> length m' = length m"
proof (induction "is" arbitrary: c m)
  case (Cons i "is")
  have l: "length (buf_put (8 * i) (enc_le 8 w) m) = length m" for w :: u64
    using Cons.prems(1) by (simp add: length_buf_put)
  show ?case
    using Cons.prems Cons.IH [of m] Cons.IH [of "buf_put (8 * i) (enc_le 8 w) m" for w] by (auto simp: Let_def l split: if_splits)
qed (auto split: if_splits)

lemma wf_decode:
  assumes "length v = INODE_SIZE"
  shows "wf_inode (decode v)"
proof -
  have l: "length v = 560" using assms by (simp add: INODE_SIZE_def)
  obtain r m where c: "xxfs_os_ecc_correct v INO_ECC_OFF INO_ECC_OFF = (r, m)" by fastforce
  have "length m = 560"
    using length_ecc_loop [OF _ c [unfolded xxfs_os_ecc_correct_def]] l by (simp add: inode_nwords)
  then show ?thesis
    using l c inode_codec.wf_dec inode_codec.enc_dec [OF l]
    by (auto simp: decode_def val_to_inode_def inode_verify_ecc_def Let_def)
qed

lemma length_inode_to_val: "wf_inode ino \<Longrightarrow> length (inode_to_val ino) = INODE_SIZE"
  using inode_codec.enc_length by (simp add: inode_to_val_def INODE_SIZE_def)

section \<open>What the layers do to the view\<close>

text \<open>Changes outside the inode cache and the core of the index.\<close>

lemma cached_cong:
  assumes "icache fs' = icache fs" and "icache_mask fs' = icache_mask fs"
  shows "cached_inode fs' = cached_inode fs"
proof -
  have "icache_probe k fs' h idx = icache_probe k fs h idx" for k h idx
    using assms by (induction k arbitrary: idx) (simp_all add: Let_def)
  then show ?thesis using assms by (simp add: cached_inode_def icache_lookup_def icache_home_def fun_eq_iff)
qed

lemma icache_inv_cong:
  assumes "icache fs' = icache fs" and "icache_mask fs' = icache_mask fs" and "icache_cap fs' = icache_cap fs"
    and "icache_count fs' = icache_count fs"
  shows "icache_inv fs' = icache_inv fs" "icache_room fs' = icache_room fs" "icache_near fs' = icache_near fs"
proof -
  have u: "in_use fs' = in_use fs" using assms by (simp add: in_use_def fun_eq_iff)
  have h: "icache_home fs' = icache_home fs" using assms by (simp add: icache_home_def fun_eq_iff)
  have p: "probe_pos fs' idx n = probe_pos fs idx n" for idx n by (rule probe_pos_cong [OF assms(2)])
  have t: "taken fs' = taken fs" using assms by (simp add: taken_def fun_eq_iff)
  have "sits_at fs' = sits_at fs" unfolding sits_at_def u h p t assms(1) by simp
  then show "icache_inv fs' = icache_inv fs" unfolding icache_inv_def u assms by (simp add: icache_tagged_def assms)
  show "icache_room fs' = icache_room fs" by (simp add: icache_room_def assms fun_eq_iff)
  show "icache_near fs' = icache_near fs" unfolding icache_near_def first_usable_def h p t by simp
qed

lemma rest_icache:
  assumes "rest fs' = rest fs"
  shows "cached_inode fs' = cached_inode fs" "icache_inv fs' = icache_inv fs" "icache_room fs' = icache_room fs"
    "icache_near fs' = icache_near fs"
proof -
  note r = restD [OF assms]
  show "cached_inode fs' = cached_inode fs" by (rule cached_cong [OF r(1,4)])
  show "icache_inv fs' = icache_inv fs" "icache_room fs' = icache_room fs" "icache_near fs' = icache_near fs"
    by (rule icache_inv_cong [OF r(1,4,2,3)])+
qed

lemma rest_slots: "rest fs' = rest fs \<Longrightarrow> same_slots fs fs'"
  using restD [of fs' fs] by (simp add: same_slots_def)

lemma same_slots_refl [simp]: "same_slots fs fs"
  by (simp add: same_slots_def)

lemma same_slots_trans: "same_slots a b \<Longrightarrow> same_slots b c \<Longrightarrow> same_slots a c"
  by (simp add: same_slots_def)

lemma index_fault_free: "index_ok fs \<Longrightarrow> fault_free (img fs)"
  using pages_invD(1) [OF index_okD(3)] by (simp add: pc_inv_def)

text \<open>What an operation that looks up the path \<open>p\<close> does to the inode cache: nothing, or one put.\<close>

definition cache_move :: "xxfs \<Rightarrow> bytes \<Rightarrow> xxfs \<Rightarrow> bool" where
  "cache_move fs p fs' \<longleftrightarrow> same_slots fs fs' \<or> cache_step fs (xxh64 p) p fs'"

lemma cache_move_cong:
  assumes "cache_move fs p fs'" and "same_slots g fs" and "same_slots fs' g'" and "index_ok fs" and "index_ok g"
  shows "cache_move g p g'"
  using assms cache_step_cong [OF _ assms(2,3)] same_slots_trans index_fault_free unfolding cache_move_def by metis

lemma view_cong:
  assumes "cached_inode fs' = cached_inode fs" and "index_abs fs' = index_abs fs"
  shows "inode_view fs' = inode_view fs"
  unfolding inode_view_def index_inode_def assms ..

lemma icache_only_calm: "icache_only fs fs' \<Longrightarrow> calm fs fs'"
  using icache_onlyD by (auto simp: calm_def alloc_same_def)

lemma calm_same: "calm fs fs' \<Longrightarrow> index_ok fs \<Longrightarrow> same_index fs fs'"
  using calm_index [of fs fs'] by (simp add: same_index_def) (simp add: calm_def)

text \<open>Loading an inode from the index.\<close>

lemma inode_paged_get_law:
  assumes inv: "fs_base fs" and len: "length p < 2 ^ 32"
  obtains fs' where
    "inode_paged_get fs p = Some (case index_inode fs p of None \<Rightarrow> Inl XXFS_ENOENT | Some ino \<Rightarrow> Inr ino, fs')"
    and "fs_base fs'" and "same_index fs fs'" and "rest fs' = rest fs" and "sb fs' = sb fs"
    and "inode_view fs' = inode_view fs"
proof -
  have ok: "index_ok fs" by (rule fs_baseD(1) [OF inv])
  have cap: "unat (of_nat INODE_SIZE :: u32) = 560" by (simp add: INODE_SIZE_def)
  obtain fs' where g: "paged_get fs p (of_nat INODE_SIZE) = Some (get_result p (of_nat INODE_SIZE) (chain_kv fs p), fs')"
    and q: "quiet (pages_of (dir_chains fs)) fs fs'"
    by (rule paged_get_ok [OF ok len])
  note i = index_quiet [OF ok q] and kv = quiet_index [OF index_okD(1) [OF ok] q]
  have gr: "get_result p (of_nat INODE_SIZE) (chain_kv fs p) = (case index_abs fs p of None \<Rightarrow> Inl XXFS_ENOENT | Some v \<Rightarrow> Inr v)"
    using fs_baseD(2) [OF inv] cap
    by (auto simp: get_result_def index_abs_def inode_sized_def INODE_SIZE_def split: option.split)
  have gi: "inode_paged_get fs p = Some (case index_inode fs p of None \<Rightarrow> Inl XXFS_ENOENT | Some ino \<Rightarrow> Inr ino, fs')"
    using fs_baseD(2) [OF inv] g
    by (auto simp: inode_paged_get_def gr index_inode_def decode_def inode_sized_def into_buf_full split: option.split)
  have r: "rest fs' = rest fs" using rest_paged_get [OF g] .
  have c: "dir_chains fs' = dir_chains fs" using kv index_okI by blast
  have ck: "chain_kv fs' = chain_kv fs"
    using kv index_okD(5) [OF ok] quiet_sb [OF q] by (simp add: chain_kv_def key_idx_def c fun_eq_iff)
  have "fs_base fs'" using inv i by (simp add: fs_base_def inode_sized_def)
  moreover have "inode_view fs' = inode_view fs"
    using i by (intro view_cong rest_icache(1) [OF r]) simp
  moreover have "same_index fs fs'" using i ck quiet_sb [OF q] by (simp add: same_index_def)
  ultimately show thesis using that gi r quiet_sb [OF q] by blast
qed

text \<open>Caching an inode.\<close>

lemma icache_put_view:
  assumes inv: "fs_inv fs" and room: "icache_room fs (Suc k)"
  obtains fs' where "icache_put fs (xxh64 p) key ino = Some fs'" and "fs_inv fs'" and "icache_room fs' k"
    and "icache_only fs fs'" and "same_index fs fs'"
    and "\<And>q. apart q p \<Longrightarrow> inode_view fs' q = inode_view fs q"
    and "index_inode fs p = Some ino \<or> icache_near fs (xxh64 p) \<Longrightarrow> inode_view fs' p = Some ino"
    and "icache_near fs (xxh64 p) \<Longrightarrow> cached_inode fs' (xxh64 p) = Some ino"
    and "\<And>h. h \<noteq> xxh64 p \<Longrightarrow> cached_inode fs' h = cached_inode fs h" and "cache_step fs (xxh64 p) key fs'"
proof -
  obtain fs' where f: "icache_put fs (xxh64 p) key ino = Some fs'" "icache_inv fs'" "icache_room fs' k" "icache_only fs fs'"
    and oth: "\<And>h. h \<noteq> xxh64 p \<Longrightarrow> cached_inode fs' h = cached_inode fs h"
    and own: "cached_inode fs' (xxh64 p) = Some ino \<or> (cached_inode fs' (xxh64 p) = None \<and> cached_inode fs (xxh64 p) = None)"
    and near: "icache_near fs (xxh64 p) \<Longrightarrow> cached_inode fs' (xxh64 p) = Some ino" and step: "cache_step fs (xxh64 p) key fs'"
    by (rule icache_put_law [where hash = "xxh64 p" and key = key and ino = ino, OF fs_invD(3) [OF inv] room]) blast
  have s: "same_index fs fs'" by (rule calm_same [OF icache_only_calm [OF f(4)] fs_invD(1) [OF inv]])
  note s' = same_indexD [OF s]
  show thesis
  proof (rule that [OF f(1) _ f(3,4) s])
    show "fs_inv fs'" using inv s' f(2) by (simp add: fs_inv_def fs_base_def)
    show "inode_view fs' q = inode_view fs q" if "apart q p" for q
      using that oth s' by (simp add: apart_def inode_view_def split: option.split)
    show "inode_view fs' p = Some ino" if "index_inode fs p = Some ino \<or> icache_near fs (xxh64 p)"
      using that own near s' by (auto simp: inode_view_def)
    show "cached_inode fs' (xxh64 p) = Some ino" if "icache_near fs (xxh64 p)" using that by (rule near)
    show "cached_inode fs' h = cached_inode fs h" if "h \<noteq> xxh64 p" for h using that by (rule oth)
    show "cache_step fs (xxh64 p) key fs'" by (rule step)
  qed
qed

text \<open>The inode of a path, cached on the way.\<close>

lemma fetch_inode_law:
  assumes inv: "fs_inv fs" and room: "icache_room fs (Suc k)" and len: "length p < 2 ^ 32"
  obtains fs' where "fetch_inode fs p = Some (case inode_view fs p of None \<Rightarrow> Inl XXFS_ENOENT | Some ino \<Rightarrow> Inr ino, fs')"
    and "fs_inv fs'" and "icache_room fs' k" and "same_index fs fs'" and "sb fs' = sb fs" and "dcache fs' = dcache fs"
    and "\<And>q. apart q p \<or> q = p \<Longrightarrow> inode_view fs' q = inode_view fs q"
    and "\<And>h. h \<noteq> xxh64 p \<Longrightarrow> cached_inode fs' h = cached_inode fs h" and "cache_move fs p fs'"
proof (cases "icache_lookup fs (xxh64 p)")
  case (Some idx)
  then have "inode_view fs p = Some (ic_inode (icache fs (unat idx)))" by (simp add: inode_view_def cached_inode_def)
  moreover have "same_index fs fs" using fs_invD(1) [OF inv] by (simp add: same_index_def)
  moreover have "icache_room fs k" using room by (simp add: icache_room_def)
  ultimately show thesis using that [of fs] inv Some by (simp add: fetch_inode_def cache_move_def)
next
  case None
  then have v: "inode_view fs p = index_inode fs p" by (simp add: inode_view_def cached_inode_def)
  obtain g where g: "inode_paged_get fs p = Some (case index_inode fs p of None \<Rightarrow> Inl XXFS_ENOENT | Some ino \<Rightarrow> Inr ino, g)"
    "fs_base g" "same_index fs g" "rest g = rest fs" "sb g = sb fs" "inode_view g = inode_view fs"
    by (rule inode_paged_get_law [OF fs_invD(4) [OF inv] len])
  have ig: "fs_inv g" using g(2) fs_invD(3) [OF inv] rest_icache(2) [OF g(4)] by (simp add: fs_inv_def)
  have rg: "icache_room g (Suc k)" using room rest_icache(3) [OF g(4)] by simp
  show thesis
  proof (cases "index_inode fs p")
    case (Some ino)
    obtain fs' where p: "icache_put g (xxh64 p) p ino = Some fs'" "fs_inv fs'" "icache_room fs' k" "icache_only g fs'" "same_index g fs'"
      and oth: "\<And>q. apart q p \<Longrightarrow> inode_view fs' q = inode_view g q"
      and own: "index_inode g p = Some ino \<or> icache_near g (xxh64 p) \<Longrightarrow> inode_view fs' p = Some ino"
      and ch: "\<And>h. h \<noteq> xxh64 p \<Longrightarrow> cached_inode fs' h = cached_inode g h" and st: "cache_step g (xxh64 p) p fs'"
      by (rule icache_put_view [where p = p and key = p and ino = ino, OF ig rg]) blast
    show thesis
    proof (rule that)
      show "fetch_inode fs p = Some (case inode_view fs p of None \<Rightarrow> Inl XXFS_ENOENT | Some ino \<Rightarrow> Inr ino, fs')"
        using None Some g(1) p(1) by (simp add: fetch_inode_def v)
      show "sb fs' = sb fs" "dcache fs' = dcache fs"
        using icache_onlyD(3,6) [OF p(4)] g(5) restD(6) [OF g(4)] by simp_all
      show "inode_view fs' q = inode_view fs q" if "apart q p \<or> q = p" for q
        using that oth own Some g(6) v same_indexD(3) [OF g(3)] by auto
      show "cached_inode fs' h = cached_inode fs h" if "h \<noteq> xxh64 p" for h
        using ch [OF that] rest_icache(1) [OF g(4)] by simp
      have "cache_move g p fs'" using st by (simp add: cache_move_def)
      then show "cache_move fs p fs'" by (rule cache_move_cong [OF _ rest_slots [OF g(4)] same_slots_refl fs_invD(1) [OF ig] fs_invD(1) [OF inv]])
    qed (use p g same_index_trans in blast)+
  next
    case ni: None
    have "icache_room g k" using rg by (simp add: icache_room_def)
    then show thesis
      using that [of g] None ni g ig restD(6) [OF g(4)] rest_icache(1) [OF g(4)] rest_slots [OF g(4)] by (simp add: fetch_inode_def v cache_move_def)
  qed
qed

text \<open>Storing a sealed inode in the index.\<close>

definition can_store :: "xxfs \<Rightarrow> bytes \<Rightarrow> bool" where
  "can_store fs p \<longleftrightarrow> length p \<le> 3528 \<and> 3 \<le> free_blocks fs \<and> collision_free p (chain_kv fs p)"

lemma can_store_same: "same_index fs fs' \<Longrightarrow> can_store fs' p = can_store fs p"
  using same_indexD [of fs fs'] by (simp add: can_store_def)

lemma can_storeD:
  assumes "can_store fs p" and "wf_inode ino"
  shows "room fs p (inode_to_val ino)" "collision_free p (chain_kv fs p)" "length p < 2 ^ 32"
  using assms length_inode_to_val [OF assms(2)] by (simp_all add: can_store_def room_def INODE_SIZE_def)

text \<open>What a mount needs of the superblock is kept.\<close>

definition sb_kept :: "xxfs_super \<Rightarrow> xxfs_super \<Rightarrow> bool" where
  "sb_kept s s' \<longleftrightarrow> wf_super s' = wf_super s \<and> s_magic s' = s_magic s \<and> s_pdir_off s' = s_pdir_off s"

lemma sb_kept_refl [simp]: "sb_kept s s"
  by (simp add: sb_kept_def)

lemma sb_kept_trans [trans]: "sb_kept a b \<Longrightarrow> sb_kept b c \<Longrightarrow> sb_kept a c"
  by (simp add: sb_kept_def)

lemma rest_sb_kept:
  assumes "rest fs' = rest fs"
  shows "sb_kept (sb fs) (sb fs')"
proof -
  have e: "(sb fs')\<lparr>s_free_blocks := 0, s_block_count := 0\<rparr> = (sb fs)\<lparr>s_free_blocks := 0, s_block_count := 0\<rparr>"
    using arg_cong [OF assms, of sb] by (simp add: rest_def)
  have w: "wf_super (s\<lparr>s_free_blocks := a, s_block_count := b\<rparr>) = wf_super s" for s a b by (simp add: wf_super_def)
  have "wf_super (sb fs') = wf_super (sb fs)" using arg_cong [OF e, of wf_super] by (simp only: w)
  moreover have "s_magic (sb fs') = s_magic (sb fs)" "s_pdir_off (sb fs') = s_pdir_off (sb fs)"
    using arg_cong [OF e, of s_magic] arg_cong [OF e, of s_pdir_off] by simp_all
  ultimately show ?thesis by (simp add: sb_kept_def)
qed

lemma adds_key_same:
  assumes "adds_key fs p g" and "same_index g fs'"
  shows "adds_key fs p fs'"
  using assms same_indexD(5,10) [OF assms(2)] by (simp add: adds_key_def)

lemma same_adds_key:
  assumes "same_index fs g" and "adds_key g p fs'"
  shows "adds_key fs p fs'"
  using assms(2) same_indexD(5,10) [OF assms(1)] by (simp add: adds_key_def)

text \<open>What storing an inode does to the state.\<close>

definition stored :: "xxfs \<Rightarrow> bytes \<Rightarrow> xxfs_inode \<Rightarrow> xxfs \<Rightarrow> bool" where
  "stored fs p ino fs' \<longleftrightarrow> fs_inv fs' \<and> index_abs fs' = (index_abs fs)(p \<mapsto> inode_to_val ino) \<and> rest fs' = rest fs \<and>
     index_spares fs fs' \<and> free_blocks fs \<le> free_blocks fs' + 3 \<and> adds_key fs p fs'"

lemma storedI:
  assumes "fs_inv fs" and "wf_inode ino" and "index_ok fs'" and "index_abs fs' = (index_abs fs)(p \<mapsto> inode_to_val ino)"
    and "rest fs' = rest fs" and "index_spares fs fs'" and "free_blocks fs \<le> free_blocks fs' + 3" and "adds_key fs p fs'"
  shows "stored fs p ino fs'"
  using assms rest_icache(2) [OF assms(5)] length_inode_to_val [OF assms(2)]
  by (simp add: stored_def fs_inv_def fs_base_def inode_sized_def)

lemma inode_put_law:
  assumes inv: "fs_inv fs" and st: "can_store fs p" and wf: "wf_inode ino"
  obtains fs' where "paged_put fs p (inode_to_val ino) = Some (XXFS_OK, fs')" and "stored fs p ino fs'"
proof -
  note d = can_storeD [OF st wf]
  obtain fs' where f: "paged_put fs p (inode_to_val ino) = Some (XXFS_OK, fs')" "index_ok fs'"
    "index_abs fs' = (index_abs fs)(p \<mapsto> inode_to_val ino)" "index_spares fs fs'" "free_blocks fs \<le> free_blocks fs' + 3" "adds_key fs p fs'"
    by (rule put_law [OF fs_invD(1) [OF inv] d(1,2)])
  show thesis by (rule that [OF f(1) storedI [OF inv wf f(2,3) rest_paged_put [OF f(1)] f(4-6)]])
qed

lemma inode_insert_law:
  assumes inv: "fs_inv fs" and st: "can_store fs p" and wf: "wf_inode ino" and new: "index_abs fs p = None"
  obtains fs' where "paged_insert fs p (inode_to_val ino) = Some (XXFS_OK, fs')" and "stored fs p ino fs'"
    and "index_unique fs \<Longrightarrow> index_unique fs'"
proof -
  note d = can_storeD [OF st wf]
  obtain fs' where f: "paged_insert fs p (inode_to_val ino) = Some (XXFS_OK, fs')" "index_ok fs'"
    "index_abs fs' = (index_abs fs)(p \<mapsto> inode_to_val ino)" "index_spares fs fs'" "free_blocks fs \<le> free_blocks fs' + 3" "adds_key fs p fs'"
    and u: "index_unique fs \<Longrightarrow> index_unique fs'"
    by (rule insert_law [OF fs_invD(1) [OF inv] d(1,2) new]) blast
  show thesis by (rule that [OF f(1) storedI [OF inv wf f(2,3) rest_paged_insert [OF f(1)] f(4-6)] u])
qed

lemma stored_view:
  assumes s: "stored fs p (inode_set_checksum_ecc ino) fs'" and wf: "wf_inode ino"
  shows "index_inode fs' = (index_inode fs)(p \<mapsto> inode_set_checksum_ecc ino)"
    and "q \<noteq> p \<Longrightarrow> inode_view fs' q = inode_view fs q" and "cached_inode fs' = cached_inode fs"
proof -
  have r: "rest fs' = rest fs" and a: "index_abs fs' = (index_abs fs)(p \<mapsto> inode_to_val (inode_set_checksum_ecc ino))"
    using s by (simp_all add: stored_def)
  show i: "index_inode fs' = (index_inode fs)(p \<mapsto> inode_set_checksum_ecc ino)"
    using decode_sealed [OF wf] by (simp add: index_inode_def a fun_eq_iff)
  show c: "cached_inode fs' = cached_inode fs" by (rule rest_icache(1) [OF r])
  show "q \<noteq> p \<Longrightarrow> inode_view fs' q = inode_view fs q" by (simp add: inode_view_def i c split: option.split)
qed

text \<open>Storing an inode and caching it: the common end of most operations.\<close>

lemma stored_cached:
  assumes s: "stored fs p (inode_set_checksum_ecc ino) g" and wf: "wf_inode ino" and room: "icache_room fs (Suc k)"
  obtains fs' where "icache_put g (xxh64 p) key (inode_set_checksum_ecc ino) = Some fs'" and "fs_inv fs'"
    and "icache_room fs' k" and "same_index g fs'" and "dcache fs' = dcache fs" and "sb fs' = sb g"
    and "inode_view fs' p = Some (inode_set_checksum_ecc ino)"
    and "\<And>q. apart q p \<Longrightarrow> inode_view fs' q = inode_view fs q"
    and "\<And>h. h \<noteq> xxh64 p \<Longrightarrow> cached_inode fs' h = cached_inode fs h"
    and "icache_near fs (xxh64 p) \<Longrightarrow> cached_inode fs' (xxh64 p) = Some (inode_set_checksum_ecc ino)" and "cache_step g (xxh64 p) key fs'"
proof -
  let ?s = "inode_set_checksum_ecc ino"
  have inv: "fs_inv g" and r: "rest g = rest fs" using s by (simp_all add: stored_def)
  have rg: "icache_room g (Suc k)" using room rest_icache(3) [OF r] by simp
  have v: "index_inode g p = Some ?s" "\<And>q. q \<noteq> p \<Longrightarrow> inode_view g q = inode_view fs q"
    using stored_view [OF s wf] by simp_all
  obtain fs' where p: "icache_put g (xxh64 p) key ?s = Some fs'" "fs_inv fs'" "icache_room fs' k" "icache_only g fs'" "same_index g fs'"
    and oth: "\<And>q. apart q p \<Longrightarrow> inode_view fs' q = inode_view g q"
    and own: "index_inode g p = Some ?s \<or> icache_near g (xxh64 p) \<Longrightarrow> inode_view fs' p = Some ?s"
    and near: "icache_near g (xxh64 p) \<Longrightarrow> cached_inode fs' (xxh64 p) = Some ?s"
    and ch: "\<And>h. h \<noteq> xxh64 p \<Longrightarrow> cached_inode fs' h = cached_inode g h" and st: "cache_step g (xxh64 p) key fs'"
    by (rule icache_put_view [where p = p and key = key and ino = ?s, OF inv rg]) blast
  have "inode_view fs' q = inode_view fs q" if "apart q p" for q
    using that oth v(2) by (metis apart_def)
  then show thesis
    using that p own v(1) icache_onlyD(3,6) [OF p(4)] restD(6) [OF r] ch near rest_icache(1,4) [OF r] st by auto
qed

section \<open>Extents\<close>

text \<open>A run of allocated blocks outside the index.\<close>

definition extent_at :: "xxfs \<Rightarrow> u64 \<Rightarrow> nat \<Rightarrow> bool" where
  "extent_at fs off n \<longleftrightarrow> blk off \<and> unat off + n * 4096 < 2 ^ 63 \<and> (\<forall>i < n. outside fs (of_nat (unat off + i * 4096)))"

lemma outside_raw:
  assumes "index_ok fs" and "outside fs r"
  shows "lblock fs r = peek (img fs) (unat r) 4096" and "cached fs r = None"
proof -
  show "cached fs r = None"
    using pages_invD(3) [OF index_okD(3) [OF assms(1)]] assms(2) unfolding outside_def foreign_def by blast
  then show "lblock fs r = peek (img fs) (unat r) 4096" by (simp add: lblock_def)
qed

lemma extent_same:
  assumes ok: "index_ok fs" "index_ok fs'" and e: "extent_at fs off n"
    and sp: "\<And>i. i < n \<Longrightarrow> outside fs' (of_nat (unat off + i * 4096)) \<and> lblock fs' (of_nat (unat off + i * 4096)) = lblock fs (of_nat (unat off + i * 4096))"
  shows "extent_at fs' off n" and "peek (img fs') (unat off) (n * 4096) = peek (img fs) (unat off) (n * 4096)"
proof -
  show "extent_at fs' off n" using e sp by (simp add: extent_at_def)
  have "k \<le> n \<Longrightarrow> peek (img fs') (unat off) (k * 4096) = peek (img fs) (unat off) (k * 4096)" for k
  proof (induction k)
    case (Suc k)
    let ?r = "of_nat (unat off + k * 4096) :: u64"
    have b: "unat ?r = unat off + k * 4096"
      using e Suc.prems by (subst unat_of_nat) (simp add: extent_at_def)
    have o: "outside fs ?r" using e Suc.prems by (simp add: extent_at_def)
    note s = sp [of k]
    have "peek (img fs') (unat ?r) 4096 = peek (img fs) (unat ?r) 4096"
      using s Suc.prems outside_raw(1) [OF ok(1) o] outside_raw(1) [OF ok(2), of ?r] by simp
    then show ?case
      using Suc unfolding b by (simp add: add.commute [of 4096] peek_split del: of_nat_add)
  qed (simp add: peek_def)
  then show "peek (img fs') (unat off) (n * 4096) = peek (img fs) (unat off) (n * 4096)" by simp
qed

lemma extent_bytes_same:
  assumes "peek f' (unat off) (n * 4096) = peek f (unat off) (n * 4096)" and "a + m \<le> n * 4096"
  shows "peek f' (unat off + a) m = peek f (unat off + a) m"
  using assms(1) fld_peek [OF assms(2), of f' "unat off"] fld_peek [OF assms(2), of f "unat off"] by simp

lemma extent_spared:
  assumes ok: "index_ok fs" "index_ok fs'" and sp: "index_spares fs fs'" and e: "extent_at fs off n"
  shows "extent_at fs' off n" and "peek (img fs') (unat off) (n * 4096) = peek (img fs) (unat off) (n * 4096)"
proof -
  have "outside fs' r \<and> lblock fs' r = lblock fs r" if "r = of_nat (unat off + i * 4096)" "i < n" for r i
    using that e index_sparesD(1) [OF sp] by (simp add: extent_at_def)
  then show "extent_at fs' off n" "peek (img fs') (unat off) (n * 4096) = peek (img fs) (unat off) (n * 4096)"
    using extent_same [OF ok e] by blast+
qed

lemma extent_bytes_spared:
  assumes "index_ok fs" "index_ok fs'" and "index_spares fs fs'" and "extent_at fs off n" and "a + m \<le> n * 4096"
  shows "peek (img fs') (unat off + a) m = peek (img fs) (unat off + a) m"
  by (rule extent_bytes_same [OF extent_spared(2) [OF assms(1-4)] assms(5)])

end
