(* ===== verification/Fs_Dir.thy ===== *)
theory Fs_Dir
  imports Fs_View
begin

text \<open>
  Directories: what \<^verbatim>\<open>dir_add_child\<close>, \<^verbatim>\<open>dir_remove_child\<close> and \<^verbatim>\<open>xxfs_readdir\<close> do to the list of children of a
  directory, whether it is cached or has to be loaded from its extent, and that they leave the inodes alone.
\<close>

section \<open>Steps that leave the inodes alone\<close>

definition ns_same :: "xxfs \<Rightarrow> xxfs \<Rightarrow> bool" where
  "ns_same fs fs' \<longleftrightarrow> fs_base fs' \<and> icache_inv fs' = icache_inv fs \<and> same_index fs fs' \<and> inode_view fs' = inode_view fs \<and> cached_inode fs' = cached_inode fs \<and>
     icache_room fs' = icache_room fs \<and> sb fs' = sb fs \<and> flags fs' = flags fs \<and> same_slots fs fs'"

lemma ns_same_refl: "fs_base fs \<Longrightarrow> ns_same fs fs"
  by (simp add: ns_same_def same_index_def fs_base_def)

lemma ns_same_trans [trans]: "ns_same a b \<Longrightarrow> ns_same b c \<Longrightarrow> ns_same a c"
  unfolding ns_same_def using same_index_trans same_slots_trans by metis

lemma ns_sameD:
  assumes "ns_same fs fs'"
  shows "fs_base fs'" "same_index fs fs'" "inode_view fs' = inode_view fs" "cached_inode fs' = cached_inode fs"
    "icache_room fs' = icache_room fs" "sb fs' = sb fs" "flags fs' = flags fs" "icache_inv fs' = icache_inv fs"
    "same_slots fs fs'"
  using assms by (simp_all add: ns_same_def)

lemma calm_ns:
  assumes inv: "fs_base fs" and c: "calm fs fs'" and i: "icache fs' = icache fs" "icache_mask fs' = icache_mask fs"
    "icache_cap fs' = icache_cap fs" "icache_count fs' = icache_count fs" and f: "flags fs' = flags fs" "sb fs' = sb fs"
  shows "ns_same fs fs'"
proof -
  have s: "same_index fs fs'" by (rule calm_same [OF c fs_baseD(1) [OF inv]])
  note ca = cached_cong [OF i(1,2)] and iv = icache_inv_cong [OF i]
  have "fs_base fs'" using inv same_indexD [OF s] iv by (simp add: fs_base_def)
  moreover have "inode_view fs' = inode_view fs" by (rule view_cong [OF ca same_indexD(2) [OF s]])
  ultimately show ?thesis using s ca iv f i by (simp add: ns_same_def same_slots_def)
qed

lemma set_dcache_ns: "fs_base fs \<Longrightarrow> ns_same fs (set_dcache i e fs)"
  by (rule calm_ns) (simp_all add: set_dcache_def calm_core same_core_def alloc_same_def)

lemma set_dcache_dcache [simp]: "dcache (set_dcache i e fs) = (dcache fs)(i := e)"
  by (simp add: set_dcache_def)

lemma tick_ns: "fs_base fs \<Longrightarrow> ns_same fs (tick fs)"
  by (rule calm_ns) (auto simp: calm_def alloc_same_def)

lemma inode_paged_get_ns:
  assumes "fs_base fs" and "length p < 2 ^ 32"
  obtains fs' where
    "inode_paged_get fs p = Some (case index_inode fs p of None \<Rightarrow> Inl XXFS_ENOENT | Some ino \<Rightarrow> Inr ino, fs')"
    and "ns_same fs fs'" and "dcache fs' = dcache fs"
proof -
  obtain fs' where g:
    "inode_paged_get fs p = Some (case index_inode fs p of None \<Rightarrow> Inl XXFS_ENOENT | Some ino \<Rightarrow> Inr ino, fs')"
    "fs_base fs'" "same_index fs fs'" "rest fs' = rest fs" "sb fs' = sb fs" "inode_view fs' = inode_view fs"
    by (rule inode_paged_get_law [OF assms])
  then have "ns_same fs fs'" using rest_icache [OF g(4)] restD [OF g(4)] by (simp add: ns_same_def same_slots_def)
  then show thesis using that g(1) restD(6) [OF g(4)] by blast
qed

section \<open>The children of a directory\<close>

definition dir_inode :: "xxfs \<Rightarrow> bytes \<Rightarrow> xxfs_inode option" where
  "dir_inode fs dir =
     (case cached_inode fs (xxh64 dir) of
        Some ino \<Rightarrow> if i_file_type ino = XXFS_FT_DIR then Some ino else index_inode fs dir
      | None \<Rightarrow> index_inode fs dir)"

definition has_children :: "xxfs_inode \<Rightarrow> bool" where
  "has_children ino \<longleftrightarrow> 0 < i_size ino \<and> i_extent_off ino \<noteq> 0"

definition stored_children :: "xxfs \<Rightarrow> xxfs_inode \<Rightarrow> xxfs_dir_child list" where
  "stored_children fs ino =
     (if has_children ino
      then dec_array DIRENT_SIZE dec_dirent (unat (i_size ino) div DIRENT_SIZE)
             (peek (img fs) (unat (i_extent_off ino)) (unat (i_size ino)))
      else [])"

definition dir_children :: "xxfs \<Rightarrow> bytes \<Rightarrow> xxfs_dir_child list" where
  "dir_children fs dir =
     (case dcache_find fs dir of
        Some i \<Rightarrow> de_children (dcache fs i)
      | None \<Rightarrow> (case dir_inode fs dir of Some ino \<Rightarrow> stored_children fs ino | None \<Rightarrow> []))"

text \<open>A directory inode whose extent lies in the image, in blocks of its own.\<close>

definition dir_sane :: "xxfs \<Rightarrow> xxfs_inode \<Rightarrow> bool" where
  "dir_sane fs ino \<longleftrightarrow> has_children ino \<longrightarrow>
     (\<exists>n. extent_at fs (i_extent_off ino) n \<and> unat (i_size ino) \<le> n * 4096) \<and>
     unat (i_extent_off ino) + unat (i_size ino) \<le> isize fs \<and> unat (i_size ino) div DIRENT_SIZE < 2 ^ 31"

definition entry_ok :: "dir_cache_entry \<Rightarrow> bool" where
  "entry_ok e \<longleftrightarrow> length (de_children e) \<le> unat (de_child_cap e) \<and> length (de_children e) < 2 ^ 31"

text \<open>The directory is cached, or its slot can be taken without writing another directory back and its inode is
  sane.\<close>

definition dir_ready :: "xxfs \<Rightarrow> bytes \<Rightarrow> bool" where
  "dir_ready fs dir \<longleftrightarrow>
     (case dcache_find fs dir of
        Some i \<Rightarrow> entry_ok (dcache fs i)
      | None \<Rightarrow> \<not> (de_valid (dcache fs (dcache_idx dir)) \<and> de_dirty (dcache fs (dcache_idx dir))) \<and>
          (\<exists>ino. dir_inode fs dir = Some ino \<and> dir_sane fs ino))"

lemma dcache_find_idx: "dcache_find fs dir = Some i \<Longrightarrow> i = dcache_idx dir \<and> de_valid (dcache fs i) \<and> de_path (dcache fs i) = dir"
  by (auto simp: dcache_find_def Let_def split: if_splits)

lemma dcache_find_cong: "dcache fs' = dcache fs \<Longrightarrow> dcache_find fs' = dcache_find fs"
  by (simp add: dcache_find_def fun_eq_iff)

text \<open>Steps of the index spare directories.\<close>

lemma sane_spared:
  assumes ok: "index_ok fs" "index_ok fs'" and sp: "index_spares fs fs'" and s: "dir_sane fs ino"
  shows "dir_sane fs' ino" "stored_children fs' ino = stored_children fs ino"
proof -
  have "dir_sane fs' ino \<and> stored_children fs' ino = stored_children fs ino"
  proof (cases "has_children ino")
    case True
    then obtain n where n: "extent_at fs (i_extent_off ino) n" "unat (i_size ino) \<le> n * 4096"
      and b: "unat (i_extent_off ino) + unat (i_size ino) \<le> isize fs" "unat (i_size ino) div DIRENT_SIZE < 2 ^ 31"
      using s by (auto simp: dir_sane_def)
    have "peek (img fs') (unat (i_extent_off ino) + 0) (unat (i_size ino)) = peek (img fs) (unat (i_extent_off ino) + 0) (unat (i_size ino))"
      by (rule extent_bytes_spared [OF ok sp n(1)]) (use n(2) in simp)
    moreover have "dir_sane fs' ino"
      unfolding dir_sane_def
      using extent_spared(1) [OF ok sp n(1)] n(2) b index_sparesD(2) [OF sp] by (auto intro: order_trans)
    ultimately show ?thesis by (simp add: stored_children_def)
  qed (simp add: dir_sane_def stored_children_def)
  then show "dir_sane fs' ino" "stored_children fs' ino = stored_children fs ino" by blast+
qed

lemma dir_spared:
  assumes ok: "index_ok fs" "index_ok fs'" and sp: "index_spares fs fs'" and d: "dcache fs' = dcache fs"
    and i: "dir_inode fs' dir = dir_inode fs dir" and r: "dir_ready fs dir"
  shows "dir_ready fs' dir" "dir_children fs' dir = dir_children fs dir"
proof -
  have f: "dcache_find fs' = dcache_find fs" by (rule dcache_find_cong [OF d])
  have "dir_ready fs' dir \<and> dir_children fs' dir = dir_children fs dir"
  proof (cases "dcache_find fs dir")
    case None
    then obtain ino where ino: "dir_inode fs dir = Some ino" "dir_sane fs ino" using r by (auto simp: dir_ready_def)
    with None r i show ?thesis
      using sane_spared [OF ok sp ino(2)] by (simp add: dir_ready_def dir_children_def f d)
  qed (use r in \<open>simp add: dir_ready_def dir_children_def f d\<close>)
  then show "dir_ready fs' dir" "dir_children fs' dir = dir_children fs dir" by blast+
qed

text \<open>What is cached of the directory and not marked as changed is what is stored.\<close>

definition dir_loaded :: "xxfs \<Rightarrow> bytes \<Rightarrow> bool" where
  "dir_loaded fs dir \<longleftrightarrow> (\<forall>i. dcache_find fs dir = Some i \<and> \<not> de_dirty (dcache fs i) \<longrightarrow>
     (\<exists>ino. dir_inode fs dir = Some ino \<and> dir_sane fs ino \<and> de_children (dcache fs i) = stored_children fs ino))"

lemma dir_loaded_spared:
  assumes ok: "index_ok fs" "index_ok fs'" and sp: "index_spares fs fs'" and d: "dcache fs' = dcache fs"
    and i: "dir_inode fs' dir = dir_inode fs dir" and l: "dir_loaded fs dir"
  shows "dir_loaded fs' dir"
  using l sane_spared [OF ok sp] unfolding dir_loaded_def dcache_find_cong [OF d] d i by metis

text \<open>A directory that takes its slot in the cache may push another one out, which is then read from where it is stored.\<close>

lemma dir_pushed_out:
  assumes ok: "index_ok fs" "index_ok fs'" and sp: "index_spares fs fs'" and d: "\<And>j. j \<noteq> dcache_idx par \<Longrightarrow> dcache fs' j = dcache fs j"
    and f: "dcache_find fs' par = Some (dcache_idx par)" and i: "dir_inode fs' dir = dir_inode fs dir" and r: "dir_ready fs dir" "dir_ready fs par"
    and ne: "dir \<noteq> par" and l: "dir_loaded fs dir"
  shows "dir_children fs' dir = dir_children fs dir"
proof -
  have st: "dir_children fs' dir = dir_children fs dir" if n: "dcache_find fs dir = None" "dcache_find fs' dir = None"
  proof -
    obtain ino where ino: "dir_inode fs dir = Some ino" "dir_sane fs ino" using r(1) n(1) by (auto simp: dir_ready_def)
    then show ?thesis using n i sane_spared(2) [OF ok sp ino(2)] by (simp add: dir_children_def)
  qed
  show ?thesis
  proof (cases "dcache_idx dir = dcache_idx par")
    case False
    then have "dcache fs' (dcache_idx dir) = dcache fs (dcache_idx dir)" by (rule d)
    then have "dcache_find fs' dir = dcache_find fs dir" "\<And>i. dcache_find fs dir = Some i \<Longrightarrow> dcache fs' i = dcache fs i"
      by (auto simp: dcache_find_def Let_def split: if_splits)
    then show ?thesis using st by (cases "dcache_find fs dir") (simp_all add: dir_children_def)
  next
    case True
    have n': "dcache_find fs' dir = None" using dcache_find_idx [OF f] ne True by (auto simp: dcache_find_def Let_def)
    show ?thesis
    proof (cases "dcache_find fs dir")
      case (Some i)
      note x = dcache_find_idx [OF Some]
      then have "dcache_find fs par = None" using ne True by (auto simp: dcache_find_def Let_def)
      then have "\<not> de_dirty (dcache fs i)" using r(2) x True by (auto simp: dir_ready_def)
      then obtain ino where ino: "dir_inode fs dir = Some ino" "dir_sane fs ino" "de_children (dcache fs i) = stored_children fs ino"
        using l Some by (auto simp: dir_loaded_def)
      then show ?thesis using Some n' \<open>dir_inode fs' dir = dir_inode fs dir\<close> sane_spared(2) [OF ok sp ino(2)] by (simp add: dir_children_def)
    qed (rule st [OF _ n'])
  qed
qed

lemma dir_inode_ns:
  assumes "ns_same fs fs'"
  shows "dir_inode fs' = dir_inode fs"
  unfolding dir_inode_def ns_sameD(4) [OF assms] same_indexD(3) [OF ns_sameD(2) [OF assms]] ..

text \<open>Counting inodes.\<close>

lemma count_ns:
  assumes inv: "fs_base fs" and fs': "fs' = fs\<lparr>sb := s\<rparr>" and s: "alloc_same (sb fs) s"
  shows "fs_base fs'" "same_index fs fs'" "icache_inv fs' = icache_inv fs" "inode_view fs' = inode_view fs" "dcache fs' = dcache fs" "dir_children fs' = dir_children fs"
    "icache_room fs' = icache_room fs" "dir_inode fs' = dir_inode fs" "dir_ready fs dir \<Longrightarrow> dir_ready fs' dir"
    "cached_inode fs' = cached_inode fs"
proof -
  have c: "calm fs fs'" by (rule calm_core) (use s fs' in \<open>simp add: same_core_def\<close>)
  show si: "same_index fs fs'" by (rule calm_same [OF c fs_baseD(1) [OF inv]])
  have ic: "icache fs' = icache fs" "icache_mask fs' = icache_mask fs" "icache_cap fs' = icache_cap fs"
    "icache_count fs' = icache_count fs" by (simp_all add: fs')
  show "fs_base fs'" "icache_inv fs' = icache_inv fs"
    using inv same_indexD [OF si] icache_inv_cong [OF ic] by (simp_all add: fs_base_def)
  show "inode_view fs' = inode_view fs" by (rule view_cong [OF cached_cong [OF ic(1,2)] same_indexD(2) [OF si]])
  show "cached_inode fs' = cached_inode fs" by (rule cached_cong [OF ic(1,2)])
  show dc: "dcache fs' = dcache fs" by (simp add: fs')
  show di: "dir_inode fs' = dir_inode fs"
    unfolding dir_inode_def cached_cong [OF ic(1,2)] same_indexD(3) [OF si] ..
  have sc: "stored_children fs' = stored_children fs" by (simp add: stored_children_def fs' fun_eq_iff)
  show "dir_children fs' = dir_children fs" unfolding dir_children_def di sc dcache_find_cong [OF dc] dc ..
  show "icache_room fs' = icache_room fs" by (rule icache_inv_cong(2) [OF ic])
  show "dir_ready fs dir \<Longrightarrow> dir_ready fs' dir"
    by (rule dir_spared(1) [OF fs_baseD(1) [OF inv] same_indexD(1,8) [OF si] dc]) (simp_all add: di)
qed

section \<open>Loading\<close>

lemma load_children_law:
  assumes inv: "fs_base fs" and s: "dir_sane fs ino"
  shows "ns_same fs (load_children fs i ino)"
    and "dcache (load_children fs i ino) = (dcache fs)(i := if has_children ino
      then (dcache fs i)\<lparr>de_children := stored_children fs ino, de_child_cap := of_nat (length (stored_children fs ino))\<rparr>
      else dcache fs i)"
proof -
  let ?n = "unat (i_size ino)" and ?off = "i_extent_off ino"
  let ?cnt = "ucast (i_size ino div of_nat DIRENT_SIZE) :: u32"
  have "ns_same fs (load_children fs i ino) \<and> dcache (load_children fs i ino) = (dcache fs)(i := if has_children ino
      then (dcache fs i)\<lparr>de_children := stored_children fs ino, de_child_cap := of_nat (length (stored_children fs ino))\<rparr>
      else dcache fs i)"
  proof (cases "has_children ino")
    case True
    have ff: "fault_free (img fs)"
      using pages_invD(1) [OF index_okD(3) [OF fs_baseD(1) [OF inv]]] by (simp add: pc_inv_def)
    have b: "unat ?off + ?n \<le> isize fs" "?n div 272 < 2 ^ 31" "unat ?off < 2 ^ 63"
      using s True by (auto simp: dir_sane_def extent_at_def DIRENT_SIZE_def)
    have c: "unat ?cnt = ?n div 272"
      using b(2) by (simp add: unsigned_ucast_eq unat_div_distrib DIRENT_SIZE_def take_bit_nat_eq_self)
    have c': "?cnt = of_nat (?n div 272)" by (subst c [symmetric]) simp
    let ?e = "(dcache fs i)\<lparr>de_children := stored_children fs ino, de_child_cap := ?cnt\<rparr>"
    have p: "fs_pread (tick fs) ?n ?off = (Some (peek (img fs) (unat ?off) ?n), tick (tick fs))"
      using ff b(3) min_absorb1 [of ?n "isize fs - unat ?off"] b(1) by (simp add: fs_pread_ok s64_ok_def)
    have l: "load_children fs i ino = set_dcache i ?e (tick (tick fs))"
      using True b c p ff
      by (simp add: load_children_def has_children_def Let_def fs_alloc_ok into_buf_full stored_children_def DIRENT_SIZE_def)
    have "ns_same fs (tick (tick fs))" using ns_same_trans [OF tick_ns [OF inv] tick_ns] ns_sameD(1) [OF tick_ns [OF inv]] by blast
    then have "ns_same fs (load_children fs i ino)"
      unfolding l using ns_same_trans set_dcache_ns ns_sameD(1) by blast
    moreover have "length (stored_children fs ino) = ?n div 272" using True by (simp add: stored_children_def DIRENT_SIZE_def)
    ultimately show ?thesis using True l c' by simp
  next
    case False
    then have "load_children fs i ino = fs" by (auto simp: load_children_def has_children_def)
    then show ?thesis using False ns_same_refl [OF inv] by simp
  qed
  then show "ns_same fs (load_children fs i ino)"
    "dcache (load_children fs i ino) = (dcache fs)(i := if has_children ino
      then (dcache fs i)\<lparr>de_children := stored_children fs ino, de_child_cap := of_nat (length (stored_children fs ino))\<rparr>
      else dcache fs i)" by blast+
qed

text \<open>The entry of a directory, loaded when it was not cached.\<close>

lemma load_children_entry:
  assumes inv: "fs_base fs" and sane: "dir_sane fs ino" and g: "ns_same (set_dcache i e0 fs) g" "dcache g = dcache (set_dcache i e0 fs)"
    and e0: "e0 = \<lparr>de_path = dir, de_children = [], de_child_cap = 0, de_dirty = False, de_valid = True\<rparr>"
  obtains e where "ns_same fs (load_children g i ino)" and "dcache (load_children g i ino) = (dcache fs)(i := e)"
    and "de_valid e" and "de_path e = dir" and "de_children e = stored_children fs ino" and "entry_ok e"
proof -
  note fg = ns_same_trans [OF set_dcache_ns [OF inv] g(1)]
  note sp = same_indexD(8) [OF ns_sameD(2) [OF fg]]
  note sn = sane_spared [OF fs_baseD(1) [OF inv] fs_baseD(1) [OF ns_sameD(1) [OF fg]] sp sane]
  note l = load_children_law [OF ns_sameD(1) [OF fg] sn(1), of i]
  let ?cs = "stored_children fs ino"
  have n: "has_children ino \<Longrightarrow> length ?cs < 2 ^ 31" "\<not> has_children ino \<Longrightarrow> ?cs = []"
    using sane by (auto simp: stored_children_def dir_sane_def)
  define e where "e = (if has_children ino then e0\<lparr>de_children := ?cs, de_child_cap := of_nat (length ?cs)\<rparr> else e0)"
  have "dcache (load_children g i ino) = (dcache fs)(i := e)"
    using l(2) g(2) sn(2) by (simp add: e_def e0)
  moreover have "de_valid e" "de_path e = dir" "de_children e = ?cs" "entry_ok e"
    using n by (auto simp: e_def e0 entry_ok_def unat_of_nat)
  ultimately show thesis using that [OF ns_same_trans [OF fg l(1)]] by blast
qed

lemma dir_entry_law:
  assumes inv: "fs_base fs" and r: "dir_ready fs dir" and len: "length dir < 2 ^ 32"
  obtains fs' e where "dir_entry fs dir = Some (Inr (dcache_idx dir), fs')" and "ns_same fs fs'"
    and "dcache fs' = (dcache fs)(dcache_idx dir := e)" and "de_valid e" and "de_path e = dir"
    and "de_children e = dir_children fs dir" and "entry_ok e"
proof (cases "dcache_find fs dir")
  case (Some i)
  have i: "i = dcache_idx dir" "de_valid (dcache fs i)" "de_path (dcache fs i) = dir"
    using dcache_find_idx [OF Some] by blast+
  show thesis
    by (rule that [of fs "dcache fs i"])
      (use Some i r ns_same_refl [OF inv] in \<open>auto simp: dir_entry_def dir_children_def dir_ready_def\<close>)
next
  case None
  let ?i = "dcache_idx dir"
  let ?e0 = "\<lparr>de_path = dir, de_children = [], de_child_cap = 0, de_dirty = False, de_valid = True\<rparr>"
  let ?f = "set_dcache ?i ?e0 fs"
  obtain ino where ino: "dir_inode fs dir = Some ino" "dir_sane fs ino" and
    nd: "\<not> (de_valid (dcache fs ?i) \<and> de_dirty (dcache fs ?i))"
    using r None by (auto simp: dir_ready_def)
  have al: "dcache_alloc fs dir = Some (?i, ?f)" using None nd by (auto simp: dcache_alloc_def Let_def)
  have f: "ns_same fs ?f" by (rule set_dcache_ns [OF inv])
  have kids: "dir_children fs dir = stored_children fs ino" using None ino by (simp add: dir_children_def)
  note fin0 = that
  have fin: "thesis" if g: "ns_same ?f g" "dcache g = dcache ?f" and e: "dir_entry fs dir = Some (Inr ?i, load_children g ?i ino)" for g
    by (rule load_children_entry [OF inv ino(2) g refl]) (rule fin0 [OF e], simp_all add: kids)
  have ci: "cached_inode ?f = cached_inode fs" by (rule ns_sameD(4) [OF f])
  show thesis
  proof (cases "\<exists>c. cached_inode fs (xxh64 dir) = Some c \<and> i_file_type c = XXFS_FT_DIR")
    case True
    then have t: "i_file_type ino = XXFS_FT_DIR" and "cached_inode ?f (xxh64 dir) = Some ino"
      using ino(1) unfolding ci by (auto simp: dir_inode_def)
    then obtain idx where "icache_lookup ?f (xxh64 dir) = Some idx" "ic_inode (icache ?f (unat idx)) = ino"
      by (auto simp: cached_inode_def)
    then have "dir_entry fs dir = Some (Inr ?i, load_children ?f ?i ino)"
      using None al t by (simp add: dir_entry_def)
    then show thesis by (rule fin [OF ns_same_refl [OF ns_sameD(1) [OF f]] refl])
  next
    case False
    then have "index_inode fs dir = Some ino"
      using ino(1) by (auto simp: dir_inode_def split: option.splits if_splits)
    then have ix: "index_inode ?f dir = Some ino" using same_indexD(3) [OF ns_sameD(2) [OF f]] by simp
    obtain g where g: "inode_paged_get ?f dir = Some (case index_inode ?f dir of None \<Rightarrow> Inl XXFS_ENOENT | Some ino \<Rightarrow> Inr ino, g)"
      "ns_same ?f g" "dcache g = dcache ?f"
      by (rule inode_paged_get_ns [OF ns_sameD(1) [OF f] len])
    have "i_file_type (ic_inode (icache ?f (unat idx))) \<noteq> XXFS_FT_DIR" if "icache_lookup ?f (xxh64 dir) = Some idx" for idx
      using that False ci by (metis cached_inode_def option.simps(9))
    then have "dir_entry fs dir = Some (Inr ?i, load_children g ?i ino)"
      using None al g(1) ix by (auto simp: dir_entry_def Let_def split: option.split)
    then show thesis by (rule fin [OF g(2,3)])
  qed
qed

section \<open>Adding, removing, listing\<close>

text \<open>After the call the directory is cached with the given children, and nothing else has changed.\<close>

definition dir_becomes :: "xxfs \<Rightarrow> bytes \<Rightarrow> xxfs_dir_child list \<Rightarrow> xxfs \<Rightarrow> bool" where
  "dir_becomes fs dir cs fs' \<longleftrightarrow> ns_same fs fs' \<and> dcache_find fs' dir = Some (dcache_idx dir) \<and> dir_children fs' dir = cs \<and>
     (length cs < 2 ^ 31 \<longrightarrow> dir_ready fs' dir) \<and> (\<forall>j. j \<noteq> dcache_idx dir \<longrightarrow> dcache fs' j = dcache fs j)"

lemma dir_becomesI:
  assumes "ns_same fs g" and "dcache g = (dcache fs)(dcache_idx dir := e)" and "de_valid e" and "de_path e = dir"
    and "de_children e = cs" and "length cs \<le> unat (de_child_cap e)"
  shows "dir_becomes fs dir cs g"
  using assms by (simp add: dir_becomes_def dcache_find_def dir_children_def dir_ready_def entry_ok_def Let_def)

lemma dir_add_child_law:
  assumes inv: "fs_base fs" and r: "dir_ready fs dir" and len: "length dir < 2 ^ 32"
  obtains fs' where "dir_add_child fs dir name typ = Some (XXFS_OK, fs')"
    and "dir_becomes fs dir (dir_children fs dir @ [new_child name typ]) fs'" and "de_dirty (dcache fs' (dcache_idx dir))"
proof -
  obtain g e where d: "dir_entry fs dir = Some (Inr (dcache_idx dir), g)" "ns_same fs g"
    and e: "dcache g = (dcache fs)(dcache_idx dir := e)" "de_valid e" "de_path e = dir"
      "de_children e = dir_children fs dir" "entry_ok e"
    by (rule dir_entry_law [OF assms])
  let ?i = "dcache_idx dir"
  have eg: "dcache g ?i = e" using e(1) by simp
  define cap where "cap = (if length (de_children e) \<ge> unat (de_child_cap e)
    then (if de_child_cap e \<noteq> 0 then de_child_cap e * 2 else 16) else de_child_cap e)"
  define h where "h = (if length (de_children e) \<ge> unat (de_child_cap e) then tick g else g)"
  have ff: "fault_free (img g)"
    using pages_invD(1) [OF index_okD(3) [OF fs_baseD(1) [OF ns_sameD(1) [OF d(2)]]]] by (simp add: pc_inv_def)
  have gh: "ns_same g h" "dcache h = dcache g"
    using tick_ns ns_same_refl ns_sameD(1) [OF d(2)] by (auto simp: h_def)
  have "unat (de_child_cap e * 2) = unat (de_child_cap e) * 2" if "length (de_children e) \<ge> unat (de_child_cap e)"
    using e(5) that by (subst unat_mul_nowrap) (simp_all add: entry_ok_def)
  then have c: "length (de_children e) < unat cap"
    using e(5) by (auto simp: cap_def entry_ok_def) (simp add: unat_gt_0)
  let ?e = "e\<lparr>de_children := de_children e @ [new_child name typ], de_child_cap := cap, de_dirty := True\<rparr>"
  have res: "dir_add_child fs dir name typ = Some (XXFS_OK, set_dcache ?i ?e h)"
    using c by (cases "length (de_children e) \<ge> unat (de_child_cap e)"; cases "de_child_cap e = 0")
      (simp_all add: dir_add_child_def d(1) eg Let_def fs_alloc_ok [OF ff] cap_def h_def)
  have "dir_becomes fs dir (dir_children fs dir @ [new_child name typ]) (set_dcache ?i ?e h)"
  proof (rule dir_becomesI [where e = ?e])
    show "ns_same fs (set_dcache ?i ?e h)"
      using ns_same_trans [OF ns_same_trans [OF d(2) gh(1)] set_dcache_ns [OF ns_sameD(1) [OF gh(1)]]] .
  qed (use e gh(2) c in auto)
  then show thesis by (rule that [OF res]) simp
qed

text \<open>Removing: the first child with the name goes, the last one takes its place.\<close>

lemma dir_remove_child_law:
  assumes inv: "fs_base fs" and r: "dir_ready fs dir" and len: "length dir < 2 ^ 32"
  obtains fs' where "dir_remove_child fs dir name = Some
      (case find (\<lambda>k. child_is name (dir_children fs dir ! k)) [0..<length (dir_children fs dir)] of
         None \<Rightarrow> XXFS_ENOENT | Some k \<Rightarrow> XXFS_OK, fs')"
    and "dir_becomes fs dir (case find (\<lambda>k. child_is name (dir_children fs dir ! k)) [0..<length (dir_children fs dir)] of
         None \<Rightarrow> dir_children fs dir | Some k \<Rightarrow> drop_child k (dir_children fs dir)) fs'"
proof -
  obtain g e where d: "dir_entry fs dir = Some (Inr (dcache_idx dir), g)" "ns_same fs g"
    and e: "dcache g = (dcache fs)(dcache_idx dir := e)" "de_valid e" "de_path e = dir"
      "de_children e = dir_children fs dir" "entry_ok e"
    by (rule dir_entry_law [OF assms])
  have eg: "dcache g (dcache_idx dir) = e" using e(1) by simp
  let ?f = "find (\<lambda>k. child_is name (dir_children fs dir ! k)) [0..<length (dir_children fs dir)]"
  show thesis
  proof (cases ?f)
    case None
    then have "dir_remove_child fs dir name = Some (XXFS_ENOENT, g)"
      by (simp add: dir_remove_child_def d(1) eg e(4) Let_def)
    moreover have "dir_becomes fs dir (dir_children fs dir) g"
      by (rule dir_becomesI [OF d(2) e(1-4)]) (use e in \<open>simp add: entry_ok_def\<close>)
    ultimately show thesis using None by (intro that [of g]) simp_all
  next
    case (Some k)
    let ?e = "e\<lparr>de_children := drop_child k (dir_children fs dir), de_dirty := True\<rparr>"
    let ?h = "set_dcache (dcache_idx dir) ?e g"
    have "dir_remove_child fs dir name = Some (XXFS_OK, ?h)"
      using Some by (simp add: dir_remove_child_def d(1) eg e(4) Let_def)
    moreover have "dir_becomes fs dir (drop_child k (dir_children fs dir)) ?h"
      by (rule dir_becomesI [where e = ?e, OF ns_same_trans [OF d(2) set_dcache_ns [OF ns_sameD(1) [OF d(2)]]]])
        (use e in \<open>auto simp: entry_ok_def drop_child_def\<close>)
    ultimately show thesis using Some by (intro that [of ?h]) simp_all
  qed
qed

text \<open>Listing a cached directory.\<close>

lemma readdir_cached:
  assumes inv: "fs_base fs" and f: "dcache_find fs (path_normalize path) = Some i" and n: "length (de_children (dcache fs i)) < 2 ^ 32"
  obtains fs' ctx where "xxfs_readdir fs path = Some (XXFS_OK, ctx, fs')" and "ns_same fs fs'"
    and "rd_count ctx = of_nat (length (dir_children fs (path_normalize path)))"
    and "rd_entries ctx = (if dir_children fs (path_normalize path) = [] then None else Some (dir_children fs (path_normalize path)))"
proof -
  have ff: "fault_free (img fs)"
    using pages_invD(1) [OF index_okD(3) [OF fs_baseD(1) [OF inv]]] by (simp add: pc_inv_def)
  have c: "dir_children fs (path_normalize path) = de_children (dcache fs i)" using f by (simp add: dir_children_def)
  show thesis
  proof (cases "de_children (dcache fs i) = []")
    case True
    then show thesis
      using f ns_same_refl [OF inv] by (intro that [of no_entries fs]) (simp_all add: xxfs_readdir_def c no_entries_def Let_def)
  next
    case False
    let ?n = "of_nat (length (de_children (dcache fs i))) :: u32"
    show thesis
      using f False tick_ns [OF inv] fs_alloc_ok [OF ff]
      by (intro that [of "\<lparr>rd_entries = Some (de_children (dcache fs i)), rd_count = ?n, rd_cap = ?n\<rparr>" "tick fs"])
        (simp_all add: xxfs_readdir_def c Let_def)
  qed
qed

end
