(* ===== verification/Fs_Extent.thy ===== *)
theory Fs_Extent
  imports Fs_Dir
begin

text \<open>
  Extents: writing into blocks that do not belong to the index leaves the index, the inodes and all other blocks alone,
  and \<^verbatim>\<open>page_alloc_n\<close> provides such blocks. The data path of files and directories rests on these two facts.
\<close>

section \<open>Steps on data blocks\<close>

definition in_extent :: "u64 \<Rightarrow> nat \<Rightarrow> u64 \<Rightarrow> bool" where
  "in_extent off n r \<longleftrightarrow> (\<exists>i < n. unat r = unat off + i * 4096)"

text \<open>The index stays as it is; of the blocks outside it only those of the extent may change.\<close>

definition data_step :: "xxfs \<Rightarrow> u64 \<Rightarrow> nat \<Rightarrow> xxfs \<Rightarrow> bool" where
  "data_step fs off n fs' \<longleftrightarrow> index_ok fs' \<and> index_abs fs' = index_abs fs \<and> index_unique fs' = index_unique fs \<and>
     chain_kv fs' = chain_kv fs \<and> pdir fs' = pdir fs \<and> isize fs \<le> isize fs' \<and>
     (\<forall>r. outside fs r \<longrightarrow> outside fs' r \<and> (in_extent off n r \<or> lblock fs' r = lblock fs r))"

lemma data_stepD:
  assumes "data_step fs off n fs'"
  shows "index_ok fs'" "index_abs fs' = index_abs fs" "index_unique fs' = index_unique fs" "chain_kv fs' = chain_kv fs"
    "isize fs \<le> isize fs'" "outside fs r \<Longrightarrow> outside fs' r" "outside fs r \<Longrightarrow> \<not> in_extent off n r \<Longrightarrow> lblock fs' r = lblock fs r"
    "pdir fs' = pdir fs"
  using assms by (auto simp: data_step_def)

lemma data_step_trans [trans]: "data_step a off n b \<Longrightarrow> data_step b off n c \<Longrightarrow> data_step a off n c"
  unfolding data_step_def by (metis order_trans)

lemma data_step_spares: "data_step fs off 0 fs' \<Longrightarrow> index_spares fs fs'"
  by (simp add: data_step_def index_spares_def spares_def outside_def in_extent_def)

lemma same_data_step: "same_index fs fs' \<Longrightarrow> data_step fs off n fs'"
  using same_indexD [of fs fs'] index_sparesD [of fs fs'] by (auto simp: data_step_def)

lemma spares_data_step: "index_spares fs fs' \<Longrightarrow> data_step fs' off n fs'' \<Longrightarrow> outside fs r \<Longrightarrow> \<not> in_extent off n r \<Longrightarrow>
    outside fs'' r \<and> lblock fs'' r = lblock fs r"
  using index_sparesD(1) [of fs fs' r] data_stepD(6,7) [of fs' off n fs'' r] by auto

lemma data_step_base: "data_step fs off n fs' \<Longrightarrow> fs_base fs \<Longrightarrow> fs_base fs'"
  using data_stepD [of fs off n fs'] by (simp add: fs_base_def inode_sized_def)

lemma index_kept:
  assumes ok: "index_ok fs" and pc: "pc_inv fs'" and sb: "super_inv (sb fs')" and fr: "alloc_frontier fs \<le> alloc_frontier fs'"
    and sz: "isize fs \<le> isize fs'" and pd: "pdir fs' = pdir fs" and ca: "\<And>r. cached fs' r \<noteq> None \<Longrightarrow> cached fs r \<noteq> None"
    and bl: "\<And>r. allocd fs r \<Longrightarrow> \<not> outside fs r \<Longrightarrow> lblock fs' r = lblock fs r"
  shows "index_ok fs'" "dir_chains fs' = dir_chains fs" "index_abs fs' = index_abs fs" "index_unique fs' = index_unique fs"
    "chain_kv fs' = chain_kv fs"
    and "\<And>r. outside fs' r \<longleftrightarrow> blk r \<and> unat r + 4096 \<le> alloc_frontier fs' \<and> r \<notin> pages_of (dir_chains fs) \<and>
           (\<forall>p \<in> pages_of (dir_chains fs). r \<notin> recs fs p)"
proof -
  let ?P = "pages_of (dir_chains fs)"
  note inv = index_okD(3) [OF ok]
  have p: "pages_inv fs' ?P \<and> (\<forall>p \<in> ?P. lpage fs' p = lpage fs p \<and> pkv fs' p = pkv fs p)"
  proof (rule pages_frame [OF inv pc sb fr sz])
    show "r \<in> ?P" if "cached fs' r \<noteq> None" for r using ca [OF that] pages_invD(3) [OF inv] by blast
    show "lblock fs' r = lblock fs r" if "blk r" "r \<in> ?P \<or> (\<exists>p \<in> ?P. r \<in> recs fs p)" for r
    proof (rule bl)
      show "\<not> outside fs r" using that(2) by (auto simp: outside_def foreign_def)
      show "allocd fs r" using that(2) pages_invD(4,7) [OF inv] by auto
    qed
  qed
  have "dir_inv fs' (dir_chains fs)" using p by (intro dir_inv_cong [OF index_okD(2) [OF ok] pd]) simp
  then have "index_inv fs' (dir_chains fs)" using p index_okD(4) [OF ok] by (simp add: index_inv_def)
  then show i: "index_ok fs'" and c: "dir_chains fs' = dir_chains fs" using index_okI by blast+
  have kv: "kv fs' (dir_chains fs' ! i) = kv fs (dir_chains fs ! i)" if "i < length (dir_chains fs)" for i
    unfolding c using p nth_pages_of [OF that] by (intro kv_cong) blast
  show "index_abs fs' = index_abs fs" "index_unique fs' = index_unique fs"
    using index_abs_cong [OF ok _ pd kv] c by simp_all
  have "chain_kv fs' key = chain_kv fs key" for key
    using kv [OF index_okD(5) [OF ok], of key] by (simp add: chain_kv_def key_idx_def pd)
  then show "chain_kv fs' = chain_kv fs" by blast
  show "outside fs' r \<longleftrightarrow> blk r \<and> unat r + 4096 \<le> alloc_frontier fs' \<and> r \<notin> ?P \<and> (\<forall>p \<in> ?P. r \<notin> recs fs p)" for r
    unfolding outside_def foreign_def c using p by auto
qed

lemma index_frame:
  assumes ok: "index_ok fs" and pc: "pc_inv fs'" and sb: "super_inv (sb fs')" and fr: "alloc_frontier fs \<le> alloc_frontier fs'"
    and sz: "isize fs \<le> isize fs'" and pd: "pdir fs' = pdir fs" and ca: "cached fs' = cached fs"
    and bl: "\<And>r. allocd fs r \<Longrightarrow> \<not> outside fs r \<Longrightarrow> lblock fs' r = lblock fs r"
    and out: "\<And>r. outside fs r \<Longrightarrow> \<not> in_extent off n r \<Longrightarrow> lblock fs' r = lblock fs r"
  shows "data_step fs off n fs'" and "dir_chains fs' = dir_chains fs"
    and "\<And>r. outside fs' r \<longleftrightarrow> blk r \<and> unat r + 4096 \<le> alloc_frontier fs' \<and> r \<notin> pages_of (dir_chains fs) \<and>
           (\<forall>p \<in> pages_of (dir_chains fs). r \<notin> recs fs p)"
proof -
  note k = index_kept [OF ok pc sb fr sz pd _ bl, unfolded ca]
  show "dir_chains fs' = dir_chains fs"
    and o': "\<And>r. outside fs' r \<longleftrightarrow> blk r \<and> unat r + 4096 \<le> alloc_frontier fs' \<and> r \<notin> pages_of (dir_chains fs) \<and>
           (\<forall>p \<in> pages_of (dir_chains fs). r \<notin> recs fs p)" using k by blast+
  have "outside fs' r" if "outside fs r" for r
    unfolding o' using that fr by (auto simp: outside_def foreign_def)
  then show "data_step fs off n fs'" unfolding data_step_def using k(1,3-5) pd sz out by blast
qed

text \<open>Changes that keep the extent's blocks but perhaps not their contents.\<close>

lemma extent_kept: "data_step fs o' m fs' \<Longrightarrow> extent_at fs off n \<Longrightarrow> extent_at fs' off n"
  using data_stepD(6) by (simp add: extent_at_def)

section \<open>Writing into an extent\<close>

lemma unat_extent_block: "extent_at fs off n \<Longrightarrow> i < n \<Longrightarrow> unat (of_nat (unat off + i * 4096) :: u64) = unat off + i * 4096"
  by (subst unat_of_nat) (simp add: extent_at_def)

lemma extent_block_outside:
  assumes e: "extent_at fs off n" and r: "in_extent off n r"
  shows "outside fs r"
proof -
  obtain i where i: "i < n" "unat r = unat off + i * 4096" using r by (auto simp: in_extent_def)
  then have "r = of_nat (unat off + i * 4096)" using unat_extent_block [OF e i(1)] by (simp add: word_unat_eq_iff)
  then show ?thesis using e i(1) by (simp add: extent_at_def)
qed

text \<open>A block that is not one of the extent's lies apart from its bytes.\<close>

lemma apart_from_extent:
  assumes b: "blk r" "blk off" and nr: "\<not> in_extent off n r"
  shows "unat r + 4096 \<le> unat off \<or> unat off + n * 4096 \<le> unat r"
proof (rule ccontr)
  assume c: "\<not> ?thesis"
  obtain a c' where ac: "unat r = 4096 * a" "unat off = 4096 * c'" using b by (auto simp: blk_def dvd_def)
  have "c' \<le> a" "a < c' + n" using c ac by auto
  then have "a - c' < n" "unat r = unat off + (a - c') * 4096" using ac by auto
  with nr show False by (auto simp: in_extent_def)
qed

lemma extent_write:
  assumes ok: "index_ok fs" and e: "extent_at fs off n" and len: "a + length bs \<le> n * 4096"
  obtains fs' where "fs_pwrite fs bs (off + of_nat a) = (True, fs')" and "data_step fs off n fs'" and "rest fs' = rest fs" and "sb fs' = sb fs"
    and "img fs' = poke (img (tick fs)) (unat off + a) bs"
proof -
  let ?f = "poke (img (tick fs)) (unat off + a) bs"
  let ?fs = "fs\<lparr>img := ?f\<rparr>"
  have pc: "pc_inv fs" using pages_invD(1) [OF index_okD(3) [OF ok]] .
  have ff: "fault_free (img fs)" and wf: "os_wf (img fs)" using pc by (auto simp: pc_inv_def)
  have eb: "blk off" "unat off + n * 4096 < 2 ^ 63" using e by (auto simp: extent_at_def)
  have "unat (of_nat a :: u64) = a" using len eb by (simp add: unat_of_nat)
  then have u: "unat (off + of_nat a) = unat off + a" using len eb by (subst unat_add_nowrap) auto
  have w: "fs_pwrite fs bs (off + of_nat a) = (True, ?fs)"
    using ff len eb u by (simp add: fs_pwrite_ok s64_ok_def)
  have other: "peek ?f (unat r) 4096 = peek (img fs) (unat r) 4096" if "blk r" "\<not> in_extent off n r" for r
    using apart_from_extent [OF that(1) eb(1) that(2)] len by (subst peek_poke_other) auto
  have un: "cached fs r = None" if "in_extent off n r" for r
    using outside_raw(2) [OF ok extent_block_outside [OF e that]] .
  have sl: "slot_ok ?f i (pcache fs i)" for i
  proof (cases "pc_page (pcache fs i)")
    case (Some pg)
    have sk: "slot_ok (img fs) i (pcache fs i)" using pc by (simp add: pc_inv_def)
    then have "\<not> in_extent off n (pc_page_off (pcache fs i))"
      using un [of "pc_page_off (pcache fs i)"] Some by (auto simp: slot_ok_def cached_def Let_def)
    with sk Some other show ?thesis by (simp add: slot_ok_def)
  qed (simp add: slot_ok_def)
  have lb: "lblock ?fs r = lblock fs r" if "blk r" "\<not> in_extent off n r" for r
    using other [OF that] by (simp add: lblock_def split: option.split)
  have "data_step fs off n ?fs"
  proof (rule index_frame(1) [OF ok])
    show "pc_inv ?fs" using sl ff wf by (simp add: pc_inv_def os_wf_poke)
    show "super_inv (sb ?fs)" using pages_invD(2) [OF index_okD(3) [OF ok]] by simp
    show "isize fs \<le> isize ?fs" using os_size_poke_le [of "img (tick fs)" "unat off + a" bs] by simp
    show "lblock ?fs r = lblock fs r" if "allocd fs r" "\<not> outside fs r" for r
      using lb that extent_block_outside [OF e] by (auto simp: allocd_def)
    show "lblock ?fs r = lblock fs r" if "outside fs r" "\<not> in_extent off n r" for r
      using lb that by (simp add: outside_def foreign_def)
  qed (simp_all add: alloc_frontier_def)
  then show thesis by (intro that [OF w]) simp_all
qed

section \<open>Allocating an extent\<close>

lemma extent_alloc:
  assumes ok: "index_ok fs" and n: "0 < n" "unat n \<le> free_blocks fs"
  obtains off fs' where "page_alloc_n fs n = (off, fs')" and "off \<noteq> 0" and "extent_at fs' off (unat n)" and "index_spares fs fs'"
    and "data_step fs off 0 fs'" and "rest fs' = rest fs" and "img fs' = img fs" and "free_blocks fs' = free_blocks fs - unat n"
    and "unat off = alloc_frontier fs" and "alloc_frontier fs' = alloc_frontier fs + unat n * 4096"
proof -
  let ?off = "alloc_off (sb fs)"
  have le: "n \<le> s_free_blocks (sb fs)" using n(2) by (simp add: word_le_nat_alt)
  have pos: "0 < unat n" using n(1) by (simp add: word_less_nat_alt)
  have free: "0 < free_blocks fs" using n(2) pos by simp
  note a = page_alloc_n_free [OF n(1) le]
  let ?fs = "fs\<lparr>sb := (sb fs)\<lparr>s_free_blocks := s_free_blocks (sb fs) - n\<rparr>\<rparr>"
  note inv = index_okD(3) [OF ok] note fa = fresh_alloc_off [OF inv free]
  have sup: "super_inv (sb fs)" by (rule pages_invD(2) [OF inv])
  have nat: "page_alloc_nat fs (unat n) = (unat ?off, ?fs)" using a by (simp add: page_alloc_nat_def)
  have wf: "alloc_wf (sb fs)" using sup by (simp add: super_inv_def)
  have av: "unat n \<le> alloc_avail fs" using n(2) by (simp add: alloc_avail_def)
  note b = block_alloc.alloc_bumps [OF wf pos av nat]
  have fb: "free_blocks ?fs = free_blocks fs - unat n" using le by (simp add: unat_sub)
  have sup': "super_inv (sb ?fs)" using sup alloc_wf_take [OF wf le] by (simp add: super_inv_def)
  have views: "lblock ?fs = lblock fs" "cached ?fs = cached fs" by (simp_all add: lblock_def cached_def fun_eq_iff split: option.split)
  have pc: "pc_inv ?fs" using pages_invD(1) [OF inv] by (simp add: pc_inv_def)
  have fr: "alloc_frontier fs \<le> alloc_frontier ?fs" using b by simp
  note fm = index_frame [where off = ?off and n = 0, OF ok pc sup' fr _ _ views(2)]
  have ds: "data_step fs ?off 0 ?fs" and dc: "dir_chains ?fs = dir_chains fs"
    and ou: "\<And>r. outside ?fs r \<longleftrightarrow> blk r \<and> unat r + 4096 \<le> alloc_frontier ?fs \<and> r \<notin> pages_of (dir_chains fs) \<and>
           (\<forall>p \<in> pages_of (dir_chains fs). r \<notin> recs fs p)"
    using fm views by simp_all
  have bound: "alloc_frontier ?fs < 2 ^ 63"
  proof -
    have "alloc_frontier ?fs \<le> unat (s_data_off (sb ?fs)) + unat (s_block_count (sb ?fs)) * 4096"
      by (simp add: alloc_frontier_def)
    then show ?thesis using sup' by (simp add: super_inv_def alloc_wf_def)
  qed
  have dv: "4096 dvd alloc_frontier fs" using fa by (simp add: fresh_block_def blk_def)
  have "outside ?fs (of_nat (unat ?off + i * 4096))" if "i < unat n" for i
  proof -
    let ?r = "of_nat (unat ?off + i * 4096) :: u64"
    have s: "Suc i * 4096 \<le> unat n * 4096" using that by (intro mult_le_mono1) simp
    have in': "unat ?off + i * 4096 + 4096 \<le> alloc_frontier ?fs" using b s by simp
    then have u: "unat ?r = unat ?off + i * 4096" using bound by (subst unat_of_nat) simp
    have "4096 dvd unat ?r" unfolding u using dv fa(2) by simp
    then have "blk ?r" using in' bound u by (simp add: blk_def)
    moreover have "?r \<noteq> q" if "allocd fs q" for q using that u fa(2) by (auto simp: allocd_def)
    then have "?r \<notin> pages_of (dir_chains fs)" "\<forall>p \<in> pages_of (dir_chains fs). ?r \<notin> recs fs p"
      using pages_invD(4,7) [OF inv] by blast+
    ultimately show ?thesis unfolding ou using in' u by simp
  qed
  then have "extent_at ?fs ?off (unat n)"
    using fa b bound by (simp add: extent_at_def fresh_block_def)
  then show thesis
    using b ds data_step_spares [OF ds] fa fb by (intro that [OF a]) (simp_all add: fresh_block_def)
qed

end
