(* ===== verification/Format.thy ===== *)
theory Format
  imports Super
begin

text \<open>
  An image made by \<^verbatim>\<open>xxfs_mkfs\<close> mounts, and its index holds exactly the root directory. The size is at most
  one pebibyte, which keeps the 64-bit arithmetic of \<^verbatim>\<open>xxfs_mkfs\<close> from wrapping.
\<close>

section \<open>Arithmetic of the layout\<close>

lemma and_not_mask_unat: "unat (w AND NOT (mask n) :: 'a::len word) = unat w - unat w mod 2 ^ n"
proof -
  have "w AND NOT (mask n) = push_bit n (drop_bit n w)"
    by (rule bit_word_eqI) (auto simp: bit_simps)
  also have "\<dots> = w - take_bit n w" using bits_ident [of n w] by (simp add: algebra_simps)
  finally have *: "w AND NOT (mask n) = w - take_bit n w" .
  have "unat (take_bit n w) = unat w mod 2 ^ n" by (simp add: unsigned_take_bit_eq take_bit_nat_def)
  moreover have "take_bit n w \<le> w" using calculation by (simp add: word_le_nat_alt)
  ultimately show ?thesis by (simp add: * unat_sub)
qed

lemma align_up:
  assumes "4096 dvd unat (w :: u64)" and "unat w + 4095 < 2 ^ 64"
  shows "(w + 4095) AND NOT 4095 = w"
proof -
  have u: "unat (w + 4095) = unat w + 4095" using assms(2) by (subst unat_add_nowrap) simp_all
  have m: "(unat w + 4095) mod 4096 = 4095" using assms(1) by (auto elim!: dvdE)
  have "(4095 :: u64) = mask 12" by (simp add: mask_eq_exp_minus_1)
  then have "unat ((w + 4095) AND NOT 4095) = unat (w + 4095) - unat (w + 4095) mod 2 ^ 12"
    by (simp only: and_not_mask_unat)
  also have "\<dots> = unat w" using u m by simp
  finally show ?thesis by (simp add: word_unat_eq_iff)
qed

definition data_start :: "nat \<Rightarrow> nat" where
  "data_start blocks = 12587008 + ((blocks + 8191) div 8192 * 64 + 4095) div 4096 * 4096"

lemma data_start_bounds: "4096 dvd data_start n" "4096 \<le> data_start n" "n < 2 ^ 40 \<Longrightarrow> data_start n < 2 ^ 41"
proof -
  show "4096 dvd data_start n" by (simp add: data_start_def)
  show "4096 \<le> data_start n" by (simp add: data_start_def)
  assume "n < 2 ^ 40"
  moreover have "(n + 8191) div 8192 \<le> n + 1" by linarith
  moreover have "((n + 8191) div 8192 * 64 + 4095) div 4096 * 4096 \<le> (n + 8191) div 8192 * 64 + 4095"
    by (rule div_times_less_eq_dividend)
  moreover have "(n + 8191) div 8192 * 64 \<le> (n + 8191) div 128" by linarith
  ultimately show "data_start n < 2 ^ 41" unfolding data_start_def by simp
qed

lemma mkfs_data_off:
  assumes "unat tot < 2 ^ 40"
  shows "unat (s_data_off (mkfs_super tot now)) = data_start (unat tot)"
proof -
  have a: "unat (tot + 8192 - 1) = unat tot + 8191"
  proof -
    have "tot + 8192 - 1 = tot + 8191" by simp
    moreover have "unat (tot + 8191) = unat tot + 8191" using assms by (subst unat_add_nowrap) simp_all
    ultimately show ?thesis by (simp only:)
  qed
  define bg where "bg = (ucast ((tot + 8192 - 1) div 8192) :: u32)"
  have bg: "unat bg = (unat tot + 8191) div 8192"
    using assms a by (simp add: bg_def unsigned_ucast_eq take_bit_nat_eq_self_iff unat_div_distrib)
  have b: "unat (ucast bg * 64 + 4096 - 1 :: u64) = (unat tot + 8191) div 8192 * 64 + 4095"
  proof -
    have m: "unat (ucast bg * 64 :: u64) = unat bg * 64"
      using assms bg by (subst unat_mul_nowrap) (simp_all add: unat_ucast_up)
    have "ucast bg * 64 + 4096 - 1 = (ucast bg * 64 + 4095 :: u64)" by simp
    moreover have "unat (ucast bg * 64 + 4095 :: u64) = unat bg * 64 + 4095"
      using assms bg m by (subst unat_add_nowrap) simp_all
    ultimately show ?thesis by (simp only: bg)
  qed
  let ?q = "((unat tot + 8191) div 8192 * 64 + 4095) div 4096"
  have q: "?q * 4096 < 2 ^ 41" using data_start_bounds(3) [of "unat tot"] assms by (simp add: data_start_def)
  have "unat ((ucast bg * 64 + 4096 - 1) div 4096 :: u64) = ?q" using b by (simp add: unat_div_distrib)
  then have c: "unat ((ucast bg * 64 + 4096 - 1) div 4096 * 4096 :: u64) = ?q * 4096"
    using q by (subst unat_mul_nowrap) simp_all
  have "unat (12587008 + (ucast bg * 64 + 4096 - 1) div 4096 * 4096 :: u64) = 12587008 + ?q * 4096"
    using q c by (subst unat_add_nowrap) simp_all
  then show ?thesis
    by (simp add: mkfs_super_def super_consts Let_def bg_def data_start_def)
qed

section \<open>The image\<close>

lemma pwrite_snd:
  assumes "fault_free f" and "s64_ok off (length bs)"
  shows "snd (xxfs_os_file_pwrite f bs off) = poke (f\<lparr>os_calls := Suc (os_calls f)\<rparr>) (unat off) bs"
  using assms by (simp add: pwrite_ok)

definition mkfs_final_super :: "u64 \<Rightarrow> u64 \<Rightarrow> xxfs_super" where
  "mkfs_final_super blocks now =
     (let s = mkfs_super blocks now
      in with_crc (s\<lparr>s_pdir_off := s_data_off s + 8192, s_pdir_size := 1, s_pdir_depth := 0, s_free_blocks := blocks - 7\<rparr>))"

lemma wf_mkfs_super [simp]: "wf_super (mkfs_super blocks now)"
  using wf_zero_super by (simp add: mkfs_super_def wf_super_def Let_def)

lemma wf_mkfs_final [simp]: "wf_super (mkfs_final_super blocks now)"
  using wf_mkfs_super [of blocks now] by (simp add: mkfs_final_super_def with_crc_def wf_super_def Let_def)

lemma wf_mkfs_root [simp]: "wf_inode (mkfs_root now)"
proof -
  have "length (i_name zero_inode) = 256" using wf_zero_inode by (simp add: wf_inode_def)
  then show ?thesis
    unfolding mkfs_root_def using wf_zero_inode by (intro wf_seal) (simp add: wf_inode_def)
qed

lemma length_mkfs_root [simp]: "length (enc_inode (mkfs_root now)) = 560"
  by (simp add: inode_codec.enc_length)

lemma wf_mkfs_page [simp]: "wf_page (mkfs_page off)"
proof -
  have "wf_slot (empty_slot\<lparr>ps_hash := h, ps_file_off := off, ps_klen := k, ps_vlen := v,
      ps_key_prefix := buf_put 0 [0x2F] (ps_key_prefix empty_slot)\<rparr>)" for h k v
    by (simp add: wf_slot_def empty_slot_def)
  then show ?thesis
    using wf_empty by (auto simp: mkfs_page_def wf_page_def empty_page_def dest!: subsetD [OF set_update_subset_insert])
qed

text \<open>What the image holds after \<^verbatim>\<open>xxfs_mkfs\<close>.\<close>

definition formatted :: "os_file \<Rightarrow> u64 \<Rightarrow> u64 \<Rightarrow> bool" where
  "formatted f blocks now \<longleftrightarrow>
     (let D = data_start (unat blocks) in
      fault_free f \<and> os_wf f \<and> D + 8200 \<le> os_size f \<and> peek f 0 4096 = enc_super (mkfs_final_super blocks now) \<and>
      peek f D 569 = record_bytes [0x2F] (enc_inode (mkfs_root now)) \<and>
      peek f (D + 4096) 4096 = enc_page (mkfs_page (of_nat D)) \<and>
      peek f (D + 8192) 8 = enc_le 8 (of_nat D + 4096 :: u64))"

text \<open>On a file that does not fail each \<open>pwrite\<close> of the formatter is a plain store, and a store is
  seen by the reads of its own range only.\<close>

definition put_bytes :: "os_file \<Rightarrow> bytes \<Rightarrow> nat \<Rightarrow> os_file" where
  "put_bytes f bs a = poke (f\<lparr>os_calls := Suc (os_calls f)\<rparr>) a bs"

lemma pwrite_put_bytes:
  assumes "fault_free f" and "unat a + length bs < 2 ^ 42"
  shows "snd (xxfs_os_file_pwrite f bs a) = put_bytes f bs (unat a)"
  using assms by (simp add: pwrite_snd put_bytes_def s64_ok_def)

lemma put_bytes_keeps [simp]:
  shows "fault_free (put_bytes f bs a) = fault_free f"
    and "os_wf f \<Longrightarrow> os_wf (put_bytes f bs a)"
  by (simp_all add: put_bytes_def os_wf_poke)

lemma put_bytes_size:
  shows "os_size f \<le> os_size (put_bytes f bs a)"
    and "bs \<noteq> [] \<Longrightarrow> a + length bs \<le> os_size (put_bytes f bs a)"
  by (simp_all add: put_bytes_def poke_def)

lemma peek_put_bytes:
  shows "n = length bs \<Longrightarrow> peek (put_bytes f bs a) a n = bs"
    and "c + n \<le> a \<or> a + length bs \<le> c \<Longrightarrow> peek (put_bytes f bs a) c n = peek f c n"
  by (simp_all add: put_bytes_def peek_poke_same peek_poke_other)

lemma peek_record:
  assumes "length hdr = 8" and "length val = 560"
  shows "peek (put_bytes (put_bytes (put_bytes f hdr a) [c] (a + 8)) val (a + 9)) a 569 = hdr @ [c] @ val"
proof -
  let ?g2 = "put_bytes (put_bytes f hdr a) [c] (a + 8)"
  let ?g3 = "put_bytes ?g2 val (a + 9)"
  have "peek ?g3 a 569 = peek ?g3 a (8 + 1) @ peek ?g3 (a + (8 + 1)) 560"
    using peek_split [of ?g3 a "8 + 1" 560] by simp
  also have "peek ?g3 (a + (8 + 1)) 560 = val" using assms(2) by (simp add: peek_put_bytes)
  also have "peek ?g3 a (8 + 1) = peek ?g2 a 8 @ peek ?g2 (a + 8) 1"
    using peek_split [of ?g2 a 8 1] by (simp add: peek_put_bytes)
  also have "peek ?g2 (a + 8) 1 = [c]" by (simp add: peek_put_bytes)
  also have "peek ?g2 a 8 = hdr" using assms(1) by (simp add: peek_put_bytes)
  finally show ?thesis by simp
qed

lemma mkfs_fill_formatted:
  assumes ff: "fault_free f" and wf: "os_wf f" and b: "unat blocks < 2 ^ 40" "7 \<le> unat blocks"
  shows "formatted (mkfs_fill f (mkfs_super blocks now) blocks now) blocks now"
proof -
  let ?s = "mkfs_super blocks now" and ?D = "data_start (unat blocks)"
  note db = data_start_bounds(1,2) [of "unat blocks"] data_start_bounds(3) [OF b(1)]
  have D: "unat (s_data_off ?s) = ?D" using mkfs_data_off [OF b(1)] .
  have Dw: "s_data_off ?s = of_nat ?D" unfolding D [symmetric] by simp
  have u: "unat (s_data_off ?s + of_nat n) = ?D + n" if "n < 100000" for n
    using that db D by (subst unat_add_nowrap) (simp_all add: unat_of_nat)
  have us: "unat (s_data_off ?s + 4096) = ?D + 4096" "unat (s_data_off ?s + 8192) = ?D + 8192"
    "unat (s_data_off ?s + 8) = ?D + 8" "unat (s_data_off ?s + 9) = ?D + 9"
    using u [of 4096] u [of 8192] u [of 8] u [of 9] by simp_all
  have po: "(s_data_off ?s + 4096 + 4096 + 4096 - 1) AND NOT (4096 - 1) = s_data_off ?s + 8192"
    using align_up [of "s_data_off ?s + 8192"] us(2) db by (simp add: algebra_simps)
  have fr: "blocks - ucast (ucast ((s_data_off ?s + 8192 + 4096 - s_data_off ?s) div 4096 :: u64) :: u32) - 4 = blocks - 7"
    by simp
  let ?hdr = "enc_le 4 (1 :: u32) @ enc_le 4 (560 :: u32)" and ?sup = "enc_super (mkfs_final_super blocks now)"
    and ?dir = "enc_le 8 (s_data_off ?s + 4096)"
  define g3 where "g3 = put_bytes (put_bytes (put_bytes f ?hdr ?D) [0x2F] (?D + 8)) (enc_inode (mkfs_root now)) (?D + 9)"
  define g4 where "g4 = put_bytes g3 (enc_page (mkfs_page (s_data_off ?s))) (?D + 4096)"
  define g5 where "g5 = put_bytes g4 ?dir (?D + 8192)"
  define g6 where "g6 = put_bytes g5 ?sup 0"
  note gs = g3_def g4_def g5_def g6_def
  have lp: "length (enc_page (mkfs_page o')) = 4096" "length ?sup = 4096" for o'
    by (simp_all add: page_codec.enc_length super_codec.enc_length)
  have "mkfs_fill f ?s blocks now = snd (xxfs_os_file_sync g6)"
    unfolding mkfs_fill_def Let_def po fr INODE_SIZE_def
    using ff db D us lp by (simp add: pwrite_put_bytes gs mkfs_final_super_def Let_def)
  then have fill: "mkfs_fill f ?s blocks now = g6\<lparr>os_calls := Suc (os_calls g6)\<rparr>"
    using ff by (simp add: xxfs_os_file_sync_def os_call_ok gs)
  have "peek g6 0 4096 = ?sup" using lp by (simp add: g6_def peek_put_bytes)
  moreover have "peek g6 (?D + 8192) 8 = ?dir"
    using lp db by (simp add: g6_def g5_def peek_put_bytes)
  moreover have "peek g6 (?D + 4096) 4096 = enc_page (mkfs_page (s_data_off ?s))"
    using lp db by (simp add: g6_def g5_def g4_def peek_put_bytes)
  moreover have "peek g6 ?D 569 = peek g3 ?D 569" using lp db by (simp add: g6_def g5_def g4_def peek_put_bytes)
  then have "peek g6 ?D 569 = record_bytes [0x2F] (enc_inode (mkfs_root now))"
    unfolding g3_def by (subst (asm) peek_record) (simp_all add: record_bytes_def)
  moreover have "?dir \<noteq> []" using length_enc_le [of 8 "s_data_off ?s + 4096"] by fastforce
  then have "?D + 8200 \<le> os_size g6"
    using put_bytes_size(1) [of g5 ?sup 0] put_bytes_size(2) [of ?dir "?D + 8192" g4] by (simp add: g6_def g5_def)
  ultimately show ?thesis
    using ff wf by (simp add: formatted_def Let_def fill Dw gs)
qed

section \<open>Mounting the image\<close>

lemma mkfs_page_ok:
  assumes r: "fld 8 561 (rd off) = [0x2F] @ enc_inode (mkfs_root now)" and sz: "unat off + 569 \<le> sz"
  shows "page_ok rd sz (mkfs_page off)" and "page_kv rd (mkfs_page off) = [([0x2F], enc_inode (mkfs_root now))]"
    and "page_recs (mkfs_page off) = {off}" and "pg_overflow_next (mkfs_page off) = 0"
proof -
  let ?s = "empty_slot\<lparr>ps_hash := xxh64 [0x2F], ps_file_off := off, ps_klen := 1,
      ps_vlen := of_nat INODE_SIZE, ps_key_prefix := buf_put 0 [0x2F] (ps_key_prefix empty_slot)\<rparr>"
  have sl: "pg_slots (mkfs_page off) ! 0 = ?s" "pg_count (mkfs_page off) = 1"
    "take 1 (pg_slots (mkfs_page off)) = [?s]"
    by (simp_all add: mkfs_page_def empty_page_def take_Suc_conv_app_nth)
  have ni: "\<not> slot_inline ?s" by (simp add: slot_inline_def empty_slot_def)
  have size: "slot_size ?s = 561" by (simp add: slot_size_def INODE_SIZE_def)
  have b: "slot_bytes rd (mkfs_page off) ?s = [0x2F] @ enc_inode (mkfs_root now)"
    using ni r by (simp add: slot_bytes_def size)
  have k: "slot_key rd (mkfs_page off) ?s = [0x2F]" using b by (simp add: slot_key_def)
  have good: "slot_good rd sz (mkfs_page off) ?s"
    using ni k sz unfolding slot_good_def size by (simp add: empty_slot_def buf_put_def)
  show "page_ok rd sz (mkfs_page off)"
    using good sl by (simp add: page_ok_def) (simp add: mkfs_page_def empty_page_def)
  show "page_kv rd (mkfs_page off) = [([0x2F], enc_inode (mkfs_root now))]"
    using sl b by (simp add: page_kv_def slot_kv_def slot_key_def slot_val_def)
  have "{s \<in> set [?s]. \<not> slot_inline s} = {?s}" using ni by auto
  then show "page_recs (mkfs_page off) = {off}" by (simp only: page_recs_def sl unat_1 image_insert image_empty) simp
  show "pg_overflow_next (mkfs_page off) = 0" by (simp add: mkfs_page_def empty_page_def)
qed

lemma mkfs_final_fields:
  assumes "unat blocks < 2 ^ 40" and "7 \<le> unat blocks"
  shows "s_magic (mkfs_final_super blocks now) = XXFS_MAGIC"
    and "super_crc (mkfs_final_super blocks now) = s_checksum (mkfs_final_super blocks now)"
    and "unat (s_pdir_off (mkfs_final_super blocks now)) = data_start (unat blocks) + 8192"
    and "s_pdir_size (mkfs_final_super blocks now) = 1" and "s_pdir_depth (mkfs_final_super blocks now) = 0"
    and "super_inv (mkfs_final_super blocks now)"
    and "unat (s_data_off (mkfs_final_super blocks now)) = data_start (unat blocks)"
    and "unat (s_block_count (mkfs_final_super blocks now)) = unat blocks"
    and "unat (s_free_blocks (mkfs_final_super blocks now)) = unat blocks - 7"
proof -
  let ?t = "mkfs_final_super blocks now"
  note D = mkfs_data_off [OF assms(1), of now] and db = data_start_bounds(1,2) [of "unat blocks"] data_start_bounds(3) [OF assms(1)]
  have f: "s_magic ?t = XXFS_MAGIC" "s_pdir_size ?t = 1" "s_pdir_depth ?t = 0" "s_pdir_off ?t = s_data_off (mkfs_super blocks now) + 8192"
    "s_data_off ?t = s_data_off (mkfs_super blocks now)" "s_block_count ?t = blocks" "s_free_blocks ?t = blocks - 7"
    by (simp_all add: mkfs_final_super_def with_crc_def mkfs_super_def Let_def)
  show "super_crc ?t = s_checksum ?t" unfolding mkfs_final_super_def Let_def by (rule super_crc_with_crc)
  have fb: "unat (blocks - 7) = unat blocks - 7" using assms(2) by (subst unat_sub) (simp_all add: word_le_nat_alt)
  show "unat (s_pdir_off ?t) = data_start (unat blocks) + 8192"
    using D db by (subst f, subst unat_add_nowrap) simp_all
  show "super_inv ?t"
    using D db assms fb by (simp add: super_inv_def alloc_wf_def f word_le_nat_alt)
  show "s_magic ?t = XXFS_MAGIC" "s_pdir_size ?t = 1" "s_pdir_depth ?t = 0"
    "unat (s_data_off ?t) = data_start (unat blocks)" "unat (s_block_count ?t) = unat blocks"
    "unat (s_free_blocks ?t) = unat blocks - 7"
    using f D fb by simp_all
qed

text \<open>Freshly mounted: nothing is cached.\<close>

definition pristine :: "xxfs \<Rightarrow> bool" where
  "pristine fs \<longleftrightarrow> icache fs = (\<lambda>_. zero_icache_entry) \<and> icache_cap fs = ICACHE_CAP_INIT \<and>
     icache_mask fs = ICACHE_CAP_INIT - 1 \<and> icache_count fs = 0 \<and> dcache fs = (\<lambda>_. zero_dir_cache_entry)"

lemma formatted_mounts:
  assumes f: "formatted f blocks now" and b: "unat blocks < 2 ^ 40" "10 \<le> unat blocks"
  obtains fs where "xxfs_mount f flg = Some (Inr fs)" and "index_ok fs" and "index_unique fs" and "pristine fs"
    and "\<And>key. chain_kv fs key = [([0x2F], enc_inode (mkfs_root now))]"
    and "index_abs fs = [[0x2F] \<mapsto> enc_inode (mkfs_root now)]" and "sb fs = mkfs_final_super blocks now"
    and "outside fs (s_pdir_off (sb fs))" and "flags fs = flg" and "d_dir_size (pdir fs) = 1"
proof -
  let ?D = "data_start (unat blocks)" and ?t = "mkfs_final_super blocks now"
  have b7: "7 \<le> unat blocks" using b(2) by simp
  note t = mkfs_final_fields [OF b(1) b7, of now]
  note db = data_start_bounds(1,2) [of "unat blocks"] data_start_bounds(3) [OF b(1)]
  note fm = f [unfolded formatted_def Let_def]
  define rec where "rec = (of_nat ?D :: u64)"
  have u: "unat rec = ?D" "unat (rec + 4096) = ?D + 4096"
  proof -
    show *: "unat rec = ?D" using db by (simp add: rec_def unat_of_nat)
    show "unat (rec + 4096) = ?D + 4096" using db * by (subst unat_add_nowrap) simp_all
  qed
  have pd: "s_pdir_off ?t \<noteq> 0" "s64_ok (s_pdir_off ?t) 0" "unat (s_pdir_off ?t) + 8 * unat (s_pdir_size ?t) \<le> os_size f"
    using t db fm by (auto simp: s64_ok_def)
  obtain fs where m: "xxfs_mount f flg = Some (Inr fs)" and fs: "sb fs = ?t" "only_calls f (img fs)"
    "pcache fs = (\<lambda>_. zero_paged_cache)" and fp: "flags fs = flg" "pristine fs" and fsd:
    "pdir fs = \<lparr>d_page_off = dec_array 8 dec_le (unat (s_pdir_size ?t)) (peek f (unat (s_pdir_off ?t)) (8 * unat (s_pdir_size ?t))),
      d_dir_size = s_pdir_size ?t, d_global_depth = s_pdir_depth ?t\<rparr>"
    using mount_ok [of f ?t flg] fm t pd by (auto simp: pristine_def)
  have dir: "pdir fs = \<lparr>d_page_off = [rec + 4096], d_dir_size = 1, d_global_depth = 0\<rparr>"
    using fm by (simp add: fsd t dec_array_def rec_def codec)
  have im: "peek (img fs) = peek f" "fault_free (img fs)" "os_wf (img fs)" "isize fs = os_size f"
    using fs(2) fm by (auto simp: only_calls_def)
  have un: "cached fs r = None" for r by (simp add: cached_def fs(3) zero_paged_cache_def)
  have bl: "lblock fs r = peek f (unat r) 4096" for r by (simp add: lblock_def un im)
  have pg: "lpage fs (rec + 4096) = mkfs_page rec"
    using fm by (simp only: lpage_def bl u) (simp add: rec_def page_codec.dec_enc)
  have "fld 8 561 (lblock fs rec) = fld 8 561 (peek f ?D 569)"
    by (simp add: bl u fld_peek)
  also have "\<dots> = [0x2F] @ enc_inode (mkfs_root now)"
    using fm fld_record [of "[0x2F]" "enc_inode (mkfs_root now)"] by simp
  finally have "fld 8 561 (lblock fs rec) = [0x2F] @ enc_inode (mkfs_root now)" .
  from mkfs_page_ok [where rd = "lblock fs" and off = rec and now = now and sz = "isize fs", OF this] fm
  have p: "page_ok (lblock fs) (isize fs) (mkfs_page rec)" "page_kv (lblock fs) (mkfs_page rec) = [([0x2F], enc_inode (mkfs_root now))]"
    "page_recs (mkfs_page rec) = {rec}" "pg_overflow_next (mkfs_page rec) = 0"
    by (simp_all add: u im)
  have fr: "alloc_frontier fs = ?D + 7 * 4096" using b7 by (simp add: alloc_frontier_def fs(1) t)
  have al: "allocd fs rec" "allocd fs (rec + 4096)" and ne: "rec \<noteq> rec + 4096"
    using db u by (auto simp: allocd_def blk_def fr)
  have pc: "pc_inv fs" using im by (simp add: pc_inv_def fs(3) slot_ok_def zero_paged_cache_def)
  have "pages_inv fs {rec + 4096}"
    using pc t(6) un al ne p pg by (simp add: pages_inv_def fs(1))
  moreover have "rec + 4096 \<noteq> 0" "rec + 4096 \<noteq> - 1" using al(2) blk_minus_1 unfolding allocd_def by metis+
  then have "dir_inv fs [[rec + 4096]]" using p(4) pg by (simp add: dir_inv_def dir)
  ultimately have "index_inv fs [[rec + 4096]]" by (simp add: index_inv_def pages_of_def chains_apart_def lessThan_Suc)
  then have ix: "index_ok fs" "dir_chains fs = [[rec + 4096]]" using index_okI by blast+
  have "key_idx fs key = 0" for key using index_okD(5) [OF ix(1), of key] by (simp add: ix(2))
  then have kv: "chain_kv fs key = [([0x2F], enc_inode (mkfs_root now))]" for key
    using p(2) pg by (simp add: chain_kv_def ix(2))
  then have "index_abs fs = [[0x2F] \<mapsto> enc_inode (mkfs_root now)]" by (simp add: index_abs_def fun_eq_iff)
  moreover have "index_unique fs" using p(2) pg by (simp add: index_unique_def ix(2))
  moreover have "outside fs (s_pdir_off (sb fs))"
  proof -
    have "s_pdir_off ?t \<noteq> rec" "s_pdir_off ?t \<noteq> rec + 4096" using u t(3) by auto
    then show ?thesis
      using db p(3) pg t(3) by (simp add: outside_def foreign_def ix(2) pages_of_def lessThan_Suc fs(1) fr blk_def)
  qed
  moreover have "d_dir_size (pdir fs) = 1" by (simp add: dir)
  ultimately show thesis using that m ix(1) kv fs(1) fp by blast
qed

lemma mkfs_formats:
  assumes "fault_free f" and "1 \<le> size_mb" and "size_mb \<le> 2 ^ 30"
  obtains f' blocks now where "xxfs_mkfs f size_mb False = (XXFS_OK, f')" and "formatted f' blocks now"
    and "unat blocks < 2 ^ 40" and "256 \<le> unat blocks"
proof -
  let ?mb = "unat size_mb"
  have mb: "1 \<le> ?mb" "?mb \<le> 2 ^ 30" using assms(2,3) by (simp_all add: word_le_nat_alt)
  have m1: "unat (size_mb * 1024) = ?mb * 1024" using mb by (subst unat_mul_nowrap) simp_all
  have m2: "unat (size_mb * 1024 * 1024) = ?mb * 1024 * 1024" using mb m1 by (subst unat_mul_nowrap) simp_all
  define sz where "sz = size_mb * 1024 * 1024"
  define blocks where "blocks = sz div 4096"
  have bl: "unat blocks = ?mb * 256" using m2 by (simp add: blocks_def sz_def unat_div_distrib)
  have nl: "\<not> blocks < 100" using bl mb(1) by (simp add: word_less_nat_alt)
  have si: "sint sz = int (?mb * 1024 * 1024)"
    unfolding sz_def using m2 mb by (subst sint_small) (simp_all only: m2, simp)
  define f1 where "f1 = f\<lparr>os_calls := Suc (os_calls f), os_size := 0, os_byte := (\<lambda>_. 0)\<rparr>"
  have o: "xxfs_os_file_open f 3 = (True, f1)"
    using assms(1) by (simp add: xxfs_os_file_open_def os_call_ok f1_def bit_iff_odd)
  define f2 where "f2 = f1\<lparr>os_calls := Suc (os_calls f1), os_size := ?mb * 1024 * 1024\<rparr>"
  have ff1: "fault_free f1" using assms(1) by (simp add: f1_def fault_free_def)
  have tr: "xxfs_os_file_truncate f1 (nat (sint sz)) = (True, f2)"
    unfolding si nat_int using ff1 mb by (simp add: xxfs_os_file_truncate_def os_call_ok f2_def f1_def if_distrib cong: if_cong)
  define now where "now = os_clock f2 (os_calls f2)"
  define f3 where "f3 = f2\<lparr>os_calls := Suc (os_calls f2)\<rparr>"
  have ti: "xxfs_os_time f2 = (now, f3)" by (simp add: xxfs_os_time_def now_def f3_def)
  have ff3: "fault_free f3" "os_wf f3" using ff1 by (simp_all add: f3_def f2_def fault_free_def os_wf_def f1_def)
  let ?s = "mkfs_super blocks now"
  have l: "length (enc_super (with_crc ?s)) = 4096"
    using wf_mkfs_super [of blocks now] by (intro super_codec.enc_length) (simp add: with_crc_def)
  define f4 where "f4 = poke (f3\<lparr>os_calls := Suc (os_calls f3)\<rparr>) 0 (enc_super (with_crc ?s))"
  have w: "xxfs_os_file_pwrite f3 (enc_super (with_crc ?s)) 0 = (True, f4)"
    using ff3 l by (simp add: pwrite_ok s64_ok_def f4_def)
  have ff4: "fault_free f4" "os_wf f4" using ff3 by (simp_all add: f4_def os_wf_poke)
  have b: "unat blocks < 2 ^ 40" "256 \<le> unat blocks" using bl mb by simp_all
  have "formatted (mkfs_fill f4 ?s blocks now) blocks now" using ff4 b by (intro mkfs_fill_formatted) simp_all
  moreover have "xxfs_mkfs f size_mb False = (XXFS_OK, mkfs_fill f4 ?s blocks now)"
  proof -
    have "\<not> size_mb < 1" "\<not> sint sz < 0" using mb si by (simp_all add: word_less_nat_alt)
    then show ?thesis
      using nl w unfolding xxfs_mkfs_def Let_def sz_def [symmetric] blocks_def [symmetric] by (simp add: o tr ti)
  qed
  ultimately show thesis using that b by blast
qed

text \<open>C8: making a file system and mounting it works: \<^verbatim>\<open>xxfs_mkfs\<close> returns \<^verbatim>\<open>XXFS_OK\<close>, \<^verbatim>\<open>xxfs_mount\<close> of the image
  succeeds, the index of the mounted file system is well-formed with free blocks left, and it maps the
  path \<^verbatim>\<open>/\<close> to the sealed root inode and no other path to anything.\<close>

theorem mkfs_then_mount:
  assumes "fault_free f" and "1 \<le> size_mb" and "size_mb \<le> 2 ^ 30"
  shows "\<exists>f' fs now. xxfs_mkfs f size_mb False = (XXFS_OK, f') \<and> xxfs_mount f' flg = Some (Inr fs) \<and>
    index_ok fs \<and> index_unique fs \<and> 3 \<le> free_blocks fs \<and> index_abs fs = [[0x2F] \<mapsto> enc_inode (mkfs_root now)]"
proof -
  obtain f' blocks now where f: "xxfs_mkfs f size_mb False = (XXFS_OK, f')" "formatted f' blocks now"
    and b: "unat blocks < 2 ^ 40" "256 \<le> unat blocks"
    by (rule mkfs_formats [OF assms])
  have b10: "10 \<le> unat blocks" using b by simp
  obtain fs where m: "xxfs_mount f' flg = Some (Inr fs)" "index_ok fs" "index_unique fs"
    "index_abs fs = [[0x2F] \<mapsto> enc_inode (mkfs_root now)]" "sb fs = mkfs_final_super blocks now"
    by (rule formatted_mounts [OF f(2) b(1) b10]) blast
  moreover have "3 \<le> free_blocks fs" using b mkfs_final_fields(9) [OF b(1), of now] by (simp add: m(5))
  ultimately show ?thesis using f(1) by blast
qed

theorem mkfs_then_mount_witness:
  "\<exists>f' fs. xxfs_mkfs blank_file 64 False = (XXFS_OK, f') \<and> xxfs_mount f' 0 = Some (Inr fs) \<and> index_ok fs"
  using mkfs_then_mount [of blank_file 64 0] by auto

end
