(* ===== verification/Fs_Namespace.thy ===== *)
theory Fs_Namespace
  imports Fs_Dir Format
begin

text \<open>
  The operations on the namespace, specified over the map of inodes and the lists of children: \<^verbatim>\<open>xxfs_stat\<close>,
  \<^verbatim>\<open>xxfs_create\<close>, \<^verbatim>\<open>xxfs_mkdir\<close>, \<^verbatim>\<open>xxfs_unlink\<close>, \<^verbatim>\<open>xxfs_chmod\<close> and their relatives. The concrete runs start from an image
  made by \<^verbatim>\<open>xxfs_mkfs\<close>.
\<close>

section \<open>A fresh file system\<close>

lemma length_strip_slashes: "length (strip_slashes out) \<le> length out"
  by (induction out rule: strip_slashes.induct) (subst strip_slashes.simps, auto)

lemma length_normalize_loop: "length out < XXFS_MAX_PATH - 1 \<Longrightarrow> length (normalize_loop out p) \<le> XXFS_MAX_PATH - 1"
  by (induction out p rule: normalize_loop.induct) auto

text \<open>The normalised path and its terminating zero fit into the buffer \<^verbatim>\<open>char norm[XXFS_MAX_PATH]\<close>.\<close>

lemma length_path_normalize: "length (path_normalize path) < XXFS_MAX_PATH"
proof -
  let ?o = "if path = [] \<or> hd path \<noteq> 0x2F then [0x2F] else [] :: bytes"
  have "length (normalize_loop ?o path) \<le> XXFS_MAX_PATH - 1"
    by (rule length_normalize_loop) (simp add: XXFS_MAX_PATH_def)
  then show ?thesis using length_strip_slashes [of "normalize_loop ?o path"] by (simp add: path_normalize_def XXFS_MAX_PATH_def)
qed

lemma length_norm32: "length (path_normalize path) < 2 ^ 32"
  using length_path_normalize [of path] by (simp add: XXFS_MAX_PATH_def)

lemma last_slash_le: "last_slash norm n \<le> n"
  by (induction n) auto

lemma length_parent32: "length (get_parent_path (path_normalize path)) < 2 ^ 32"
  using length_norm32 [of path] last_slash_le [of "path_normalize path" "length (path_normalize path)"]
  by (auto simp: get_parent_path_def Let_def)

lemma pristine_inv:
  assumes "index_ok fs" and "inode_sized fs" and "pristine fs"
  shows "fs_inv fs" "icache_room fs 8192" "cached_inode fs h = None" "dcache_find fs dir = None" "icache_near fs h"
proof -
  have u: "\<not> in_use fs i" for i using assms(3) by (simp add: in_use_def pristine_def zero_icache_entry_def ICACHE_CTRL_EMPTY_def)
  have t: "icache_tagged fs" using u by (simp add: icache_tagged_def in_use_def)
  have l: "icache_lookup fs h = None" for h
  proof (cases "icache_lookup fs h")
    case (Some idx)
    then show ?thesis using lookup_iff [OF t, of h idx] u by (auto simp: sits_at_def)
  qed
  show "cached_inode fs h = None" using l by (simp add: cached_inode_def)
  have "\<exists>k < 32. ICACHE_CAP_INIT = 2 ^ k" by (rule exI [of _ 14]) (simp add: icache_consts)
  then have "icache_inv fs" using assms(3) u t by (simp add: icache_inv_def pristine_def)
  then show "fs_inv fs" using assms by (simp add: fs_inv_def fs_base_def)
  have "first_usable fs h (icache_home fs h) 0" using u by (simp add: first_usable_def taken_def in_use_def)
  then show "icache_near fs h" unfolding icache_near_def by (intro exI [of _ 0]) simp
  show "icache_room fs 8192" using assms(3) by (simp add: icache_room_def pristine_def icache_consts)
  show "dcache_find fs dir = None" using assms(3) by (simp add: dcache_find_def pristine_def zero_dir_cache_entry_def)
qed

lemma mkfs_root_sealed: "decode (enc_inode (mkfs_root now)) = mkfs_root now"
  and mkfs_root_fields: "i_file_type (mkfs_root now) = XXFS_FT_DIR" "i_mode (mkfs_root now) = 493" "i_size (mkfs_root now) = 0"
proof -
  let ?i = "zero_inode\<lparr>i_mode := 493, i_file_type := XXFS_FT_DIR, i_nlinks := 2, i_atime := now, i_mtime := now,
       i_ctime := now, i_btime := now, i_generation := 1, i_name := buf_put 0 [0x2F, 0] (i_name zero_inode)\<rparr>"
  have "length (i_name zero_inode) = 256" using wf_zero_inode by (simp add: wf_inode_def)
  then have wf: "wf_inode ?i" using wf_zero_inode by (simp add: wf_inode_def)
  show "decode (enc_inode (mkfs_root now)) = mkfs_root now"
    using decode_sealed [OF wf] by (simp add: mkfs_root_def inode_to_val_def)
  show "i_file_type (mkfs_root now) = XXFS_FT_DIR" "i_mode (mkfs_root now) = 493" "i_size (mkfs_root now) = 0"
    using sealed_fields(1-3) [OF wf] by (simp_all add: mkfs_root_def zero_inode_fields)
qed

text \<open>The superblock and the page directory have their places, so that \<^verbatim>\<open>super_write\<close> stores them apart from the index.\<close>

definition can_unmount :: "xxfs \<Rightarrow> bool" where
  "can_unmount fs \<longleftrightarrow> wf_super (sb fs) \<and> s_magic (sb fs) = XXFS_MAGIC \<and> s_pdir_off (sb fs) \<noteq> 0 \<and>
     outside fs (s_pdir_off (sb fs)) \<and> unat (d_dir_size (pdir fs)) \<le> 512"

text \<open>What mounting a fresh image gives.\<close>

definition fresh_mounted :: "xxfs \<Rightarrow> u64 \<Rightarrow> bool" where
  "fresh_mounted fs now \<longleftrightarrow> fs_inv fs \<and> index_unique fs \<and> icache_room fs 8192 \<and> pristine fs \<and>
     (\<forall>h. cached_inode fs h = None) \<and> (\<forall>h. icache_near fs h) \<and> index_inode fs = [[0x2F] \<mapsto> mkfs_root now] \<and> 249 \<le> free_blocks fs \<and>
     (\<forall>key. length key \<le> 16 \<longrightarrow> can_store fs key) \<and> dir_ready fs [0x2F] \<and> dir_children fs [0x2F] = [] \<and>
     s_inodes_count (sb fs) = 1 \<and> can_unmount fs"

lemma fresh_view: "fresh_mounted fs now \<Longrightarrow> inode_view fs = [[0x2F] \<mapsto> mkfs_root now]"
  by (simp add: fresh_mounted_def inode_view_def fun_eq_iff)

lemma mkfs_mounted:
  assumes "fault_free f" and "1 \<le> size_mb" and "size_mb \<le> 2 ^ 30"
  obtains f' fs now where "xxfs_mkfs f size_mb False = (XXFS_OK, f')" and "xxfs_mount f' flg = Some (Inr fs)"
    and "fresh_mounted fs now" and "flags fs = flg" and "outside fs (s_pdir_off (sb fs))"
proof -
  obtain f' blocks now where f: "xxfs_mkfs f size_mb False = (XXFS_OK, f')" "formatted f' blocks now"
    and b: "unat blocks < 2 ^ 40" "256 \<le> unat blocks"
    by (rule mkfs_formats [OF assms])
  have b10: "10 \<le> unat blocks" using b by simp
  obtain fs where m: "xxfs_mount f' flg = Some (Inr fs)" "index_ok fs" "index_unique fs" "pristine fs"
    "index_abs fs = [[0x2F] \<mapsto> enc_inode (mkfs_root now)]" "sb fs = mkfs_final_super blocks now"
    "outside fs (s_pdir_off (sb fs))" "flags fs = flg" "d_dir_size (pdir fs) = 1"
    by (rule formatted_mounts [OF f(2) b(1) b10]) blast
  have sized: "inode_sized fs" by (simp add: inode_sized_def m(5) INODE_SIZE_def)
  note p = pristine_inv [OF m(2) sized m(4)]
  have ix: "index_inode fs = [[0x2F] \<mapsto> mkfs_root now]" by (simp add: index_inode_def m(5) mkfs_root_sealed fun_eq_iff)
  have fb: "free_blocks fs = unat blocks - 7" using mkfs_final_fields(9) [OF b(1), of now] b by (simp add: m(6))
  have nc: "\<not> has_children (mkfs_root now)" by (simp add: has_children_def mkfs_root_fields)
  have di: "dir_inode fs [0x2F] = Some (mkfs_root now)" by (simp add: dir_inode_def p(3) ix)
  have "dir_ready fs [0x2F]"
    using m(4) nc by (simp add: dir_ready_def p(4) di dir_sane_def pristine_def zero_dir_cache_entry_def)
  moreover have "dir_children fs [0x2F] = []" by (simp add: dir_children_def p(4) di stored_children_def nc)
  moreover have "\<forall>key. length key \<le> 16 \<longrightarrow> can_store fs key"
    using b by (auto simp: can_store_def fb collision_free_short KEY_PREFIX_LEN_def)
  moreover have "s_inodes_count (sb fs) = 1"
    by (simp add: m(6) mkfs_final_super_def with_crc_def mkfs_super_def Let_def)
  moreover have b7: "7 \<le> unat blocks" using b(2) by simp
  have "s_pdir_off (mkfs_final_super blocks now) \<noteq> 0"
    using mkfs_final_fields(3) [OF b(1) b7, of now] by (metis add_is_0 unat_0 zero_neq_numeral)
  then have "can_unmount fs"
    using m(7,9) mkfs_final_fields(1) [OF b(1) b7, of now] by (simp add: can_unmount_def m(6))
  ultimately have "fresh_mounted fs now" using p m(3,4) ix b fb by (simp add: fresh_mounted_def)
  then show thesis using that f(1) m by blast
qed

section \<open>Looking up\<close>

text \<open>On a well-formed file system \<^verbatim>\<open>xxfs_stat\<close> returns the inode that the file system holds for the normalised path,
  or \<^verbatim>\<open>XXFS_ENOENT\<close>; it keeps the invariant and changes neither this inode nor that of any path with another hash.\<close>

theorem stat_correct:
  assumes "fs_inv fs" and "icache_room fs 1"
  shows "\<exists>fs'. xxfs_stat fs path =
      Some (case inode_view fs (path_normalize path) of None \<Rightarrow> Inl XXFS_ENOENT | Some ino \<Rightarrow> Inr ino, fs') \<and> fs_inv fs' \<and>
    same_index fs fs' \<and>
    (\<forall>q. apart q (path_normalize path) \<or> q = path_normalize path \<longrightarrow> inode_view fs' q = inode_view fs q)"
proof -
  have r: "icache_room fs (Suc 0)" using assms(2) by simp
  show ?thesis
    unfolding xxfs_stat_def by (rule fetch_inode_law [OF assms(1) r length_norm32]) blast
qed

lemma norm_root: "path_normalize [0x2F] = [0x2F]"
  by (simp add: path_normalize_def strip_slashes.simps XXFS_MAX_PATH_def)

theorem stat_correct_witness:
  "\<exists>f fs now fs'. xxfs_mkfs blank_file 64 False = (XXFS_OK, f) \<and> xxfs_mount f 0 = Some (Inr fs) \<and>
    xxfs_stat fs [0x2F] = Some (Inr (mkfs_root now), fs')"
proof -
  obtain f fs now where m: "xxfs_mkfs blank_file 64 False = (XXFS_OK, f)" "xxfs_mount f 0 = Some (Inr fs)"
    "fresh_mounted fs now"
    by (rule mkfs_mounted [of blank_file 64 0]) simp_all
  have "icache_room fs 1" using m(3) by (simp add: fresh_mounted_def icache_room_def)
  then show ?thesis
    using stat_correct [of fs "[0x2F]"] m fresh_view [OF m(3)] by (auto simp: fresh_mounted_def norm_root)
qed

section \<open>Creating\<close>

lemma wf_new_inode:
  assumes "ino = zero_inode\<lparr>i_mode := mode, i_uid := uid, i_gid := gid, i_file_type := typ, i_nlinks := nlinks,
        i_generation := gen, i_name := put_name name (i_name zero_inode)\<rparr>"
  shows "wf_inode ino"
  using wf_zero_inode
  by (simp add: assms wf_inode_def put_name_def XXFS_MAX_NAME_def length_buf_put)

lemma new_inode_seals:
  obtains ino where "wf_inode ino" and "new_inode fs mode uid gid typ nlinks name = inode_set_checksum_ecc ino"
    and "i_file_type (new_inode fs mode uid gid typ nlinks name) = typ" and "i_size (new_inode fs mode uid gid typ nlinks name) = 0"
    and "i_blocks (new_inode fs mode uid gid typ nlinks name) = 0"
proof -
  let ?i = "zero_inode\<lparr>i_mode := mode, i_uid := uid, i_gid := gid, i_file_type := typ, i_nlinks := nlinks,
        i_generation := cow_gen fs, i_name := put_name name (i_name zero_inode)\<rparr>"
  have wf: "wf_inode ?i" by (rule wf_new_inode) (rule refl)
  show thesis
    using sealed_fields(1,3,4) [OF wf] wf by (intro that [of ?i]) (simp_all add: new_inode_def zero_inode_fields)
qed

text \<open>The common work of \<^verbatim>\<open>xxfs_create\<close> and \<^verbatim>\<open>xxfs_mkdir\<close>: the inode is inserted and cached, the parent gets a child.\<close>

lemma make_law:
  assumes inv: "fs_inv fs" and room: "icache_room fs (Suc k)" and st: "can_store fs p" and new: "inode_view fs p = None"
    and dir: "dir_ready fs dir" "apart dir p" "length dir < 2 ^ 32" and wf: "wf_inode ino"
  defines "s \<equiv> inode_set_checksum_ecc ino"
  obtains g1 g2 fs' where "paged_insert fs p (inode_to_val s) = Some (XXFS_OK, g1)" and "icache_put g1 (xxh64 p) p s = Some g2"
    and "dir_add_child g2 dir name typ = Some (XXFS_OK, fs')" and "fs_inv fs'" and "index_unique fs \<Longrightarrow> index_unique fs'"
    and "icache_room fs' k" and "inode_view fs' p = Some s" and "index_inode fs' p = Some s"
    and "\<And>q. apart q p \<Longrightarrow> inode_view fs' q = inode_view fs q"
    and "dir_children fs' dir = dir_children fs dir @ [new_child name typ]"
    and "s_inodes_count (sb fs') = s_inodes_count (sb fs)" and "index_spares fs fs'"
    and "length (dir_children fs dir) < 2 ^ 30 \<Longrightarrow> dir_ready fs' dir" and "dir_inode fs' dir = dir_inode fs dir"
    and "index_inode fs' = (index_inode fs)(p \<mapsto> s)" and "icache_near fs (xxh64 p) \<Longrightarrow> cached_inode fs' (xxh64 p) = Some s" and "free_blocks fs \<le> free_blocks fs' + 3"
    and "adds_key fs p fs'" and "sb_kept (sb fs) (sb fs')" and "dcache_find fs' dir = Some (dcache_idx dir)"
    and "\<And>j. j \<noteq> dcache_idx dir \<Longrightarrow> dcache fs' j = dcache fs j" and "de_dirty (dcache fs' (dcache_idx dir))"
    and "cache_step fs (xxh64 p) p fs'"
proof -
  have none: "cached_inode fs (xxh64 p) = None" "index_abs fs p = None"
    using new by (auto simp: inode_view_def index_inode_def split: option.splits)
  have wfs: "wf_inode s" using wf by (simp add: s_def)
  obtain g1 where i: "paged_insert fs p (inode_to_val s) = Some (XXFS_OK, g1)" "stored fs p s g1"
    and un: "index_unique fs \<Longrightarrow> index_unique g1"
    by (rule inode_insert_law [OF inv st wfs none(2)]) blast
  note st1 = i(2) [unfolded s_def] and sd = i(2) [unfolded stored_def]
  obtain g2 where c: "icache_put g1 (xxh64 p) p s = Some g2" "fs_inv g2" "icache_room g2 k" "same_index g1 g2"
    "dcache g2 = dcache fs" "sb g2 = sb g1" "inode_view g2 p = Some s"
    and oth: "\<And>q. apart q p \<Longrightarrow> inode_view g2 q = inode_view fs q"
    and ch: "\<And>h. h \<noteq> xxh64 p \<Longrightarrow> cached_inode g2 h = cached_inode fs h"
    and near: "icache_near fs (xxh64 p) \<Longrightarrow> cached_inode g2 (xxh64 p) = Some s" and step: "cache_step g1 (xxh64 p) p g2"
    unfolding s_def by (rule stored_cached [where key = p, OF st1 wf room]) blast
  have sp: "index_spares fs g2" using index_spares_trans sd same_indexD(8) [OF c(4)] by blast
  have ix: "index_inode g2 = (index_inode fs)(p \<mapsto> s)"
    using stored_view(1) [OF st1 wf] same_indexD(3) [OF c(4)] by (simp add: s_def)
  have "cached_inode g2 (xxh64 dir) = cached_inode fs (xxh64 dir)"
    using ch dir(2) by (simp add: apart_def)
  then have di: "dir_inode g2 dir = dir_inode fs dir"
    using ix dir(2) by (auto simp: dir_inode_def apart_def split: option.split)
  note d = dir_spared [OF fs_invD(1) [OF inv] fs_invD(1) [OF c(2)] sp c(5) di dir(1)]
  obtain fs' where a: "dir_add_child g2 dir name typ = Some (XXFS_OK, fs')"
    "dir_becomes g2 dir (dir_children g2 dir @ [new_child name typ]) fs'" "de_dirty (dcache fs' (dcache_idx dir))"
    by (rule dir_add_child_law [OF fs_invD(4) [OF c(2)] d(1) dir(3)])
  note b = a(2) [unfolded dir_becomes_def]
  then have ns: "ns_same g2 fs'" by blast
  note ns' = ns_sameD [OF ns] and si = same_indexD [OF ns_sameD(2) [OF ns]]
  show thesis
  proof (rule that [OF i(1) c(1) a(1)])
    show "fs_inv fs'" using ns' c(2) by (simp add: fs_inv_def)
    show "index_unique fs \<Longrightarrow> index_unique fs'" using un si same_indexD(4) [OF c(4)] by simp
    show "s_inodes_count (sb fs') = s_inodes_count (sb fs)" using ns'(6) c(6) sd restD(11) [of g1 fs] by simp
    show "index_spares fs fs'" using index_spares_trans [OF sp si(8)] .
    show "dir_children fs' dir = dir_children fs dir @ [new_child name typ]" using b d(2) by simp
    show "length (dir_children fs dir) < 2 ^ 30 \<Longrightarrow> dir_ready fs' dir" using b d(2) by simp
    show "dir_inode fs' dir = dir_inode fs dir" using dir_inode_ns [OF ns] di by simp
    show "index_inode fs' = (index_inode fs)(p \<mapsto> s)" using si(3) ix by simp
    show "icache_near fs (xxh64 p) \<Longrightarrow> cached_inode fs' (xxh64 p) = Some s" using near ns'(4) by simp
    show "free_blocks fs \<le> free_blocks fs' + 3" using sd si(7) same_indexD(7) [OF c(4)] by simp
    show "adds_key fs p fs'" using sd adds_key_same same_index_trans [OF c(4) ns'(2)] by blast
    show "sb_kept (sb fs) (sb fs')" using sd rest_sb_kept [of g1 fs] c(6) ns'(6) by simp
    show "dcache_find fs' dir = Some (dcache_idx dir)" using b by simp
    show "dcache fs' j = dcache fs j" if "j \<noteq> dcache_idx dir" for j using that b c(5) by simp
    have ig: "fs_inv g1" "rest g1 = rest fs" using sd by blast+
    show "cache_step fs (xxh64 p) p fs'"
      by (rule cache_step_cong [OF step rest_slots [OF ig(2)] ns'(9)]) (simp add: index_fault_free [OF fs_invD(1)] inv ig(1))
  qed (use ns' si c oth ix a(3) in simp_all)
qed

lemma icache_lookup_None: "icache_lookup fs h = None \<longleftrightarrow> cached_inode fs h = None"
  by (simp add: cached_inode_def)

lemma view_NoneD: "inode_view fs p = None \<Longrightarrow> icache_lookup fs (xxh64 p) = None"
  by (auto simp: inode_view_def icache_lookup_None split: option.splits)

text \<open>The state after a node with inode \<open>ino\<close> has been made at path \<open>p\<close>: it is there, paths with other hashes keep their
  inodes, the parent has one more child, and one more inode is counted.\<close>

definition node_made :: "nat \<Rightarrow> xxfs \<Rightarrow> bytes \<Rightarrow> xxfs_inode \<Rightarrow> u8 \<Rightarrow> xxfs \<Rightarrow> bool" where
  "node_made k fs p ino typ fs' \<longleftrightarrow> fs_inv fs' \<and> index_unique fs' \<and> icache_room fs' k \<and> inode_view fs' p = Some ino \<and>
     index_inode fs' = (index_inode fs)(p \<mapsto> ino) \<and>
     (\<forall>q. apart q p \<longrightarrow> inode_view fs' q = inode_view fs q) \<and>
     dir_children fs' (get_parent_path p) = dir_children fs (get_parent_path p) @ [new_child (get_basename p) typ] \<and>
     (length (dir_children fs (get_parent_path p)) < 2 ^ 30 \<longrightarrow> dir_ready fs' (get_parent_path p)) \<and>
     dir_inode fs' (get_parent_path p) = dir_inode fs (get_parent_path p) \<and>
     adds_key fs p fs' \<and> sb_kept (sb fs) (sb fs') \<and> dcache_find fs' (get_parent_path p) = Some (dcache_idx (get_parent_path p)) \<and>
     (\<forall>j. j \<noteq> dcache_idx (get_parent_path p) \<longrightarrow> dcache fs' j = dcache fs j) \<and> de_dirty (dcache fs' (dcache_idx (get_parent_path p))) \<and>
     cache_step fs (xxh64 p) p fs' \<and>
     (icache_near fs (xxh64 p) \<longrightarrow> cached_inode fs' (xxh64 p) = Some ino) \<and> free_blocks fs \<le> free_blocks fs' + 3 \<and>
     xxfs_count fs' = xxfs_count fs + 1 \<and> index_spares fs fs'"

text \<open>What making a node needs; \<open>k\<close> is the number of inodes that can be cached afterwards without an eviction.\<close>

definition can_make :: "nat \<Rightarrow> xxfs \<Rightarrow> bytes \<Rightarrow> bool" where
  "can_make k fs p \<longleftrightarrow> fs_inv fs \<and> index_unique fs \<and> icache_room fs (Suc k) \<and> can_store fs p \<and> inode_view fs p = None \<and>
     dir_ready fs (get_parent_path p) \<and> apart (get_parent_path p) p"

lemma make_counted:
  assumes "can_make k fs p" and len: "length (get_parent_path p) < 2 ^ 32"
  obtains g1 g2 h where "paged_insert fs p (inode_to_val (new_inode fs mode uid gid ft nl (get_basename p))) = Some (XXFS_OK, g1)"
    and "icache_put g1 (xxh64 p) p (new_inode fs mode uid gid ft nl (get_basename p)) = Some g2"
    and "dir_add_child g2 (get_parent_path p) (get_basename p) typ = Some (XXFS_OK, h)"
    and "\<And>s. alloc_same (sb h) s \<Longrightarrow> sb_kept (sb h) s \<Longrightarrow> s_inodes_count s = s_inodes_count (sb h) + 1 \<Longrightarrow>
      node_made k fs p (new_inode fs mode uid gid ft nl (get_basename p)) typ (h\<lparr>sb := s\<rparr>)"
proof -
  have a: "fs_inv fs" "icache_room fs (Suc k)" "can_store fs p" "inode_view fs p = None" "dir_ready fs (get_parent_path p)"
    "apart (get_parent_path p) p" "index_unique fs" using assms(1) by (simp_all add: can_make_def)
  obtain ino where wf: "wf_inode ino"
    and ino: "new_inode fs mode uid gid ft nl (get_basename p) = inode_set_checksum_ecc ino"
    by (rule new_inode_seals) blast
  obtain g1 g2 h where g: "paged_insert fs p (inode_to_val (inode_set_checksum_ecc ino)) = Some (XXFS_OK, g1)"
    "icache_put g1 (xxh64 p) p (inode_set_checksum_ecc ino) = Some g2"
    "dir_add_child g2 (get_parent_path p) (get_basename p) typ = Some (XXFS_OK, h)" "fs_inv h" "index_unique h"
    "inode_view h p = Some (inode_set_checksum_ecc ino)" "\<And>q. apart q p \<Longrightarrow> inode_view h q = inode_view fs q"
    "dir_children h (get_parent_path p) = dir_children fs (get_parent_path p) @ [new_child (get_basename p) typ]"
    "s_inodes_count (sb h) = s_inodes_count (sb fs)" "index_spares fs h" "icache_room h k"
    "length (dir_children fs (get_parent_path p)) < 2 ^ 30 \<Longrightarrow> dir_ready h (get_parent_path p)"
    "dir_inode h (get_parent_path p) = dir_inode fs (get_parent_path p)" "index_inode h = (index_inode fs)(p \<mapsto> inode_set_checksum_ecc ino)"
    "icache_near fs (xxh64 p) \<Longrightarrow> cached_inode h (xxh64 p) = Some (inode_set_checksum_ecc ino)" "free_blocks fs \<le> free_blocks h + 3"
    "adds_key fs p h" "sb_kept (sb fs) (sb h)" "dcache_find h (get_parent_path p) = Some (dcache_idx (get_parent_path p))"
    "\<And>j. j \<noteq> dcache_idx (get_parent_path p) \<Longrightarrow> dcache h j = dcache fs j" "de_dirty (dcache h (dcache_idx (get_parent_path p)))"
    "cache_step fs (xxh64 p) p h"
    by (rule make_law [OF a(1-6) len wf]) (use a(7) in blast)
  show thesis
  proof (rule that)
    fix s assume s: "alloc_same (sb h) s" "sb_kept (sb h) s" "s_inodes_count s = s_inodes_count (sb h) + 1"
    note n = count_ns [OF fs_invD(4) [OF g(4)] refl s(1)]
    have "fs_inv (h\<lparr>sb := s\<rparr>)" "index_unique (h\<lparr>sb := s\<rparr>)" "index_spares fs (h\<lparr>sb := s\<rparr>)"
      using n g(4,5) same_indexD(4,8) [OF n(2)] index_spares_trans [OF g(10)] by (simp_all add: fs_inv_def)
    moreover have "adds_key fs p (h\<lparr>sb := s\<rparr>)" "sb_kept (sb fs) s" using adds_key_same [OF g(17) n(2)] sb_kept_trans [OF g(18) s(2)] by simp_all
    moreover have "dcache_find (h\<lparr>sb := s\<rparr>) = dcache_find h" by (rule dcache_find_cong [OF n(5)])
    moreover have "cache_step fs (xxh64 p) p (h\<lparr>sb := s\<rparr>)" by (rule cache_step_cong [OF g(22)]) (simp_all add: same_slots_def)
    ultimately show "node_made k fs p (new_inode fs mode uid gid ft nl (get_basename p)) typ (h\<lparr>sb := s\<rparr>)"
      using n g s same_indexD(3,7) [OF n(2)] by (simp add: node_made_def ino xxfs_count_def)
  qed (use g ino in simp_all)
qed

text \<open>C9: creating a file that does not exist succeeds: \<^verbatim>\<open>xxfs_create\<close> returns \<^verbatim>\<open>XXFS_OK\<close>, the path then has the new, empty
  inode, paths with other hashes keep theirs, the parent directory gains exactly one child, the inode counter goes
  up by one, and the invariants hold again.\<close>

theorem create_correct:
  assumes "can_make k fs (path_normalize path)"
  shows "\<exists>fs'. xxfs_create fs path mode uid gid = Some (XXFS_OK, fs') \<and>
    node_made k fs (path_normalize path) (new_inode fs mode uid gid XXFS_FT_REG 1 (get_basename (path_normalize path)))
      (ucast XXFS_FT_REG) fs'"
proof -
  have l: "icache_lookup fs (xxh64 (path_normalize path)) = None" using assms view_NoneD by (simp add: can_make_def)
  show ?thesis
    by (rule make_counted [OF assms length_parent32, of mode uid gid XXFS_FT_REG 1 "ucast XXFS_FT_REG"])
      (auto simp: xxfs_create_def Let_def l alloc_same_def sb_kept_def wf_super_def)
qed

lemma sample_apart: "xxh64 [0x2F] \<noteq> xxh64 [0x2F, 0x61]"
  by (simp add: xxh64_def xxh_head_def xxh_tail_def xxh_final_def rotl64_def XXH_P1_def XXH_P2_def XXH_P3_def XXH_P5_def)

lemma sample_path: "path_normalize [0x2F, 0x61] = [0x2F, 0x61]" "get_parent_path [0x2F, 0x61] = [0x2F]"
  "get_basename [0x2F, 0x61] = [0x61]"
  by (simp_all add: path_normalize_def strip_slashes.simps XXFS_MAX_PATH_def get_parent_path_def get_basename_def)

text \<open>A fresh file system is ready for a first node.\<close>

lemma fresh_can_make: "fresh_mounted fs now \<Longrightarrow> can_make 8191 fs [0x2F, 0x61]"
  using fresh_view [of fs now] sample_apart
  by (simp add: can_make_def fresh_mounted_def icache_room_def sample_path apart_def)

lemma sample_mounted:
  obtains f fs now where "xxfs_mkfs blank_file 64 False = (XXFS_OK, f)" and "xxfs_mount f flg = Some (Inr fs)"
    and "fresh_mounted fs now" and "can_make 8191 fs [0x2F, 0x61]"
proof -
  obtain f fs now where m: "xxfs_mkfs blank_file 64 False = (XXFS_OK, f)" "xxfs_mount f flg = Some (Inr fs)"
    "fresh_mounted fs now"
    by (rule mkfs_mounted [of blank_file 64 flg]) simp_all
  then show thesis using that fresh_can_make by blast
qed

theorem create_correct_witness:
  "\<exists>f fs fs'. xxfs_mkfs blank_file 64 False = (XXFS_OK, f) \<and> xxfs_mount f 0 = Some (Inr fs) \<and>
    xxfs_create fs [0x2F, 0x61] 420 0 0 = Some (XXFS_OK, fs') \<and> xxfs_count fs' = 2 \<and>
    dir_children fs' [0x2F] = [new_child [0x61] 1]"
proof -
  obtain f fs now where m: "xxfs_mkfs blank_file 64 False = (XXFS_OK, f)" "xxfs_mount f 0 = Some (Inr fs)"
    "fresh_mounted fs now" "can_make 8191 fs [0x2F, 0x61]"
    by (rule sample_mounted)
  obtain fs' where "xxfs_create fs [0x2F, 0x61] 420 0 0 = Some (XXFS_OK, fs')"
    "node_made 8191 fs [0x2F, 0x61] (new_inode fs 420 0 0 XXFS_FT_REG 1 [0x61]) (ucast XXFS_FT_REG) fs'"
    using create_correct [of 8191 fs "[0x2F, 0x61]" 420 0 0] m(4) by (auto simp: sample_path)
  then show ?thesis using m by (auto simp: fresh_mounted_def xxfs_count_def XXFS_FT_REG_def node_made_def sample_path)
qed

text \<open>The same for \<^verbatim>\<open>xxfs_mkdir\<close>: the new inode is a directory without children.\<close>

theorem mkdir_correct:
  assumes "can_make k fs (path_normalize path)"
  shows "\<exists>fs'. xxfs_mkdir fs path mode uid gid = Some (XXFS_OK, fs') \<and>
    node_made k fs (path_normalize path) (new_inode fs mode uid gid XXFS_FT_DIR 2 (get_basename (path_normalize path)))
      (ucast XXFS_FT_DIR) fs'"
proof -
  have l: "icache_lookup fs (xxh64 (path_normalize path)) = None" using assms view_NoneD by (simp add: can_make_def)
  show ?thesis
    by (rule make_counted [OF assms length_parent32, of mode uid gid XXFS_FT_DIR 2 "ucast XXFS_FT_DIR"])
      (auto simp: xxfs_mkdir_def Let_def l alloc_same_def sb_kept_def wf_super_def)
qed

theorem mkdir_correct_witness:
  "\<exists>f fs fs'. xxfs_mkfs blank_file 64 False = (XXFS_OK, f) \<and> xxfs_mount f 0 = Some (Inr fs) \<and>
    xxfs_mkdir fs [0x2F, 0x61] 493 0 0 = Some (XXFS_OK, fs') \<and> fs_inv fs' \<and> xxfs_count fs' = 2"
proof -
  obtain f fs now where m: "xxfs_mkfs blank_file 64 False = (XXFS_OK, f)" "xxfs_mount f 0 = Some (Inr fs)"
    "fresh_mounted fs now" "can_make 8191 fs [0x2F, 0x61]"
    by (rule sample_mounted)
  then show ?thesis
    using mkdir_correct [of 8191 fs "[0x2F, 0x61]" 493 0 0]
    by (auto simp: sample_path fresh_mounted_def xxfs_count_def node_made_def)
qed

section \<open>Removing\<close>

lemma icache_del_base:
  assumes inv: "fs_inv fs"
  shows "fs_base (icache_del fs h)" "same_index fs (icache_del fs h)" "dcache (icache_del fs h) = dcache fs"
    "sb (icache_del fs h) = sb fs" "img (icache_del fs h) = img fs"
proof -
  obtain c k where f: "icache_del fs h = fs\<lparr>icache := c, icache_count := k\<rparr>" using icache_del_frame by blast
  have "calm fs (icache_del fs h)" by (rule calm_core) (simp add: f same_core_def alloc_same_def)
  then show s: "same_index fs (icache_del fs h)" by (rule calm_same [OF _ fs_invD(1) [OF inv]])
  show "fs_base (icache_del fs h)" using inv same_indexD [OF s] by (simp add: fs_inv_def fs_base_def)
qed (use icache_del_frame [of fs h] in auto)

lemma fetch_lone:
  assumes inv: "fs_inv fs" and room: "icache_room fs (Suc k)" and len: "length p < 2 ^ 32" and f: "fetch_inode fs p = Some (r, g)"
    and l: "icache_lone fs (xxh64 p)"
  shows "icache_lone g (xxh64 p)"
proof (cases "icache_lookup fs (xxh64 p)")
  case (Some idx)
  then show ?thesis using f l by (simp add: fetch_inode_def)
next
  case None
  obtain h where h: "inode_paged_get fs p = Some (case index_inode fs p of None \<Rightarrow> Inl XXFS_ENOENT | Some ino \<Rightarrow> Inr ino, h)" "rest h = rest fs"
    by (rule inode_paged_get_law [OF fs_invD(4) [OF inv] len])
  have "cached_inode h (xxh64 p) = None" using None rest_icache(1) [OF h(2)] by (simp add: cached_inode_def)
  then have lh: "icache_lookup h (xxh64 p) = None" by (simp add: cached_inode_def)
  have ih: "icache_inv h" "icache_room h 1" using fs_invD(3) [OF inv] room rest_icache(2,3) [OF h(2)] by (simp_all add: icache_room_def)
  show ?thesis
  proof (cases "index_inode fs p")
    case (Some ino)
    then have "icache_put h (xxh64 p) p ino = Some g" using f None h(1) by (simp add: fetch_inode_def split: bind_splits)
    then show ?thesis by (rule icache_put_lone [OF ih lh])
  next
    case ni: None
    then have "g = h" using f None h(1) by (simp add: fetch_inode_def)
    then show ?thesis using l icache_lone_cong [OF rest_slots [OF h(2)]] by simp
  qed
qed

text \<open>What removing a node needs: besides the invariants, the path is stored, its parent's directory can be loaded,
  and no inode has been cached behind that of the path.\<close>

definition can_remove :: "xxfs \<Rightarrow> bytes \<Rightarrow> bool" where
  "can_remove fs p \<longleftrightarrow> fs_inv fs \<and> index_unique fs \<and> collision_free p (chain_kv fs p) \<and>
     index_abs fs p \<noteq> None \<and> dir_ready fs (get_parent_path p) \<and> apart (get_parent_path p) p \<and> icache_lone fs (xxh64 p)"

text \<open>The state after the removal: the path is gone, its parent has lost the child, and all other paths and directories are as before.\<close>

definition without_child :: "bytes \<Rightarrow> xxfs_dir_child list \<Rightarrow> xxfs_dir_child list" where
  "without_child name cs =
     (case find (\<lambda>k. child_is name (cs ! k)) [0..<length cs] of None \<Rightarrow> cs | Some k \<Rightarrow> drop_child k cs)"

definition node_removed :: "xxfs \<Rightarrow> bytes \<Rightarrow> xxfs \<Rightarrow> bool" where
  "node_removed fs p fs' \<longleftrightarrow> fs_inv fs' \<and> index_unique fs' \<and> inode_view fs' p = None \<and>
     index_inode fs' = (index_inode fs)(p := None) \<and>
     (\<forall>q. apart q p \<longrightarrow> inode_view fs' q = inode_view fs q) \<and>
     dir_children fs' (get_parent_path p) = without_child (get_basename p) (dir_children fs (get_parent_path p)) \<and>
     (\<forall>dir. apart dir p \<and> dir \<noteq> get_parent_path p \<and> dir_ready fs dir \<and> dir_loaded fs dir \<longrightarrow> dir_children fs' dir = dir_children fs dir) \<and>
     xxfs_count fs' = xxfs_count fs - 1 \<and> index_spares fs fs'"

lemma dir_inode_cong:
  "cached_inode fs' (xxh64 dir) = cached_inode fs (xxh64 dir) \<Longrightarrow> index_inode fs' dir = index_inode fs dir \<Longrightarrow> dir_inode fs' dir = dir_inode fs dir"
  unfolding dir_inode_def by (simp only:)

text \<open>The path leaves the index and the inode cache.\<close>

lemma path_dropped:
  assumes inv: "fs_inv fs" and un: "index_unique fs" and cf: "collision_free p (chain_kv fs p)" and st: "index_abs fs p \<noteq> None"
    and l: "icache_lone fs (xxh64 p)" and len: "length p < 2 ^ 32"
  obtains g where "paged_del fs p = Some (XXFS_OK, g)" and "fs_inv (icache_del g (xxh64 p))" and "index_unique (icache_del g (xxh64 p))"
    and "index_spares fs (icache_del g (xxh64 p))" and "index_inode (icache_del g (xxh64 p)) = (index_inode fs)(p := None)"
    and "cached_inode (icache_del g (xxh64 p)) (xxh64 p) = None" and "\<And>h. h \<noteq> xxh64 p \<Longrightarrow> cached_inode (icache_del g (xxh64 p)) h = cached_inode fs h"
    and "dcache (icache_del g (xxh64 p)) = dcache fs" and "sb (icache_del g (xxh64 p)) = sb fs" and "\<And>k. icache_room fs k \<Longrightarrow> icache_room (icache_del g (xxh64 p)) k"
    and "adds_key fs p (icache_del g (xxh64 p))"
proof -
  obtain g where g: "paged_del fs p = Some (XXFS_OK, g)" "index_ok g" "index_unique g" "index_abs g = (index_abs fs)(p := None)" "index_spares fs g" "adds_key fs p g"
    by (rule del_law [OF fs_invD(1) [OF inv] un len cf]) (use st in simp)
  have r: "rest g = rest fs" and sb: "sb g = sb fs" using rest_paged_del [OF g(1)] sb_paged_del [OF g(1)] by simp_all
  have ig: "fs_inv g" using inv g(2,4) rest_icache(2) [OF r] by (simp add: fs_inv_def fs_base_def inode_sized_def)
  have ix: "index_inode g = (index_inode fs)(p := None)" by (simp add: index_inode_def g(4) fun_eq_iff)
  have lg: "icache_lone g (xxh64 p)" using l icache_lone_cong [OF rest_slots [OF r]] by simp
  note h = icache_del_base [OF ig, of "xxh64 p"] and hl = icache_del_law [OF fs_invD(3) [OF ig], of "xxh64 p"]
    and ho = icache_del_lone [OF fs_invD(3) [OF ig] lg]
  show thesis
  proof (rule that [OF g(1)])
    show "fs_inv (icache_del g (xxh64 p))" using h(1) ho(1) by (simp add: fs_inv_def)
    show "index_unique (icache_del g (xxh64 p))" using g(3) same_indexD(4) [OF h(2)] by simp
    show "index_spares fs (icache_del g (xxh64 p))" by (rule index_spares_trans [OF g(5) same_indexD(8) [OF h(2)]])
    show "index_inode (icache_del g (xxh64 p)) = (index_inode fs)(p := None)" using same_indexD(3) [OF h(2)] ix by simp
    show "cached_inode (icache_del g (xxh64 p)) (xxh64 p) = None" by (rule hl(1))
    show "cached_inode (icache_del g (xxh64 p)) q = cached_inode fs q" if "q \<noteq> xxh64 p" for q using ho(2) [OF that] rest_icache(1) [OF r] by simp
    show "dcache (icache_del g (xxh64 p)) = dcache fs" using h(3) restD(6) [OF r] by simp
    show "sb (icache_del g (xxh64 p)) = sb fs" using h(4) sb by simp
    show "icache_room (icache_del g (xxh64 p)) k" if "icache_room fs k" for k using ho(3) rest_icache(3) [OF r] that by simp
    show "adds_key fs p (icache_del g (xxh64 p))" by (rule adds_key_same [OF g(6) h(2)])
  qed
qed

lemma remove_law:
  assumes c: "can_remove fs p" and len: "length p < 2 ^ 32" "length (get_parent_path p) < 2 ^ 32"
  obtains fs' where "remove_path fs p = Some (XXFS_OK, fs')" and "node_removed fs p fs'"
proof -
  let ?d = "get_parent_path p"
  have a: "fs_inv fs" "index_unique fs" "collision_free p (chain_kv fs p)" "index_abs fs p \<noteq> None" "icache_lone fs (xxh64 p)"
    and dir: "dir_ready fs ?d" "apart ?d p" using c by (simp_all add: can_remove_def)
  obtain g where g: "paged_del fs p = Some (XXFS_OK, g)" "fs_inv (icache_del g (xxh64 p))" "index_unique (icache_del g (xxh64 p))"
    "index_spares fs (icache_del g (xxh64 p))" "index_inode (icache_del g (xxh64 p)) = (index_inode fs)(p := None)"
    "cached_inode (icache_del g (xxh64 p)) (xxh64 p) = None" "dcache (icache_del g (xxh64 p)) = dcache fs" "sb (icache_del g (xxh64 p)) = sb fs"
    and ch: "\<And>h. h \<noteq> xxh64 p \<Longrightarrow> cached_inode (icache_del g (xxh64 p)) h = cached_inode fs h"
    by (rule path_dropped [OF a len(1)]) blast
  let ?h = "icache_del g (xxh64 p)"
  have ih: "index_inode ?h q = index_inode fs q" if "apart q p" for q using that g(5) by (auto simp: apart_def)
  have di: "dir_inode ?h q = dir_inode fs q" if "apart q p" for q
    by (rule dir_inode_cong [OF ch ih]) (use that in \<open>simp_all add: apart_def\<close>)
  note d = dir_spared [OF fs_invD(1) [OF a(1)] fs_invD(1) [OF g(2)] g(4,7) di [OF dir(2)] dir(1)]
  obtain rc k where k: "dir_remove_child ?h ?d (get_basename p) = Some (rc, k)"
    "dir_becomes ?h ?d (without_child (get_basename p) (dir_children ?h ?d)) k"
    unfolding without_child_def by (rule dir_remove_child_law [OF fs_invD(4) [OF g(2)] d(1) len(2), of "get_basename p"]) blast
  note b = k(2) [unfolded dir_becomes_def]
  let ?s = "(sb k)\<lparr>s_inodes_count := s_inodes_count (sb k) - 1\<rparr>"
  have ns: "ns_same ?h k" using b by blast
  note ns' = ns_sameD [OF ns] and si = same_indexD [OF ns_sameD(2) [OF ns]]
  have al: "alloc_same (sb k) ?s" by (simp add: alloc_same_def)
  note n = count_ns [OF ns'(1) refl al] note nn = same_indexD [OF n(2)]
  have sp: "index_spares fs k" by (rule index_spares_trans [OF g(4) si(8)])
  have "node_removed fs p (k\<lparr>sb := ?s\<rparr>)"
    unfolding node_removed_def
  proof (intro conjI allI impI)
    show "fs_inv (k\<lparr>sb := ?s\<rparr>)" using n(1,3) ns'(8) g(2) by (simp add: fs_inv_def)
    show "inode_view (k\<lparr>sb := ?s\<rparr>) p = None" using n(4) ns'(3) g(5,6) by (simp add: inode_view_def)
    show "xxfs_count (k\<lparr>sb := ?s\<rparr>) = xxfs_count fs - 1" using ns'(6) g(8) by (simp add: xxfs_count_def)
    show "index_spares fs (k\<lparr>sb := ?s\<rparr>)" using index_spares_trans [OF sp nn(8)] .
    show "inode_view (k\<lparr>sb := ?s\<rparr>) q = inode_view fs q" if "apart q p" for q
    proof -
      have "cached_inode ?h (xxh64 q) = cached_inode fs (xxh64 q)" using that ch by (simp add: apart_def)
      then have "inode_view ?h q = inode_view fs q" unfolding inode_view_def ih [OF that] by (simp only:)
      then show ?thesis using n(4) ns'(3) by simp
    qed
    show "index_unique (k\<lparr>sb := ?s\<rparr>)" using nn(4) si(4) g(3) by simp
    show "index_inode (k\<lparr>sb := ?s\<rparr>) = (index_inode fs)(p := None)" using nn(3) si(3) g(5) by simp
    show "dir_children (k\<lparr>sb := ?s\<rparr>) ?d = without_child (get_basename p) (dir_children fs ?d)" using n(6) b d(2) by simp
    fix q assume q: "apart q p \<and> q \<noteq> ?d \<and> dir_ready fs q \<and> dir_loaded fs q"
    have "dir_inode k q = dir_inode fs q" using dir_inode_ns [OF ns] di q by simp
    then have "dir_children k q = dir_children fs q"
      using dir_pushed_out [where par = ?d and dir = q, OF fs_invD(1) [OF a(1)] fs_baseD(1) [OF ns'(1)] sp] b g(7) q dir(1) by simp
    then show "dir_children (k\<lparr>sb := ?s\<rparr>) q = dir_children fs q" using n(6) by simp
  qed
  moreover have "remove_path fs p = Some (XXFS_OK, k\<lparr>sb := ?s\<rparr>)" using g(1) k(1) by (simp add: remove_path_def)
  ultimately show thesis using that by blast
qed

text \<open>Fetching the inode first does not spoil the conditions.\<close>

lemma fetched_dirs:
  assumes inv: "fs_inv fs" and f: "fs_inv g" "same_index fs g" "dcache g = dcache fs" and c: "\<And>h. h \<noteq> xxh64 p \<Longrightarrow> cached_inode g h = cached_inode fs h"
    and q: "apart q p" "dir_ready fs q"
  shows "dir_ready g q" "dir_children g q = dir_children fs q" "dir_loaded fs q \<Longrightarrow> dir_loaded g q"
proof -
  note s = same_indexD [OF f(2)]
  have di: "dir_inode g q = dir_inode fs q" by (rule dir_inode_cong) (use c q(1) s(3) in \<open>simp_all add: apart_def\<close>)
  show "dir_ready g q" "dir_children g q = dir_children fs q"
    by (rule dir_spared [OF fs_invD(1) [OF inv] fs_invD(1) [OF f(1)] s(8) f(3) di q(2)])+
  show "dir_loaded fs q \<Longrightarrow> dir_loaded g q" by (rule dir_loaded_spared [OF fs_invD(1) [OF inv] fs_invD(1) [OF f(1)] s(8) f(3) di])
qed

text \<open>Reading a path that is gone.\<close>

lemma fetch_gone:
  assumes "fs_base fs" and "inode_view fs p = None" and "length p < 2 ^ 32"
  shows "\<exists>fs'. fetch_inode fs p = Some (Inl XXFS_ENOENT, fs')"
proof -
  have n: "icache_lookup fs (xxh64 p) = None" "index_inode fs p = None"
    using assms(2) by (auto simp: inode_view_def icache_lookup_None split: option.splits)
  obtain fs' where "inode_paged_get fs p = Some (case index_inode fs p of None \<Rightarrow> Inl XXFS_ENOENT | Some ino \<Rightarrow> Inr ino, fs')"
    by (rule inode_paged_get_law [OF assms(1,3)])
  then show ?thesis using n by (simp add: fetch_inode_def)
qed

text \<open>C10: \<^verbatim>\<open>xxfs_unlink\<close> of a stored file, whose parent directory can be listed and behind whose inode no other one has been put in the inode cache, returns \<^verbatim>\<open>XXFS_OK\<close> and removes the file
  and nothing else: the path is gone from the index and from the inode cache, so that a later \<^verbatim>\<open>xxfs_stat\<close> answers \<^verbatim>\<open>XXFS_ENOENT\<close>; its parent loses the child of
  that name, and every other directory that can be listed and whose unchanged listing in the cache is the stored one keeps its children; all paths with other hashes keep the inodes they had, cached changes included; the inode counter goes
  down by one, and the invariants hold again.\<close>

theorem unlink_correct:
  assumes c: "can_remove fs (path_normalize path)" and v: "inode_view fs (path_normalize path) = Some ino"
    and t: "i_file_type ino \<noteq> XXFS_FT_DIR" and room: "icache_room fs 1"
  shows "\<exists>fs' fs''. xxfs_unlink fs path = Some (XXFS_OK, fs') \<and> node_removed fs (path_normalize path) fs' \<and>
    xxfs_stat fs' path = Some (Inl XXFS_ENOENT, fs'')"
proof -
  let ?p = "path_normalize path"
  have inv: "fs_inv fs" "icache_room fs (Suc 0)" using c room by (simp_all add: can_remove_def)
  obtain g where g: "fetch_inode fs ?p = Some (case inode_view fs ?p of None \<Rightarrow> Inl XXFS_ENOENT | Some ino \<Rightarrow> Inr ino, g)"
    "fs_inv g" "same_index fs g" "sb g = sb fs" "dcache g = dcache fs"
    and gv: "\<And>q. apart q ?p \<or> q = ?p \<Longrightarrow> inode_view g q = inode_view fs q"
    and gc: "\<And>h. h \<noteq> xxh64 ?p \<Longrightarrow> cached_inode g h = cached_inode fs h"
    by (rule fetch_inode_law [OF inv length_norm32 [of path]]) blast
  have lone: "icache_lone g (xxh64 ?p)" by (rule fetch_lone [OF inv length_norm32 g(1)]) (use c in \<open>simp add: can_remove_def\<close>)
  note fd = fetched_dirs [OF inv(1) g(2,3,5) gc] and gs = same_indexD [OF g(3)]
  have cg: "can_remove g ?p" using c g(2) lone gs fd(1) by (simp add: can_remove_def)
  obtain fs' where f: "remove_path g ?p = Some (XXFS_OK, fs')" "node_removed g ?p fs'"
    by (rule remove_law [OF cg length_norm32 length_parent32])
  have par: "dir_children g (get_parent_path ?p) = dir_children fs (get_parent_path ?p)" using fd(2) c by (simp add: can_remove_def)
  have "node_removed fs ?p fs'"
    using f(2) gs(3) gv g(4) par fd index_spares_trans [OF gs(8)] by (simp add: node_removed_def xxfs_count_def)
  moreover obtain fs'' where "xxfs_stat fs' path = Some (Inl XXFS_ENOENT, fs'')"
    using fetch_gone [of fs' ?p] f(2) length_norm32 [of path] fs_invD(4) by (auto simp: node_removed_def xxfs_stat_def)
  moreover have "xxfs_unlink fs path = Some (XXFS_OK, fs')" using g(1) v t f(1) by (simp add: xxfs_unlink_def)
  ultimately show ?thesis by blast
qed

text \<open>A fresh file system with one file.\<close>

lemma sample_cached:
  assumes f: "fresh_mounted fs now" and m: "node_made k fs [0x2F, 0x61] ino typ fs'" and i: "i < unat (icache_cap fs')" "in_use fs' i"
  shows "ic_hash (icache fs' i) = xxh64 [0x2F, 0x61]"
proof -
  have "cache_step fs (xxh64 [0x2F, 0x61]) [0x2F, 0x61] fs'" using m by (simp add: node_made_def)
  moreover have "\<not> in_use fs i" using f by (simp add: fresh_mounted_def pristine_def in_use_def zero_icache_entry_def ICACHE_CTRL_EMPTY_def)
  ultimately show ?thesis using i by (auto simp: cache_step_def slot_kept_def slot_put_def)
qed

lemma sample_created:
  assumes f: "fresh_mounted fs now" and m: "node_made 8191 fs [0x2F, 0x61] ino typ fs'"
  shows "can_remove fs' [0x2F, 0x61]"
proof -
  have "index_inode fs' [0x2F, 0x61] = Some ino" using m by (simp add: node_made_def)
  then have "index_abs fs' [0x2F, 0x61] \<noteq> None" by (auto simp: index_inode_def)
  moreover have "collision_free [0x2F, 0x61] (chain_kv fs' [0x2F, 0x61])"
    by (rule collision_free_short) (simp add: KEY_PREFIX_LEN_def)
  moreover have "icache_lone fs' (xxh64 [0x2F, 0x61])"
    using icache_lone_only sample_cached [OF f m] m fs_invD(3) by (simp add: node_made_def)
  ultimately show ?thesis
    using f m sample_apart by (simp add: can_remove_def node_made_def fresh_mounted_def sample_path apart_def)
qed

theorem unlink_correct_witness:
  "\<exists>f fs g fs' fs''. xxfs_mkfs blank_file 64 False = (XXFS_OK, f) \<and> xxfs_mount f 0 = Some (Inr fs) \<and>
    xxfs_create fs [0x2F, 0x61] 420 0 0 = Some (XXFS_OK, g) \<and> xxfs_unlink g [0x2F, 0x61] = Some (XXFS_OK, fs') \<and>
    xxfs_stat fs' [0x2F, 0x61] = Some (Inl XXFS_ENOENT, fs'')"
proof -
  obtain f fs now where m: "xxfs_mkfs blank_file 64 False = (XXFS_OK, f)" "xxfs_mount f 0 = Some (Inr fs)"
    "fresh_mounted fs now" "can_make 8191 fs [0x2F, 0x61]"
    by (rule sample_mounted)
  let ?i = "new_inode fs 420 0 0 XXFS_FT_REG 1 [0x61]"
  have l: "icache_lookup fs (xxh64 [0x2F, 0x61]) = None" using m(4) view_NoneD by (simp add: can_make_def)
  have len: "length (get_parent_path [0x2F, 0x61]) < 2 ^ 32" by (simp add: sample_path)
  obtain g where c: "xxfs_create fs [0x2F, 0x61] 420 0 0 = Some (XXFS_OK, g)"
    "node_made 8191 fs [0x2F, 0x61] ?i (ucast XXFS_FT_REG) g"
    by (rule make_counted [OF m(4) len, of 420 0 0 XXFS_FT_REG 1 "ucast XXFS_FT_REG"])
      (auto simp: xxfs_create_def Let_def l alloc_same_def sb_kept_def wf_super_def sample_path)
  have r: "can_remove g [0x2F, 0x61]" by (rule sample_created [OF m(3) c(2)])
  have "i_file_type ?i \<noteq> XXFS_FT_DIR"
    by (rule new_inode_seals [of fs 420 0 0 XXFS_FT_REG 1 "[0x61]"]) (simp add: XXFS_FT_REG_def XXFS_FT_DIR_def)
  moreover have "inode_view g [0x2F, 0x61] = Some ?i" using c(2) by (simp add: node_made_def)
  ultimately show ?thesis
    using unlink_correct [of g "[0x2F, 0x61]" ?i] r m c by (auto simp: sample_path node_made_def icache_room_def)
qed

end
