(* ===== verification/Fs_Attr.thy ===== *)
theory Fs_Attr
  imports Fs_Namespace
begin

text \<open>
  The operations that replace an inode as a whole: \<^verbatim>\<open>xxfs_chmod\<close>, \<^verbatim>\<open>xxfs_chown\<close> and \<^verbatim>\<open>xxfs_utime\<close>, which rewrite the stored inode
  with some fields changed, and \<^verbatim>\<open>xxfs_symlink\<close>, whose target \<^verbatim>\<open>xxfs_readlink\<close> reads back.
\<close>

section \<open>Replacing an inode\<close>

text \<open>The inode of \<open>p\<close> is now \<open>ino\<close>, in the index and in the view; paths with other hashes keep theirs.\<close>

definition inode_replaced :: "xxfs \<Rightarrow> bytes \<Rightarrow> xxfs_inode \<Rightarrow> xxfs \<Rightarrow> bool" where
  "inode_replaced fs p ino fs' \<longleftrightarrow> fs_inv fs' \<and> inode_view fs' p = Some ino \<and> index_inode fs' = (index_inode fs)(p \<mapsto> ino) \<and>
     (\<forall>q. apart q p \<longrightarrow> inode_view fs' q = inode_view fs q) \<and> dcache fs' = dcache fs \<and> index_spares fs fs' \<and>
     adds_key fs p fs' \<and> free_blocks fs \<le> free_blocks fs' + 3 \<and> sb_kept (sb fs) (sb fs')"

lemma put_cached_law:
  assumes inv: "fs_inv fs" and room: "icache_room fs (Suc k)" and st: "can_store fs p" and wf: "wf_inode ino"
  obtains g fs' where "paged_put fs p (inode_to_val (inode_set_checksum_ecc ino)) = Some (XXFS_OK, g)"
    and "icache_put g (xxh64 p) p (inode_set_checksum_ecc ino) = Some fs'"
    and "inode_replaced fs p (inode_set_checksum_ecc ino) fs'" and "icache_room fs' k"
proof -
  let ?s = "inode_set_checksum_ecc ino"
  obtain g where g: "paged_put fs p (inode_to_val ?s) = Some (XXFS_OK, g)" "stored fs p ?s g"
    by (rule inode_put_law [OF inv st wf_seal [OF wf]])
  obtain fs' where c: "icache_put g (xxh64 p) p ?s = Some fs'" "fs_inv fs'" "icache_room fs' k" "same_index g fs'"
    "dcache fs' = dcache fs" "inode_view fs' p = Some ?s" "\<And>q. apart q p \<Longrightarrow> inode_view fs' q = inode_view fs q" "sb fs' = sb g"
    by (rule stored_cached [where key = p, OF g(2) wf room]) blast
  note i = same_indexD(3,8) [OF c(4)] and v = stored_view(1) [OF g(2) wf]
  have sp: "index_spares fs g" "adds_key fs p g" "free_blocks fs \<le> free_blocks g + 3" "sb_kept (sb fs) (sb g)"
    using g(2) rest_sb_kept by (simp_all add: stored_def)
  have "inode_replaced fs p ?s fs'"
    using c(2,5-8) i v sp index_spares_trans [OF sp(1) i(2)] adds_key_same [OF sp(2) c(4)] same_indexD(7) [OF c(4)] by (simp add: inode_replaced_def)
  then show thesis by (rule that [OF g(1) c(1) _ c(3)])
qed

lemma inode_replaced_same:
  assumes r: "inode_replaced g p ino fs'" and s: "same_index fs g" "dcache g = dcache fs" "sb g = sb fs"
    and v: "\<And>q. apart q p \<Longrightarrow> inode_view g q = inode_view fs q"
  shows "inode_replaced fs p ino fs'"
  using r s(2,3) v same_indexD(3,7,8) [OF s(1)] index_spares_trans [of fs g fs'] same_adds_key [OF s(1)] by (simp add: inode_replaced_def)

lemma fs_time_tick: "fs_time fs = (os_clock (img fs) (os_calls (img fs)), tick fs)"
  by (simp add: fs_time_def xxfs_os_time_def)

lemma change_inode_law:
  assumes inv: "fs_inv fs" and room: "icache_room fs 1" and st: "can_store fs (path_normalize path)"
    and ino: "index_inode fs (path_normalize path) = Some ino" and wf: "\<And>t. wf_inode ((upd ino)\<lparr>i_ctime := t\<rparr>)"
  obtains t fs' where "change_inode fs path upd = Some (XXFS_OK, fs')"
    and "inode_replaced fs (path_normalize path) (inode_set_checksum_ecc ((upd ino)\<lparr>i_ctime := t\<rparr>)) fs'"
proof -
  let ?p = "path_normalize path"
  obtain g where g: "inode_paged_get fs ?p = Some (case index_inode fs ?p of None \<Rightarrow> Inl XXFS_ENOENT | Some ino \<Rightarrow> Inr ino, g)"
    "ns_same fs g" "dcache g = dcache fs"
    by (rule inode_paged_get_ns [OF fs_invD(4) [OF inv] length_norm32])
  let ?t = "os_clock (img g) (os_calls (img g))"
  have n: "ns_same fs (tick g)" by (rule ns_same_trans [OF g(2) tick_ns [OF ns_sameD(1) [OF g(2)]]])
  note n' = ns_sameD [OF n] and s = ns_sameD(2) [OF n]
  have i: "fs_inv (tick g)" "icache_room (tick g) (Suc 0)" "can_store (tick g) ?p"
    using n' inv room can_store_same [OF s] st by (simp_all add: fs_inv_def)
  obtain h fs' where h: "paged_put (tick g) ?p (inode_to_val (inode_set_checksum_ecc ((upd ino)\<lparr>i_ctime := ?t\<rparr>))) = Some (XXFS_OK, h)"
    "icache_put h (xxh64 ?p) ?p (inode_set_checksum_ecc ((upd ino)\<lparr>i_ctime := ?t\<rparr>)) = Some fs'"
    "inode_replaced (tick g) ?p (inode_set_checksum_ecc ((upd ino)\<lparr>i_ctime := ?t\<rparr>)) fs'"
    by (rule put_cached_law [OF i wf [of ?t]])
  show thesis
  proof (rule that)
    show "change_inode fs path upd = Some (XXFS_OK, fs')"
      using g(1) ino h(1,2) by (simp add: change_inode_def fs_time_tick Let_def)
    show "inode_replaced fs ?p (inode_set_checksum_ecc ((upd ino)\<lparr>i_ctime := ?t\<rparr>)) fs'"
      by (rule inode_replaced_same [OF h(3) s]) (simp_all add: g(3) n'(3,6))
  qed
qed

lemma change_inode_absent:
  assumes inv: "fs_inv fs" and none: "index_inode fs (path_normalize path) = None"
  obtains fs' where "change_inode fs path upd = Some (XXFS_ENOENT, fs')" and "ns_same fs fs'"
proof -
  obtain g where g: "inode_paged_get fs (path_normalize path) = Some (case index_inode fs (path_normalize path) of
      None \<Rightarrow> Inl XXFS_ENOENT | Some ino \<Rightarrow> Inr ino, g)" "ns_same fs g"
    by (rule inode_paged_get_ns [OF fs_invD(4) [OF inv] length_norm32])
  then show thesis using that none by (simp add: change_inode_def)
qed

text \<open>The inodes that the index holds are well formed.\<close>

lemma index_inode_wf: "fs_inv fs \<Longrightarrow> index_inode fs p = Some ino \<Longrightarrow> wf_inode ino"
  using fs_invD(2) [of fs] wf_decode by (auto simp: index_inode_def inode_sized_def)

lemma wf_attr: "wf_inode ino \<Longrightarrow> wf_inode (ino\<lparr>i_mode := m, i_ctime := t\<rparr>)"
  "wf_inode ino \<Longrightarrow> wf_inode (ino\<lparr>i_uid := u, i_gid := g, i_ctime := t\<rparr>)"
  "wf_inode ino \<Longrightarrow> wf_inode (ino\<lparr>i_atime := a, i_mtime := b, i_ctime := t\<rparr>)"
  by (simp_all add: wf_inode_def)

text \<open>What the three operations do to the stored inode.\<close>

datatype attr = Mode u16 | Owner u16 u16 | Times u64 u64

fun set_attr :: "attr \<Rightarrow> xxfs \<Rightarrow> bytes \<Rightarrow> (rc \<times> xxfs) option" where
  "set_attr (Mode m) fs path = xxfs_chmod fs path m"
| "set_attr (Owner u g) fs path = xxfs_chown fs path u g"
| "set_attr (Times a b) fs path = xxfs_utime fs path a b"

fun with_attr :: "attr \<Rightarrow> xxfs_inode \<Rightarrow> xxfs_inode" where
  "with_attr (Mode m) ino = ino\<lparr>i_mode := m\<rparr>"
| "with_attr (Owner u g) ino = ino\<lparr>i_uid := u, i_gid := g\<rparr>"
| "with_attr (Times a b) ino = ino\<lparr>i_atime := a, i_mtime := b\<rparr>"

lemma set_attr_change: "set_attr a fs path = change_inode fs path (with_attr a)"
proof (cases a)
  case (Mode m)
  have "with_attr (Mode m) = (\<lambda>ino. ino\<lparr>i_mode := m\<rparr>)" by (rule ext) simp
  then show ?thesis using Mode by (simp add: xxfs_chmod_def)
next
  case (Owner u g)
  have "with_attr (Owner u g) = (\<lambda>ino. ino\<lparr>i_uid := u, i_gid := g\<rparr>)" by (rule ext) simp
  then show ?thesis using Owner by (simp add: xxfs_chown_def)
next
  case (Times u g)
  have "with_attr (Times u g) = (\<lambda>ino. ino\<lparr>i_atime := u, i_mtime := g\<rparr>)" by (rule ext) simp
  then show ?thesis using Times by (simp add: xxfs_utime_def)
qed

lemma wf_with_attr: "wf_inode ino \<Longrightarrow> wf_inode ((with_attr a ino)\<lparr>i_ctime := t\<rparr>)"
  by (cases a) (simp_all add: wf_attr)

text \<open>C19: \<^verbatim>\<open>xxfs_chmod\<close>, \<^verbatim>\<open>xxfs_chown\<close> and \<^verbatim>\<open>xxfs_utime\<close> of a path that the index holds return \<^verbatim>\<open>XXFS_OK\<close> and make the path's inode
  the stored inode with just these attributes and the change time replaced, sealed again, in the index and in the
  inode cache alike; inodes of paths with other hashes and the cached directories are as before. A path that the
  index does not hold gives \<^verbatim>\<open>XXFS_ENOENT\<close> and changes no inode. What the inode cache knew about the path beyond the index is
  overwritten.\<close>

theorem set_attr_correct:
  assumes inv: "fs_inv fs" and room: "icache_room fs 1" and st: "can_store fs (path_normalize path)"
  shows "case index_inode fs (path_normalize path) of
      None \<Rightarrow> \<exists>fs'. set_attr a fs path = Some (XXFS_ENOENT, fs') \<and> fs_inv fs' \<and> inode_view fs' = inode_view fs
    | Some ino \<Rightarrow> \<exists>t fs'. set_attr a fs path = Some (XXFS_OK, fs') \<and>
        inode_replaced fs (path_normalize path) (inode_set_checksum_ecc ((with_attr a ino)\<lparr>i_ctime := t\<rparr>)) fs'"
proof (cases "index_inode fs (path_normalize path)")
  case None
  obtain fs' where f: "change_inode fs path (with_attr a) = Some (XXFS_ENOENT, fs')" "ns_same fs fs'"
    by (rule change_inode_absent [OF inv None])
  then show ?thesis using None ns_sameD [OF f(2)] fs_invD(3) [OF inv] by (simp add: set_attr_change fs_inv_def)
next
  case (Some ino)
  have wf: "wf_inode ((with_attr a ino)\<lparr>i_ctime := t\<rparr>)" for t by (rule wf_with_attr [OF index_inode_wf [OF inv Some]])
  obtain t fs' where "change_inode fs path (with_attr a) = Some (XXFS_OK, fs')"
    "inode_replaced fs (path_normalize path) (inode_set_checksum_ecc ((with_attr a ino)\<lparr>i_ctime := t\<rparr>)) fs'"
    by (rule change_inode_law [where upd = "with_attr a", OF inv room st Some wf])
  then show ?thesis using Some by (auto simp: set_attr_change)
qed

theorem set_attr_correct_witness:
  "\<exists>f fs t fs' now. xxfs_mkfs blank_file 64 False = (XXFS_OK, f) \<and> xxfs_mount f 0 = Some (Inr fs) \<and>
    xxfs_chmod fs [0x2F] 448 = Some (XXFS_OK, fs') \<and>
    inode_view fs' [0x2F] = Some (inode_set_checksum_ecc ((mkfs_root now)\<lparr>i_mode := 448, i_ctime := t\<rparr>))"
proof -
  obtain f fs now where m: "xxfs_mkfs blank_file 64 False = (XXFS_OK, f)" "xxfs_mount f 0 = Some (Inr fs)"
    "fresh_mounted fs now"
    by (rule mkfs_mounted [of blank_file 64 0]) simp_all
  have r: "fs_inv fs" "icache_room fs 1" "can_store fs (path_normalize [0x2F])" "index_inode fs [0x2F] = Some (mkfs_root now)"
    using m(3) by (simp_all add: fresh_mounted_def icache_room_def norm_root)
  show ?thesis
    using set_attr_correct [OF r(1-3), of "Mode 448"] r(4) m(1,2) by (auto simp: norm_root inode_replaced_def)
qed

section \<open>Symbolic links\<close>

lemma wf_link: "length target \<le> 128 \<Longrightarrow>
  wf_inode (zero_inode\<lparr>i_file_type := XXFS_FT_LNK, i_nlinks := 1, i_size := n,
     i_atime := now, i_mtime := now, i_ctime := now, i_btime := now, i_inline := buf_put 0 target (i_inline zero_inode)\<rparr>)"
  using wf_zero_inode by (simp add: wf_inode_def length_buf_put)

lemma ucast32_of_nat: "n < 2 ^ 32 \<Longrightarrow> ucast (of_nat n :: u32) = (of_nat n :: u64)"
  by (simp add: word_unat_eq_iff unsigned_ucast_eq unat_of_nat take_bit_nat_eq_self)

lemma symlink_law:
  assumes inv: "fs_inv fs" and room: "icache_room fs 3" and st: "can_store fs (path_normalize path)"
    and new: "inode_view fs (path_normalize path) = None" and len: "length target \<le> XXFS_INLINE_MAX"
  obtains ino fs' where "xxfs_symlink fs target path = Some (XXFS_OK, fs')"
    and "inode_replaced fs (path_normalize path) ino fs'" and "icache_room fs' 1"
    and "i_file_type ino = XXFS_FT_LNK" and "i_size ino = of_nat (length target)"
    and "i_inline ino = buf_put 0 target (zeros 128)"
proof -
  let ?p = "path_normalize path"
  have l: "length target \<le> 128" using len by (simp add: XXFS_INLINE_MAX_def)
  have room': "icache_room fs (Suc (Suc (Suc 0)))" using room by (simp add: eval_nat_numeral)
  obtain g where g: "fetch_inode fs ?p = Some (case inode_view fs ?p of None \<Rightarrow> Inl XXFS_ENOENT | Some ino \<Rightarrow> Inr ino, g)"
    "fs_inv g" "icache_room g (Suc (Suc 0))" "same_index fs g" "dcache g = dcache fs" "sb g = sb fs"
    "\<And>q. apart q ?p \<or> q = ?p \<Longrightarrow> inode_view g q = inode_view fs q"
    by (rule fetch_inode_law [OF inv room' length_norm32]) blast
  have n: "ns_same g (tick g)" by (rule tick_ns [OF fs_invD(4) [OF g(2)]])
  note n' = ns_sameD [OF n]
  have i: "fs_inv (tick g)" "icache_room (tick g) (Suc (Suc 0))" "can_store (tick g) ?p"
    using n' g(2,3) can_store_same [OF same_index_trans [OF g(4) n'(2)]] st by (simp_all add: fs_inv_def)
  let ?t = "os_clock (img g) (os_calls (img g))" and ?n = "of_nat (length target) :: u64"
  let ?i = "zero_inode\<lparr>i_file_type := XXFS_FT_LNK, i_nlinks := 1, i_size := ?n,
     i_atime := ?t, i_mtime := ?t, i_ctime := ?t, i_btime := ?t, i_inline := buf_put 0 target (i_inline zero_inode)\<rparr>"
  have wf: "wf_inode ?i" by (rule wf_link [OF l])
  obtain h fs' where h: "paged_put (tick g) ?p (inode_to_val (inode_set_checksum_ecc ?i)) = Some (XXFS_OK, h)"
    "icache_put h (xxh64 ?p) ?p (inode_set_checksum_ecc ?i) = Some fs'"
    "inode_replaced (tick g) ?p (inode_set_checksum_ecc ?i) fs'" "icache_room fs' (Suc 0)"
    by (rule put_cached_law [OF i wf])
  have u: "unat (of_nat (length target) :: u32) = length target" "ucast (of_nat (length target) :: u32) = ?n"
    using l by (simp_all add: unat_of_nat ucast32_of_nat)
  have "\<not> of_nat (length target) > (of_nat XXFS_INLINE_MAX :: u32)"
    using l u(1) by (simp add: word_less_nat_alt XXFS_INLINE_MAX_def)
  then have s: "xxfs_symlink fs target path = Some (XXFS_OK, fs')"
    using g(1) new h(1,2) u by (simp add: xxfs_symlink_def fs_time_tick Let_def)
  have "inode_replaced fs ?p (inode_set_checksum_ecc ?i) fs'"
    by (rule inode_replaced_same [OF h(3) same_index_trans [OF g(4) n'(2)]]) (use g(5-7) n'(3,6) in simp_all)
  then show thesis
    using that [OF s] h(4) sealed_fields [OF wf] by (simp add: zero_inode_fields)
qed

text \<open>C20: a symbolic link can be read back: \<^verbatim>\<open>xxfs_symlink\<close> with a target of at most 128 bytes at a path that does not
  exist succeeds, and \<^verbatim>\<open>xxfs_readlink\<close> then returns exactly the target to every caller whose buffer has room for it and
  its terminating zero; to a caller with a smaller buffer, the target cut to the buffer.\<close>

theorem symlink_then_readlink:
  assumes inv: "fs_inv fs" and room: "icache_room fs 3" and st: "can_store fs (path_normalize path)"
    and new: "inode_view fs (path_normalize path) = None" and len: "length target \<le> XXFS_INLINE_MAX" and cap: "0 < cap"
  shows "\<exists>fs' fs''. xxfs_symlink fs target path = Some (XXFS_OK, fs') \<and> fs_inv fs' \<and>
    (\<forall>q. apart q (path_normalize path) \<longrightarrow> inode_view fs' q = inode_view fs q) \<and>
    xxfs_readlink fs' path cap = Some (Inr (take (unat cap - 1) target), fs'')"
proof -
  obtain ino fs' where s: "xxfs_symlink fs target path = Some (XXFS_OK, fs')" "inode_replaced fs (path_normalize path) ino fs'"
    "icache_room fs' 1" "i_file_type ino = XXFS_FT_LNK" "i_size ino = of_nat (length target)"
    "i_inline ino = buf_put 0 target (zeros 128)"
    by (rule symlink_law [OF inv room st new len])
  have i: "fs_inv fs'" "inode_view fs' (path_normalize path) = Some ino" using s(2) by (simp_all add: inode_replaced_def)
  obtain fs'' where f: "xxfs_stat fs' path = Some (Inr ino, fs'')"
    using i s(3) fetch_inode_law [of fs' 0 "path_normalize path", OF i(1) _ length_norm32]
    unfolding xxfs_stat_def by (metis One_nat_def option.simps(5))
  let ?n = "ucast (i_size ino) :: u32"
  have l: "length target \<le> 128" using len by (simp add: XXFS_INLINE_MAX_def)
  have n: "unat ?n = length target" using l by (simp add: s(5) unsigned_ucast_eq unat_of_nat take_bit_nat_eq_self)
  have c: "unat (cap - 1) = unat cap - 1" using cap by (simp add: unat_minus_one word_neq_0_conv)
  let ?m = "if ?n > cap - 1 then cap - 1 else ?n"
  have m: "unat ?m = min (length target) (unat cap - 1)" using n c by (simp add: word_less_nat_alt)
  have t: "take (unat ?m) (i_inline ino) = take (unat cap - 1) target"
    using l unfolding s(6) m by (simp add: buf_put_def min_def)
  have "0 < unat cap" using cap by (simp add: word_less_nat_alt)
  then have "?m < cap" "unat ?m \<le> XXFS_INLINE_MAX" using m l by (simp_all add: word_less_nat_alt XXFS_INLINE_MAX_def)
  then have "xxfs_readlink fs' path cap = Some (Inr (take (unat cap - 1) target), fs'')"
    using f s(4) t by (simp add: xxfs_readlink_def Let_def)
  then show ?thesis using s(1,2) i(1) by (auto simp: inode_replaced_def)
qed

theorem symlink_then_readlink_witness:
  "\<exists>f fs fs' fs''. xxfs_mkfs blank_file 64 False = (XXFS_OK, f) \<and> xxfs_mount f 0 = Some (Inr fs) \<and>
    xxfs_symlink fs [0x62, 0x63] [0x2F, 0x61] = Some (XXFS_OK, fs') \<and>
    xxfs_readlink fs' [0x2F, 0x61] 64 = Some (Inr [0x62, 0x63], fs'')"
proof -
  obtain f fs now where m: "xxfs_mkfs blank_file 64 False = (XXFS_OK, f)" "xxfs_mount f 0 = Some (Inr fs)"
    "fresh_mounted fs now" "can_make 8191 fs [0x2F, 0x61]"
    by (rule sample_mounted)
  have "icache_room fs 3" using m(3) by (simp add: fresh_mounted_def icache_room_def)
  then show ?thesis
    using symlink_then_readlink [of fs "[0x2F, 0x61]" "[0x62, 0x63]" 64] m
    by (auto simp: can_make_def sample_path XXFS_INLINE_MAX_def)
qed

end
