(* ===== verification/Fs_Data.thy ===== *)
theory Fs_Data
  imports Fs_Extent Fs_Attr
begin

text \<open>
  The contents of files: what \<^verbatim>\<open>xxfs_write\<close> and \<^verbatim>\<open>xxfs_read\<close> do to the bytes of a file, for files that live in their inode and for files
  with an extent.
\<close>

section \<open>Contents\<close>

definition file_bytes :: "xxfs \<Rightarrow> xxfs_inode \<Rightarrow> bytes" where
  "file_bytes fs ino =
     (if i_blocks ino = 0 then take (unat (i_size ino)) (i_inline ino)
      else peek (img fs) (unat (i_extent_off ino)) (unat (i_size ino)))"

text \<open>The inline area is zero behind the end of the file; the extent covers the file and belongs to no part of the
  index.\<close>

definition file_ok :: "xxfs \<Rightarrow> xxfs_inode \<Rightarrow> bool" where
  "file_ok fs ino \<longleftrightarrow> wf_inode ino \<and>
     (if i_blocks ino = 0
      then unat (i_size ino) \<le> 128 \<and> drop (unat (i_size ino)) (i_inline ino) = zeros (128 - unat (i_size ino))
      else i_extent_off ino \<noteq> 0 \<and> extent_at fs (i_extent_off ino) (unat (i_blocks ino)) \<and>
        unat (i_size ino) \<le> unat (i_blocks ino) * 4096 \<and> unat (i_extent_off ino) + unat (i_size ino) \<le> isize fs)"

text \<open>Overwriting the bytes from \<open>off\<close> on; a gap behind the old end is filled with zeros.\<close>

definition overlay :: "nat \<Rightarrow> bytes \<Rightarrow> bytes \<Rightarrow> bytes" where
  "overlay off buf xs = take off (xs @ zeros (off - length xs)) @ buf @ drop (off + length buf) xs"

lemma length_overlay: "length (overlay off buf xs) = max (length xs) (off + length buf)"
  by (simp add: overlay_def)

lemma overlay_nth:
  "i < max (length xs) (off + length buf) \<Longrightarrow> overlay off buf xs ! i =
    (if i < off then if i < length xs then xs ! i else 0 else if i < off + length buf then buf ! (i - off) else xs ! i)"
  by (auto simp: overlay_def nth_append min_def zeros_def)

lemma file_bytes_spared:
  assumes "index_ok fs" "index_ok fs'" and "index_spares fs fs'" and f: "file_ok fs ino"
  shows "file_ok fs' ino" "file_bytes fs' ino = file_bytes fs ino"
proof -
  have "file_ok fs' ino \<and> file_bytes fs' ino = file_bytes fs ino"
  proof (cases "i_blocks ino = 0")
    case False
    then have e: "extent_at fs (i_extent_off ino) (unat (i_blocks ino))" "0 + unat (i_size ino) \<le> unat (i_blocks ino) * 4096"
      using f by (simp_all add: file_ok_def)
    have "peek (img fs') (unat (i_extent_off ino)) (unat (i_size ino)) = peek (img fs) (unat (i_extent_off ino)) (unat (i_size ino))"
      using extent_bytes_spared [OF assms(1-3) e] by (simp only: add_0_right)
    moreover have "unat (i_extent_off ino) + unat (i_size ino) \<le> isize fs'"
      using f False index_sparesD(2) [OF assms(3)] by (simp add: file_ok_def)
    ultimately show ?thesis
      using f False extent_spared(1) [OF assms(1-3) e(1)] unfolding file_ok_def file_bytes_def by simp
  qed (use f in \<open>simp add: file_ok_def file_bytes_def\<close>)
  then show "file_ok fs' ino" "file_bytes fs' ino = file_bytes fs ino" by blast+
qed

section \<open>Reading\<close>

lemma read_inode_law:
  fixes fs :: xxfs and ino :: xxfs_inode and buf :: bytes and off :: u64
  assumes ok: "index_ok fs" and f: "file_ok fs ino" and buf: "length buf < 2 ^ 32"
  defines "bs \<equiv> take (length buf) (drop (unat off) (file_bytes fs ino))"
  obtains fs' where "read_inode fs ino buf off = Some (Inr (of_nat (length bs)), into_buf bs buf, fs')" and "fs' = fs \<or> fs' = tick fs"
proof (cases "off \<ge> i_size ino")
  case True
  have "length (file_bytes fs ino) \<le> unat (i_size ino)" by (simp add: file_bytes_def)
  then have "bs = []" using True by (simp add: bs_def word_le_nat_alt)
  then show thesis using that [of fs] True by (simp add: read_inode_def into_buf_def)
next
  case False
  let ?len = "if ucast (of_nat (length buf) :: u32) > i_size ino - off then ucast (i_size ino - off) else of_nat (length buf) :: u32"
  have lt: "unat off < unat (i_size ino)" using False by (simp add: word_le_nat_alt)
  have av: "unat (i_size ino - off) = unat (i_size ino) - unat off" using lt by (simp add: unat_sub word_le_nat_alt)
  have ub: "unat (of_nat (length buf) :: u32) = length buf" using buf by (simp add: unat_of_nat)
  have len: "unat ?len = min (length buf) (unat (i_size ino) - unat off)"
  proof (cases "ucast (of_nat (length buf) :: u32) > i_size ino - off")
    case True
    then have l: "unat (i_size ino) - unat off < length buf"
      using av buf by (simp add: word_less_nat_alt ucast32_of_nat unat_of_nat)
    then have "unat (ucast (i_size ino - off) :: u32) = unat (i_size ino) - unat off"
      using av buf by (simp add: unsigned_ucast_eq take_bit_nat_eq_self)
    then show ?thesis using True l by simp
  next
    case False
    then have "length buf \<le> unat (i_size ino) - unat off"
      using av buf by (simp add: word_less_nat_alt ucast32_of_nat unat_of_nat)
    then show ?thesis using False ub by simp
  qed
  have flen: "length (file_bytes fs ino) = unat (i_size ino)"
    using f by (auto simp: file_bytes_def file_ok_def wf_inode_def)
  then have lb: "length bs = unat ?len" using len by (simp add: bs_def)
  then have wl: "?len = of_nat (length bs)" by simp
  show thesis
  proof (cases "i_blocks ino = 0")
    case True
    have s: "unat (i_size ino) \<le> 128" using f True by (simp add: file_ok_def)
    have "fld (unat off) (unat ?len) (i_inline ino) = bs"
      unfolding lb [symmetric] using True lt s by (simp add: bs_def fld_def file_bytes_def drop_take min_def)
    moreover have "i_size ino \<le> of_nat XXFS_INLINE_MAX" using s by (simp add: word_le_nat_alt XXFS_INLINE_MAX_def)
    ultimately show thesis
      using that [of fs] False True wl by (simp add: read_inode_def Let_def)
  next
    case nb: False
    let ?e = "i_extent_off ino"
    have e: "?e \<noteq> 0" "extent_at fs ?e (unat (i_blocks ino))" "unat (i_size ino) \<le> unat (i_blocks ino) * 4096"
      "unat ?e + unat (i_size ino) \<le> isize fs" using f nb by (simp_all add: file_ok_def)
    have b: "unat ?e + unat (i_blocks ino) * 4096 < 2 ^ 63" using e(2) by (simp add: extent_at_def)
    have u: "unat (?e + off) = unat ?e + unat off" using b lt e(3) by (subst unat_add_nowrap) auto
    have ff: "fault_free (img fs)" using pages_invD(1) [OF index_okD(3) [OF ok]] by (simp add: pc_inv_def)
    have m: "min (unat ?len) (isize fs - (unat ?e + unat off)) = unat ?len" using len e(4) lt by simp
    have "fs_pread fs (unat ?len) (?e + off) = (Some (peek (img fs) (unat ?e + unat off) (unat ?len)), tick fs)"
      using b lt e(3) m by (subst fs_pread_ok [OF ff]) (simp_all add: s64_ok_def u)
    moreover have "peek (img fs) (unat ?e + unat off) (unat ?len) = bs"
      unfolding lb [symmetric] using nb by (intro nth_equalityI) (auto simp: bs_def file_bytes_def peek_nth flen add.assoc)
    ultimately show thesis
      using that [of "tick fs"] False nb wl e(1) by (simp add: read_inode_def Let_def word_gt_0)
  qed
qed

lemma read_law:
  assumes inv: "fs_inv fs" and room: "icache_room fs 1" and v: "inode_view fs (path_normalize path) = Some ino"
    and f: "file_ok fs ino" and buf: "buf \<noteq> []" "length buf < 2 ^ 32"
  obtains fs' where "xxfs_read fs path buf off = Some (Inr (of_nat (length (take (length buf) (drop (unat off) (file_bytes fs ino))))),
      into_buf (take (length buf) (drop (unat off) (file_bytes fs ino))) buf, fs')"
    and "fs_inv fs'" and "same_index fs fs'" and "\<And>q. apart q (path_normalize path) \<or> q = path_normalize path \<Longrightarrow> inode_view fs' q = inode_view fs q"
    and "dcache fs' = dcache fs" and "sb fs' = sb fs" and "cache_move fs (path_normalize path) fs'"
proof -
  let ?p = "path_normalize path"
  have r: "icache_room fs (Suc 0)" using room by simp
  obtain g where g: "fetch_inode fs ?p = Some (case inode_view fs ?p of None \<Rightarrow> Inl XXFS_ENOENT | Some ino \<Rightarrow> Inr ino, g)"
    "fs_inv g" "same_index fs g" "dcache g = dcache fs" "sb g = sb fs" "cache_move fs ?p g"
    and gv: "\<And>q. apart q ?p \<or> q = ?p \<Longrightarrow> inode_view g q = inode_view fs q"
    by (rule fetch_inode_law [OF inv r length_norm32 [of path]]) blast
  note sp = file_bytes_spared [OF fs_invD(1) [OF inv] same_indexD(1,8) [OF g(3)] f]
  obtain fs' where r: "read_inode g ino buf off = Some (Inr (of_nat (length (take (length buf) (drop (unat off) (file_bytes g ino))))),
      into_buf (take (length buf) (drop (unat off) (file_bytes g ino))) buf, fs')" "fs' = g \<or> fs' = tick g"
    by (rule read_inode_law [OF same_indexD(1) [OF g(3)] sp(1) buf(2)])
  have ns: "ns_same g fs'" using r(2) ns_same_refl tick_ns fs_invD(4) [OF g(2)] by blast
  have "fs_inv fs'" using ns_sameD [OF ns] fs_invD(3) [OF g(2)] by (simp add: fs_inv_def)
  moreover have "xxfs_read fs path buf off = read_inode g ino buf off" using buf(1) g(1) v by (simp add: xxfs_read_def)
  moreover have "dcache fs' = dcache g" using r(2) by auto
  moreover have "cache_move fs ?p fs'"
    by (rule cache_move_cong [OF g(6) same_slots_refl ns_sameD(9) [OF ns]]) (use fs_invD(1) [OF inv] in simp_all)
  ultimately show thesis
    using that [of fs'] r(1) sp(2) gv g(4,5) same_index_trans [OF g(3) ns_sameD(2) [OF ns]] ns_sameD(3,6) [OF ns] by simp
qed

text \<open>C15: \<^verbatim>\<open>xxfs_read\<close> of a well-formed file returns \<^verbatim>\<open>XXFS_OK\<close>, reports the number of bytes between the offset and the end of the
  file that fit into the caller's buffer, puts exactly these bytes of the file at the start of the buffer and leaves the
  rest of the buffer, the index, and every inode as they were; an offset at or behind the end gives no bytes.\<close>

theorem read_correct:
  assumes "fs_inv fs" and "icache_room fs 1" and "inode_view fs (path_normalize path) = Some ino"
    and "file_ok fs ino" and "buf \<noteq> []" and "length buf < 2 ^ 32"
  shows "\<exists>fs'. (let bs = take (length buf) (drop (unat off) (file_bytes fs ino))
      in xxfs_read fs path buf off = Some (Inr (of_nat (length bs)), bs @ drop (length bs) buf, fs')) \<and>
    fs_inv fs' \<and> same_index fs fs' \<and> (\<forall>q. apart q (path_normalize path) \<or> q = path_normalize path \<longrightarrow> inode_view fs' q = inode_view fs q)"
  unfolding Let_def into_buf_def [symmetric] by (rule read_law [OF assms, of off]) blast

section \<open>Writing\<close>

lemma extent_off_set:
  "length (i_inline ino) = 128 \<Longrightarrow> i_extent_off (set_extent_len l (set_extent_off off ino)) = off"
  by (simp add: i_extent_off_def set_extent_len_def set_extent_off_def fld_buf_put_other fld_buf_put_same dec_enc_le)

lemma set_extent_fields:
  "i_size (set_extent_len l (set_extent_off off ino)) = i_size ino" "i_file_type (set_extent_len l (set_extent_off off ino)) = i_file_type ino"
  "i_extent_off (ino\<lparr>i_blocks := b\<rparr>) = i_extent_off ino" "i_extent_off (ino\<lparr>i_size := b\<rparr>) = i_extent_off ino"
  by (simp_all add: set_extent_len_def set_extent_off_def i_extent_off_def)

lemma wf_set_extent: "wf_inode ino \<Longrightarrow> wf_inode ((set_extent_len l (set_extent_off off ino))\<lparr>i_blocks := b\<rparr>)"
  by (simp add: wf_inode_def set_extent_len_def set_extent_off_def length_buf_put)

lemma need_blocks_unat:
  assumes "unat e < 2 ^ 63"
  shows "unat (need_blocks e) = (unat e + 4095) div 4096"
proof -
  have "unat (e + 4096 - 1) = unat e + 4095" using assms by (simp add: unat_add_nowrap)
  then show ?thesis by (simp add: need_blocks_def unat_div_distrib)
qed

text \<open>The state in which the data of a write can go to the extent of \<open>ino'\<close>: it covers \<open>e\<close> bytes and holds what the file
  held.\<close>

definition prepared :: "xxfs \<Rightarrow> xxfs_inode \<Rightarrow> nat \<Rightarrow> xxfs_inode \<Rightarrow> xxfs \<Rightarrow> bool" where
  "prepared fs ino e ino' fs' \<longleftrightarrow> wf_inode ino' \<and> i_blocks ino' \<noteq> 0 \<and> i_size ino' = i_size ino \<and> i_file_type ino' = i_file_type ino \<and>
     i_extent_off ino' \<noteq> 0 \<and> extent_at fs' (i_extent_off ino') (unat (i_blocks ino')) \<and> e \<le> unat (i_blocks ino') * 4096 \<and>
     unat (i_size ino) \<le> unat (i_blocks ino') * 4096 \<and>
     peek (img fs') (unat (i_extent_off ino')) (unat (i_size ino)) = file_bytes fs ino \<and>
     (i_size ino \<noteq> 0 \<longrightarrow> unat (i_extent_off ino') + unat (i_size ino) \<le> isize fs') \<and>
     rest fs' = rest fs \<and> index_spares fs fs' \<and> data_step fs 0 0 fs' \<and> free_blocks fs \<le> free_blocks fs' + (e + 4095) div 4096 \<and>
     (i_blocks ino \<noteq> 0 \<longrightarrow> ino' = ino) \<and> (i_blocks ino = 0 \<longrightarrow> unat (i_extent_off ino') = alloc_frontier fs)"

text \<open>Sizes for which the code prepares the extent correctly: the file has one that is large enough; or it is empty and
  the blocks are free; or it is inline and one block is enough.\<close>

definition can_hold :: "xxfs \<Rightarrow> xxfs_inode \<Rightarrow> nat \<Rightarrow> bool" where
  "can_hold fs ino e \<longleftrightarrow>
     (if i_blocks ino \<noteq> 0 then e \<le> unat (i_blocks ino) * 4096
      else if i_size ino = 0 then (e + 4095) div 4096 \<le> free_blocks fs
      else e \<le> 4096 \<and> 0 < free_blocks fs)"

lemma prepare_empty:
  assumes ok: "index_ok fs" and f: "file_ok fs ino" and z: "i_blocks ino = 0" "i_size ino = 0"
    and e: "0 < unat e" "unat e < 2 ^ 63" "(unat e + 4095) div 4096 \<le> free_blocks fs"
  obtains ino' fs' where "spill_inline fs ino = (Inr ino, fs)" and "grow_extent fs ino (need_blocks e) = (Inr ino', fs')"
    and "prepared fs ino (unat e) ino' fs'"
proof -
  note n = need_blocks_unat [OF e(2)]
  have pos: "0 < need_blocks e" "unat (need_blocks e) \<le> free_blocks fs" using n e by (simp_all add: word_less_nat_alt)
  obtain off fs' where a: "page_alloc_n fs (need_blocks e) = (off, fs')" "off \<noteq> 0" "extent_at fs' off (unat (need_blocks e))"
    "index_spares fs fs'" "data_step fs off 0 fs'" "rest fs' = rest fs" "unat off = alloc_frontier fs" "free_blocks fs' = free_blocks fs - unat (need_blocks e)"
    by (rule extent_alloc [OF ok pos])
  let ?i = "(set_extent_len (ucast (need_blocks e)) (set_extent_off off ino))\<lparr>i_blocks := need_blocks e\<rparr>"
  have wf: "wf_inode ino" "length (i_inline ino) = 128" using f by (simp_all add: file_ok_def wf_inode_def)
  have c: "unat e \<le> unat (need_blocks e) * 4096" unfolding n by linarith
  show thesis
  proof (rule that)
    show "spill_inline fs ino = (Inr ino, fs)" using z by (simp add: spill_inline_def)
    show "grow_extent fs ino (need_blocks e) = (Inr ?i, fs')" using z a(1,2) pos(1) by (simp add: grow_extent_def)
    show "prepared fs ino (unat e) ?i fs'"
      using a wf_set_extent [OF wf(1)] pos(1) z c n extent_off_set [OF wf(2)]
      by (simp add: prepared_def set_extent_fields file_bytes_def data_step_def in_extent_def peek_def word_gt_0)
  qed
qed

lemma prepare_extent:
  assumes f: "file_ok fs ino" and b: "i_blocks ino \<noteq> 0" "unat e \<le> unat (i_blocks ino) * 4096" and e: "unat e < 2 ^ 63" and ok: "index_ok fs"
  shows "spill_inline fs ino = (Inr ino, fs)" and "grow_extent fs ino (need_blocks e) = (Inr ino, fs)" and "prepared fs ino (unat e) ino fs"
proof -
  show "spill_inline fs ino = (Inr ino, fs)" using b by (simp add: spill_inline_def)
  have "unat (need_blocks e) \<le> unat (i_blocks ino)" using need_blocks_unat [OF e] b(2) by linarith
  then show "grow_extent fs ino (need_blocks e) = (Inr ino, fs)" by (simp add: grow_extent_def word_less_nat_alt)
  show "prepared fs ino (unat e) ino fs"
    using f b ok by (simp add: prepared_def file_ok_def file_bytes_def data_step_def)
qed

text \<open>Blocks behind the frontier of the allocator do not count.\<close>

lemma data_step_fresh: "data_step fs off n fs' \<Longrightarrow> alloc_frontier fs \<le> unat off \<Longrightarrow> data_step fs o' 0 fs'"
  unfolding data_step_def in_extent_def outside_def foreign_def by fastforce

lemma prepare_inline:
  assumes ok: "index_ok fs" and f: "file_ok fs ino" and b: "i_blocks ino = 0" "i_size ino \<noteq> 0"
    and e: "0 < unat e" "unat e \<le> 4096" and free: "0 < free_blocks fs"
  obtains ino' fs' where "spill_inline fs ino = (Inr ino', fs')" and "grow_extent fs' ino' (need_blocks e) = (Inr ino', fs')"
    and "prepared fs ino (unat e) ino' fs'"
proof -
  have one: "(0::u64) < 1" "unat (1::u64) \<le> free_blocks fs" using free by simp_all
  obtain off g where a: "page_alloc_n fs 1 = (off, g)" "off \<noteq> 0" "extent_at g off (unat (1::u64))" "index_spares fs g"
    "data_step fs off 0 g" "rest g = rest fs" "unat off = alloc_frontier fs" "free_blocks g = free_blocks fs - unat (1::u64)"
    by (rule extent_alloc [OF ok one])
  have pa: "page_alloc fs = (off, g)" using a(1) by (simp add: page_alloc_n_def)
  have wf: "wf_inode ino" "length (i_inline ino) = 128" and s: "unat (i_size ino) \<le> 128"
    using f b by (simp_all add: file_ok_def wf_inode_def)
  let ?old = "take (unat (i_size ino)) (i_inline ino)"
  have lo: "length ?old = unat (i_size ino)" using s wf(2) by simp
  have ex: "extent_at g off 1" using a(3) by simp
  obtain fs' where w: "fs_pwrite g ?old (off + of_nat 0) = (True, fs')" "data_step g off 1 fs'" "rest fs' = rest g" "sb fs' = sb g"
    "img fs' = poke (img (tick g)) (unat off + 0) ?old"
    by (rule extent_write [OF data_stepD(1) [OF a(5)] ex, of 0 ?old]) (use lo s in simp)
  let ?i = "(set_extent_len 1 (set_extent_off off ino))\<lparr>i_blocks := 1\<rparr>"
  have mn: "min (unat (i_size ino)) XXFS_INLINE_MAX = unat (i_size ino)" using s by (simp add: XXFS_INLINE_MAX_def)
  have "data_step fs off 1 g" using a(5) by (simp add: data_step_def in_extent_def)
  then have ds: "data_step fs o' 0 fs'" for o' using data_step_fresh [OF data_step_trans [OF _ w(2)]] a(7) by simp
  have "unat (need_blocks e) \<le> 1" using need_blocks_unat [of e] e by simp
  then have gr: "grow_extent fs' ?i (need_blocks e) = (Inr ?i, fs')" by (simp add: grow_extent_def word_less_nat_alt)
  have pk: "peek (img fs') (unat off) (unat (i_size ino)) = file_bytes fs ino"
    unfolding w(5) using b lo by (simp add: file_bytes_def peek_poke_same)
  have sz: "unat off + unat (i_size ino) \<le> isize fs'"
    using lo b(2) unfolding w(5) by (cases "?old = []") (auto simp: poke_def unat_eq_zero)
  have fb: "free_blocks fs \<le> free_blocks fs' + (unat e + 4095) div 4096" using a(8) w(4) e(1) by simp
  show thesis
  proof (rule that)
    show "spill_inline fs ino = (Inr ?i, fs')"
      using b w(1) a(2) by (simp add: spill_inline_def word_gt_0 pa mn Let_def)
    show "grow_extent fs' ?i (need_blocks e) = (Inr ?i, fs')" by (rule gr)
    show "prepared fs ino (unat e) ?i fs'"
      using wf_set_extent [OF wf(1)] a(2,6,7) w(3) extent_off_set [OF wf(2)] extent_kept [OF w(2) ex] e s pk sz
        data_step_spares [OF ds] ds b fb
      by (simp add: prepared_def set_extent_fields)
  qed
qed

lemma prepare_law:
  assumes ok: "index_ok fs" and f: "file_ok fs ino" and c: "can_hold fs ino (unat e)" and e: "0 < unat e" "unat e < 2 ^ 63"
  obtains ino1 fs1 ino' fs' where "spill_inline fs ino = (Inr ino1, fs1)" and "grow_extent fs1 ino1 (need_blocks e) = (Inr ino', fs')"
    and "prepared fs ino (unat e) ino' fs'"
proof -
  consider (ext) "i_blocks ino \<noteq> 0" | (empty) "i_blocks ino = 0" "i_size ino = 0" | (inl) "i_blocks ino = 0" "i_size ino \<noteq> 0" by blast
  then show thesis
  proof cases
    case ext
    then show thesis using that prepare_extent [OF f ext _ e(2) ok] c by (simp add: can_hold_def)
  next
    case empty
    then have "(unat e + 4095) div 4096 \<le> free_blocks fs" using c by (simp add: can_hold_def)
    then show thesis using that prepare_empty [OF ok f empty e] by metis
  next
    case inl
    then have "unat e \<le> 4096" "0 < free_blocks fs" using c by (simp_all add: can_hold_def)
    then show thesis using that prepare_inline [OF ok f inl e(1)] by metis
  qed
qed

text \<open>The bytes after a write.\<close>

lemma overlay_inline:
  assumes "length inl = 128" and "n \<le> 128" and "drop n inl = zeros (128 - n)" and "off + length buf \<le> 128"
  shows "take (max n (off + length buf)) (buf_put off buf inl) = overlay off buf (take n inl)"
    and "drop (max n (off + length buf)) (buf_put off buf inl) = zeros (128 - max n (off + length buf))"
proof -
  have z: "inl ! i = 0" if "n \<le> i" "i < 128" for i
    using arg_cong [OF assms(3), of "\<lambda>xs. xs ! (i - n)"] that assms(1,2) by (simp add: zeros_def)
  show "take (max n (off + length buf)) (buf_put off buf inl) = overlay off buf (take n inl)"
    by (rule nth_equalityI) (use assms z in \<open>auto simp: length_overlay overlay_nth buf_put_nth\<close>)
  show "drop (max n (off + length buf)) (buf_put off buf inl) = zeros (128 - max n (off + length buf))"
    by (rule nth_equalityI) (use assms z in \<open>auto simp: buf_put_nth zeros_def\<close>)
qed

lemma overlay_peek:
  assumes "off \<le> n"
  shows "peek (poke f (a + off) buf) a (max n (off + length buf)) = overlay off buf (peek f a n)"
  by (rule nth_equalityI) (use assms in \<open>auto simp: length_overlay overlay_nth peek_nth os_byte_poke\<close>)

text \<open>The state after a write: the file has the new bytes, its inode is in the cache; the index, all other inodes and
  all blocks that did not belong to the file are as before.\<close>

definition file_written :: "nat \<Rightarrow> xxfs \<Rightarrow> bytes \<Rightarrow> xxfs_inode \<Rightarrow> bytes \<Rightarrow> xxfs_inode \<Rightarrow> xxfs \<Rightarrow> bool" where
  "file_written k fs p ino bs ino' fs' \<longleftrightarrow> fs_inv fs' \<and> icache_room fs' k \<and> cached_inode fs' (xxh64 p) = Some ino' \<and> inode_view fs' p = Some ino' \<and>
     file_ok fs' ino' \<and> i_file_type ino' = i_file_type ino \<and> file_bytes fs' ino' = bs \<and> index_inode fs' = index_inode fs \<and>
     (\<forall>q. apart q p \<longrightarrow> inode_view fs' q = inode_view fs q) \<and> isize fs \<le> isize fs' \<and> index_unique fs' = index_unique fs \<and>
     free_blocks fs \<le> free_blocks fs' + (length bs + 4095) div 4096 \<and>
     cache_step fs (xxh64 p) p fs' \<and> chain_kv fs' = chain_kv fs \<and> pdir fs' = pdir fs \<and> sb_kept (sb fs) (sb fs') \<and> dcache fs' = dcache fs \<and>
     (\<forall>r. outside fs r \<and> \<not> in_extent (i_extent_off ino) (unat (i_blocks ino)) r \<longrightarrow>
       outside fs' r \<and> lblock fs' r = lblock fs r \<and> \<not> in_extent (i_extent_off ino') (unat (i_blocks ino')) r)"

lemma write_cached:
  assumes inv: "fs_inv fs" and room: "icache_room fs (Suc k)" and c: "icache_near fs (xxh64 p)"
    and ds: "data_step fs off n g" and r: "rest g = rest fs" and f: "file_ok g ino'" "i_file_type ino' = i_file_type ino" "file_bytes g ino' = bs"
    and un: "\<And>r. outside fs r \<Longrightarrow> \<not> in_extent (i_extent_off ino) (unat (i_blocks ino)) r \<Longrightarrow> \<not> in_extent off n r"
    and own: "\<And>r. in_extent (i_extent_off ino') (unat (i_blocks ino')) r \<Longrightarrow> in_extent off n r"
    and fr: "free_blocks fs \<le> free_blocks g + (length bs + 4095) div 4096"
  obtains fs' where "icache_put g (xxh64 p) p ino' = Some fs'" and "file_written k fs p ino bs ino' fs'"
proof -
  have ig: "fs_inv g" using data_step_base [OF ds fs_invD(4) [OF inv]] fs_invD(3) [OF inv] rest_icache(2) [OF r] by (simp add: fs_inv_def)
  have rg: "icache_room g (Suc k)" and cg: "cached_inode g = cached_inode fs" using room rest_icache [OF r] by simp_all
  have vg: "inode_view g = inode_view fs" by (rule view_cong [OF cg data_stepD(2) [OF ds]])
  obtain fs' where p: "icache_put g (xxh64 p) p ino' = Some fs'" "fs_inv fs'" "icache_room fs' k" "same_index g fs'" "icache_only g fs'"
      "cache_step g (xxh64 p) p fs'"
    and q: "\<And>q. apart q p \<Longrightarrow> inode_view fs' q = inode_view g q"
    and o: "icache_near g (xxh64 p) \<Longrightarrow> cached_inode fs' (xxh64 p) = Some ino'"
    by (rule icache_put_view [where p = p and key = p and ino = ino', OF ig rg]) blast
  note s = same_indexD [OF p(4)] and fb = file_bytes_spared [OF fs_invD(1) [OF ig] same_indexD(1,8) [OF p(4)] f(1)]
  have ci: "cached_inode fs' (xxh64 p) = Some ino'" using o c rest_icache(4) [OF r] by simp
  have ix: "index_inode fs' = index_inode fs" using s(3) data_stepD(2) [OF ds] by (simp add: index_inode_def fun_eq_iff)
  have bl: "outside fs' r \<and> lblock fs' r = lblock fs r \<and> \<not> in_extent (i_extent_off ino') (unat (i_blocks ino')) r"
    if "outside fs r" "\<not> in_extent (i_extent_off ino) (unat (i_blocks ino)) r" for r
    using data_stepD(6,7) [OF ds that(1)] un [OF that] own [of r] index_sparesD(1) [OF s(8), of r] by auto
  have sz: "isize fs \<le> isize fs'" "index_unique fs' = index_unique fs"
    using data_stepD(3,5) [OF ds] index_sparesD(2) [OF s(8)] s(4) by simp_all
  have vi: "inode_view fs' p = Some ino'" using ci by (simp add: inode_view_def)
  have st: "cache_step fs (xxh64 p) p fs'"
    by (rule cache_step_cong [OF p(6) rest_slots [OF r] same_slots_refl]) (simp add: index_fault_free [OF fs_invD(1)] inv ig)
  have kept: "chain_kv fs' = chain_kv fs" "pdir fs' = pdir fs" "sb_kept (sb fs) (sb fs')" "dcache fs' = dcache fs"
    using s(5,10) data_stepD(4,8) [OF ds] rest_sb_kept [OF r] icache_onlyD(3,6) [OF p(5)] restD(6) [OF r] by simp_all
  have "file_written k fs p ino bs ino' fs'"
    unfolding file_written_def using p(2,3) ci vi fb f(2,3) ix q vg bl sz st kept fr s(7) by simp
  then show thesis by (rule that [OF p(1)])
qed

lemma grown_size:
  assumes "unat e = n"
  shows "unat (if e > s then e else s :: u64) = max (unat s) n"
  using assms by (auto simp: word_less_nat_alt)

lemma write_inline_law:
  assumes inv: "fs_inv fs" and room: "icache_room fs (Suc k)" and c: "icache_near fs (xxh64 p)"
    and f: "file_ok fs ino" and b: "i_blocks ino = 0" and e: "unat off + length buf \<le> 128"
  obtains ino' fs' where "write_inode fs p ino buf off = Some (Inr (of_nat (length buf)), fs')"
    and "file_written k fs p ino (overlay (unat off) buf (file_bytes fs ino)) ino' fs'"
proof -
  let ?e = "off + ucast (of_nat (length buf) :: u32)"
  have ub: "unat (ucast (of_nat (length buf) :: u32) :: u64) = length buf" using e by (simp add: ucast32_of_nat unat_of_nat)
  have ue: "unat ?e = unat off + length buf" using e ub by (subst unat_add_nowrap) simp_all
  have le: "?e \<le> of_nat XXFS_INLINE_MAX" using ue e by (simp add: word_le_nat_alt XXFS_INLINE_MAX_def)
  let ?i = "ino\<lparr>i_inline := buf_put (unat off) buf (i_inline ino), i_size := (if ?e > i_size ino then ?e else i_size ino)\<rparr>"
  have wf: "wf_inode ino" "length (i_inline ino) = 128" and s: "unat (i_size ino) \<le> 128"
    "drop (unat (i_size ino)) (i_inline ino) = zeros (128 - unat (i_size ino))"
    using f b by (simp_all add: file_ok_def wf_inode_def)
  note sp = overlay_inline [OF wf(2) s e] and gs = grown_size [OF ue, of "i_size ino"]
  have fo: "file_ok fs ?i"
    using wf e b s sp(2) gs by (simp add: file_ok_def wf_inode_def length_buf_put)
  have fb: "file_bytes fs ?i = overlay (unat off) buf (file_bytes fs ino)"
    using b sp(1) gs by (simp add: file_bytes_def)
  have si: "same_index fs fs" using fs_invD(1) [OF inv] by (simp add: same_index_def)
  obtain fs' where w: "icache_put fs (xxh64 p) p ?i = Some fs'"
    "file_written k fs p ino (overlay (unat off) buf (file_bytes fs ino)) ?i fs'"
    by (rule write_cached [OF inv room c same_data_step [OF si, of 0 0] refl fo _ fb, of ino]) (use b in \<open>simp_all add: in_extent_def\<close>)
  have "write_inode fs p ino buf off = Some (Inr (of_nat (length buf)), fs')"
    using le e w(1) by (cases "?e > i_size ino") (simp_all add: write_inode_def Let_def XXFS_INLINE_MAX_def)
  then show thesis using that w(2) by blast
qed

lemma write_extent_law:
  assumes inv: "fs_inv fs" and room: "icache_room fs (Suc k)" and c: "icache_near fs (xxh64 p)"
    and f: "file_ok fs ino" and len: "length buf < 2 ^ 32" and e: "128 < unat off + length buf" "unat off + length buf < 2 ^ 63"
    and h: "can_hold fs ino (unat off + length buf)" and gap: "unat off \<le> unat (i_size ino)" and ne: "buf \<noteq> []"
  obtains ino' fs' where "write_inode fs p ino buf off = Some (Inr (of_nat (length buf)), fs')"
    and "file_written k fs p ino (overlay (unat off) buf (file_bytes fs ino)) ino' fs'"
proof -
  let ?e = "off + ucast (of_nat (length buf) :: u32)"
  have ub: "unat (ucast (of_nat (length buf) :: u32) :: u64) = length buf" using len by (simp add: ucast32_of_nat unat_of_nat)
  have ue: "unat ?e = unat off + length buf" using e(2) ub by (subst unat_add_nowrap) simp_all
  have nle: "\<not> ?e \<le> of_nat XXFS_INLINE_MAX" using ue e by (simp add: word_le_nat_alt XXFS_INLINE_MAX_def)
  obtain ino1 fs1 ino2 fs2 where p: "spill_inline fs ino = (Inr ino1, fs1)" "grow_extent fs1 ino1 (need_blocks ?e) = (Inr ino2, fs2)"
    "prepared fs ino (unat ?e) ino2 fs2"
    by (rule prepare_law [OF fs_invD(1) [OF inv] f, of ?e]) (use ue e h ne in simp_all)
  note q = p(3) [unfolded prepared_def]
  let ?x = "i_extent_off ino2" and ?n = "unat (i_blocks ino2)"
  have ex: "extent_at fs2 ?x ?n" and ds2: "data_step fs 0 0 fs2" using q by blast+
  have cov: "unat off + length buf \<le> ?n * 4096" using q unfolding ue by blast
  obtain g where g: "fs_pwrite fs2 buf (?x + of_nat (unat off)) = (True, g)" "data_step fs2 ?x ?n g" "rest g = rest fs2" "sb g = sb fs2"
    "img g = poke (img (tick fs2)) (unat ?x + unat off) buf"
    by (rule extent_write [OF data_stepD(1) [OF ds2] ex cov])
  have ds: "data_step fs ?x ?n g"
    by (rule data_step_trans [OF _ g(2)]) (use ds2 in \<open>auto simp: data_step_def in_extent_def\<close>)
  let ?i = "ino2\<lparr>i_size := (if ?e > i_size ino2 then ?e else i_size ino2)\<rparr>"
  have sz: "i_size ino2 = i_size ino" using q by blast
  have ui: "unat (i_size ?i) = max (unat (i_size ino)) (unat off + length buf)" using grown_size [OF ue, of "i_size ino"] sz by (cases "?e > i_size ino") simp_all
  have nb: "i_blocks ino2 \<noteq> 0" using q by blast
  have fo: "file_ok g ?i"
  proof -
    have "unat ?x + (unat off + length buf) \<le> isize g" unfolding g(5) using ne by (simp add: poke_def)
    moreover have "unat ?x + unat (i_size ino) \<le> isize g"
    proof (cases "i_size ino = 0")
      case True
      then show ?thesis using calculation by simp
    qed (use q data_stepD(5) [OF g(2)] in auto)
    moreover have "unat (i_size ino) \<le> ?n * 4096" "?x \<noteq> 0" "wf_inode ?i" using q by (simp_all add: wf_inode_def)
    ultimately show ?thesis
      using nb cov ui extent_kept [OF g(2) ex] unfolding file_ok_def by (simp add: set_extent_fields max_def)
  qed
  have fb: "file_bytes g ?i = overlay (unat off) buf (file_bytes fs ino)"
  proof -
    have "peek (img fs2) (unat ?x) (unat (i_size ino)) = file_bytes fs ino" using q by blast
    then show ?thesis
      using nb ui overlay_peek [OF gap, of "img (tick fs2)" "unat ?x" buf] by (simp add: file_bytes_def g(5) set_extent_fields peek_def)
  qed
  have un: "\<not> in_extent ?x ?n r" if "outside fs r" "\<not> in_extent (i_extent_off ino) (unat (i_blocks ino)) r" for r
    using that q by (cases "i_blocks ino = 0") (auto simp: in_extent_def outside_def foreign_def)
  have own: "in_extent (i_extent_off ?i) (unat (i_blocks ?i)) r \<Longrightarrow> in_extent ?x ?n r" for r by (simp add: set_extent_fields)
  have rt: "rest g = rest fs" "i_file_type ?i = i_file_type ino" using q g(3) by simp_all
  have "free_blocks fs \<le> free_blocks fs2 + (unat ?e + 4095) div 4096" using q by blast
  moreover have "unat ?e \<le> length (overlay (unat off) buf (file_bytes fs ino))" by (simp add: ue length_overlay)
  then have "(unat ?e + 4095) div 4096 \<le> (length (overlay (unat off) buf (file_bytes fs ino)) + 4095) div 4096" by (intro div_le_mono) simp
  ultimately have fr: "free_blocks fs \<le> free_blocks g + (length (overlay (unat off) buf (file_bytes fs ino)) + 4095) div 4096" using g(4) by simp
  obtain fs' where w: "icache_put g (xxh64 p) p ?i = Some fs'"
    "file_written k fs p ino (overlay (unat off) buf (file_bytes fs ino)) ?i fs'"
    by (rule write_cached [OF inv room c ds rt(1) fo rt(2) fb un own fr])
  have "write_inode fs p ino buf off = Some (Inr (of_nat (length buf)), fs')"
    using nle p(1,2) g(1) w(1) by (cases "?e > i_size ino2") (simp_all add: write_inode_def Let_def)
  then show thesis using that w(2) by blast
qed

text \<open>The inode of a path, without caching it.\<close>

lemma get_inode_law:
  assumes inv: "fs_base fs" and len: "length p < 2 ^ 32"
  obtains fs' where "get_inode fs p = Some (case inode_view fs p of None \<Rightarrow> Inl XXFS_ENOENT | Some ino \<Rightarrow> Inr ino, fs')"
    and "ns_same fs fs'" and "dcache fs' = dcache fs" and "icache_near fs' = icache_near fs" and "rest fs' = rest fs"
proof (cases "icache_lookup fs (xxh64 p)")
  case (Some idx)
  then show thesis
    using that [of fs] ns_same_refl [OF inv] by (simp add: get_inode_def inode_view_def cached_inode_def)
next
  case None
  obtain fs' where g: "inode_paged_get fs p = Some (case index_inode fs p of None \<Rightarrow> Inl XXFS_ENOENT | Some ino \<Rightarrow> Inr ino, fs')"
    "fs_base fs'" "same_index fs fs'" "rest fs' = rest fs" "sb fs' = sb fs" "inode_view fs' = inode_view fs"
    by (rule inode_paged_get_law [OF assms])
  have "ns_same fs fs'" using g rest_icache [OF g(4)] restD [OF g(4)] rest_slots [OF g(4)] by (simp add: ns_same_def)
  then show thesis
    using that [of fs'] None g rest_icache(4) [OF g(4)] restD(6) [OF g(4)] by (simp add: get_inode_def inode_view_def cached_inode_def)
qed

lemma can_hold_same: "same_index fs fs' \<Longrightarrow> can_hold fs' ino e = can_hold fs ino e"
  using same_indexD(7) [of fs fs'] by (simp add: can_hold_def)

lemma file_written_ns:
  assumes w: "file_written k g p ino bs ino' fs'" and n: "ns_same fs g" and d: "dcache g = dcache fs" and ok: "index_ok fs"
  shows "file_written k fs p ino bs ino' fs'"
proof -
  note s = same_indexD [OF ns_sameD(2) [OF n]]
  have "outside fs' r \<and> lblock fs' r = lblock fs r \<and> \<not> in_extent (i_extent_off ino') (unat (i_blocks ino')) r"
    if "outside fs r" "\<not> in_extent (i_extent_off ino) (unat (i_blocks ino)) r" for r
    using index_sparesD(1) [OF s(8) that(1)] w that(2) by (auto simp: file_written_def)
  moreover have "cache_step fs (xxh64 p) p fs'"
    by (rule cache_step_cong [OF _ ns_sameD(9) [OF n] same_slots_refl]) (use w s(1) ok in \<open>simp_all add: file_written_def index_fault_free\<close>)
  ultimately show ?thesis using w s(3,4,5,7,10) d ns_sameD(3,6) [OF n] index_sparesD(2) [OF s(8)] by (simp add: file_written_def)
qed

text \<open>The writes that the theorem below is about. A write within the first 128 bytes needs a file without blocks; any other
  one must start inside the file or at its end and end where the extent can hold it.\<close>

definition can_write :: "xxfs \<Rightarrow> xxfs_inode \<Rightarrow> u64 \<Rightarrow> bytes \<Rightarrow> bool" where
  "can_write fs ino off buf \<longleftrightarrow> buf \<noteq> [] \<and> length buf < 2 ^ 32 \<and> unat off + length buf < 2 ^ 63 \<and>
     (if unat off + length buf \<le> 128 then i_blocks ino = 0
      else unat off \<le> unat (i_size ino) \<and> can_hold fs ino (unat off + length buf))"

lemma write_law:
  assumes inv: "fs_inv fs" and room: "icache_room fs (Suc k)" and near: "icache_near fs (xxh64 (path_normalize path))"
    and v: "inode_view fs (path_normalize path) = Some ino" and t: "i_file_type ino \<noteq> XXFS_FT_DIR" and f: "file_ok fs ino"
    and w: "can_write fs ino off buf"
  obtains ino' fs' where "xxfs_write fs path buf off = Some (Inr (of_nat (length buf)), fs')"
    and "file_written k fs (path_normalize path) ino (overlay (unat off) buf (file_bytes fs ino)) ino' fs'"
proof -
  let ?p = "path_normalize path" and ?bs = "overlay (unat off) buf (file_bytes fs ino)"
  obtain g where g: "get_inode fs ?p = Some (case inode_view fs ?p of None \<Rightarrow> Inl XXFS_ENOENT | Some ino \<Rightarrow> Inr ino, g)" "ns_same fs g"
    "icache_near g = icache_near fs" "dcache g = dcache fs"
    by (rule get_inode_law [OF fs_invD(4) [OF inv] length_norm32 [of path]])
  note n = ns_sameD [OF g(2)] and s = same_indexD [OF ns_sameD(2) [OF g(2)]]
  note fg = file_bytes_spared [OF fs_invD(1) [OF inv] s(1,8) f]
  have ig: "fs_inv g" "icache_room g (Suc k)" "icache_near g (xxh64 ?p)"
    using n g(3) inv room near by (simp_all add: fs_inv_def)
  have "\<exists>ino' fs'. write_inode g ?p ino buf off = Some (Inr (of_nat (length buf)), fs') \<and> file_written k g ?p ino ?bs ino' fs'"
  proof (cases "unat off + length buf \<le> 128")
    case True
    then have "i_blocks ino = 0" using w by (simp add: can_write_def)
    then show ?thesis using write_inline_law [OF ig fg(1) _ True] fg(2) by metis
  next
    case False
    then have a: "length buf < 2 ^ 32" "128 < unat off + length buf" "unat off + length buf < 2 ^ 63"
      "can_hold g ino (unat off + length buf)" "unat off \<le> unat (i_size ino)" "buf \<noteq> []"
      using w can_hold_same [OF n(2)] by (simp_all add: can_write_def)
    show ?thesis using write_extent_law [OF ig fg(1) a] fg(2) by metis
  qed
  then obtain ino' fs' where r: "write_inode g ?p ino buf off = Some (Inr (of_nat (length buf)), fs')" "file_written k g ?p ino ?bs ino' fs'"
    by blast
  have "xxfs_write fs path buf off = Some (Inr (of_nat (length buf)), fs')"
    using w g(1) v t r(1) by (simp add: xxfs_write_def can_write_def Let_def)
  then show thesis using that file_written_ns [OF r(2) g(2,4) fs_invD(1) [OF inv]] by blast
qed

text \<open>C14: \<^verbatim>\<open>xxfs_write\<close> refines the abstract file update: for a well-formed regular file it returns \<^verbatim>\<open>XXFS_OK\<close> and reports the
  whole length; afterwards the contents of the file are the old ones with the bytes from \<open>off\<close> on replaced by the buffer,
  whether the file stays in its inode, moves from the inode to its first block, gets its first extent or is changed
  within its extent; the index, all other inodes and every block that is not one of the file's are as before.\<close>

theorem write_correct:
  assumes "fs_inv fs" and "icache_room fs (Suc k)" and "icache_near fs (xxh64 (path_normalize path))"
    and "inode_view fs (path_normalize path) = Some ino" and "i_file_type ino \<noteq> XXFS_FT_DIR" and "file_ok fs ino"
    and "can_write fs ino off buf"
  shows "\<exists>ino' fs'. xxfs_write fs path buf off = Some (Inr (of_nat (length buf)), fs') \<and>
    file_written k fs (path_normalize path) ino (overlay (unat off) buf (file_bytes fs ino)) ino' fs'"
  by (rule write_law [OF assms]) blast

section \<open>A file on a fresh file system\<close>

lemma new_inode_ok: "file_ok fs (new_inode fs' mode uid gid typ nl name)" "file_bytes fs (new_inode fs' mode uid gid typ nl name) = []"
proof -
  let ?i = "zero_inode\<lparr>i_mode := mode, i_uid := uid, i_gid := gid, i_file_type := typ, i_nlinks := nl,
        i_generation := cow_gen fs', i_name := put_name name (i_name zero_inode)\<rparr>"
  have wf: "wf_inode ?i" by (rule wf_new_inode) (rule refl)
  show "file_ok fs (new_inode fs' mode uid gid typ nl name)" "file_bytes fs (new_inode fs' mode uid gid typ nl name) = []"
    using sealed_fields(3-5) [OF wf] wf_seal [OF wf]
    by (simp_all add: file_ok_def file_bytes_def new_inode_def zero_inode_fields)
qed

lemma sample_file:
  obtains f fs g ino where "xxfs_mkfs blank_file 64 False = (XXFS_OK, f)" and "xxfs_mount f 0 = Some (Inr fs)"
    and "xxfs_create fs [0x2F, 0x61] 420 0 0 = Some (XXFS_OK, g)" and "fs_inv g" and "icache_room g 8191"
    and "icache_near g (xxh64 [0x2F, 0x61])" and "inode_view g [0x2F, 0x61] = Some ino" and "i_file_type ino = XXFS_FT_REG"
    and "file_ok g ino" and "file_bytes g ino = []" and "i_blocks ino = 0" and "i_size ino = 0" and "200 \<le> free_blocks g"
    and "cached_inode g (xxh64 [0x2F, 0x61]) = Some ino" and "index_inode g [0x2F, 0x61] = Some ino" and "index_unique g"
    and "\<And>i. i < unat (icache_cap g) \<Longrightarrow> in_use g i \<Longrightarrow> ic_hash (icache g i) = xxh64 [0x2F, 0x61]"
proof -
  obtain f fs now where m: "xxfs_mkfs blank_file 64 False = (XXFS_OK, f)" "xxfs_mount f 0 = Some (Inr fs)"
    "fresh_mounted fs now" "can_make 8191 fs [0x2F, 0x61]"
    by (rule sample_mounted)
  let ?i = "new_inode fs 420 0 0 XXFS_FT_REG 1 [0x61]"
  have l: "icache_lookup fs (xxh64 [0x2F, 0x61]) = None" using m(4) view_NoneD by (simp add: can_make_def)
  have len: "length (get_parent_path [0x2F, 0x61]) < 2 ^ 32" by (simp add: sample_path)
  obtain g where c: "xxfs_create fs [0x2F, 0x61] 420 0 0 = Some (XXFS_OK, g)"
    "node_made 8191 fs [0x2F, 0x61] ?i (ucast XXFS_FT_REG) g"
    by (rule make_counted [OF m(4) len, of 420 0 0 XXFS_FT_REG 1 "ucast XXFS_FT_REG"])
      (auto simp: xxfs_create_def Let_def l alloc_same_def sb_kept_def wf_super_def sample_path)
  note d = c(2) [unfolded node_made_def]
  have fr: "icache_near fs (xxh64 [0x2F, 0x61])" "249 \<le> free_blocks fs" using m(3) by (simp_all add: fresh_mounted_def)
  have "icache_tagged g" using d fs_invD(3) by (auto simp: icache_inv_def)
  then have "icache_near g (xxh64 [0x2F, 0x61])" using d fr cached_near by fastforce
  moreover have "i_file_type ?i = XXFS_FT_REG" "i_blocks ?i = 0" "i_size ?i = 0"
    by (rule new_inode_seals [of fs 420 0 0 XXFS_FT_REG 1 "[0x61]"], simp)+
  moreover have "ic_hash (icache g i) = xxh64 [0x2F, 0x61]" if "i < unat (icache_cap g)" "in_use g i" for i
    by (rule sample_cached [OF m(3) c(2) that])
  ultimately show thesis using that [of f fs g ?i] m(1,2) c(1) d fr new_inode_ok by simp
qed

theorem write_correct_witness:
  "\<exists>f fs g ino' fs'. xxfs_mkfs blank_file 64 False = (XXFS_OK, f) \<and> xxfs_mount f 0 = Some (Inr fs) \<and>
    xxfs_create fs [0x2F, 0x61] 420 0 0 = Some (XXFS_OK, g) \<and>
    xxfs_write g [0x2F, 0x61] (replicate 5000 7) 0 = Some (Inr 5000, fs') \<and>
    inode_view fs' [0x2F, 0x61] = Some ino' \<and> file_bytes fs' ino' = replicate 5000 7"
proof -
  obtain f fs g ino where s: "xxfs_mkfs blank_file 64 False = (XXFS_OK, f)" "xxfs_mount f 0 = Some (Inr fs)"
    "xxfs_create fs [0x2F, 0x61] 420 0 0 = Some (XXFS_OK, g)" "fs_inv g" "icache_room g 8191"
    "icache_near g (xxh64 [0x2F, 0x61])" "inode_view g [0x2F, 0x61] = Some ino" "i_file_type ino = XXFS_FT_REG"
    "file_ok g ino" "file_bytes g ino = []" "i_blocks ino = 0" "i_size ino = 0" "200 \<le> free_blocks g"
    by (rule sample_file)
  have r: "icache_room g (Suc 0)" using s(5) by (simp add: icache_room_def)
  have "can_write g ino 0 (replicate 5000 7)" using s(11-13) by (simp add: can_write_def can_hold_def)
  moreover have "i_file_type ino \<noteq> XXFS_FT_DIR" using s(8) by (simp add: XXFS_FT_REG_def XXFS_FT_DIR_def)
  moreover have "overlay 0 (replicate 5000 7) [] = replicate 5000 7" by (simp add: overlay_def)
  ultimately show ?thesis
    using write_correct [of g 0 "[0x2F, 0x61]" ino 0 "replicate 5000 7"] r s by (auto simp: sample_path file_written_def)
qed

theorem read_correct_witness:
  "\<exists>f fs g h fs'. xxfs_mkfs blank_file 64 False = (XXFS_OK, f) \<and> xxfs_mount f 0 = Some (Inr fs) \<and>
    xxfs_create fs [0x2F, 0x61] 420 0 0 = Some (XXFS_OK, g) \<and> xxfs_write g [0x2F, 0x61] [1, 2, 3, 4] 0 = Some (Inr 4, h) \<and>
    xxfs_read h [0x2F, 0x61] (zeros 5) 1 = Some (Inr 3, [2, 3, 4, 0, 0], fs')"
proof -
  obtain f fs g ino where s: "xxfs_mkfs blank_file 64 False = (XXFS_OK, f)" "xxfs_mount f 0 = Some (Inr fs)"
    "xxfs_create fs [0x2F, 0x61] 420 0 0 = Some (XXFS_OK, g)" "fs_inv g" "icache_room g 8191"
    "icache_near g (xxh64 [0x2F, 0x61])" "inode_view g [0x2F, 0x61] = Some ino" "i_file_type ino = XXFS_FT_REG"
    "file_ok g ino" "file_bytes g ino = []" "i_blocks ino = 0" "i_size ino = 0"
    by (rule sample_file)
  have r: "icache_room g (Suc 1)" and t: "i_file_type ino \<noteq> XXFS_FT_DIR"
    using s(5,8) by (simp_all add: icache_room_def XXFS_FT_REG_def XXFS_FT_DIR_def)
  have w: "can_write g ino 0 [1, 2, 3, 4]" using s(11) by (simp add: can_write_def)
  have p: "icache_near g (xxh64 (path_normalize [0x2F, 0x61]))" "inode_view g (path_normalize [0x2F, 0x61]) = Some ino"
    using s(6,7) by (simp_all add: sample_path)
  obtain ino' h where h: "xxfs_write g [0x2F, 0x61] [1, 2, 3, 4] 0 = Some (Inr (of_nat (length [1, 2, 3, 4 :: u8])), h)"
    "file_written 1 g (path_normalize [0x2F, 0x61]) ino (overlay (unat (0::u64)) [1, 2, 3, 4] (file_bytes g ino)) ino' h"
    by (rule write_law [OF s(4) r p t s(9) w])
  have "overlay (unat (0::u64)) [1, 2, 3, 4] (file_bytes g ino) = [1, 2, 3, 4]" by (simp add: s(10) overlay_def)
  then have a: "fs_inv h" "icache_room h 1" "inode_view h (path_normalize [0x2F, 0x61]) = Some ino'" "file_ok h ino'"
    "file_bytes h ino' = [1, 2, 3, 4]" using h(2) by (simp_all add: file_written_def)
  have b: "take (length (zeros 5)) (drop (unat (1::u64)) [1, 2, 3, 4 :: u8]) = [2, 3, 4]" "drop (Suc (Suc (Suc 0))) (zeros 5) = [0, 0]"
    by (simp_all add: zeros_def numeral_eq_Suc)
  have z: "zeros 5 \<noteq> []" "length (zeros 5) < 2 ^ 32" by (simp_all add: zeros_def)
  show ?thesis
    using read_correct [OF a(1-4) z, of 1] h(1) s(1-3) b unfolding a(5) by (auto simp: Let_def)
qed

section \<open>Growing a file that has blocks\<close>

text \<open>C21: when a write needs more blocks than the file has and the file's extent is the last one allocated, \<^verbatim>\<open>xxfs_write\<close>
  allocates only the missing blocks, but makes them the whole extent of the file: nothing is copied, so that the file
  now starts with whatever the new blocks hold, and the extent reaches over its end into blocks that are still free;
  the next allocation hands out a block inside the file.\<close>

theorem grown_extent_overlaps_next_block:
  assumes wf: "alloc_wf (sb fs)" and inl: "length (i_inline ino) = 128" and b: "i_blocks ino \<noteq> 0" "i_blocks ino < need"
    and last: "unat (i_extent_off ino) + unat (i_blocks ino) * 4096 = alloc_frontier fs"
    and free: "unat need - unat (i_blocks ino) < unat (s_free_blocks (sb fs))"
  shows "\<exists>ino' fs' off fs''. grow_extent fs ino need = (Inr ino', fs') \<and> img fs' = img fs \<and> i_blocks ino' = need \<and>
    i_extent_off ino' = i_extent_off ino + i_blocks ino * 4096 \<and> page_alloc fs' = (off, fs'') \<and>
    in_extent (i_extent_off ino') (unat need) off"
proof -
  let ?n = "need - i_blocks ino" and ?off = "alloc_off (sb fs)"
  let ?fs = "fs\<lparr>sb := (sb fs)\<lparr>s_free_blocks := s_free_blocks (sb fs) - ?n\<rparr>\<rparr>"
  have un: "unat ?n = unat need - unat (i_blocks ino)" using b(2) by (simp add: unat_sub less_imp_le)
  have pos: "0 < ?n" and le: "?n \<le> s_free_blocks (sb fs)"
    using un b(2) free by (simp_all add: word_less_nat_alt word_le_nat_alt)
  note a = page_alloc_n_free [OF pos le]
  have f0: "0 < s_free_blocks (sb fs)" using free by (simp add: word_less_nat_alt)
  note uo = unat_alloc_off [OF wf f0]
  have fr63: "alloc_frontier fs < 2 ^ 63" using wf unfolding alloc_frontier_def alloc_wf_def diff_mult_distrib by linarith
  have bl: "unat (i_blocks ino * 4096) = unat (i_blocks ino) * 4096" using last fr63 by (subst unat_mul_nowrap) simp_all
  then have "unat (i_extent_off ino + i_blocks ino * 4096) = alloc_frontier fs" using last fr63 by (subst unat_add_nowrap) simp_all
  then have eq: "?off = i_extent_off ino + i_blocks ino * 4096" using uo by (simp add: word_unat_eq_iff)
  have nz: "?off \<noteq> 0" using uo last b(1) by (auto simp: unat_eq_zero)
  let ?i = "(set_extent_len (ucast need) (set_extent_off ?off ino))\<lparr>i_blocks := need\<rparr>"
  have g: "grow_extent fs ino need = (Inr ?i, ?fs)" using b(2) a nz eq by (simp add: grow_extent_def)
  have av: "unat ?n \<le> alloc_avail fs" and p0: "0 < unat ?n" using le pos by (simp_all add: alloc_avail_def word_le_nat_alt word_less_nat_alt)
  have "page_alloc_nat fs (unat ?n) = (unat ?off, ?fs)" using a by (simp add: page_alloc_nat_def)
  note bump = block_alloc.alloc_bumps [OF wf p0 av this]
  have f1: "0 < s_free_blocks (sb ?fs)" using bump un free by (simp add: alloc_avail_def word_less_nat_alt)
  have u1: "unat (alloc_off (sb ?fs)) = alloc_frontier ?fs" by (rule unat_alloc_off [OF _ f1]) (use bump in simp)
  have pa: "page_alloc ?fs = (alloc_off (sb ?fs), took_block ?fs)"
    by (rule page_alloc_free) (use bump un free in \<open>simp add: alloc_avail_def\<close>)
  have "unat (alloc_off (sb ?fs)) = unat ?off + unat ?n * 4096" using u1 bump by simp
  moreover have "0 < unat (i_blocks ino)" using b(1) by (simp add: unat_gt_0)
  then have "unat ?n < unat need" using un b(2) by (simp add: word_less_nat_alt)
  ultimately have "in_extent ?off (unat need) (alloc_off (sb ?fs))" unfolding in_extent_def by blast
  then show ?thesis
    using g pa eq extent_off_set [OF inl] by (intro exI [of _ ?i] exI [of _ ?fs]) (simp add: set_extent_fields)
qed

theorem grown_extent_overlaps_next_block_witness:
  "\<exists>ino' fs' off fs''. grow_extent alloc_sample (set_extent_off 8192 (zero_inode\<lparr>i_blocks := 1\<rparr>)) 2 = (Inr ino', fs') \<and>
    page_alloc fs' = (off, fs'') \<and> in_extent (i_extent_off ino') 2 off"
proof -
  let ?i = "set_extent_off 8192 (zero_inode\<lparr>i_blocks := 1\<rparr>)"
  have l: "length (i_inline zero_inode) = 128" by (simp add: zero_inode_fields)
  have a: "i_extent_off ?i = 8192" "length (i_inline ?i) = 128" "i_blocks ?i = 1"
    using l by (simp_all add: i_extent_off_def set_extent_off_def fld_buf_put_same dec_enc_le length_buf_put)
  show ?thesis
    using grown_extent_overlaps_next_block [of alloc_sample ?i 2] a
    by (fastforce simp: alloc_sample_def alloc_wf_def alloc_frontier_def)
qed

end
