(* ===== verification/Fsck.thy ===== *)
theory Fsck
  imports Tool_Text Fs_Data
begin

text \<open>
  The checker \<^verbatim>\<open>fsck/fsck.c\<close> and the tool \<^verbatim>\<open>mkfs/mkfs.c\<close>. The checker mounts the image, looks at the superblock and the root, and walks the
  directory tree; it repairs nothing. Its walk ends on a fresh file system; a child with an empty name makes it run
  forever.
\<close>

section \<open>The code\<close>

text \<open>\<^verbatim>\<open>g_errors\<close> and the text printed so far.\<close>

record report =
  errs :: nat
  out :: bytes

definition say :: "bytes list \<Rightarrow> report \<Rightarrow> report" where
  "say ts r = r\<lparr>out := out r @ concat ts\<rparr>"

definition complain :: "bytes list \<Rightarrow> report \<Rightarrow> report" where
  "complain ts r = (say ts r)\<lparr>errs := Suc (errs r)\<rparr>"

text \<open>\<^verbatim>\<open>xxfs_info\<close> fails only without a file system.\<close>

definition check_super :: "xxfs \<Rightarrow> report \<Rightarrow> report" where
  "check_super fs r =
     (let info = xxfs_info fs; r = say [str ''[super] checking superblock...'', NL] r
      in say [str ''  version='', fmt_u (fi_version info), str '' block_size='', fmt_u (fi_block_size info),
              str '' block_count='', fmt_u (fi_block_count info), str '' free_blocks='', fmt_u (fi_free_blocks info),
              str '' inodes='', fmt_u (fi_inodes_count info), NL] r)"

text \<open>The entries that a loop up to \<^verbatim>\<open>ctx.count\<close> visits.\<close>

definition listed :: "xxfs_readdir_ctx \<Rightarrow> xxfs_dir_child list" where
  "listed ctx = (case rd_entries ctx of Some cs \<Rightarrow> take (unat (rd_count ctx)) cs | None \<Rightarrow> [])"

definition check_root :: "xxfs \<Rightarrow> report \<Rightarrow> (report \<times> xxfs) option" where
  "check_root fs r =
     (let r = say [str ''[root] checking root directory...'', NL] r in
      do { (s, fs) \<leftarrow> xxfs_stat fs [0x2F];
           (case s of
              Inl rc \<Rightarrow> Some (complain [str ''  ERROR: root inode not found! (rc='', fmt_rc rc, str '')'', NL] r, fs)
            | Inr ino \<Rightarrow>
                let dir = i_file_type ino = XXFS_FT_DIR;
                    r = (if \<not> dir then complain [str ''  ERROR: root is not a directory (type='', fmt_u (i_file_type ino), str '')'', NL] r else r);
                    r = say [str ''  root: type='', if dir then str ''dir'' else str ''unknown'', str '' mode='', fmt_o (i_mode ino),
                             str '' size='', fmt_u (i_size ino), str '' checksum=0x'', fmt_x8 (i_checksum ino), NL] r
                in do { (rc, ctx, fs) \<leftarrow> xxfs_readdir fs [0x2F];
                        Some (if rc = XXFS_OK then
                                say (map (\<lambda>c. concat [str ''    '', if dc_type c = ucast XXFS_FT_DIR then str ''dir '' else str ''file'', str ''  '',
                                                      cstr (dc_name c), NL]) (listed ctx))
                                  (say [str ''  root children: '', fmt_u (rd_count ctx), NL] r)
                              else r, fs) }) })"

definition child_path :: "bytes \<Rightarrow> xxfs_dir_child \<Rightarrow> bytes" where
  "child_path path c =
     snprintf XXFS_MAX_PATH (if path = [0x2F] then [0x2F] @ cstr (dc_name c) else path @ [0x2F] @ cstr (dc_name c))"

definition inode_crc :: "xxfs_inode \<Rightarrow> u32" where
  "inode_crc ino = xxfs_os_crc32c (take INO_CRC_OFF (enc_inode ino))"

text \<open>The work of one call of \<^verbatim>\<open>check_path\<close>, up to the recursive calls: the paths that it is called on come with the
  result.\<close>

definition check_visit :: "xxfs \<Rightarrow> report \<Rightarrow> bytes \<Rightarrow> (report \<times> bytes list \<times> xxfs) option" where
  "check_visit fs r path =
     do { (s, fs) \<leftarrow> xxfs_stat fs path;
          (case s of
             Inl rc \<Rightarrow> Some (complain [str ''  ERROR: cannot stat '', path, str '' (rc='', fmt_rc rc, str '')'', NL] r, [], fs)
           | Inr ino \<Rightarrow>
               let crc = inode_crc ino;
                   r = (if crc \<noteq> i_checksum ino
                        then complain [str ''  ERROR: checksum mismatch for '', path, str '' (expected 0x'', fmt_x8 (i_checksum ino),
                                       str '' got 0x'', fmt_x8 crc, str '')'', NL] r
                        else r)
               in if i_file_type ino = XXFS_FT_DIR then
                    do { (rc, ctx, fs) \<leftarrow> xxfs_readdir fs path;
                         Some (r, if rc = XXFS_OK then map (child_path path) (listed ctx) else [], fs) }
                  else Some (r, [], fs)) }"

text \<open>The recursion, with the calls still to be made on a stack: the children of a path come before what was pending. A
  walk that does not end has no result.\<close>

partial_function (option) check_walk :: "xxfs \<Rightarrow> report \<Rightarrow> bytes list \<Rightarrow> (report \<times> xxfs) option" where
  "check_walk fs r ps =
     (case ps of
        [] \<Rightarrow> Some (r, fs)
      | p # ps \<Rightarrow> do { (r, cs, fs) \<leftarrow> check_visit fs r p; check_walk fs r (cs @ ps) })"

definition check_path :: "xxfs \<Rightarrow> report \<Rightarrow> bytes \<Rightarrow> (report \<times> xxfs) option" where
  "check_path fs r path = check_walk fs r [path]"

text \<open>\<open>args\<close> are the arguments behind the program name; the results are the exit status, what went to the standard output,
  and the image.\<close>

definition fsck_main :: "bytes list \<Rightarrow> os_file \<Rightarrow> (int \<times> bytes \<times> os_file) option" where
  "fsck_main args f =
     (case args of
        [] \<Rightarrow> Some (1, [], f)
      | name # _ \<Rightarrow>
          do { m \<leftarrow> xxfs_mount f 0;
               (case m of
                  Inl f \<Rightarrow> Some (1, [], f)
                | Inr fs \<Rightarrow>
                    let r = say [str ''XXFS fsck - checking '', name, NL, NL] \<lparr>errs = 0, out = []\<rparr>;
                        r = check_super fs r
                    in do { (r, fs) \<leftarrow> check_root fs r;
                            (r, fs) \<leftarrow> check_path fs (say [NL, str ''[tree] recursively checking all inodes...'', NL] r) [0x2F];
                            let r = say [NL] r;
                                r = (if errs r = 0 then say [str ''fsck: no errors found'', NL] r
                                     else say [str ''fsck: '', fmt_nat 10 (errs r), str '' error(s) found'', NL] r)
                            in do { f \<leftarrow> xxfs_umount fs; Some (if errs r > 0 then 1 else 0, out r, f) } }) })"

text \<open>\<^verbatim>\<open>mkfs/mkfs.c\<close>: the size argument goes through \<^verbatim>\<open>atol\<close>, so a negative one becomes a huge size.\<close>

definition mkfs_main :: "bytes list \<Rightarrow> os_file \<Rightarrow> int \<times> bytes \<times> os_file" where
  "mkfs_main args f =
     (case args of
        [] \<Rightarrow> (1, [], f)
      | path # opts \<Rightarrow>
          let is_blkdev = take 5 path = str ''/dev/'';
              run = (\<lambda>size_mb.
                case xxfs_mkfs f size_mb is_blkdev of (rc, f) \<Rightarrow>
                  if rc \<noteq> XXFS_OK then (1, [], f)
                  else (0, concat [str ''XXFS: formatted '', path, if is_blkdev then str '' (block device)'' else [], NL], f))
          in if is_blkdev then run 0
             else
               (case opts of
                  [] \<Rightarrow> (1, [], f)
                | size_arg # _ \<Rightarrow>
                    let size_mb = of_int (strtol 10 size_arg) :: u64
                    in if size_mb < 1 then (1, [], f) else run size_mb))"

section \<open>A fresh image passes\<close>

lemma readdir_childless:
  assumes inv: "fs_base fs" and n: "dcache_find fs (path_normalize path) = None"
    and i: "index_inode fs (path_normalize path) = Some ino" "i_file_type ino = XXFS_FT_DIR" "i_size ino = 0"
  obtains fs' where "xxfs_readdir fs path = Some (XXFS_OK, no_entries, fs')" and "ns_same fs fs'" and "dcache fs' = dcache fs"
proof -
  obtain fs' where g: "inode_paged_get fs (path_normalize path) = Some (case index_inode fs (path_normalize path) of
      None \<Rightarrow> Inl XXFS_ENOENT | Some ino \<Rightarrow> Inr ino, fs')" "ns_same fs fs'" "dcache fs' = dcache fs"
    by (rule inode_paged_get_ns [OF inv length_norm32])
  then show thesis using that n i by (simp add: xxfs_readdir_def Let_def)
qed

text \<open>Looking at a path and listing it, for a directory without children.\<close>

lemma look_childless:
  assumes inv: "fs_inv fs" and room: "icache_room fs (Suc k)" and n: "dcache_find fs (path_normalize path) = None"
    and v: "inode_view fs (path_normalize path) = Some ino" and i: "index_inode fs (path_normalize path) = Some ino"
    "i_file_type ino = XXFS_FT_DIR" "i_size ino = 0"
  obtains g fs' where "xxfs_stat fs path = Some (Inr ino, g)" and "xxfs_readdir g path = Some (XXFS_OK, no_entries, fs')"
    and "fs_inv fs'" and "icache_room fs' k" and "dcache fs' = dcache fs" and "same_index fs fs'"
    and "inode_view fs' (path_normalize path) = Some ino"
proof -
  let ?p = "path_normalize path"
  obtain g where g: "fetch_inode fs ?p = Some (case inode_view fs ?p of None \<Rightarrow> Inl XXFS_ENOENT | Some ino \<Rightarrow> Inr ino, g)"
    "fs_inv g" "icache_room g k" "same_index fs g" "dcache g = dcache fs"
    and gv: "\<And>q. apart q ?p \<or> q = ?p \<Longrightarrow> inode_view g q = inode_view fs q"
    by (rule fetch_inode_law [OF inv room length_norm32 [of path]]) blast
  have gn: "dcache_find g ?p = None" "index_inode g ?p = Some ino"
    using n i(1) dcache_find_cong [OF g(5)] same_indexD(3) [OF g(4)] by simp_all
  obtain fs' where r: "xxfs_readdir g path = Some (XXFS_OK, no_entries, fs')" "ns_same g fs'" "dcache fs' = dcache g"
    by (rule readdir_childless [OF fs_invD(4) [OF g(2)] gn i(2,3)])
  note ns = ns_sameD [OF r(2)]
  have "fs_inv fs'" using ns g(2) by (simp add: fs_inv_def)
  moreover have "inode_view fs' ?p = Some ino" using ns gv v by simp
  ultimately show thesis
    using that [OF _ r(1)] g v ns r(3) same_index_trans [OF g(4) ns(2)] by (simp add: xxfs_stat_def)
qed

lemma listed_none: "listed no_entries = []"
  by (simp add: listed_def no_entries_def)

text \<open>The walk over a tree that consists of the root.\<close>

lemma walk_root_only:
  assumes inv: "fs_inv fs" and room: "icache_room fs (Suc k)" and n: "dcache_find fs [0x2F] = None"
    and v: "inode_view fs [0x2F] = Some ino" and i: "index_inode fs [0x2F] = Some ino" "i_file_type ino = XXFS_FT_DIR" "i_size ino = 0"
    and c: "inode_crc ino = i_checksum ino"
  obtains fs' where "check_path fs r [0x2F] = Some (r, fs')" and "dcache fs' = dcache fs" and "fs_inv fs'"
proof -
  obtain g fs' where l: "xxfs_stat fs [0x2F] = Some (Inr ino, g)" "xxfs_readdir g [0x2F] = Some (XXFS_OK, no_entries, fs')"
    "fs_inv fs'" "dcache fs' = dcache fs"
    by (rule look_childless [where path = "[0x2F]", unfolded norm_root, OF inv room n v i])
  then have "check_visit fs r [0x2F] = Some (r, [], fs')" using i(2) c by (simp add: check_visit_def listed_none)
  then have "check_path fs r [0x2F] = Some (r, fs')"
    by (simp add: check_path_def check_walk.simps)
  then show thesis using that l by blast
qed

text \<open>Unmounting without dirty directories.\<close>

lemma umount_clean:
  assumes "\<And>i. \<not> de_dirty (dcache fs i)"
  shows "\<exists>f. xxfs_umount fs = Some f"
proof -
  have "dcache_flush_from is fs = Some fs" for "is" using assms by (induction "is") simp_all
  then show ?thesis by (simp add: xxfs_umount_def dcache_flush_all_def Let_def)
qed

lemma say_errs [simp]: "errs (say ts r) = errs r" "out (say ts r) = out r @ concat ts"
  by (simp_all add: say_def)

lemma root_crc: "inode_crc (mkfs_root now) = i_checksum (mkfs_root now)"
proof -
  let ?i = "zero_inode\<lparr>i_mode := 493, i_file_type := XXFS_FT_DIR, i_nlinks := 2, i_atime := now, i_mtime := now,
       i_ctime := now, i_btime := now, i_generation := 1, i_name := buf_put 0 [0x2F, 0] (i_name zero_inode)\<rparr>"
  have "length (i_name zero_inode) = 256" using wf_zero_inode by (simp add: wf_inode_def)
  then have wf: "wf_inode ?i" using wf_zero_inode by (simp add: wf_inode_def)
  show ?thesis using seal_crc [OF wf] by (simp add: inode_crc_def mkfs_root_def)
qed

text \<open>A fresh file system gives no complaint.\<close>

lemma fsck_fresh:
  assumes m: "fresh_mounted fs now"
  obtains r' g fs' f where "check_root fs r = Some (r', g)" and "errs r' = errs r" and "check_path g q [0x2F] = Some (q, fs')"
    and "xxfs_umount fs' = Some f"
proof -
  note fm = m [unfolded fresh_mounted_def]
  let ?root = "mkfs_root now"
  have inv: "fs_inv fs" and room: "icache_room fs (Suc 1)" and view: "inode_view fs [0x2F] = Some ?root"
    "index_inode fs [0x2F] = Some ?root" using fm fresh_view [OF m] by (simp_all add: icache_room_def)
  have d: "\<And>i. dcache fs i = zero_dir_cache_entry" using fm by (simp add: pristine_def)
  then have none: "dcache_find fs p = None" for p by (simp add: dcache_find_def zero_dir_cache_entry_def)
  obtain h g where l: "xxfs_stat fs [0x2F] = Some (Inr ?root, h)" "xxfs_readdir h [0x2F] = Some (XXFS_OK, no_entries, g)"
    "fs_inv g" "icache_room g 1" "dcache g = dcache fs" "same_index fs g" "inode_view g [0x2F] = Some ?root"
    by (rule look_childless [where path = "[0x2F]", unfolded norm_root, OF inv room none view mkfs_root_fields(1,3)])
  have r: "icache_room g (Suc 0)" using l(4) by simp
  have gi: "index_inode g [0x2F] = Some ?root" "dcache_find g [0x2F] = None"
    using view(2) same_indexD(3) [OF l(6)] none dcache_find_cong [OF l(5)] by simp_all
  obtain fs' where w: "check_path g q [0x2F] = Some (q, fs')" "dcache fs' = dcache g"
    by (rule walk_root_only [OF l(3) r gi(2) l(7) gi(1) mkfs_root_fields(1,3) root_crc])
  have "\<not> de_dirty (dcache fs' i)" for i using w(2) l(5) d by (simp add: zero_dir_cache_entry_def)
  then obtain f where u: "xxfs_umount fs' = Some f" using umount_clean by blast
  obtain r' where "check_root fs r = Some (r', g)" "errs r' = errs r"
    using l(1,2) by (simp add: check_root_def mkfs_root_fields listed_none)
  then show thesis using that w(1) u by blast
qed

text \<open>C25: the two tools fit together: \<^verbatim>\<open>mkfs.xxfs\<close> with an image name and a size between 1 MB and 1073741824 MB, given in decimal, exits
  with status 0, and \<^verbatim>\<open>xxfs-fsck\<close> on the image it made ends, exits with status 0 and reports no errors.\<close>

theorem mkfs_then_fsck:
  assumes f: "fault_free f" and n: "1 \<le> n" "n \<le> 2 ^ 30" and name: "take 5 name \<noteq> str ''/dev/''"
  shows "\<exists>o1 f1 o2 f2. mkfs_main [name, fmt_nat 10 n] f = (0, o1, f1) \<and>
    fsck_main [name] f1 = Some (0, o2 @ str ''fsck: no errors found'' @ NL, f2)"
proof -
  let ?n = "of_nat n :: u64"
  have u: "unat ?n = n" using n(2) by (simp add: unat_of_nat)
  have b: "1 \<le> ?n" "?n \<le> 2 ^ 30" using n u by (simp_all add: word_le_nat_alt)
  obtain f1 fs now where m: "xxfs_mkfs f ?n False = (XXFS_OK, f1)" "xxfs_mount f1 0 = Some (Inr fs)" "fresh_mounted fs now"
    by (rule mkfs_mounted [OF f b, of 0])
  have s: "strtol 10 (fmt_nat 10 n) = int n" using n(2) by (intro strtol_fmt) simp_all
  have "\<not> ?n < 1" using b(1) by (simp only: not_less)
  then obtain o1 where mk: "mkfs_main [name, fmt_nat 10 n] f = (0, o1, f1)"
    using name m(1) by (simp add: mkfs_main_def s Let_def)
  define r where "r = check_super fs (say [str ''XXFS fsck - checking '', name, NL, NL] \<lparr>errs = 0, out = []\<rparr>)"
  have r0: "errs r = 0" by (simp add: r_def check_super_def Let_def)
  obtain r' g where c: "check_root fs r = Some (r', g)" "errs r' = errs r"
    by (rule fsck_fresh [OF m(3)])
  define q where "q = say [NL, str ''[tree] recursively checking all inodes...'', NL] r'"
  obtain r2 g2 fs' f2 where d: "check_root fs r = Some (r2, g2)" "check_path g2 q [0x2F] = Some (q, fs')" "xxfs_umount fs' = Some f2"
    by (rule fsck_fresh [OF m(3), of r q])
  have "r2 = r'" "g2 = g" using c(1) d(1) by simp_all
  then have "fsck_main [name] f1 = Some (0, out (say [NL] q) @ str ''fsck: no errors found'' @ NL, f2)"
    using m(2) c d r0 by (simp add: fsck_main_def r_def [symmetric] q_def [symmetric] Let_def) (simp add: q_def)
  then show ?thesis using mk by blast
qed

theorem mkfs_then_fsck_witness:
  "\<exists>o1 f1 o2 f2. mkfs_main [str ''disk.img'', str ''64''] blank_file = (0, o1, f1) \<and>
    fsck_main [str ''disk.img''] f1 = Some (0, o2 @ str ''fsck: no errors found'' @ NL, f2)"
proof -
  have "fmt_nat 10 64 = str ''64''" by (simp add: fmt_nat.simps digit_def str_def of_char_def)
  moreover have "take 5 (str ''disk.img'') \<noteq> str ''/dev/''" by (simp add: str_def of_char_def)
  ultimately show ?thesis using mkfs_then_fsck [of blank_file 64 "str ''disk.img''"] by simp
qed

section \<open>A child with an empty name\<close>

text \<open>The root is cached, and its first child has an empty name, as \<^verbatim>\<open>mkdir("/")\<close> right after mounting leaves it.\<close>

definition nameless_child :: "xxfs \<Rightarrow> bool" where
  "nameless_child fs \<longleftrightarrow> fault_free (img fs) \<and>
     (\<exists>idx. icache_lookup fs (xxh64 [0x2F]) = Some idx \<and> i_file_type (ic_inode (icache fs (unat idx))) = XXFS_FT_DIR) \<and>
     (\<exists>i c cs. dcache_find fs [0x2F] = Some i \<and> de_children (dcache fs i) = c # cs \<and> cstr (dc_name c) = [] \<and> length cs < 2 ^ 31)"

lemma visit_nameless:
  assumes "nameless_child fs"
  obtains r' ps fs' where "check_visit fs r [0x2F] = Some (r', [0x2F] # ps, fs')" and "nameless_child fs'"
proof -
  obtain idx i c cs where l: "icache_lookup fs (xxh64 [0x2F]) = Some idx" "i_file_type (ic_inode (icache fs (unat idx))) = XXFS_FT_DIR"
    and d: "dcache_find fs [0x2F] = Some i" "de_children (dcache fs i) = c # cs" "cstr (dc_name c) = []" "length cs < 2 ^ 31"
    and ff: "fault_free (img fs)" using assms by (auto simp: nameless_child_def)
  let ?n = "of_nat (length (c # cs)) :: u32"
  have st: "xxfs_stat fs [0x2F] = Some (Inr (ic_inode (icache fs (unat idx))), fs)" using l by (simp add: xxfs_stat_def fetch_inode_def norm_root)
  have rd: "xxfs_readdir fs [0x2F] = Some (XXFS_OK, \<lparr>rd_entries = Some (c # cs), rd_count = ?n, rd_cap = ?n\<rparr>, tick fs)"
    using d ff by (simp add: xxfs_readdir_def norm_root fs_alloc_ok Let_def)
  have "0 < unat ?n" using d(4) by (simp add: unat_of_nat del: of_nat_Suc)
  then obtain m where m: "unat ?n = Suc m" using gr0_implies_Suc by blast
  have ch: "child_path [0x2F] c = [0x2F]" using d(3) by (simp add: child_path_def snprintf_def XXFS_MAX_PATH_def)
  let ?ls = "listed \<lparr>rd_entries = Some (c # cs), rd_count = ?n, rd_cap = ?n\<rparr>"
  have ls: "map (child_path [0x2F]) ?ls = [0x2F] # map (child_path [0x2F]) (take m cs)"
    using m ch by (simp add: listed_def)
  obtain r' where v: "check_visit fs r [0x2F] = Some (r', map (child_path [0x2F]) ?ls, tick fs)"
    using st rd l(2) by (simp add: check_visit_def Let_def)
  have ic: "icache (tick fs) = icache fs" "icache_mask (tick fs) = icache_mask fs" by simp_all
  have "icache_probe k (tick fs) h j = icache_probe k fs h j" for k h j by (induction k arbitrary: j) (simp_all add: Let_def)
  then have "icache_lookup (tick fs) = icache_lookup fs" by (simp add: icache_lookup_def icache_home_def fun_eq_iff)
  moreover have "dcache_find (tick fs) = dcache_find fs" by (rule dcache_find_cong) simp
  ultimately have "nameless_child (tick fs)" using l d ff by (auto simp: nameless_child_def)
  then show thesis using that v ls by simp
qed

lemma walk_nameless:
  assumes "check_walk fs r ps = Some y"
  shows "\<not> (nameless_child fs \<and> ps \<noteq> [] \<and> hd ps = [0x2F])"
proof (rule check_walk.raw_induct [OF _ assms])
  fix f fs r ps and y :: "report \<times> xxfs"
  assume ih: "\<And>fs r ps y. f fs r ps = Some y \<Longrightarrow> \<not> (nameless_child fs \<and> ps \<noteq> [] \<and> hd ps = [0x2F])"
    and b: "(case ps of [] \<Rightarrow> Some (r, fs) | p # ps \<Rightarrow> do { (r, cs, fs) \<leftarrow> check_visit fs r p; f fs r (cs @ ps) }) = Some y"
  show "\<not> (nameless_child fs \<and> ps \<noteq> [] \<and> hd ps = [0x2F])"
  proof
    assume a: "nameless_child fs \<and> ps \<noteq> [] \<and> hd ps = [0x2F]"
    then obtain qs where ps: "ps = [0x2F] # qs" by (cases ps) auto
    obtain r' cs fs' where v: "check_visit fs r [0x2F] = Some (r', [0x2F] # cs, fs')" "nameless_child fs'"
      using visit_nameless a by metis
    then have "f fs' r' ([0x2F] # cs @ qs) = Some y" using b by (simp add: ps)
    then show False using ih v(2) by fastforce
  qed
qed

text \<open>C26: the walk of \<^verbatim>\<open>xxfs-fsck\<close> does not end on a root directory that has a child with an empty name: the path built for
  that child is again the root.\<close>

theorem check_path_nameless_diverges:
  assumes "nameless_child fs"
  shows "check_path fs r [0x2F] = None"
  using walk_nameless [of fs r "[[0x2F]]"] assms unfolding check_path_def by (cases "check_walk fs r [[0x2F]]") auto

theorem check_path_nameless_diverges_witness:
  "check_path ((zero_xxfs blank_file)
     \<lparr>icache := (\<lambda>_. zero_icache_entry\<lparr>ic_hash := xxh64 [0x2F], ic_ctrl := icache_ctrl (xxh64 [0x2F]),
         ic_inode := zero_inode\<lparr>i_file_type := XXFS_FT_DIR\<rparr>\<rparr>),
      dcache := (\<lambda>_. zero_dir_cache_entry\<lparr>de_path := [0x2F], de_valid := True, de_children := [new_child [] 2]\<rparr>)\<rparr>)
    \<lparr>errs = 0, out = []\<rparr> [0x2F] = None"
proof -
  let ?fs = "(zero_xxfs blank_file)
     \<lparr>icache := (\<lambda>_. zero_icache_entry\<lparr>ic_hash := xxh64 [0x2F], ic_ctrl := icache_ctrl (xxh64 [0x2F]),
         ic_inode := zero_inode\<lparr>i_file_type := XXFS_FT_DIR\<rparr>\<rparr>),
      dcache := (\<lambda>_. zero_dir_cache_entry\<lparr>de_path := [0x2F], de_valid := True, de_children := [new_child [] 2]\<rparr>)\<rparr>"
  have "icache_lookup ?fs (xxh64 [0x2F]) = Some (icache_home ?fs (xxh64 [0x2F]))"
    using icache_ctrl_not_empty by (simp add: icache_lookup_def numeral_eq_Suc)
  moreover have "dcache_find ?fs [0x2F] = Some (dcache_idx [0x2F])" by (simp add: dcache_find_def Let_def)
  moreover have "cstr (dc_name (new_child [] 2)) = []" by (simp add: new_child_def cstr_def buf_put_def zeros_def)
  moreover have "fault_free (img ?fs)" by (simp add: zero_xxfs_def)
  ultimately have "nameless_child ?fs" by (auto simp: nameless_child_def)
  then show ?thesis by (rule check_path_nameless_diverges)
qed

end
