(* ===== verification/Shell.thy ===== *)
theory Shell
  imports Tool_Text Fs_Data "HOL-Library.Sublist"
begin

text \<open>
  The interactive shell \<^verbatim>\<open>shell/shell.c\<close> (the build without readline): the resolution of paths against the working directory, the
  commands, and the command loop. A command takes the state of the shell and its argument and gives the text it prints
  and the new state; \<open>None\<close> is undefined behaviour in the library underneath.
\<close>

section \<open>The code\<close>

record shell =
  g_fs :: xxfs
  g_cwd :: bytes

subsection \<open>Paths\<close>

text \<open>\<^verbatim>\<open>while (len > 1 && norm[len-1] != '/') len--;\<close>\<close>

function back_up :: "bytes \<Rightarrow> bytes" where
  "back_up norm = (if 1 < length norm \<and> last norm \<noteq> SLASH then back_up (butlast norm) else norm)"
  by pat_completeness auto
termination by (relation "measure length") auto

declare back_up.simps [simp del]

fun resolve_loop :: "bytes \<Rightarrow> bytes \<Rightarrow> bytes" where
  "resolve_loop norm [] = norm"
| "resolve_loop norm (c # p) =
     (if c = SLASH \<and> norm \<noteq> [] \<and> last norm = SLASH then resolve_loop norm p
      else if c = DOT \<and> (p = [] \<or> hd p = SLASH) \<and> (norm = [] \<or> last norm = SLASH) then resolve_loop norm p
      else if c = DOT \<and> p \<noteq> [] \<and> hd p = DOT \<and> (tl p = [] \<or> hd (tl p) = SLASH)
      then resolve_loop (if 1 < length norm then back_up (butlast norm) else norm) (tl p)
      else if XXFS_MAX_PATH - 1 \<le> length (norm @ [c]) then norm @ [c]
      else resolve_loop (norm @ [c]) p)"

definition path_resolve :: "bytes \<Rightarrow> bytes \<Rightarrow> bytes" where
  "path_resolve cwd input =
     (let tmp = snprintf XXFS_MAX_PATH (if input \<noteq> [] \<and> hd input = SLASH then input else cwd @ [SLASH] @ input)
      in strip_slashes (resolve_loop (if tmp = [] \<or> hd tmp \<noteq> SLASH then [SLASH] else []) tmp))"

subsection \<open>Commands\<close>

text \<open>\<^verbatim>\<open>if (!arg || !arg[0])\<close>\<close>

definition given :: "bytes option \<Rightarrow> bytes option" where
  "given arg = (case arg of Some a \<Rightarrow> if a = [] then None else Some a | None \<Rightarrow> None)"

definition usage :: "string \<Rightarrow> shell \<Rightarrow> (bytes \<times> shell) option" where
  "usage s sh = Some (str ''  usage: '' @ str s @ NL, sh)"

definition cmd_ls :: "shell \<Rightarrow> bytes option \<Rightarrow> (bytes \<times> shell) option" where
  "cmd_ls sh arg =
     (let path = (case given arg of Some a \<Rightarrow> path_resolve (g_cwd sh) a | None \<Rightarrow> g_cwd sh) in
      do { (rc, ctx, fs) \<leftarrow> xxfs_readdir (g_fs sh) path;
           let sh = sh\<lparr>g_fs := fs\<rparr> in
           Some (if rc = XXFS_ENOENT then concat [str ''  ls: '', path, str '': No such file or directory'', NL]
                 else if rc = XXFS_ENOTDIR then concat [str ''  ls: '', path, str '': Not a directory'', NL]
                 else if rc \<noteq> XXFS_OK then concat [str ''  ls: '', path, str '': error '', fmt_rc rc, NL]
                 else if rd_count ctx = 0 then str ''  (empty directory)'' @ NL
                 else concat (map (\<lambda>c. concat [str ''  '',
                        if dc_type c = ucast XXFS_FT_DIR then str ''dir '' else if dc_type c = ucast XXFS_FT_LNK then str ''link'' else str ''file'',
                        str ''  '', cstr (dc_name c), NL])
                      (take (unat (rd_count ctx)) (case rd_entries ctx of Some cs \<Rightarrow> cs | None \<Rightarrow> []))), sh) })"

definition cmd_cd :: "shell \<Rightarrow> bytes option \<Rightarrow> (bytes \<times> shell) option" where
  "cmd_cd sh arg =
     (case given arg of
        None \<Rightarrow> Some ([], sh\<lparr>g_cwd := [SLASH]\<rparr>)
      | Some a \<Rightarrow>
          let path = path_resolve (g_cwd sh) a in
          do { (r, fs) \<leftarrow> xxfs_stat (g_fs sh) path;
               let sh = sh\<lparr>g_fs := fs\<rparr> in
               Some (case r of
                  Inl _ \<Rightarrow> (concat [str ''  cd: '', path, str '': not found'', NL], sh)
                | Inr ino \<Rightarrow>
                    if i_file_type ino \<noteq> XXFS_FT_DIR then (concat [str ''  cd: '', path, str '': not a directory'', NL], sh)
                    else ([], sh\<lparr>g_cwd := snprintf XXFS_MAX_PATH path\<rparr>)) })"

definition cmd_pwd :: "shell \<Rightarrow> (bytes \<times> shell) option" where
  "cmd_pwd sh = Some (concat [str ''  '', g_cwd sh, NL], sh)"

definition type_str :: "u16 \<Rightarrow> bytes" where
  "type_str t = (if t = XXFS_FT_REG then str ''regular'' else if t = XXFS_FT_DIR then str ''directory''
     else if t = XXFS_FT_LNK then str ''symlink'' else if t = 4 then str ''blockdev'' else if t = 5 then str ''chardev''
     else if t = 6 then str ''fifo'' else if t = 7 then str ''socket'' else str ''unknown'')"

definition stat_text :: "xxfs_inode \<Rightarrow> bytes" where
  "stat_text ino = concat
     [str ''  File: '', cstr (i_name ino), NL, str ''  Type: '', type_str (i_file_type ino), NL,
      str ''  Mode: '', fmt_o (i_mode ino), NL,
      str ''  Uid:  '', fmt_u (i_uid ino), str ''  Gid: '', fmt_u (i_gid ino), NL,
      str ''  Size: '', fmt_u (i_size ino), str '' bytes'', NL, str ''  Blocks: '', fmt_u (i_blocks ino), NL,
      str ''  Links: '', fmt_u (i_nlinks ino), NL, str ''  Access: '', fmt_u (i_atime ino), NL,
      str ''  Modify: '', fmt_u (i_mtime ino), NL, str ''  Change: '', fmt_u (i_ctime ino), NL,
      str ''  Birth:  '', fmt_u (i_btime ino), NL, str ''  Gen:    '', fmt_u (i_generation ino), NL,
      str ''  CRC:    0x'', fmt_x8 (i_checksum ino), NL]"

definition cmd_stat :: "shell \<Rightarrow> bytes option \<Rightarrow> (bytes \<times> shell) option" where
  "cmd_stat sh arg =
     (case given arg of
        None \<Rightarrow> usage ''stat <path>'' sh
      | Some a \<Rightarrow>
          let path = path_resolve (g_cwd sh) a in
          do { (r, fs) \<leftarrow> xxfs_stat (g_fs sh) path;
               (case r of
                  Inl _ \<Rightarrow> Some (concat [str ''  stat: '', path, str '': not found'', NL], sh\<lparr>g_fs := fs\<rparr>)
                | Inr ino \<Rightarrow>
                    if i_file_type ino = XXFS_FT_LNK then
                      do { (l, fs) \<leftarrow> xxfs_readlink fs path (of_nat (XXFS_INLINE_MAX + 1));
                           Some (case l of
                              Inl _ \<Rightarrow> (stat_text ino, sh\<lparr>g_fs := fs\<rparr>)
                            | Inr target \<Rightarrow> (stat_text ino @ concat [str ''  Target: '', cstr target, NL], sh\<lparr>g_fs := fs\<rparr>)) }
                    else Some (stat_text ino, sh\<lparr>g_fs := fs\<rparr>)) })"

text \<open>A command that runs an operation on the resolved path and prints a line that depends on its return code.\<close>

definition on_path :: "shell \<Rightarrow> bytes option \<Rightarrow> string \<Rightarrow> (xxfs \<Rightarrow> bytes \<Rightarrow> (rc \<times> xxfs) option) \<Rightarrow> (rc \<Rightarrow> bytes \<Rightarrow> bytes) \<Rightarrow>
    (bytes \<times> shell) option" where
  "on_path sh arg us f msg =
     (case given arg of
        None \<Rightarrow> usage us sh
      | Some a \<Rightarrow>
          let path = path_resolve (g_cwd sh) a in
          do { (rc, fs) \<leftarrow> f (g_fs sh) path; Some (msg rc path @ NL, sh\<lparr>g_fs := fs\<rparr>) })"

definition failed :: "string \<Rightarrow> rc \<Rightarrow> bytes" where
  "failed cmd rc = concat [str ''  '', str cmd, str '': failed (rc='', fmt_rc rc, str '')'']"

definition cmd_mkdir :: "shell \<Rightarrow> bytes option \<Rightarrow> (bytes \<times> shell) option" where
  "cmd_mkdir sh arg = on_path sh arg ''mkdir <path>'' (\<lambda>fs path. xxfs_mkdir fs path 493 0 0)
     (\<lambda>rc path. if rc \<noteq> XXFS_OK then failed ''mkdir'' rc else str ''  created directory: '' @ path)"

definition cmd_touch :: "shell \<Rightarrow> bytes option \<Rightarrow> (bytes \<times> shell) option" where
  "cmd_touch sh arg = on_path sh arg ''touch <path>'' (\<lambda>fs path. xxfs_create fs path 420 0 0)
     (\<lambda>rc path. if rc = XXFS_EEXIST then str ''  touch: already exists'' else if rc \<noteq> XXFS_OK then failed ''touch'' rc
        else str ''  created: '' @ path)"

definition cmd_rm :: "shell \<Rightarrow> bytes option \<Rightarrow> (bytes \<times> shell) option" where
  "cmd_rm sh arg = on_path sh arg ''rm <path>'' xxfs_unlink
     (\<lambda>rc path. if rc = XXFS_ENOENT then str ''  rm: not found'' else if rc = XXFS_EISDIR then str ''  rm: is a directory (use rmdir)''
        else if rc \<noteq> XXFS_OK then failed ''rm'' rc else str ''  removed: '' @ path)"

definition cmd_rmdir :: "shell \<Rightarrow> bytes option \<Rightarrow> (bytes \<times> shell) option" where
  "cmd_rmdir sh arg = on_path sh arg ''rmdir <path>'' xxfs_rmdir
     (\<lambda>rc path. if rc = XXFS_ENOENT then str ''  rmdir: not found'' else if rc = XXFS_ENOTDIR then str ''  rmdir: not a directory''
        else if rc \<noteq> XXFS_OK then failed ''rmdir'' rc else str ''  removed directory: '' @ path)"

text \<open>The buffer on the stack is uninitialised.\<close>

definition cmd_cat :: "shell \<Rightarrow> bytes option \<Rightarrow> (bytes \<times> shell) option" where
  "cmd_cat sh arg =
     (case given arg of
        None \<Rightarrow> usage ''cat <path>'' sh
      | Some a \<Rightarrow>
          do { (r, buf, fs) \<leftarrow> xxfs_read (g_fs sh) (path_resolve (g_cwd sh) a) (fresh_buf (img (g_fs sh)) 65535) 0;
               let sh = sh\<lparr>g_fs := fs\<rparr> in
               Some (case r of
                  Inl rc \<Rightarrow> (concat [str ''  cat: read failed (rc='', fmt_rc rc, str '')'', NL], sh)
                | Inr rb \<Rightarrow>
                    (cstr (take (unat rb) buf) @ (if rb > 0 \<and> buf ! (unat rb - 1) \<noteq> 0x0A then NL else []), sh)) })"

definition cmd_write :: "shell \<Rightarrow> bytes option \<Rightarrow> (bytes \<times> shell) option" where
  "cmd_write sh arg =
     (case given arg of
        None \<Rightarrow> usage ''write <path> <content>'' sh
      | Some a \<Rightarrow>
          (case strchr a 0x20 of
             None \<Rightarrow> usage ''write <path> <content>'' sh
           | Some (p, content) \<Rightarrow>
               let resolved = path_resolve (g_cwd sh) (take (XXFS_MAX_PATH - 1) p) in
               do { (r, fs) \<leftarrow> xxfs_write (g_fs sh) resolved content 0;
                    let sh = sh\<lparr>g_fs := fs\<rparr> in
                    Some (case r of
                       Inl rc \<Rightarrow> (failed ''write'' rc @ NL, sh)
                     | Inr n \<Rightarrow> (concat [str ''  wrote '', fmt_u n, str '' bytes to '', resolved, NL], sh)) }))"

text \<open>A command with two arguments separated by a space; the first one is cut to the size of its buffer.\<close>

definition two_args :: "shell \<Rightarrow> bytes option \<Rightarrow> string \<Rightarrow> nat \<Rightarrow> (bytes \<Rightarrow> bytes \<Rightarrow> (bytes \<times> xxfs) option) \<Rightarrow> (bytes \<times> shell) option" where
  "two_args sh arg us n f =
     (case given arg of
        None \<Rightarrow> usage us sh
      | Some a \<Rightarrow>
          (case strchr a 0x20 of
             None \<Rightarrow> usage us sh
           | Some (x, y) \<Rightarrow> do { (msg, fs) \<leftarrow> f (take (n - 1) x) y; Some (msg @ NL, sh\<lparr>g_fs := fs\<rparr>) }))"

definition cmd_chmod :: "shell \<Rightarrow> bytes option \<Rightarrow> (bytes \<times> shell) option" where
  "cmd_chmod sh arg = two_args sh arg ''chmod <mode> <path>'' 8 (\<lambda>m p.
     let mode = of_int (strtol 8 m) :: u16 in
     do { (rc, fs) \<leftarrow> xxfs_chmod (g_fs sh) (path_resolve (g_cwd sh) p) mode;
          Some (if rc \<noteq> XXFS_OK then failed ''chmod'' rc else str ''  mode changed to '' @ fmt_o mode, fs) })"

definition cmd_chown :: "shell \<Rightarrow> bytes option \<Rightarrow> (bytes \<times> shell) option" where
  "cmd_chown sh arg = two_args sh arg ''chown <uid>:<gid> <path>'' 32 (\<lambda>ug p.
     let uid = of_int (strtol 10 ug) :: u16;
         gid = (case strchr ug 0x3A of Some (_, g) \<Rightarrow> of_int (strtol 10 g) | None \<Rightarrow> 0) :: u16 in
     do { (rc, fs) \<leftarrow> xxfs_chown (g_fs sh) (path_resolve (g_cwd sh) p) uid gid;
          Some (if rc \<noteq> XXFS_OK then failed ''chown'' rc else concat [str ''  owner changed to '', fmt_u uid, str '':'', fmt_u gid], fs) })"

definition cmd_rename :: "shell \<Rightarrow> bytes option \<Rightarrow> (bytes \<times> shell) option" where
  "cmd_rename sh arg = two_args sh arg ''rename <old> <new>'' XXFS_MAX_PATH (\<lambda>old new.
     let old_path = path_resolve (g_cwd sh) old; new_path = path_resolve (g_cwd sh) (snprintf XXFS_MAX_PATH new) in
     do { (rc, fs) \<leftarrow> xxfs_rename (g_fs sh) old_path new_path;
          Some (if rc \<noteq> XXFS_OK then failed ''rename'' rc else concat [str ''  renamed '', old_path, str '' -> '', new_path], fs) })"

definition cmd_symlink :: "shell \<Rightarrow> bytes option \<Rightarrow> (bytes \<times> shell) option" where
  "cmd_symlink sh arg = two_args sh arg ''symlink <target> <linkpath>'' XXFS_MAX_PATH (\<lambda>target l.
     let linkpath = path_resolve (g_cwd sh) l in
     do { (rc, fs) \<leftarrow> xxfs_symlink (g_fs sh) target linkpath;
          Some (if rc \<noteq> XXFS_OK then failed ''symlink'' rc else concat [str ''  symlink: '', linkpath, str '' -> '', target], fs) })"

definition cmd_df :: "shell \<Rightarrow> (bytes \<times> shell) option" where
  "cmd_df sh =
     (let info = xxfs_info (g_fs sh); used = fi_block_count info - fi_free_blocks info in
      Some (concat
        [str ''  Filesystem: XXFS v'', fmt_u (fi_version info), NL, str ''  Block size: '', fmt_u (fi_block_size info), NL,
         str ''  Total blocks: '', fmt_u (fi_block_count info), NL, str ''  Free blocks: '', fmt_u (fi_free_blocks info), NL,
         str ''  Total inodes: '', fmt_u (fi_inodes_count info), NL, str ''  COW generation: '', fmt_u (fi_cow_generation info), NL,
         str ''  Used: '', fmt_u used, str '' blocks ('', fmt_u (used * ucast (fi_block_size info) div (1024 * 1024)), str '' MB)'', NL], sh))"

definition cmd_help :: "shell \<Rightarrow> (bytes \<times> shell) option" where
  "cmd_help sh = Some (concat (map (\<lambda>l. str ''  '' @ str l @ NL)
     [''XXFS Shell Commands:'', ''ls [path]          - list directory'', ''cd <path>          - change directory'',
      ''pwd                - print working directory'', ''stat <path>        - show file info'',
      ''touch <path>       - create empty file'', ''mkdir <path>       - create directory'',
      ''rm <path>          - remove file'', ''rmdir <path>       - remove directory'',
      ''cat <path>         - read file content'', ''write <p> <text>   - write text to file'',
      ''chmod <mode> <p>   - change permissions'', ''chown <u:g> <p>    - change owner'',
      ''rename <old> <new> - rename file'', ''symlink <t> <l>    - create symlink'',
      ''df                 - show filesystem info'', ''sync               - sync to disk'',
      ''help               - show this help'', ''exit               - exit shell'']), sh)"

subsection \<open>The command loop\<close>

text \<open>The command word and the argument of a line.\<close>

definition split_line :: "bytes \<Rightarrow> bytes \<times> bytes option" where
  "split_line l = (case strchr l 0x20 of Some (c, a) \<Rightarrow> (take 63 c, Some a) | None \<Rightarrow> (snprintf 64 l, None))"

definition run_command :: "shell \<Rightarrow> bytes \<Rightarrow> bytes option \<Rightarrow> (bytes \<times> shell) option" where
  "run_command sh cmd arg =
     (if cmd = str ''ls'' then cmd_ls sh arg
      else if cmd = str ''cd'' then cmd_cd sh arg
      else if cmd = str ''pwd'' then cmd_pwd sh
      else if cmd = str ''stat'' then cmd_stat sh arg
      else if cmd = str ''touch'' then cmd_touch sh arg
      else if cmd = str ''mkdir'' then cmd_mkdir sh arg
      else if cmd = str ''rm'' then cmd_rm sh arg
      else if cmd = str ''rmdir'' then cmd_rmdir sh arg
      else if cmd = str ''cat'' then cmd_cat sh arg
      else if cmd = str ''write'' then cmd_write sh arg
      else if cmd = str ''chmod'' then cmd_chmod sh arg
      else if cmd = str ''chown'' then cmd_chown sh arg
      else if cmd = str ''rename'' then cmd_rename sh arg
      else if cmd = str ''symlink'' then cmd_symlink sh arg
      else if cmd = str ''df'' then cmd_df sh
      else if cmd = str ''sync'' then do { (_, fs) \<leftarrow> xxfs_sync (g_fs sh); Some (str ''  synced'' @ NL, sh\<lparr>g_fs := fs\<rparr>) }
      else if cmd = str ''help'' then cmd_help sh
      else Some (concat [str ''  unknown command: '', cmd, str '' (type 'help')'', NL], sh))"

text \<open>\<open>ls\<close> are the lines that \<^verbatim>\<open>fgets\<close> returns, without the newline; the end of the list is the end of the input.\<close>

fun shell_loop :: "shell \<Rightarrow> bytes list \<Rightarrow> (bytes \<times> shell) option" where
  "shell_loop sh ls =
     (let prompt = snprintf 128 (concat [str ''xxfs:'', g_cwd sh, str ''> '']) in
      case ls of
        [] \<Rightarrow> Some (prompt, sh)
      | l # ls \<Rightarrow>
          if l = [] then do { (out, sh) \<leftarrow> shell_loop sh ls; Some (prompt @ out, sh) }
          else
            (case split_line l of (cmd, arg) \<Rightarrow>
               if cmd = str ''exit'' \<or> cmd = str ''quit'' then Some (prompt, sh)
               else do { (out1, sh) \<leftarrow> run_command sh cmd arg;
                         (out2, sh) \<leftarrow> shell_loop sh ls;
                         Some (prompt @ out1 @ out2, sh) }))"

declare shell_loop.simps [simp del]

definition shell_main :: "bytes list \<Rightarrow> bytes list \<Rightarrow> os_file \<Rightarrow> (int \<times> bytes \<times> os_file) option" where
  "shell_main args ls f =
     (case args of
        [] \<Rightarrow> Some (1, [], f)
      | name # _ \<Rightarrow>
          do { m \<leftarrow> xxfs_mount f XXFS_FLAG_SYNC;
               (case m of
                  Inl f \<Rightarrow> Some (1, [], f)
                | Inr fs \<Rightarrow>
                    do { (out, sh) \<leftarrow> shell_loop \<lparr>g_fs = fs, g_cwd = [SLASH]\<rparr> ls;
                         f \<leftarrow> xxfs_umount (g_fs sh);
                         Some (0, concat [str ''XXFS Shell - mounted '', name, NL,
                                          str ''Type 'help' for commands, 'exit' to quit.'', NL, NL] @ out @ str ''Goodbye.'' @ NL, f) }) })"

section \<open>Path resolution\<close>

text \<open>The reference: the components of the path from left to right; empty ones and \<^verbatim>\<open>.\<close> are skipped, \<^verbatim>\<open>..\<close> takes the last
  one back.\<close>

definition enter :: "bytes list \<Rightarrow> bytes \<Rightarrow> bytes list" where
  "enter st c = (if c = [] \<or> c = [DOT] then st else if c = [DOT, DOT] then butlast st else st @ [c])"

definition resolved :: "bytes \<Rightarrow> bytes list" where
  "resolved p = foldl enter [] (comps p)"

lemma enter_simps: "enter st [] = st" "enter st [DOT] = st" "enter st [DOT, DOT] = butlast st"
  "w \<noteq> [] \<Longrightarrow> w \<noteq> [DOT] \<Longrightarrow> w \<noteq> [DOT, DOT] \<Longrightarrow> enter st w = st @ [w]"
  by (simp_all add: enter_def)

text \<open>A component that the code does not mistake for one that ends in \<^verbatim>\<open>..\<close>\<close>

definition plain_comp :: "bytes \<Rightarrow> bool" where
  "plain_comp c \<longleftrightarrow> c = [DOT, DOT] \<or> \<not> suffix [DOT, DOT] c"

definition rend :: "bytes list \<Rightarrow> bytes" where
  "rend st = concat (map (\<lambda>c. SLASH # c) st)"

lemma rend_simps [simp]: "rend [] = []" "rend (st @ [c]) = rend st @ SLASH # c"
  by (simp_all add: rend_def)

lemma render_rend: "render st = (if st = [] then [SLASH] else rend st)"
  by (simp add: render_def rend_def)

text \<open>The stack of components: no slashes, none empty.\<close>

definition stack_ok :: "bytes list \<Rightarrow> bool" where
  "stack_ok st \<longleftrightarrow> (\<forall>c \<in> set st. c \<noteq> [] \<and> SLASH \<notin> set c)"

lemma rend_last: "stack_ok st \<Longrightarrow> st \<noteq> [] \<Longrightarrow> rend st \<noteq> [] \<and> last (rend st) \<noteq> SLASH"
  by (cases st rule: rev_cases) (auto simp: stack_ok_def dest: last_in_set)

lemma strip_rend: "stack_ok st \<Longrightarrow> strip_slashes (rend st @ [SLASH]) = render st"
  using rend_last [of st] by (cases "st = []") (simp_all add: strip_slashes_app render_rend strip_slashes.simps)

lemma back_up_comp: "SLASH \<notin> set c \<Longrightarrow> back_up (b @ SLASH # c) = b @ [SLASH]"
proof (induction c rule: rev_induct)
  case (snoc x c)
  then show ?case by (simp add: back_up.simps [of "b @ SLASH # c @ [x]"] butlast_append)
qed (simp add: back_up.simps)

lemma back_up_rend:
  assumes "stack_ok st"
  shows "(if 1 < length (rend st @ [SLASH]) then back_up (butlast (rend st @ [SLASH])) else rend st @ [SLASH]) = rend (butlast st) @ [SLASH]"
  using assms by (cases st rule: rev_cases) (simp_all add: back_up_comp stack_ok_def butlast_append)

lemma hd_comps_ends: "p = [] \<or> hd p = SLASH \<Longrightarrow> \<exists>cs. comps p = [] # cs"
  using hd_comps_Nil [of p] comps_ne [of p] by (cases "comps p") auto

lemma comps_hd_tl: "comps p = hd (comps p) # tl (comps p)"
  using comps_ne [of p] by simp

lemma suffix_dots: "suffix [DOT, DOT] (w @ [DOT, DOT])"
  by (simp add: suffix_def)

lemma stack_ok_snoc: "stack_ok st \<Longrightarrow> w \<noteq> [] \<Longrightarrow> SLASH \<notin> set w \<Longrightarrow> stack_ok (st @ [w])"
  by (simp add: stack_ok_def)

lemma stack_ok_butlast: "stack_ok st \<Longrightarrow> stack_ok (butlast st)"
  by (auto simp: stack_ok_def dest: in_set_butlastD)

text \<open>The loop between two components, with the stack \<open>st\<close> written out, and within a component of which \<open>w\<close> has been copied.\<close>

definition resolves_at :: "bytes list \<Rightarrow> bytes \<Rightarrow> bool" where
  "resolves_at st p \<longleftrightarrow> (stack_ok st \<longrightarrow> (\<forall>c \<in> set (comps p). plain_comp c) \<longrightarrow> length (rend st) + 1 + length p < XXFS_MAX_PATH - 1 \<longrightarrow>
     strip_slashes (resolve_loop (rend st @ [SLASH]) p) = render (foldl enter st (comps p)))"

definition resolves_in :: "bytes list \<Rightarrow> bytes \<Rightarrow> bytes \<Rightarrow> bool" where
  "resolves_in st w p \<longleftrightarrow> (stack_ok st \<longrightarrow> w \<noteq> [] \<longrightarrow> SLASH \<notin> set w \<longrightarrow> \<not> suffix [DOT, DOT] (w @ hd (comps p)) \<longrightarrow> w @ hd (comps p) \<noteq> [DOT] \<longrightarrow>
     (\<forall>c \<in> set (tl (comps p)). plain_comp c) \<longrightarrow> length (rend st) + 1 + length w + length p < XXFS_MAX_PATH - 1 \<longrightarrow>
     strip_slashes (resolve_loop (rend st @ SLASH # w) p) = render (foldl enter st ((w @ hd (comps p)) # tl (comps p))))"

lemma at_dot:
  assumes "q = [] \<or> hd q = SLASH" and r: "resolves_at st q"
  shows "resolves_at st (DOT # q)"
proof -
  obtain cs where "comps q = [] # cs" using hd_comps_ends [OF assms(1)] by blast
  then show ?thesis using assms(1) r by (simp add: resolves_at_def enter_simps plain_comp_def)
qed

lemma at_dots:
  assumes e: "q = [] \<or> hd q = SLASH" and r: "resolves_at (butlast st) q"
  shows "resolves_at st (DOT # DOT # q)"
  unfolding resolves_at_def
proof (intro impI)
  assume h: "stack_ok st" "\<forall>c \<in> set (comps (DOT # DOT # q)). plain_comp c" "length (rend st) + 1 + length (DOT # DOT # q) < XXFS_MAX_PATH - 1"
  obtain cs where cs: "comps q = [] # cs" using hd_comps_ends [OF e] by blast
  have "length (rend (butlast st)) \<le> length (rend st)" by (cases st rule: rev_cases) simp_all
  then have "strip_slashes (resolve_loop (rend (butlast st) @ [SLASH]) q) = render (foldl enter (butlast st) (comps q))"
    using r h cs stack_ok_butlast by (auto simp: resolves_at_def plain_comp_def)
  moreover have "resolve_loop (rend st @ [SLASH]) (DOT # DOT # q) = resolve_loop (rend (butlast st) @ [SLASH]) q"
    using e back_up_rend [OF h(1)] by simp
  moreover have "foldl enter st (comps (DOT # DOT # q)) = foldl enter (butlast st) (comps q)" using cs by (simp add: enter_simps)
  ultimately show "strip_slashes (resolve_loop (rend st @ [SLASH]) (DOT # DOT # q)) = render (foldl enter st (comps (DOT # DOT # q)))" by simp
qed

lemma not_dots:
  assumes "\<not> (c = DOT \<and> q \<noteq> [] \<and> hd q = DOT \<and> (tl q = [] \<or> hd (tl q) = SLASH))"
  shows "c # hd (comps q) \<noteq> [DOT, DOT]"
proof
  assume a: "c # hd (comps q) = [DOT, DOT]"
  then obtain x q' where q: "q = x # q'" by (cases q) auto
  with a have "x = DOT" "hd (comps q') = []" by (auto split: if_splits)
  with a q assms hd_comps_Nil [of q'] show False by auto
qed

lemma at_char:
  assumes c: "c \<noteq> SLASH" "\<not> (c = DOT \<and> (q = [] \<or> hd q = SLASH))" "\<not> (c = DOT \<and> q \<noteq> [] \<and> hd q = DOT \<and> (tl q = [] \<or> hd (tl q) = SLASH))"
    and r: "resolves_in st [c] q"
  shows "resolves_at st (c # q)"
  unfolding resolves_at_def
proof (intro impI)
  assume h: "stack_ok st" "\<forall>c \<in> set (comps (c # q)). plain_comp c" "length (rend st) + 1 + length (c # q) < XXFS_MAX_PATH - 1"
  have cp: "comps (c # q) = (c # hd (comps q)) # tl (comps q)" using c(1) by simp
  have nd: "c # hd (comps q) \<noteq> [DOT]" using c(2) hd_comps_Nil [of q] by auto
  have ns: "\<not> suffix [DOT, DOT] ([c] @ hd (comps q))" using h(2) cp not_dots [OF c(3)] by (auto simp: plain_comp_def)
  have "strip_slashes (resolve_loop (rend st @ SLASH # [c]) q) = render (foldl enter st (([c] @ hd (comps q)) # tl (comps q)))"
    using r h cp c(1) nd ns by (simp add: resolves_in_def)
  moreover have "resolve_loop (rend st @ [SLASH]) (c # q) = resolve_loop (rend st @ SLASH # [c]) q" using c h(3) by auto
  ultimately show "strip_slashes (resolve_loop (rend st @ [SLASH]) (c # q)) = render (foldl enter st (comps (c # q)))" using cp by simp
qed

lemma in_Nil: "resolves_in st w []"
  unfolding resolves_in_def
proof (intro impI)
  assume h: "w \<noteq> []" "SLASH \<notin> set w" "\<not> suffix [DOT, DOT] (w @ hd (comps []))" "w @ hd (comps []) \<noteq> [DOT]"
  have "w \<noteq> [DOT, DOT]" using h suffix_dots [of "[]"] by auto
  moreover have "last w \<noteq> SLASH" using h(1,2) last_in_set by metis
  ultimately show "strip_slashes (resolve_loop (rend st @ SLASH # w) []) = render (foldl enter st ((w @ hd (comps [])) # tl (comps [])))"
    using h by (simp add: enter_simps strip_slashes_id render_rend)
qed

lemma in_slash:
  assumes r: "resolves_at (st @ [w]) q"
  shows "resolves_in st w (SLASH # q)"
  unfolding resolves_in_def
proof (intro impI)
  assume h: "stack_ok st" "w \<noteq> []" "SLASH \<notin> set w" "\<not> suffix [DOT, DOT] (w @ hd (comps (SLASH # q)))" "w @ hd (comps (SLASH # q)) \<noteq> [DOT]"
    "\<forall>c \<in> set (tl (comps (SLASH # q))). plain_comp c" "length (rend st) + 1 + length w + length (SLASH # q) < XXFS_MAX_PATH - 1"
  have lw: "last (rend st @ SLASH # w) \<noteq> SLASH" using h(2,3) last_in_set by fastforce
  have nd: "w \<noteq> [DOT, DOT]" "w \<noteq> [DOT]" using h suffix_dots [of "[]"] by auto
  have "foldl enter st ((w @ hd (comps (SLASH # q))) # tl (comps (SLASH # q))) = foldl enter (st @ [w]) (comps q)"
    using nd h(2) by (simp add: enter_simps)
  moreover have "resolve_loop (rend st @ SLASH # w) (SLASH # q) = resolve_loop (rend (st @ [w]) @ [SLASH]) q" using lw h(7) by simp
  moreover have "strip_slashes (resolve_loop (rend (st @ [w]) @ [SLASH]) q) = render (foldl enter (st @ [w]) (comps q))"
    using r h stack_ok_snoc [OF h(1)] by (simp add: resolves_at_def)
  ultimately show "strip_slashes (resolve_loop (rend st @ SLASH # w) (SLASH # q)) =
      render (foldl enter st ((w @ hd (comps (SLASH # q))) # tl (comps (SLASH # q))))" by simp
qed

lemma in_char:
  assumes c: "c \<noteq> SLASH" and r: "resolves_in st (w @ [c]) q"
  shows "resolves_in st w (c # q)"
  unfolding resolves_in_def
proof (intro impI)
  assume h: "stack_ok st" "w \<noteq> []" "SLASH \<notin> set w" "\<not> suffix [DOT, DOT] (w @ hd (comps (c # q)))" "w @ hd (comps (c # q)) \<noteq> [DOT]"
    "\<forall>c \<in> set (tl (comps (c # q))). plain_comp c" "length (rend st) + 1 + length w + length (c # q) < XXFS_MAX_PATH - 1"
  have lw: "last (rend st @ SLASH # w) \<noteq> SLASH" using h(2,3) last_in_set by fastforce
  have "\<not> (c = DOT \<and> q \<noteq> [] \<and> hd q = DOT \<and> (tl q = [] \<or> hd (tl q) = SLASH))"
  proof
    assume a: "c = DOT \<and> q \<noteq> [] \<and> hd q = DOT \<and> (tl q = [] \<or> hd (tl q) = SLASH)"
    then obtain q' where q: "q = DOT # q'" "q' = [] \<or> hd q' = SLASH" by (cases q) auto
    obtain cs where "comps q' = [] # cs" using hd_comps_ends [OF q(2)] by blast
    then have "hd (comps (c # q)) = [DOT, DOT]" using a q(1) by simp
    then show False using h(4) suffix_dots by simp
  qed
  then have "resolve_loop (rend st @ SLASH # w) (c # q) = resolve_loop (rend st @ SLASH # (w @ [c])) q" using c lw h(7) by auto
  then show "strip_slashes (resolve_loop (rend st @ SLASH # w) (c # q)) = render (foldl enter st ((w @ hd (comps (c # q))) # tl (comps (c # q))))"
    using r h c by (simp add: resolves_in_def)
qed

lemma resolve_loop_ref: "resolves_at st p \<and> resolves_in st w p"
proof (induction p arbitrary: st w rule: length_induct)
  case (1 p)
  show ?case
  proof (cases p)
    case Nil
    then show ?thesis using in_Nil by (simp add: resolves_at_def strip_rend enter_simps)
  next
    case (Cons c q)
    have ih: "resolves_at st q" "resolves_in st w q" "resolves_at st (tl q)" for st w using "1.IH" Cons by simp_all
    consider (slash) "c = SLASH" | (dot) "c = DOT" "q = [] \<or> hd q = SLASH" | (dots) q' where "c = DOT" "q = DOT # q'" "q' = [] \<or> hd q' = SLASH"
      | (char) "c \<noteq> SLASH" "\<not> (c = DOT \<and> (q = [] \<or> hd q = SLASH))" "\<not> (c = DOT \<and> q \<noteq> [] \<and> hd q = DOT \<and> (tl q = [] \<or> hd (tl q) = SLASH))"
      by (cases q) auto
    then have "resolves_at st p"
    proof cases
      case slash
      then show ?thesis using Cons ih(1) [of st] by (simp add: resolves_at_def enter_simps)
    qed (use Cons ih at_dot at_dots at_char in auto)
    moreover have "resolves_in st w p" using Cons ih in_slash in_char by (cases "c = SLASH") simp_all
    ultimately show ?thesis ..
  qed
qed

text \<open>The path that the shell resolves.\<close>

definition full_path :: "bytes \<Rightarrow> bytes \<Rightarrow> bytes" where
  "full_path cwd input = (if input \<noteq> [] \<and> hd input = SLASH then input else cwd @ [SLASH] @ input)"

text \<open>C28: as long as the path fits into the buffer and no name ends in two dots, \<^verbatim>\<open>path_resolve\<close> computes the reference: the input,
  behind the working directory unless it starts with a slash, is split at slashes, empty components and \<^verbatim>\<open>.\<close> are dropped, \<^verbatim>\<open>..\<close>
  takes back the component before it (and nothing at the root), and the rest is joined with slashes.\<close>

theorem path_resolve_correct:
  assumes len: "length (full_path cwd input) < XXFS_MAX_PATH - 2" and pl: "\<forall>c \<in> set (comps (full_path cwd input)). plain_comp c"
  shows "path_resolve cwd input = render (resolved (full_path cwd input))"
proof -
  let ?p = "full_path cwd input"
  have ok: "stack_ok []" by (simp add: stack_ok_def)
  have res: "resolves_at [] p" for p using resolve_loop_ref by blast
  have pr: "path_resolve cwd input = strip_slashes (resolve_loop (if ?p = [] \<or> hd ?p \<noteq> SLASH then [SLASH] else []) ?p)"
    using len by (simp add: path_resolve_def snprintf_def full_path_def Let_def)
  show ?thesis
  proof (cases "?p = [] \<or> hd ?p \<noteq> SLASH")
    case True
    then show ?thesis using pr res [of ?p] ok pl len by (simp add: resolves_at_def resolved_def)
  next
    case False
    then obtain q where q: "?p = SLASH # q" by (cases ?p) auto
    have "strip_slashes (resolve_loop (rend [] @ [SLASH]) q) = render (foldl enter [] (comps q))"
      using res [of q] ok pl len q by (simp add: resolves_at_def)
    moreover have "resolve_loop [] ?p = resolve_loop [SLASH] q" unfolding q by (simp add: XXFS_MAX_PATH_def)
    ultimately show ?thesis using pr False q by (simp add: resolved_def enter_simps)
  qed
qed

theorem path_resolve_correct_witness:
  "path_resolve [SLASH, 0x61] [DOT, DOT, SLASH, 0x62, SLASH, DOT] = [SLASH, 0x62]"
  using path_resolve_correct [of "[SLASH, 0x61]" "[DOT, DOT, SLASH, 0x62, SLASH, DOT]"]
  by (simp add: XXFS_MAX_PATH_def full_path_def plain_comp_def suffix_def Cons_eq_append_conv resolved_def enter_def render_def)

text \<open>A name that ends in two dots is taken for a step to the parent.\<close>

lemma dotted_name_lost: "path_resolve [SLASH] [0x61, DOT, DOT] = [SLASH]"
  by (simp add: path_resolve_def snprintf_def XXFS_MAX_PATH_def back_up.simps strip_slashes.simps)

section \<open>Writing and showing a file\<close>

lemma cstr_id: "0 \<notin> set bs \<Longrightarrow> cstr bs = bs"
  by (auto simp: cstr_def takeWhile_eq_all_conv)

lemma strchr_app: "c \<notin> set a \<Longrightarrow> strchr (a @ c # b) c = Some (a, b)"
proof -
  assume c: "c \<notin> set a"
  have "takeWhile (\<lambda>x. x \<noteq> c) (a @ c # b) = a" "dropWhile (\<lambda>x. x \<noteq> c) (a @ c # b) = c # b"
    using c by (simp_all add: takeWhile_append dropWhile_append)
  then show ?thesis by (simp add: strchr_def)
qed

text \<open>C27: what \<^verbatim>\<open>write\<close> stores, \<^verbatim>\<open>cat\<close> shows: for a text without zero bytes of fewer than 65536 characters, at least as long as
  the file was before, the command \<^verbatim>\<open>write p text\<close> reports its length, and \<^verbatim>\<open>cat p\<close> then prints exactly the text, with a newline
  added when it does not end in one.\<close>

theorem write_then_cat:
  assumes p: "p \<noteq> []" "0x20 \<notin> set p" "length p < XXFS_MAX_PATH" and t: "text \<noteq> []" "0 \<notin> set text" "length text < 65536"
    and path: "path = path_resolve (g_cwd sh) p"
    and fs: "fs_inv (g_fs sh)" "icache_room (g_fs sh) 2" "icache_near (g_fs sh) (xxh64 (path_normalize path))"
    and ino: "inode_view (g_fs sh) (path_normalize path) = Some ino" "i_file_type ino \<noteq> XXFS_FT_DIR" "file_ok (g_fs sh) ino"
    and w: "can_write (g_fs sh) ino 0 text" and old: "length (file_bytes (g_fs sh) ino) \<le> length text"
  shows "\<exists>sh' sh''. cmd_write sh (Some (p @ 0x20 # text)) =
      Some (concat [str ''  wrote '', fmt_nat 10 (length text), str '' bytes to '', path, NL], sh') \<and>
    cmd_cat sh' (Some p) = Some (text @ (if last text \<noteq> 0x0A then NL else []), sh'')"
proof -
  have room: "icache_room (g_fs sh) (Suc 1)" using fs(2) by (simp add: eval_nat_numeral)
  obtain ino' g where g: "xxfs_write (g_fs sh) path text 0 = Some (Inr (of_nat (length text)), g)"
    "file_written 1 (g_fs sh) (path_normalize path) ino (overlay (unat (0::u64)) text (file_bytes (g_fs sh) ino)) ino' g"
    by (rule write_law [OF fs(1) room fs(3) ino w])
  have "overlay (unat (0::u64)) text (file_bytes (g_fs sh) ino) = text" using old by (simp add: overlay_def)
  then have a: "fs_inv g" "icache_room g 1" "inode_view g (path_normalize path) = Some ino'" "file_ok g ino'" "file_bytes g ino' = text"
    using g(2) by (simp_all add: file_written_def)
  let ?b = "fresh_buf (img g) 65535" and ?bs = "take 65535 text"
  have bs: "?bs = text" using t(3) by simp
  have b: "?b \<noteq> []" "length ?b < 2 ^ 32" using length_fresh_buf [of "img g" 65535] by (auto simp del: length_fresh_buf)
  obtain h where r: "xxfs_read g path ?b 0 = Some (Inr (of_nat (length text)), into_buf text ?b, h)"
    by (rule read_law [OF a(1-4) b, of 0]) (simp add: a(5) bs)
  let ?sh = "sh\<lparr>g_fs := g\<rparr>"
  have ln: "unat (of_nat (length text) :: u32) = length text" using t(3) by (simp add: unat_of_nat)
  have "cmd_write sh (Some (p @ 0x20 # text)) = Some (concat [str ''  wrote '', fmt_nat 10 (length text), str '' bytes to '', path, NL], ?sh)"
    using p g(1) ln path by (simp add: cmd_write_def given_def strchr_app fmt_u_def Let_def)
  moreover have "cmd_cat ?sh (Some p) = Some (text @ (if last text \<noteq> 0x0A then NL else []), ?sh\<lparr>g_fs := h\<rparr>)"
  proof -
    have "take (length text) (into_buf text ?b) = text" by (simp add: into_buf_def)
    moreover have "into_buf text ?b ! (length text - 1) = last text" using t(1) by (simp add: into_buf_def nth_append last_conv_nth)
    moreover have "0 < (of_nat (length text) :: u32)" using ln t(1) by (simp add: word_less_nat_alt)
    ultimately show ?thesis using r p(1) path ln cstr_id [OF t(2)] by (simp add: cmd_cat_def given_def Let_def)
  qed
  ultimately show ?thesis by blast
qed

theorem write_then_cat_witness:
  "\<exists>f fs g sh' sh''. xxfs_mkfs blank_file 64 False = (XXFS_OK, f) \<and> xxfs_mount f 0 = Some (Inr fs) \<and>
    xxfs_create fs [0x2F, 0x61] 420 0 0 = Some (XXFS_OK, g) \<and>
    cmd_write \<lparr>g_fs = g, g_cwd = [0x2F]\<rparr> (Some (str ''a hello'')) = Some (str ''  wrote 5 bytes to /a'' @ NL, sh') \<and>
    cmd_cat sh' (Some (str ''a'')) = Some (str ''hello'' @ NL, sh'')"
proof -
  obtain f fs g ino where s: "xxfs_mkfs blank_file 64 False = (XXFS_OK, f)" "xxfs_mount f 0 = Some (Inr fs)"
    "xxfs_create fs [0x2F, 0x61] 420 0 0 = Some (XXFS_OK, g)" "fs_inv g" "icache_room g 8191"
    "icache_near g (xxh64 [0x2F, 0x61])" "inode_view g [0x2F, 0x61] = Some ino" "i_file_type ino = XXFS_FT_REG"
    "file_ok g ino" "file_bytes g ino = []" "i_blocks ino = 0" "i_size ino = 0"
    by (rule sample_file)
  let ?sh = "\<lparr>g_fs = g, g_cwd = [0x2F]\<rparr>" and ?t = "[0x68, 0x65, 0x6C, 0x6C, 0x6F] :: bytes"
  have st: "str ''a hello'' = [0x61] @ 0x20 # ?t" "str ''a'' = [0x61]" "str ''hello'' @ NL = ?t @ (if last ?t \<noteq> 0x0A then NL else [])"
    "str ''  wrote 5 bytes to /a'' @ NL = concat [str ''  wrote '', fmt_nat 10 (length ?t), str '' bytes to '', [0x2F, 0x61], NL]"
    by (simp_all add: str_def of_char_def fmt_nat.simps digit_def)
  have pr: "[0x2F, 0x61] = path_resolve (g_cwd ?sh) [0x61]"
    by (simp add: path_resolve_def snprintf_def XXFS_MAX_PATH_def strip_slashes.simps)
  have a: "fs_inv (g_fs ?sh)" "icache_room (g_fs ?sh) 2" "icache_near (g_fs ?sh) (xxh64 (path_normalize [0x2F, 0x61]))"
    "inode_view (g_fs ?sh) (path_normalize [0x2F, 0x61]) = Some ino" "i_file_type ino \<noteq> XXFS_FT_DIR" "file_ok (g_fs ?sh) ino"
    "can_write (g_fs ?sh) ino 0 ?t" "length (file_bytes (g_fs ?sh) ino) \<le> length ?t"
    using s by (simp_all add: icache_room_def can_write_def XXFS_FT_REG_def XXFS_FT_DIR_def sample_path)
  have b: "[0x61] \<noteq> ([] :: bytes)" "0x20 \<notin> set ([0x61] :: bytes)" "length ([0x61] :: bytes) < XXFS_MAX_PATH"
    "?t \<noteq> []" "0 \<notin> set ?t" "length ?t < 65536" by (simp_all add: XXFS_MAX_PATH_def)
  show ?thesis
    using write_then_cat [OF b pr a] s(1-3) unfolding st by blast
qed

end
