(* ===== verification/Fs_Mount.thy ===== *)
theory Fs_Mount
  imports Fs_Data
begin

text \<open>
  Unmounting and mounting again: what survives \<^verbatim>\<open>xxfs_umount\<close> is the index and the blocks outside it; what only the
  inode cache knows is lost. Directories with changed children are written back first.
\<close>

section \<open>A clean directory cache\<close>

text \<open>What a mount finds on the image that an unmount left: the same index, the same blocks but for the superblock
  and the page directory, and empty caches.\<close>

definition remounted :: "xxfs \<Rightarrow> xxfs \<Rightarrow> bool" where
  "remounted fs fs' \<longleftrightarrow> index_ok fs' \<and> index_abs fs' = index_abs fs \<and> index_unique fs' = index_unique fs \<and> chain_kv fs' = chain_kv fs \<and>
     free_blocks fs' = free_blocks fs \<and> isize fs \<le> isize fs' \<and> pristine fs' \<and> xxfs_count fs' = xxfs_count fs \<and>
     s_pdir_off (sb fs') = s_pdir_off (sb fs) \<and>
     (\<forall>r. outside fs r \<longrightarrow> outside fs' r) \<and>
     (\<forall>r. outside fs r \<longrightarrow> r \<noteq> 0 \<longrightarrow> r \<noteq> s_pdir_off (sb fs) \<longrightarrow> lblock fs' r = lblock fs r)"

text \<open>The image after \<^verbatim>\<open>pcache_flush_all\<close> and \<^verbatim>\<open>super_write\<close>, the common end of \<^verbatim>\<open>xxfs_umount\<close> and \<^verbatim>\<open>xxfs_sync\<close>.\<close>

definition saved :: "xxfs \<Rightarrow> os_file" where
  "saved fs = img (super_write (pcache_flush_all fs))"

lemma saved_image:
  assumes ok: "index_ok fs" and c: "can_unmount fs"
  obtains t where "t = seal_super ((sb fs)\<lparr>s_pdir_size := d_dir_size (pdir fs), s_pdir_depth := d_global_depth (pdir fs)\<rparr>)"
    and "fault_free (saved fs)" and "os_wf (saved fs)" and "isize fs \<le> os_size (saved fs)"
    and "\<And>r. blk r \<Longrightarrow> r \<noteq> 0 \<Longrightarrow> r \<noteq> s_pdir_off (sb fs) \<Longrightarrow> peek (saved fs) (unat r) 4096 = lblock fs r"
    and "\<And>f. only_calls (saved fs) f \<Longrightarrow> \<exists>fs'. xxfs_mount f flg = Some (Inr fs') \<and> sb fs' = t \<and> pdir fs' = pdir fs \<and> only_calls f (img fs') \<and>
      pcache fs' = (\<lambda>_. zero_paged_cache) \<and> flags fs' = flg \<and> pristine fs'"
proof -
  let ?o = "s_pdir_off (sb fs)"
  have c': "wf_super (sb fs)" "s_magic (sb fs) = XXFS_MAGIC" "?o \<noteq> 0" "outside fs ?o" "unat (d_dir_size (pdir fs)) \<le> 512"
    using c by (simp_all add: can_unmount_def)
  have bo: "blk ?o" using c'(4) by (simp add: outside_def foreign_def)
  have b0: "blk 0" by (simp add: blk_def)
  have o4: "4096 \<le> unat ?o" using blk_apart [OF bo b0 c'(3)] by simp
  note pc = pages_invD(1) [OF index_okD(3) [OF ok]] and fl = flush_all_ok [OF pages_invD(1) [OF index_okD(3) [OF ok]]]
  define g where "g = pcache_flush_all fs"
  obtain fi pc' where g: "g = fs\<lparr>img := fi, pcache := pc'\<rparr>" and gs: "isize fs \<le> isize g" and gl: "\<And>r. blk r \<Longrightarrow> lblock g r = lblock fs r"
    using fl(2) unfolding g_def [symmetric] same_blocks_def by blast
  have gf: "sb g = sb fs" "pdir g = pdir fs" by (simp_all add: g)
  have gp: "fault_free (img g)" "os_wf (img g)" using fl(1) by (simp_all add: g_def pc_inv_def)
  have dl: "unat (d_dir_size (pdir g)) = length (d_page_off (pdir g))" "length (d_page_off (pdir g)) \<le> 512" "0 < d_dir_size (pdir g)"
    using index_okD(2) [OF ok] c'(5) by (auto simp: dir_inv_def gf word_less_nat_alt)
  have so: "s64_ok (s_pdir_off (sb g)) 4096" using bo by (simp add: s64_ok_def blk_def gf)
  obtain f1 t where w: "super_write g = g\<lparr>img := f1, sb := t\<rparr>"
    and f1: "f1 = poke ((\<lambda>f. f\<lparr>os_calls := Suc (os_calls f)\<rparr>) (poke (img (tick g)) (unat (s_pdir_off (sb g))) (enc_array (enc_le 8) (d_page_off (pdir g))))) 0 (enc_super t)"
    and ln: "length (enc_super t) = 4096" "length (enc_array (enc_le 8) (d_page_off (pdir g))) \<le> 4096"
    and t: "t = seal_super ((sb g)\<lparr>s_pdir_size := d_dir_size (pdir g), s_pdir_depth := d_global_depth (pdir g)\<rparr>)"
    and m: "\<And>f. only_calls f1 f \<Longrightarrow> \<exists>fs'. xxfs_mount f flg = Some (Inr fs') \<and> sb fs' = t \<and> pdir fs' = pdir g \<and> only_calls f (img fs') \<and>
      pcache fs' = (\<lambda>_. zero_paged_cache) \<and> flags fs' = flg \<and> mounted fs' \<and> icache fs' = (\<lambda>_. zero_icache_entry) \<and>
      icache_cap fs' = ICACHE_CAP_INIT \<and> icache_mask fs' = ICACHE_CAP_INIT - 1 \<and> icache_count fs' = 0 \<and>
      dcache fs' = (\<lambda>_. zero_dir_cache_entry)"
    by (rule super_write_mounts [of g flg, OF gp(1) _ _ dl(3,1,2) _ so]) (use c' o4 gf in auto)
  have sv: "saved fs = f1" by (simp add: saved_def g_def [symmetric] w)
  have pk: "peek f1 (unat r) 4096 = peek (img g) (unat r) 4096" if "blk r" "r \<noteq> 0" "r \<noteq> ?o" for r
    using blk_apart [OF that(1) b0 that(2)] blk_apart [OF that(1) bo that(3)] ln unfolding f1 gf
    by (subst peek_poke_other, simp, simp) (subst peek_poke_other, linarith, simp)
  show thesis
  proof (rule that)
    show "peek (saved fs) (unat r) 4096 = lblock fs r" if "blk r" "r \<noteq> 0" "r \<noteq> ?o" for r
      using pk [OF that] gl [OF that(1)] flush_all_ok(3) [OF pc] by (simp add: sv g_def)
    show "isize fs \<le> os_size (saved fs)" unfolding sv f1 using gs by (simp add: poke_def max.coboundedI1)
    show "os_wf (saved fs)" unfolding sv f1 using gp(2) by (simp add: os_wf_poke)
    show "fault_free (saved fs)" unfolding sv f1 using gp(1) by simp
    show "\<exists>fs'. xxfs_mount f flg = Some (Inr fs') \<and> sb fs' = t \<and> pdir fs' = pdir fs \<and> only_calls f (img fs') \<and>
      pcache fs' = (\<lambda>_. zero_paged_cache) \<and> flags fs' = flg \<and> pristine fs'" if "only_calls (saved fs) f" for f
      using m [of f] that unfolding sv gf pristine_def by blast
    show "t = seal_super ((sb fs)\<lparr>s_pdir_size := d_dir_size (pdir fs), s_pdir_depth := d_global_depth (pdir fs)\<rparr>)"
      using t by (simp add: gf)
  qed
qed

text \<open>Mounting the saved image.\<close>

lemma saved_mounts:
  assumes ok: "index_ok fs" and c: "can_unmount fs" and oc: "only_calls (saved fs) f"
  obtains fs' where "xxfs_mount f flg = Some (Inr fs')" and "remounted fs fs'" and "can_unmount fs'" and "flags fs' = flg"
proof -
  let ?o = "s_pdir_off (sb fs)"
  have c': "wf_super (sb fs)" "outside fs ?o" using c by (simp_all add: can_unmount_def)
  obtain t where t: "t = seal_super ((sb fs)\<lparr>s_pdir_size := d_dir_size (pdir fs), s_pdir_depth := d_global_depth (pdir fs)\<rparr>)"
    and si: "fault_free (saved fs)" "os_wf (saved fs)" "isize fs \<le> os_size (saved fs)"
    and pk: "\<And>r. blk r \<Longrightarrow> r \<noteq> 0 \<Longrightarrow> r \<noteq> ?o \<Longrightarrow> peek (saved fs) (unat r) 4096 = lblock fs r"
    and m: "\<And>f. only_calls (saved fs) f \<Longrightarrow> \<exists>fs'. xxfs_mount f flg = Some (Inr fs') \<and> sb fs' = t \<and> pdir fs' = pdir fs \<and> only_calls f (img fs') \<and>
      pcache fs' = (\<lambda>_. zero_paged_cache) \<and> flags fs' = flg \<and> pristine fs'"
    by (rule saved_image [OF ok c, of flg]) blast
  obtain fs' where mo: "xxfs_mount f flg = Some (Inr fs')" and sf: "sb fs' = t" "pdir fs' = pdir fs" "only_calls f (img fs')"
    "pcache fs' = (\<lambda>_. zero_paged_cache)" "flags fs' = flg" "pristine fs'"
    using m [OF oc] by blast
  have im: "peek (img fs') = peek (saved fs)" "isize fs' = os_size (saved fs)" "fault_free (img fs')" "os_wf (img fs')"
    using oc sf(3) si by (auto simp: only_calls_def)
  have un: "cached fs' r = None" for r by (simp add: cached_def sf(4) zero_paged_cache_def)
  have pcx: "pc_inv fs'" using im by (simp add: pc_inv_def sf(4) slot_ok_def zero_paged_cache_def)
  have wfs: "wf_super ((sb fs)\<lparr>s_pdir_size := d_dir_size (pdir fs), s_pdir_depth := d_global_depth (pdir fs)\<rparr>)" using c'(1) by simp
  note tp = seal_super_props [OF wfs, folded t]
  have al: "alloc_same (sb fs) (sb fs')" using tp by (simp add: alloc_same_def sf(1))
  have fr: "alloc_frontier fs' = alloc_frontier fs" using al by (simp add: alloc_frontier_def alloc_same_def)
  have lb: "lblock fs' r = lblock fs r" if "blk r" "r \<noteq> 0" "r \<noteq> ?o" for r
    using pk [OF that] by (simp add: lblock_def [of fs'] un im(1))
  have sz: "isize fs \<le> isize fs'" using si(3) im(2) by simp
  have sv: "super_inv (sb fs')" using alloc_same_inv [OF al] pages_invD(2) [OF index_okD(3) [OF ok]] by simp
  have fr': "alloc_frontier fs \<le> alloc_frontier fs'" using fr by simp
  have ca: "cached fs r \<noteq> None" if "cached fs' r \<noteq> None" for r using un that by simp
  have bl: "lblock fs' r = lblock fs r" if "allocd fs r" "\<not> outside fs r" for r
    using lb [of r] that c'(2) by (auto simp: allocd_def)
  note k = index_kept [OF ok pcx sv fr' sz sf(2) ca bl]
  have ou: "outside fs' r \<longleftrightarrow> outside fs r" for r
    using k(6) [of r] fr by (simp add: outside_def [of fs] foreign_def [of fs])
  have "remounted fs fs'"
    unfolding remounted_def
  proof (intro conjI allI impI)
    show "free_blocks fs' = free_blocks fs" using al by (simp add: alloc_same_def)
    show "xxfs_count fs' = xxfs_count fs" using tp by (simp add: xxfs_count_def sf(1))
    show "s_pdir_off (sb fs') = ?o" using tp by (simp add: sf(1))
    show "lblock fs' r = lblock fs r" if "outside fs r" "r \<noteq> 0" "r \<noteq> ?o" for r
      using that by (intro lb) (simp_all add: outside_def foreign_def)
  qed (use k(1,3-5) ou sz sf(6) in simp_all)
  moreover have "can_unmount fs'" using tp c ou by (simp add: can_unmount_def sf(1,2))
  ultimately show thesis using that mo sf(5) by blast
qed

lemma saved_synced:
  assumes "index_ok fs" and "can_unmount fs"
  shows "only_calls (saved fs) (snd (xxfs_os_file_sync (saved fs)))"
proof -
  have "fault_free (saved fs)" by (rule saved_image [OF assms]) blast
  then show ?thesis by (auto simp: xxfs_os_file_sync_def os_call_ok only_calls_def)
qed

lemma remount_law:
  assumes ok: "index_ok fs" and c: "can_unmount fs" and clean: "\<And>i. \<not> de_dirty (dcache fs i)"
  obtains f fs' where "xxfs_umount fs = Some f" and "xxfs_mount f flg = Some (Inr fs')" and "remounted fs fs'" and "can_unmount fs'" and "flags fs' = flg"
proof -
  have "dcache_flush_from is fs = Some fs" for "is" using clean by (induction "is") simp_all
  then have u: "xxfs_umount fs = Some (snd (xxfs_os_file_sync (saved fs)))"
    by (simp add: xxfs_umount_def dcache_flush_all_def Let_def icache_destroy_def saved_def)
  show thesis by (rule saved_mounts [OF ok c saved_synced [OF ok c], of flg]) (rule that [OF u])
qed

section \<open>What survives\<close>

lemma remounted_extent:
  assumes ok: "index_ok fs" and r: "remounted fs fs'" and e: "extent_at fs off n" and off: "off \<noteq> 0"
    and np: "\<not> in_extent off n (s_pdir_off (sb fs))"
  shows "extent_at fs' off n" "a + m \<le> n * 4096 \<Longrightarrow> peek (img fs') (unat off + a) m = peek (img fs) (unat off + a) m"
proof -
  note r' = r [unfolded remounted_def]
  have i: "index_ok fs'" using r' by blast
  have sp: "outside fs' (of_nat (unat off + i * 4096)) \<and> lblock fs' (of_nat (unat off + i * 4096)) = lblock fs (of_nat (unat off + i * 4096))"
    if "i < n" for i
  proof -
    let ?r = "of_nat (unat off + i * 4096) :: u64"
    have u: "unat ?r = unat off + i * 4096" by (rule unat_extent_block [OF e that])
    then have "?r \<noteq> 0" using off by (metis add_eq_0_iff_both_eq_0 unat_0 word_unat_eq_iff)
    moreover have "?r \<noteq> s_pdir_off (sb fs)" using np that u unfolding in_extent_def by metis
    moreover have "outside fs ?r" using e that by (simp add: extent_at_def)
    ultimately show ?thesis using r' by blast
  qed
  note s = extent_same [OF ok i e sp]
  show "extent_at fs' off n" by (rule s(1))
  show "a + m \<le> n * 4096 \<Longrightarrow> peek (img fs') (unat off + a) m = peek (img fs) (unat off + a) m"
    by (rule extent_bytes_same [OF s(2)])
qed

lemma remounted_view:
  assumes "fs_base fs" and "remounted fs fs'"
  shows "fs_inv fs'" "icache_room fs' 8192" "inode_view fs' = index_inode fs" "index_inode fs' = index_inode fs" "dir_inode fs' = index_inode fs"
    "dcache_find fs' dir = None"
proof -
  note r = assms(2) [unfolded remounted_def]
  have "inode_sized fs'" using assms(1) r by (simp add: fs_base_def inode_sized_def)
  then have p: "fs_inv fs'" "icache_room fs' 8192" "cached_inode fs' h = None" "dcache_find fs' d = None" for h d
    using pristine_inv [of fs'] r by blast+
  show ix: "index_inode fs' = index_inode fs" using r by (simp add: index_inode_def fun_eq_iff)
  show "fs_inv fs'" "icache_room fs' 8192" "dcache_find fs' dir = None" using p by blast+
  show "inode_view fs' = index_inode fs" "dir_inode fs' = index_inode fs"
    by (simp_all add: inode_view_def dir_inode_def p(3) ix fun_eq_iff)
qed

text \<open>Files keep their bytes, unless their extent runs over the page directory.\<close>

lemma remounted_file:
  assumes ok: "index_ok fs" and r: "remounted fs fs'" and f: "file_ok fs ino"
    and np: "\<not> in_extent (i_extent_off ino) (unat (i_blocks ino)) (s_pdir_off (sb fs))"
  shows "file_ok fs' ino" "file_bytes fs' ino = file_bytes fs ino"
proof -
  have "file_ok fs' ino \<and> file_bytes fs' ino = file_bytes fs ino"
  proof (cases "i_blocks ino = 0")
    case False
    then have e: "i_extent_off ino \<noteq> 0" "extent_at fs (i_extent_off ino) (unat (i_blocks ino))"
      "0 + unat (i_size ino) \<le> unat (i_blocks ino) * 4096" "unat (i_extent_off ino) + unat (i_size ino) \<le> isize fs"
      using f by (simp_all add: file_ok_def)
    have "isize fs \<le> isize fs'" using r by (simp add: remounted_def)
    then show ?thesis
      using f e False remounted_extent(1) [OF ok r e(2,1) np] remounted_extent(2) [OF ok r e(2,1) np e(3)]
      by (simp add: file_ok_def file_bytes_def)
  qed (use f in \<open>simp add: file_ok_def file_bytes_def\<close>)
  then show "file_ok fs' ino" "file_bytes fs' ino = file_bytes fs ino" by blast+
qed

text \<open>C12: \<^verbatim>\<open>xxfs_umount\<close> followed by \<^verbatim>\<open>xxfs_mount\<close> restores exactly what the index holds, provided that no directory has unsaved
  children: the mount succeeds, the invariants hold, every path has the inode that is stored in the index (so that a change
  that only the inode cache knows is lost), the inode counter is the same and the bytes of every file whose blocks are
  outside the index and apart from the page directory are kept.\<close>

theorem remount_keeps_index:
  assumes "fs_inv fs" and "can_unmount fs" and "\<And>i. \<not> de_dirty (dcache fs i)"
  shows "\<exists>f fs'. xxfs_umount fs = Some f \<and> xxfs_mount f flg = Some (Inr fs') \<and> fs_inv fs' \<and> can_unmount fs' \<and>
    inode_view fs' = index_inode fs \<and> xxfs_count fs' = xxfs_count fs \<and>
    (\<forall>ino. file_ok fs ino \<and> \<not> in_extent (i_extent_off ino) (unat (i_blocks ino)) (s_pdir_off (sb fs)) \<longrightarrow>
      file_ok fs' ino \<and> file_bytes fs' ino = file_bytes fs ino)"
proof -
  obtain f fs' where m: "xxfs_umount fs = Some f" "xxfs_mount f flg = Some (Inr fs')" "remounted fs fs'" "can_unmount fs'"
    by (rule remount_law [OF fs_invD(1) [OF assms(1)] assms(2,3), of flg])
  note v = remounted_view [OF fs_invD(4) [OF assms(1)] m(3)]
  have "xxfs_count fs' = xxfs_count fs" using m(3) by (simp add: remounted_def)
  then show ?thesis using m v remounted_file [OF fs_invD(1) [OF assms(1)] m(3)] by blast
qed

theorem remount_keeps_index_witness:
  "\<exists>f fs now f' fs'. xxfs_mkfs blank_file 64 False = (XXFS_OK, f) \<and> xxfs_mount f 0 = Some (Inr fs) \<and>
    xxfs_umount fs = Some f' \<and> xxfs_mount f' 0 = Some (Inr fs') \<and> inode_view fs' [0x2F] = Some (mkfs_root now)"
proof -
  obtain f fs now where m: "xxfs_mkfs blank_file 64 False = (XXFS_OK, f)" "xxfs_mount f 0 = Some (Inr fs)" "fresh_mounted fs now"
    by (rule sample_mounted)
  have "\<not> de_dirty (dcache fs i)" for i using m(3) by (simp add: fresh_mounted_def pristine_def zero_dir_cache_entry_def)
  moreover have "fs_inv fs" "can_unmount fs" "index_inode fs [0x2F] = Some (mkfs_root now)" using m(3) by (simp_all add: fresh_mounted_def)
  ultimately show ?thesis using remount_keeps_index [of fs 0] m(1,2) by fastforce
qed

end
