(* ===== verification/Fs_Sync.thy ===== *)
theory Fs_Sync
  imports Fs_Mount
begin

text \<open>
  Durability: \<^verbatim>\<open>xxfs_sync\<close> stores every changed inode of the cache in the index (\<^verbatim>\<open>icache_flush_all\<close>) and writes the image, so that
  a mount of the image, without an unmount before it, finds what was synced.
\<close>

section \<open>Changing inodes in their slots\<close>

text \<open>Two caches with the same slots, that may differ in inodes and dirty flags.\<close>

definition same_shape :: "xxfs \<Rightarrow> xxfs \<Rightarrow> bool" where
  "same_shape fs fs' \<longleftrightarrow> icache_mask fs' = icache_mask fs \<and> icache_cap fs' = icache_cap fs \<and> icache_count fs' = icache_count fs \<and>
     (\<forall>i. ic_ctrl (icache fs' i) = ic_ctrl (icache fs i) \<and> ic_hash (icache fs' i) = ic_hash (icache fs i) \<and>
       ic_key (icache fs' i) = ic_key (icache fs i))"

lemma same_shape_refl [simp]: "same_shape fs fs"
  by (simp add: same_shape_def)

lemma same_shape_trans: "same_shape a b \<Longrightarrow> same_shape b c \<Longrightarrow> same_shape a c"
  by (simp add: same_shape_def)

lemma same_shapeD:
  assumes "same_shape fs fs'"
  shows "icache_inv fs' = icache_inv fs" "in_use fs' = in_use fs" "icache_cap fs' = icache_cap fs"
    "ic_key (icache fs' i) = ic_key (icache fs i)" "ic_hash (icache fs' i) = ic_hash (icache fs i)" "icache_lookup fs' = icache_lookup fs"
proof -
  note s = assms [unfolded same_shape_def]
  show u: "in_use fs' = in_use fs" using s by (simp add: in_use_def fun_eq_iff)
  have h: "icache_home fs' = icache_home fs" using s by (simp add: icache_home_def fun_eq_iff)
  have p: "probe_pos fs' idx n = probe_pos fs idx n" for idx n by (rule probe_pos_cong) (use s in simp)
  have t: "taken fs' = taken fs" using s by (simp add: taken_def fun_eq_iff)
  have "sits_at fs' = sits_at fs" unfolding sits_at_def u h p t using s by simp
  then show "icache_inv fs' = icache_inv fs" unfolding icache_inv_def u icache_tagged_def using s by simp
  have "icache_probe k fs' hash idx = icache_probe k fs hash idx" for k hash idx
    using s by (induction k arbitrary: idx) (simp_all add: Let_def)
  then show "icache_lookup fs' = icache_lookup fs" by (simp add: icache_lookup_def h fun_eq_iff)
qed (use assms in \<open>simp_all add: same_shape_def\<close>)

text \<open>Different slots hold different hashes.\<close>

lemma slots_differ:
  assumes inv: "icache_inv fs" and u: "in_use fs i" "in_use fs j" and b: "i < unat (icache_cap fs)" "j < unat (icache_cap fs)" and ne: "i \<noteq> j"
  shows "ic_hash (icache fs i) \<noteq> ic_hash (icache fs j)"
proof
  assume h: "ic_hash (icache fs i) = ic_hash (icache fs j)"
  obtain n m where s: "sits_at fs (ic_hash (icache fs i)) n (of_nat i)" "sits_at fs (ic_hash (icache fs j)) m (of_nat j)"
    using icache_inv_sits [OF inv] u b by blast
  then have "(of_nat i :: u32) = of_nat j" using sits_at_unique h by metis
  moreover have "unat (icache_cap fs) < 2 ^ 32" using unsigned_less [of "icache_cap fs"] by simp
  then have "unat (of_nat i :: u32) = i" "unat (of_nat j :: u32) = j" using b by (simp_all add: unat_of_nat)
  ultimately show False using ne by metis
qed

section \<open>Storing one changed inode\<close>

definition due :: "xxfs \<Rightarrow> nat \<Rightarrow> bool" where
  "due fs i \<longleftrightarrow> in_use fs i \<and> ic_dirty (icache fs i)"

text \<open>The entry has the path that its hash belongs to, the index can take it, and its inode is well-formed.\<close>

definition storable :: "xxfs \<Rightarrow> nat \<Rightarrow> bytes \<Rightarrow> bool" where
  "storable fs i p \<longleftrightarrow> ic_key (icache fs i) = Some p \<and> xxh64 p = ic_hash (icache fs i) \<and> length p \<le> 3528 \<and>
     collision_free p (chain_kv fs p) \<and> wf_inode (ic_inode (icache fs i))"

text \<open>The write-back stamps the inode with the time of the write-back and seals it again.\<close>

definition restamped :: "xxfs_inode \<Rightarrow> xxfs_inode \<Rightarrow> bool" where
  "restamped ino ino' \<longleftrightarrow> (\<exists>t. ino' = inode_set_checksum_ecc (ino\<lparr>i_mtime := t, i_ctime := t\<rparr>))"

definition slot_flushed :: "xxfs \<Rightarrow> nat \<Rightarrow> bytes \<Rightarrow> xxfs \<Rightarrow> bool" where
  "slot_flushed fs i p fs' \<longleftrightarrow> fs_inv fs' \<and> same_shape fs fs' \<and> restamped (ic_inode (icache fs i)) (ic_inode (icache fs' i)) \<and> \<not> due fs' i \<and>
     (\<forall>j. j \<noteq> i \<longrightarrow> icache fs' j = icache fs j) \<and> index_inode fs' = (index_inode fs)(p \<mapsto> ic_inode (icache fs' i)) \<and>
     dcache fs' = dcache fs \<and> sb_kept (sb fs) (sb fs') \<and> index_spares fs fs' \<and> adds_key fs p fs' \<and> free_blocks fs \<le> free_blocks fs' + 3"

lemma ctrl_valid: "icache_ctrl h AND ICACHE_CTRL_VALID \<noteq> 0"
proof
  assume "icache_ctrl h AND ICACHE_CTRL_VALID = 0"
  then have "bit (icache_ctrl h AND ICACHE_CTRL_VALID) 7 = bit (0 :: u8) 7" by simp
  then show False by (simp add: icache_ctrl_def icache_consts bit_simps)
qed

lemma flush_slot_law:
  assumes inv: "fs_inv fs" and d: "due fs i" and s: "storable fs i p" and free: "3 \<le> free_blocks fs"
  obtains fs' where "icache_flush_entry fs i = Some fs'" and "slot_flushed fs i p fs'"
proof -
  let ?e = "icache fs i"
  let ?t = "os_clock (img fs) (os_calls (img fs))"
  let ?i = "(ic_inode ?e)\<lparr>i_mtime := ?t, i_ctime := ?t\<rparr>"
  let ?s = "inode_set_checksum_ecc ?i"
  have s': "ic_key ?e = Some p" "length p \<le> 3528" "collision_free p (chain_kv fs p)" "wf_inode (ic_inode ?e)" using s by (simp_all add: storable_def)
  have c: "ic_ctrl ?e \<noteq> ICACHE_CTRL_EMPTY" "ic_ctrl ?e AND ICACHE_CTRL_VALID \<noteq> 0" "ic_dirty ?e"
    using d fs_invD(3) [OF inv] ctrl_valid [of "ic_hash ?e"] by (auto simp: due_def in_use_def icache_inv_def icache_tagged_def)
  have ns: "ns_same fs (tick fs)" by (rule tick_ns [OF fs_invD(4) [OF inv]])
  note n = ns_sameD [OF ns] and si = same_indexD [OF ns_sameD(2) [OF ns]]
  have wf: "wf_inode ?i" using s'(4) by (simp add: wf_inode_def)
  have inv1: "fs_inv (tick fs)" using n inv by (simp add: fs_inv_def)
  have st: "can_store (tick fs) p" using s' free si by (simp add: can_store_def)
  obtain g where g: "paged_put (tick fs) p (inode_to_val ?s) = Some (XXFS_OK, g)" "stored (tick fs) p ?s g"
    by (rule inode_put_law [OF inv1 st wf_seal [OF wf]])
  let ?fs = "g\<lparr>icache := (icache g)(i := ?e\<lparr>ic_inode := ?s, ic_dirty := False\<rparr>)\<rparr>"
  note sd = g(2) [unfolded stored_def]
  have r: "rest g = rest (tick fs)" and ig: "fs_inv g" using sd by blast+
  note rd = restD [OF r]
  have res: "icache_flush_entry fs i = Some ?fs"
    using c s'(1) g(1) by (simp add: icache_flush_entry_def icache_write_entry_def Let_def fs_time_tick)
  have cg: "calm g ?fs" by (rule calm_core) (simp add: same_core_def alloc_same_def)
  have sg: "same_index g ?fs" by (rule calm_same [OF cg fs_invD(1) [OF ig]])
  have sh: "same_shape fs ?fs" using rd by (simp add: same_shape_def)
  have "slot_flushed fs i p ?fs"
    unfolding slot_flushed_def
  proof (intro conjI allI impI)
    show "fs_inv ?fs" using ig same_indexD [OF sg] same_shapeD(1) [OF sh] fs_invD(3) [OF inv] by (simp add: fs_inv_def fs_base_def)
    show "restamped (ic_inode ?e) (ic_inode (icache ?fs i))" by (auto simp: restamped_def)
    show "index_inode ?fs = (index_inode fs)(p \<mapsto> ic_inode (icache ?fs i))"
      using same_indexD(3) [OF sg] stored_view(1) [OF g(2) wf] si(3) by simp
    show "sb_kept (sb fs) (sb ?fs)" using rest_sb_kept [OF r] by simp
    show "index_spares fs ?fs" using index_spares_trans [OF si(8) index_spares_trans] same_indexD(8) [OF sg] sd by blast
    show "adds_key fs p ?fs" using same_adds_key [OF n(2) adds_key_same [OF _ sg]] sd by blast
    show "free_blocks fs \<le> free_blocks ?fs + 3" using sd si(7) by simp
  qed (use sh rd in \<open>simp_all add: due_def\<close>)
  then show thesis by (rule that [OF res])
qed

section \<open>Storing all of them\<close>

text \<open>After the slots of the list have been gone through: every due slot among them is stored in the index under its path, and no
  other path has changed.\<close>

definition slots_flushed :: "xxfs \<Rightarrow> nat list \<Rightarrow> xxfs \<Rightarrow> bool" where
  "slots_flushed fs is fs' \<longleftrightarrow> fs_inv fs' \<and> same_shape fs fs' \<and>
     (\<forall>i \<in> set is. due fs i \<longrightarrow> restamped (ic_inode (icache fs i)) (ic_inode (icache fs' i)) \<and>
       (\<forall>p. ic_key (icache fs i) = Some p \<longrightarrow> index_inode fs' p = Some (ic_inode (icache fs' i)))) \<and>
     (\<forall>i. i \<notin> set is \<or> \<not> due fs i \<longrightarrow> icache fs' i = icache fs i) \<and>
     (\<forall>p. (\<forall>i \<in> set is. due fs i \<longrightarrow> ic_key (icache fs i) \<noteq> Some p) \<longrightarrow> index_inode fs' p = index_inode fs p) \<and>
     dcache fs' = dcache fs \<and> sb_kept (sb fs) (sb fs') \<and> index_spares fs fs' \<and> d_dir_size (pdir fs') = d_dir_size (pdir fs) \<and>
     (\<forall>q. fst ` set (chain_kv fs' q) \<subseteq> fst ` set (chain_kv fs q) \<union> {p. \<exists>i \<in> set is. due fs i \<and> ic_key (icache fs i) = Some p}) \<and>
     free_blocks fs \<le> free_blocks fs' + 3 * length (filter (due fs) is)"

text \<open>What the flush needs: every changed entry can be stored, and the index has three free blocks for each.\<close>

definition can_flush_slots :: "xxfs \<Rightarrow> nat list \<Rightarrow> bool" where
  "can_flush_slots fs is \<longleftrightarrow> (\<forall>i \<in> set is. i < unat (icache_cap fs) \<and> (due fs i \<longrightarrow> (\<exists>p. storable fs i p))) \<and>
     3 * length (filter (due fs) is) \<le> free_blocks fs"

lemma can_flush_step:
  assumes inv: "fs_inv fs" and c: "can_flush_slots fs (i # is)" and d: "due fs i" and dis: "i \<notin> set is"
    and f: "slot_flushed fs i p fs'" and p: "storable fs i p"
  shows "can_flush_slots fs' is" and "\<And>j. j \<in> set is \<Longrightarrow> due fs' j = due fs j"
proof -
  note s = f [unfolded slot_flushed_def]
  have sh: "same_shape fs fs'" and ak: "adds_key fs p fs'" and oth: "\<And>j. j \<noteq> i \<Longrightarrow> icache fs' j = icache fs j" using s by blast+
  note h = same_shapeD [OF sh]
  show du: "due fs' j = due fs j" if "j \<in> set is" for j using that dis oth [of j] h(2) by (cases "j = i") (auto simp: due_def)
  have st: "storable fs' j q" if j: "j \<in> set is" "due fs j" "storable fs j q" for j q
  proof -
    have "ic_hash (icache fs i) \<noteq> ic_hash (icache fs j)"
      by (rule slots_differ [OF fs_invD(3) [OF inv]]) (use c d j dis in \<open>auto simp: due_def can_flush_slots_def\<close>)
    then have "xxh64 p \<noteq> xxh64 q" using p j(3) by (simp add: storable_def)
    then show ?thesis using j oth [of j] dis adds_collision_free [OF ak] by (cases "j = i") (auto simp: storable_def)
  qed
  have "filter (due fs') is = filter (due fs) is" using du by (intro filter_cong) simp_all
  moreover have "free_blocks fs \<le> free_blocks fs' + 3" using s by blast
  moreover have "\<exists>q. storable fs' j q" if "j \<in> set is" "due fs' j" for j
    using that st du c by (fastforce simp: can_flush_slots_def)
  ultimately show "can_flush_slots fs' is" using c d h(3) by (auto simp: can_flush_slots_def)
qed

text \<open>No other changed entry has the same path.\<close>

lemma keys_differ:
  assumes inv: "fs_inv fs" and c: "can_flush_slots fs (i # is)" and d: "due fs i" "due fs j" and dis: "i \<notin> set is" "j \<in> set is"
    and p: "storable fs i p"
  shows "ic_key (icache fs j) \<noteq> Some p"
proof
  assume k: "ic_key (icache fs j) = Some p"
  obtain q where "storable fs j q" using c d(2) dis(2) by (auto simp: can_flush_slots_def)
  then have "ic_hash (icache fs i) = ic_hash (icache fs j)" using p k by (simp add: storable_def)
  moreover have "ic_hash (icache fs i) \<noteq> ic_hash (icache fs j)"
    by (rule slots_differ [OF fs_invD(3) [OF inv]]) (use c d dis in \<open>auto simp: due_def can_flush_slots_def\<close>)
  ultimately show False by simp
qed

lemma subset_insert_chain: "B \<subseteq> insert p C \<Longrightarrow> A \<subseteq> B \<union> K \<Longrightarrow> L = insert p K \<Longrightarrow> A \<subseteq> C \<union> L"
  by blast

lemma slots_flushed_Cons:
  assumes inv: "fs_inv fs" and c: "can_flush_slots fs (i # is)" and d: "due fs i" and p: "storable fs i p" and dis: "i \<notin> set is"
    and f: "slot_flushed fs i p g" and r: "slots_flushed g is fs'" and du: "\<And>j. j \<in> set is \<Longrightarrow> due g j = due fs j"
  shows "slots_flushed fs (i # is) fs'"
proof -
  note s = f [unfolded slot_flushed_def] and t = r [unfolded slots_flushed_def]
  have sg: "same_shape fs g" and sf: "same_shape g fs'" using s t by blast+
  have oth: "icache g j = icache fs j" if "j \<noteq> i" for j using s that by blast
  have oth': "icache g j = icache fs j" if "j \<in> set is" for j using oth [of j] that dis by (cases "j = i") auto
  have gi: "icache fs' i = icache g i" using t dis by blast
  have kp: "ic_key (icache fs i) = Some p" using p by (simp add: storable_def)
  have ig: "index_inode g = (index_inode fs)(p \<mapsto> ic_inode (icache g i))" using s by blast
  have nk: "\<forall>j \<in> set is. due g j \<longrightarrow> ic_key (icache g j) \<noteq> Some p"
    using keys_differ [OF inv c d _ dis _ p] du oth' by simp
  then have ip: "index_inode fs' p = Some (ic_inode (icache fs' i))" using t ig gi by simp
  show ?thesis
    unfolding slots_flushed_def
  proof (intro conjI allI impI ballI)
    show "same_shape fs fs'" by (rule same_shape_trans [OF sg sf])
    have "sb_kept (sb fs) (sb g)" "index_spares fs g" using s by blast+
    moreover have "sb_kept (sb g) (sb fs')" using t by (elim conjE)
    moreover have "index_spares g fs'" using t by (elim conjE)
    ultimately show "sb_kept (sb fs) (sb fs')" "index_spares fs fs'" using sb_kept_trans index_spares_trans by blast+
    show "d_dir_size (pdir fs') = d_dir_size (pdir fs)" using s t by (simp add: adds_key_def)
    have "filter (due g) is = filter (due fs) is" using du by (intro filter_cong) simp_all
    moreover have "free_blocks g \<le> free_blocks fs' + 3 * length (filter (due g) is)" "free_blocks fs \<le> free_blocks g + 3" using s t by blast+
    ultimately show "free_blocks fs \<le> free_blocks fs' + 3 * length (filter (due fs) (i # is))" using d by simp
    show "fst ` set (chain_kv fs' q) \<subseteq> fst ` set (chain_kv fs q) \<union> {p. \<exists>i \<in> set (i # is). due fs i \<and> ic_key (icache fs i) = Some p}" for q
    proof -
      let ?K = "{p. \<exists>i \<in> set is. due fs i \<and> ic_key (icache fs i) = Some p}"
      have a: "fst ` set (chain_kv g q) \<subseteq> insert p (fst ` set (chain_kv fs q))" using s by (simp add: adds_key_def)
      have "{p. \<exists>i \<in> set is. due g i \<and> ic_key (icache g i) = Some p} = ?K" using du oth' by auto
      with t have b: "fst ` set (chain_kv fs' q) \<subseteq> fst ` set (chain_kv g q) \<union> ?K" by metis
      have "{p. \<exists>i \<in> set (i # is). due fs i \<and> ic_key (icache fs i) = Some p} = insert p ?K" using d kp by auto
      then show ?thesis by (rule subset_insert_chain [OF a b])
    qed
    show "restamped (ic_inode (icache fs j)) (ic_inode (icache fs' j))" if "j \<in> set (i # is)" "due fs j" for j
      using that s t gi du oth' by (cases "j = i") auto
    show "index_inode fs' q = Some (ic_inode (icache fs' j))" if "j \<in> set (i # is)" "due fs j" "ic_key (icache fs j) = Some q" for j q
      using that t kp ip du oth' by (cases "j = i") auto
    show "icache fs' j = icache fs j" if "j \<notin> set (i # is) \<or> \<not> due fs j" for j
      using that t d oth [of j] du [of j] by (cases "j = i") auto
    show "index_inode fs' q = index_inode fs q" if q: "\<forall>j \<in> set (i # is). due fs j \<longrightarrow> ic_key (icache fs j) \<noteq> Some q" for q
    proof -
      have "\<forall>j \<in> set is. due g j \<longrightarrow> ic_key (icache g j) \<noteq> Some q" using q du oth' by simp
      then have "index_inode fs' q = index_inode g q" using t by blast
      moreover have "q \<noteq> p" using q d kp by auto
      ultimately show ?thesis using ig by simp
    qed
  qed (use s t in simp_all)
qed

lemma flush_slots_law:
  assumes "fs_inv fs" and "can_flush_slots fs is" and "distinct is"
  shows "\<exists>fs'. icache_flush_from is fs = Some fs' \<and> slots_flushed fs is fs'"
  using assms
proof (induction "is" arbitrary: fs)
  case Nil
  have "index_spares fs fs" using same_indexD(8) [OF ns_sameD(2) [OF ns_same_refl [OF fs_invD(4) [OF Nil(1)]]]] .
  then show ?case using Nil(1) by (simp add: slots_flushed_def)
next
  case (Cons i "is")
  have dis: "i \<notin> set is" "distinct is" using Cons.prems(3) by simp_all
  show ?case
  proof (cases "due fs i")
    case True
    obtain p where p: "storable fs i p" using Cons.prems(2) True by (auto simp: can_flush_slots_def)
    have "3 \<le> free_blocks fs" using Cons.prems(2) True by (simp add: can_flush_slots_def)
    then obtain g where g: "icache_flush_entry fs i = Some g" "slot_flushed fs i p g"
      by (rule flush_slot_law [OF Cons.prems(1) True p])
    note st = can_flush_step [OF Cons.prems(1,2) True dis(1) g(2) p]
    have "fs_inv g" using g(2) by (simp add: slot_flushed_def)
    from Cons.IH [OF this st(1) dis(2)] obtain fs' where r: "icache_flush_from is g = Some fs'" "slots_flushed g is fs'" by blast
    have "slots_flushed fs (i # is) fs'" by (rule slots_flushed_Cons [OF Cons.prems(1,2) True p dis(1) g(2) r(2) st(2)])
    then show ?thesis using g(1) r(1) by simp
  next
    case False
    then have "icache_flush_entry fs i = Some fs" by (auto simp: icache_flush_entry_def due_def in_use_def Let_def)
    moreover have "can_flush_slots fs is" using Cons.prems(2) False by (simp add: can_flush_slots_def)
    from Cons.IH [OF Cons.prems(1) this dis(2)] obtain fs' where "icache_flush_from is fs = Some fs'" "slots_flushed fs is fs'" by blast
    ultimately show ?thesis using False by (auto simp: slots_flushed_def)
  qed
qed

section \<open>Durability\<close>

lemma mmap_refresh_calls:
  assumes "fault_free (img fs)"
  shows "only_calls (img fs) (img (xxfs_mmap_refresh fs))"
  using assms by (auto simp: xxfs_mmap_refresh_def xxfs_os_file_size_def xxfs_os_file_mmap_def os_call_ok only_calls_def Let_def split: prod.splits option.splits)

lemma restamped_fields:
  assumes "wf_inode ino" and "restamped ino ino'"
  shows "i_size ino' = i_size ino" "i_blocks ino' = i_blocks ino" "i_extent_off ino' = i_extent_off ino" "i_inline ino' = i_inline ino"
    "i_file_type ino' = i_file_type ino" "i_mode ino' = i_mode ino" "wf_inode ino'"
proof -
  obtain t where t: "ino' = inode_set_checksum_ecc (ino\<lparr>i_mtime := t, i_ctime := t\<rparr>)" using assms(2) by (auto simp: restamped_def)
  have wf: "wf_inode (ino\<lparr>i_mtime := t, i_ctime := t\<rparr>)" using assms(1) by (simp add: wf_inode_def)
  show "wf_inode ino'" unfolding t by (rule wf_seal [OF wf])
  note f = sealed_fields [OF wf]
  show "i_size ino' = i_size ino" "i_blocks ino' = i_blocks ino" "i_extent_off ino' = i_extent_off ino" "i_inline ino' = i_inline ino"
    "i_file_type ino' = i_file_type ino" "i_mode ino' = i_mode ino"
    using f by (simp_all add: t i_extent_off_def)
qed

lemma restamped_file:
  assumes "file_ok fs ino" and "restamped ino ino'"
  shows "file_ok fs ino'" "file_bytes fs ino' = file_bytes fs ino"
proof -
  have "wf_inode ino" using assms(1) by (simp add: file_ok_def)
  note r = restamped_fields [OF this assms(2)]
  show "file_ok fs ino'" "file_bytes fs ino' = file_bytes fs ino"
    using assms(1) unfolding file_ok_def file_bytes_def r(1-4) by (simp_all add: r(7))
qed

text \<open>The end of \<^verbatim>\<open>xxfs_sync\<close>, when the caches of inodes and directories have been written back.\<close>

lemma sync_saved:
  assumes f: "icache_flush_all fs = Some fs1" and d: "dcache_flush_all fs1 = Some g" and ok: "index_ok g" and u: "can_unmount g"
  obtains fs' fs2 where "xxfs_sync fs = Some (XXFS_OK, fs')" and "xxfs_mount (img fs') flg = Some (Inr fs2)" and "remounted g fs2" and "can_unmount fs2"
proof -
  let ?g = "(super_write (pcache_flush_all g))\<lparr>img := snd (xxfs_os_file_sync (saved g))\<rparr>"
  have sy: "xxfs_sync fs = Some (XXFS_OK, xxfs_mmap_refresh ?g)" using f d by (simp add: xxfs_sync_def Let_def saved_def)
  note oc = saved_synced [OF ok u]
  have "fault_free (saved g)" by (rule saved_image [OF ok u]) blast
  then have "fault_free (img ?g)" using oc by (auto simp: only_calls_def)
  from mmap_refresh_calls [OF this] oc have "only_calls (saved g) (img (xxfs_mmap_refresh ?g))" by (auto simp: only_calls_def)
  then obtain fs2 where "xxfs_mount (img (xxfs_mmap_refresh ?g)) flg = Some (Inr fs2)" "remounted g fs2" "can_unmount fs2"
    by (rule saved_mounts [OF ok u])
  then show thesis using that sy by blast
qed

lemma slots_flushed_unmount: "slots_flushed fs is fs1 \<Longrightarrow> can_unmount fs \<Longrightarrow> can_unmount fs1"
  using index_sparesD(1) [of fs fs1 "s_pdir_off (sb fs)"] by (simp add: slots_flushed_def can_unmount_def sb_kept_def)

lemma sync_law:
  assumes inv: "fs_inv fs" and u: "can_unmount fs" and clean: "\<And>j. \<not> de_dirty (dcache fs j)" and c: "can_flush_slots fs [0..<unat (icache_cap fs)]"
  obtains fs1 fs' fs2 where "slots_flushed fs [0..<unat (icache_cap fs)] fs1" and "xxfs_sync fs = Some (XXFS_OK, fs')"
    and "xxfs_mount (img fs') flg = Some (Inr fs2)" and "remounted fs1 fs2"
proof -
  obtain fs1 where f: "icache_flush_all fs = Some fs1" "slots_flushed fs [0..<unat (icache_cap fs)] fs1"
    using flush_slots_law [OF inv c] by (auto simp: icache_flush_all_def)
  have i1: "index_ok fs1" and dc: "dcache fs1 = dcache fs" using f(2) fs_invD(1) [of fs1] by (auto simp: slots_flushed_def)
  have "dcache_flush_from is fs1 = Some fs1" for "is" using clean dc by (induction "is") simp_all
  then have "dcache_flush_all fs1 = Some fs1" by (simp add: dcache_flush_all_def)
  then obtain fs' fs2 where "xxfs_sync fs = Some (XXFS_OK, fs')" "xxfs_mount (img fs') flg = Some (Inr fs2)" "remounted fs1 fs2"
    by (rule sync_saved [OF f(1) _ i1 slots_flushed_unmount [OF f(2) u]])
  then show thesis using that f(2) by blast
qed

text \<open>\<^verbatim>\<open>xxfs_sync\<close> makes the state durable: when no directory has unsaved children and the index can take the changed inodes, the
  call returns \<^verbatim>\<open>XXFS_OK\<close>, and a mount of the image as it is then, as after a crash, succeeds and finds for every changed inode of the
  cache that inode, with the times of the write-back, and the bytes of the file; all other paths have the inode that the
  index held before.\<close>

theorem sync_makes_durable:
  assumes inv: "fs_inv fs" and u: "can_unmount fs" and clean: "\<And>j. \<not> de_dirty (dcache fs j)" and c: "can_flush_slots fs [0..<unat (icache_cap fs)]"
  shows "\<exists>fs' fs2. xxfs_sync fs = Some (XXFS_OK, fs') \<and> xxfs_mount (img fs') flg = Some (Inr fs2) \<and> fs_inv fs2 \<and>
    (\<forall>i < unat (icache_cap fs). \<forall>p. due fs i \<and> ic_key (icache fs i) = Some p \<longrightarrow>
      (\<exists>ino'. inode_view fs2 p = Some ino' \<and> restamped (ic_inode (icache fs i)) ino' \<and>
        (file_ok fs (ic_inode (icache fs i)) \<and> \<not> in_extent (i_extent_off ino') (unat (i_blocks ino')) (s_pdir_off (sb fs)) \<longrightarrow>
          file_ok fs2 ino' \<and> file_bytes fs2 ino' = file_bytes fs (ic_inode (icache fs i))))) \<and>
    (\<forall>p. (\<forall>i < unat (icache_cap fs). due fs i \<longrightarrow> ic_key (icache fs i) \<noteq> Some p) \<longrightarrow> inode_view fs2 p = index_inode fs p)"
proof -
  obtain fs1 fs' fs2 where s: "slots_flushed fs [0..<unat (icache_cap fs)] fs1" "xxfs_sync fs = Some (XXFS_OK, fs')"
    "xxfs_mount (img fs') flg = Some (Inr fs2)" "remounted fs1 fs2"
    by (rule sync_law [OF assms, of flg])
  note f = s(1) [unfolded slots_flushed_def]
  have i1: "fs_inv fs1" and sp: "index_spares fs fs1" and sk: "sb_kept (sb fs) (sb fs1)" using f by blast+
  note v = remounted_view [OF fs_invD(4) [OF i1] s(4)]
  have kept: "file_ok fs2 ino' \<and> file_bytes fs2 ino' = file_bytes fs ino"
    if "file_ok fs ino" "restamped ino ino'" "\<not> in_extent (i_extent_off ino') (unat (i_blocks ino')) (s_pdir_off (sb fs))" for ino ino'
  proof -
    note r = restamped_file [OF that(1,2)]
    note k = file_bytes_spared [OF fs_invD(1) [OF inv] fs_invD(1) [OF i1] sp r(1)]
    show ?thesis
      using remounted_file [OF fs_invD(1) [OF i1] s(4) k(1)] that(3) sk k(2) r(2) by (simp add: sb_kept_def)
  qed
  show ?thesis
  proof (rule exI [of _ fs'], rule exI [of _ fs2], intro conjI allI impI)
    show "xxfs_sync fs = Some (XXFS_OK, fs')" "xxfs_mount (img fs') flg = Some (Inr fs2)" "fs_inv fs2" by (rule s(2,3) v(1))+
    fix p assume "\<forall>i < unat (icache_cap fs). due fs i \<longrightarrow> ic_key (icache fs i) \<noteq> Some p"
    then show "inode_view fs2 p = index_inode fs p" using f v(3) by simp
  next
    fix i p assume i: "i < unat (icache_cap fs)" "due fs i \<and> ic_key (icache fs i) = Some p"
    then have r: "restamped (ic_inode (icache fs i)) (ic_inode (icache fs1 i))" "index_inode fs1 p = Some (ic_inode (icache fs1 i))"
      using f by simp_all
    then show "\<exists>ino'. inode_view fs2 p = Some ino' \<and> restamped (ic_inode (icache fs i)) ino' \<and>
        (file_ok fs (ic_inode (icache fs i)) \<and> \<not> in_extent (i_extent_off ino') (unat (i_blocks ino')) (s_pdir_off (sb fs)) \<longrightarrow>
          file_ok fs2 ino' \<and> file_bytes fs2 ino' = file_bytes fs (ic_inode (icache fs i)))"
      using v(3) kept by (intro exI [of _ "ic_inode (icache fs1 i)"]) auto
  qed
qed

text \<open>Every entry in use has its path and a well-formed inode; \<^verbatim>\<open>icache_put\<close> keeps it so.\<close>

definition icache_keyed :: "xxfs \<Rightarrow> bool" where
  "icache_keyed fs \<longleftrightarrow> (\<forall>i. in_use fs i \<longrightarrow> wf_inode (ic_inode (icache fs i)) \<and>
     (\<exists>p. ic_key (icache fs i) = Some p \<and> xxh64 p = ic_hash (icache fs i) \<and> length p \<le> 3528))"

lemma icache_put_slot:
  assumes inv: "icache_inv fs" and room: "icache_room fs 1" and ff: "fault_free (img fs)"
    and p: "icache_put fs (xxh64 p) p ino = Some fs'"
  obtains pos where "icache fs' = (icache fs)(unat pos := put_entry fs (xxh64 p) p ino pos)"
    and "ic_ctrl (icache fs (unat pos)) = ICACHE_CTRL_EMPTY \<or> ic_hash (icache fs (unat pos)) = xxh64 p" and "fst (fs_alloc fs)"
    and "unat pos < unat (icache_cap fs)"
proof -
  obtain n where n: "n < unat (icache_cap fs)" "first_usable fs (xxh64 p) (icache_home fs (xxh64 p)) n"
    by (rule usable_exists [OF inv room])
  let ?pos = "probe_pos fs (icache_home fs (xxh64 p)) n"
  have "icache fs' = (icache fs)(unat ?pos := put_entry fs (xxh64 p) p ino ?pos)"
    using icache_put_from_eq [OF n(2,1), of p ino] icache_put_room [OF room] p by simp
  then show thesis
    using that n(2) fs_alloc_ok [OF ff] probe_pos_less [OF inv] by (auto simp: first_usable_def taken_def)
qed

lemma put_keyed:
  assumes inv: "icache_inv fs" and room: "icache_room fs 1" and ff: "fault_free (img fs)" and k: "icache_keyed fs"
    and p: "length p \<le> 3528" "wf_inode ino" "icache_put fs (xxh64 p) p ino = Some fs'"
  shows "icache_keyed fs'"
proof -
  obtain pos where f: "icache fs' = (icache fs)(unat pos := put_entry fs (xxh64 p) p ino pos)"
    "ic_ctrl (icache fs (unat pos)) = ICACHE_CTRL_EMPTY \<or> ic_hash (icache fs (unat pos)) = xxh64 p" "fst (fs_alloc fs)"
    by (rule icache_put_slot [OF inv room ff p(3)])
  show ?thesis
    unfolding icache_keyed_def
  proof (intro allI impI)
    fix i assume u: "in_use fs' i"
    show "wf_inode (ic_inode (icache fs' i)) \<and> (\<exists>p. ic_key (icache fs' i) = Some p \<and> xxh64 p = ic_hash (icache fs' i) \<and> length p \<le> 3528)"
    proof (cases "i = unat pos")
      case i: True
      show ?thesis
      proof (cases "in_use fs i")
        case True
        then have "icache fs' i = (icache fs i)\<lparr>ic_dirty := True, ic_inode := ino\<rparr>" using i by (simp add: f(1) put_entry_def in_use_def Let_def)
        then show ?thesis using k p(2) True by (simp add: icache_keyed_def)
      next
        case False
        then show ?thesis using i p(1,2) f(3) by (simp add: f(1) put_entry_def in_use_def Let_def)
      qed
    next
      case False
      then have "icache fs' i = icache fs i" by (simp add: f(1))
      then show ?thesis using k u by (simp add: icache_keyed_def in_use_def)
    qed
  qed
qed

lemma due_count:
  assumes "icache_inv fs"
  shows "length (filter (due fs) [0..<unat (icache_cap fs)]) \<le> unat (icache_count fs)"
proof -
  have "length (filter (due fs) [0..<unat (icache_cap fs)]) = card (set (filter (due fs) [0..<unat (icache_cap fs)]))"
    by (rule distinct_card [symmetric]) simp
  also have "\<dots> \<le> card {i. i < unat (icache_cap fs) \<and> in_use fs i}" by (rule card_mono) (auto simp: due_def)
  finally show ?thesis using assms by (simp add: icache_inv_def)
qed

lemma keyed_can_flush:
  assumes "fs_inv fs" and "icache_keyed fs" and "3 * unat (icache_count fs) \<le> free_blocks fs"
    and "\<And>i p. in_use fs i \<Longrightarrow> ic_key (icache fs i) = Some p \<Longrightarrow> collision_free p (chain_kv fs p)"
  shows "can_flush_slots fs [0..<unat (icache_cap fs)]"
proof -
  have "\<exists>p. storable fs i p" if "due fs i" for i using assms(2,4) that unfolding icache_keyed_def storable_def due_def by blast
  then show ?thesis using due_count [OF fs_invD(3) [OF assms(1)]] assms(3) by (auto simp: can_flush_slots_def)
qed

text \<open>On a fresh file system \<^verbatim>\<open>xxfs_stat\<close> of the root leaves one entry in the cache, which counts as changed.\<close>

lemma stat_root_fresh:
  assumes "fresh_mounted fs now"
  obtains fs1 pos where "xxfs_stat fs [0x2F] = Some (Inr (mkfs_root now), fs1)" and "fs_inv fs1" and "same_index fs fs1" and "dcache fs1 = dcache fs"
    and "sb fs1 = sb fs" and "in_use fs1 = (\<lambda>i. i = unat pos)" and "unat pos < unat (icache_cap fs1)"
    and "icache fs1 (unat (pos :: u32)) = \<lparr>ic_hash = xxh64 [0x2F], ic_ctrl = icache_ctrl (xxh64 [0x2F]), ic_dirty = True, ic_key = Some [0x2F], ic_inode = mkfs_root now\<rparr>"
proof -
  note f = assms [unfolded fresh_mounted_def]
  have inv: "fs_inv fs" and room: "icache_room fs (Suc 0)" and ix: "index_inode fs [0x2F] = Some (mkfs_root now)" and c: "cached_inode fs (xxh64 [0x2F]) = None"
    using f by (simp_all add: icache_room_def)
  have len: "length [0x2F :: u8] < 2 ^ 32" by simp
  obtain g where g: "inode_paged_get fs [0x2F] = Some (case index_inode fs [0x2F] of None \<Rightarrow> Inl XXFS_ENOENT | Some ino \<Rightarrow> Inr ino, g)"
    "fs_base g" "same_index fs g" "rest g = rest fs" "sb g = sb fs"
    by (rule inode_paged_get_law [OF fs_invD(4) [OF inv] len])
  note rd = restD [OF g(4)]
  have ig: "fs_inv g" "icache_room g (Suc 0)" using g(2) fs_invD(3) [OF inv] rest_icache [OF g(4)] room by (simp_all add: fs_inv_def)
  obtain fs1 where p: "icache_put g (xxh64 [0x2F]) [0x2F] (mkfs_root now) = Some fs1" "fs_inv fs1" "icache_only g fs1" "same_index g fs1"
    by (rule icache_put_view [where p = "[0x2F]" and key = "[0x2F]" and ino = "mkfs_root now", OF ig]) blast
  have ff: "fault_free (img g)" using pages_invD(1) [OF index_okD(3) [OF fs_invD(1) [OF ig(1)]]] by (simp add: pc_inv_def)
  have r1: "icache_room g 1" using ig(2) by simp
  obtain pos where s: "icache fs1 = (icache g)(unat pos := put_entry g (xxh64 [0x2F]) [0x2F] (mkfs_root now) pos)" "fst (fs_alloc g)"
    "unat pos < unat (icache_cap g)"
    by (rule icache_put_slot [OF fs_invD(3) [OF ig(1)] r1 ff p(1)]) blast
  have e: "icache g i = zero_icache_entry" for i using rd f by (simp add: pristine_def)
  have z: "ic_ctrl zero_icache_entry = ICACHE_CTRL_EMPTY" by (simp add: zero_icache_entry_def ICACHE_CTRL_EMPTY_def)
  have sl: "icache fs1 (unat pos) = \<lparr>ic_hash = xxh64 [0x2F], ic_ctrl = icache_ctrl (xxh64 [0x2F]), ic_dirty = True, ic_key = Some [0x2F], ic_inode = mkfs_root now\<rparr>"
    using s(2) by (simp add: s(1) put_entry_def e z)
  show thesis
  proof (rule that)
    show "xxfs_stat fs [0x2F] = Some (Inr (mkfs_root now), fs1)"
      using g(1) c ix p(1) by (simp add: xxfs_stat_def fetch_inode_def norm_root cached_inode_def)
    show "same_index fs fs1" by (rule same_index_trans [OF g(3) p(4)])
    show "in_use fs1 = (\<lambda>i. i = unat pos)"
    proof
      show "in_use fs1 i = (i = unat pos)" for i
        using sl icache_ctrl_not_empty e z by (cases "i = unat pos") (simp_all add: in_use_def s(1))
    qed
    show "unat pos < unat (icache_cap fs1)" using s(3) icache_onlyD(1) [OF p(3)] by simp
  qed (use p sl icache_onlyD [OF p(3)] g(5) rd in simp_all)
qed

theorem sync_makes_durable_witness:
  "\<exists>f fs now fs1 fs' fs2 ino'. xxfs_mkfs blank_file 64 False = (XXFS_OK, f) \<and> xxfs_mount f 0 = Some (Inr fs) \<and>
    xxfs_stat fs [0x2F] = Some (Inr (mkfs_root now), fs1) \<and> xxfs_sync fs1 = Some (XXFS_OK, fs') \<and> xxfs_mount (img fs') 0 = Some (Inr fs2) \<and>
    inode_view fs2 [0x2F] = Some ino' \<and> restamped (mkfs_root now) ino'"
proof -
  obtain f fs now where m: "xxfs_mkfs blank_file 64 False = (XXFS_OK, f)" "xxfs_mount f 0 = Some (Inr fs)" "fresh_mounted fs now"
    by (rule sample_mounted)
  obtain fs1 pos where s: "xxfs_stat fs [0x2F] = Some (Inr (mkfs_root now), fs1)" "fs_inv fs1" "same_index fs fs1" "dcache fs1 = dcache fs"
    "sb fs1 = sb fs" "in_use fs1 = (\<lambda>i. i = unat pos)" "unat pos < unat (icache_cap fs1)"
    "icache fs1 (unat (pos :: u32)) = \<lparr>ic_hash = xxh64 [0x2F], ic_ctrl = icache_ctrl (xxh64 [0x2F]), ic_dirty = True, ic_key = Some [0x2F], ic_inode = mkfs_root now\<rparr>"
    by (rule stat_root_fresh [OF m(3)])
  note f = m(3) [unfolded fresh_mounted_def] and si = same_indexD [OF s(3)]
  have cl: "\<not> de_dirty (dcache fs1 j)" for j using f s(4) by (simp add: pristine_def zero_dir_cache_entry_def)
  have u: "can_unmount fs1" using f s(5) si(10) index_sparesD(1) [OF si(8)] by (simp add: can_unmount_def)
  have "{i. i < unat (icache_cap fs1) \<and> in_use fs1 i} = {unat pos}" using s(6,7) by auto
  then have cnt: "unat (icache_count fs1) = 1" using fs_invD(3) [OF s(2)] by (simp add: icache_inv_def)
  have "wf_inode (mkfs_root now)" using index_inode_wf [of fs "[0x2F]"] f by simp
  then have k: "icache_keyed fs1" using s(6,8) by (simp add: icache_keyed_def)
  have c: "can_flush_slots fs1 [0..<unat (icache_cap fs1)]"
    by (rule keyed_can_flush [OF s(2) k]) (use cnt f si(7) s(6,8) in \<open>auto simp: collision_free_short KEY_PREFIX_LEN_def\<close>)
  have "due fs1 (unat pos) \<and> ic_key (icache fs1 (unat pos)) = Some [0x2F]" using s(6,8) by (simp add: due_def)
  then show ?thesis
    using sync_makes_durable [OF s(2) u cl c, of 0] m(1,2) s(1,7,8) by fastforce
qed

end
