(* ===== verification/Fs_Handle.thy ===== *)
theory Fs_Handle
  imports Fs_Sync
begin

text \<open>
  Open files: \<^verbatim>\<open>xxfs_open\<close>, \<^verbatim>\<open>xxfs_write_fd\<close>, \<^verbatim>\<open>xxfs_read_fd\<close> and \<^verbatim>\<open>xxfs_close\<close>. A handle carries the extent and the size of the file;
  what is written through it within its blocks can be read through it. A write that needs more blocks than the handle has moves the handle to the new blocks and
  loses what it had before, and the inode does not learn where the blocks are.
\<close>

section \<open>The contents of a handle\<close>

definition handle_ok :: "xxfs \<Rightarrow> xxfs_file \<Rightarrow> bytes \<Rightarrow> bool" where
  "handle_ok fs fp bs \<longleftrightarrow>
     (if xf_blocks fp = 0 then bs = [] \<and> xf_size fp = 0
      else extent_at fs (xf_extent_off fp) (unat (xf_blocks fp)) \<and> unat (xf_size fp) = length bs \<and>
        length bs \<le> unat (xf_blocks fp) * 4096 \<and> peek (img fs) (unat (xf_extent_off fp)) (length bs) = bs \<and>
        (bs \<noteq> [] \<longrightarrow> unat (xf_extent_off fp) + length bs \<le> isize fs))"

text \<open>Writes that end within the blocks of the handle, or that are the first ones and find free blocks. The buffer is shorter than \<open>2 ^ 31\<close> bytes, so that
  one system call transfers it.\<close>

definition fd_can_write :: "xxfs \<Rightarrow> xxfs_file \<Rightarrow> bytes \<Rightarrow> bytes \<Rightarrow> u64 \<Rightarrow> bool" where
  "fd_can_write fs fp bs buf off \<longleftrightarrow> buf \<noteq> [] \<and> length buf < 2 ^ 31 \<and> unat off \<le> length bs \<and> unat off + length buf < 2 ^ 63 \<and>
     (if xf_blocks fp = 0 then (length buf + 4095) div 4096 \<le> free_blocks fs
      else unat off + length buf \<le> unat (xf_blocks fp) * 4096)"

text \<open>Getting the blocks.\<close>

lemma fd_blocks_law:
  assumes ok: "index_ok fs" and h: "handle_ok fs fp bs" and c: "fd_can_write fs fp bs buf off"
  obtains fp' fs' where "fd_blocks fs fp (off + of_nat (length buf)) = (Inr fp', fs')" and "index_ok fs'" and "handle_ok fs' fp' bs"
    and "xf_blocks fp' \<noteq> 0" and "unat off + length buf \<le> unat (xf_blocks fp') * 4096" and "xf_size fp' = xf_size fp" and "xf_hash fp' = xf_hash fp" and "xf_path fp' = xf_path fp"
    and "rest fs' = rest fs" and "data_step fs 0 0 fs'" and "isize fs' = isize fs" and "xf_blocks fp \<noteq> 0 \<Longrightarrow> fp' = fp"
    and "xf_blocks fp = 0 \<Longrightarrow> unat (xf_extent_off fp') = alloc_frontier fs"
    and "free_blocks fs \<le> free_blocks fs' + (unat off + length buf + 4095) div 4096"
    and "xf_blocks fp = 0 \<Longrightarrow> unat (xf_extent_off fp') + unat (xf_blocks fp') * 4096 = alloc_frontier fs'"
    and "xf_blocks fp = 0 \<Longrightarrow> unat (xf_blocks fp') = (unat off + length buf + 4095) div 4096"
proof -
  have c': "buf \<noteq> []" "unat off \<le> length bs" "unat off + length buf < 2 ^ 63" using c by (simp_all add: fd_can_write_def)
  let ?e = "off + of_nat (length buf) :: u64"
  have "unat (of_nat (length buf) :: u64) = length buf" using c'(3) by (simp add: unat_of_nat)
  then have e: "unat ?e = unat off + length buf" using c'(3) by (subst unat_add_nowrap) simp_all
  have nb: "unat (need_blocks ?e) = (unat off + length buf + 4095) div 4096" using need_blocks_unat [of ?e] c'(3) e by simp
  show thesis
  proof (cases "xf_blocks fp = 0")
    case True
    have z: "bs = []" "xf_size fp = 0" "unat off = 0" using h c'(2) True by (simp_all add: handle_ok_def)
    then have u: "unat (need_blocks ?e) = (length buf + 4095) div 4096" using nb by simp
    have l: "1 \<le> length buf" using c'(1) by (cases buf) simp_all
    have "1 \<le> unat (need_blocks ?e)" unfolding u using l by linarith
    then have pos: "0 < need_blocks ?e" "unat (need_blocks ?e) \<le> free_blocks fs"
      using u c True by (simp_all add: word_less_nat_alt fd_can_write_def)
    obtain o' g where a: "page_alloc_n fs (need_blocks ?e) = (o', g)" "o' \<noteq> 0" "extent_at g o' (unat (need_blocks ?e))"
      "data_step fs o' 0 g" "rest g = rest fs" "img g = img fs" "free_blocks g = free_blocks fs - unat (need_blocks ?e)" "unat o' = alloc_frontier fs"
      "alloc_frontier g = alloc_frontier fs + unat (need_blocks ?e) * 4096"
      by (rule extent_alloc [OF ok pos])
    let ?fp = "fp\<lparr>xf_extent_off := o', xf_blocks := need_blocks ?e\<rparr>"
    have ne: "0 < ?e" using e c'(1) by (simp add: word_less_nat_alt)
    have r: "fd_blocks fs fp ?e = (Inr ?fp, g)"
      using a(1,2) True ne by (simp add: fd_blocks_def Let_def)
    have "handle_ok g ?fp bs" using a(3) z pos(1) by (simp add: handle_ok_def peek_def)
    moreover have "unat off + length buf \<le> unat (need_blocks ?e) * 4096" unfolding nb by linarith
    moreover have "data_step fs 0 0 g" using a(4) by (simp add: data_step_def in_extent_def)
    ultimately show thesis using that [OF r data_stepD(1) [OF a(4)]] a pos(1) nb True by simp
  next
    case False
    have le: "unat off + length buf \<le> unat (xf_blocks fp) * 4096" using c False by (simp add: fd_can_write_def)
    have "unat (xf_blocks fp) * 4096 < 2 ^ 64" using h False by (simp add: handle_ok_def extent_at_def)
    then have "unat (xf_blocks fp * 4096) = unat (xf_blocks fp) * 4096" by (subst unat_mul_nowrap) simp_all
    then have "\<not> ?e > xf_blocks fp * 4096" using e le by (simp add: word_less_nat_alt)
    then have r: "fd_blocks fs fp ?e = (Inr fp, fs)" using False by (simp add: fd_blocks_def Let_def)
    have "data_step fs 0 0 fs" using ok by (simp add: data_step_def)
    then show thesis using that [OF r ok h False le] False by simp
  qed
qed

section \<open>Writing\<close>

definition fd_written :: "xxfs \<Rightarrow> xxfs_file \<Rightarrow> bytes \<Rightarrow> xxfs_file \<Rightarrow> xxfs \<Rightarrow> bool" where
  "fd_written fs fp bs fp' fs' \<longleftrightarrow> handle_ok fs' fp' bs \<and> xf_hash fp' = xf_hash fp \<and> xf_path fp' = xf_path fp \<and> rest fs' = rest fs \<and>
     data_step fs (xf_extent_off fp) (unat (xf_blocks fp)) fs'"

lemma write_fd_law:
  assumes ok: "index_ok fs" and h: "handle_ok fs fp bs" and c: "fd_can_write fs fp bs buf off"
  obtains fp' fs' where "xxfs_write_fd fs fp buf off = (Inr (length buf), fp', fs')"
    and "fd_written fs fp (overlay (unat off) buf bs) fp' fs'" and "xf_blocks fp' \<noteq> 0" and "xf_blocks fp \<noteq> 0 \<Longrightarrow> xf_extent_off fp' = xf_extent_off fp"
    and "free_blocks fs \<le> free_blocks fs' + (unat off + length buf + 4095) div 4096"
    and "xf_blocks fp = 0 \<Longrightarrow> unat (xf_extent_off fp') + unat (xf_blocks fp') * 4096 = alloc_frontier fs'"
    and "xf_blocks fp = 0 \<Longrightarrow> unat (xf_blocks fp') = (unat off + length buf + 4095) div 4096"
proof -
  have c': "buf \<noteq> []" "unat off \<le> length bs" "unat off + length buf < 2 ^ 63" using c by (simp_all add: fd_can_write_def)
  let ?e = "off + of_nat (length buf) :: u64"
  obtain f1 g where b: "fd_blocks fs fp ?e = (Inr f1, g)" "index_ok g" "handle_ok g f1 bs" "xf_blocks f1 \<noteq> 0"
    "unat off + length buf \<le> unat (xf_blocks f1) * 4096" "xf_size f1 = xf_size fp" "xf_hash f1 = xf_hash fp" "xf_path f1 = xf_path fp"
    "rest g = rest fs" "data_step fs 0 0 g" "isize g = isize fs" "xf_blocks fp \<noteq> 0 \<Longrightarrow> f1 = fp"
    "xf_blocks fp = 0 \<Longrightarrow> unat (xf_extent_off f1) = alloc_frontier fs" "free_blocks fs \<le> free_blocks g + (unat off + length buf + 4095) div 4096"
    "xf_blocks fp = 0 \<Longrightarrow> unat (xf_extent_off f1) + unat (xf_blocks f1) * 4096 = alloc_frontier g"
    "xf_blocks fp = 0 \<Longrightarrow> unat (xf_blocks f1) = (unat off + length buf + 4095) div 4096"
    by (rule fd_blocks_law [OF assms]) blast
  let ?x = "xf_extent_off f1" and ?n = "unat (xf_blocks f1)"
  have hg: "extent_at g ?x ?n" "unat (xf_size f1) = length bs" "length bs \<le> ?n * 4096" "peek (img g) (unat ?x) (length bs) = bs"
    "bs \<noteq> [] \<Longrightarrow> unat ?x + length bs \<le> isize g" using b(3,4) by (simp_all add: handle_ok_def)
  obtain fs' where w: "fs_pwrite g buf (?x + of_nat (unat off)) = (True, fs')" "data_step g ?x ?n fs'" "rest fs' = rest g" "sb fs' = sb g"
    "img fs' = poke (img (tick g)) (unat ?x + unat off) buf"
    by (rule extent_write [OF b(2) hg(1) b(5)])
  have "unat (of_nat (length buf) :: u64) = length buf" using c'(3) by (simp add: unat_of_nat)
  then have e: "unat ?e = unat off + length buf" using c'(3) by (subst unat_add_nowrap) simp_all
  let ?sz = "if ?e > xf_size f1 then ?e else xf_size f1"
  let ?fp = "f1\<lparr>xf_size := ?sz\<rparr>" and ?o = "overlay (unat off) buf bs"
  have sz: "unat ?sz = length ?o" using e hg(2) by (auto simp: length_overlay word_less_nat_alt)
  have pk: "peek (img fs') (unat ?x) (length ?o) = ?o"
  proof (rule nth_equalityI)
    fix i assume "i < length (peek (img fs') (unat ?x) (length ?o))"
    then have i: "i < length ?o" by simp
    have old: "os_byte (img g) (unat ?x + j) = bs ! j" if "j < length bs" for j
      using arg_cong [OF hg(4), of "\<lambda>xs. xs ! j"] that by (simp add: peek_nth)
    have "peek (img fs') (unat ?x) (length ?o) ! i =
        (if unat off \<le> i \<and> i < unat off + length buf then buf ! (i - unat off) else os_byte (img g) (unat ?x + i))"
      using i by (auto simp: peek_nth w(5) poke_def)
    also have "\<dots> = ?o ! i" using i old c'(2) by (auto simp: overlay_nth length_overlay)
    finally show "peek (img fs') (unat ?x) (length ?o) ! i = ?o ! i" .
  qed simp
  have "unat ?x + length ?o \<le> isize fs'" using hg(5) c'(1) by (cases "bs = []") (auto simp: w(5) poke_def length_overlay)
  then have hk: "handle_ok fs' ?fp ?o"
    using extent_kept [OF w(2) hg(1)] sz pk b(4,5) hg(3) by (simp add: handle_ok_def length_overlay)
  have ds: "data_step fs (xf_extent_off fp) (unat (xf_blocks fp)) fs'"
  proof (cases "xf_blocks fp = 0")
    case True
    have "data_step fs ?x ?n fs'" by (rule data_step_trans [OF _ w(2)]) (use b(10) in \<open>auto simp: data_step_def in_extent_def\<close>)
    then show ?thesis using data_step_fresh [of fs ?x ?n fs'] b(13) [OF True] True by simp
  next
    case False
    then show ?thesis using b(10,12) w(2) data_step_trans [of fs ?x ?n g] by (auto simp: data_step_def in_extent_def)
  qed
  have res: "xxfs_write_fd fs fp buf off = (Inr (length buf), ?fp, fs')"
    using c'(1) b(1) w(1) by (simp add: xxfs_write_fd_def Let_def)
  have "fd_written fs fp ?o ?fp fs'" using hk ds b(7-9) w(3) by (simp add: fd_written_def)
  then show thesis using that [OF res] b(4,12,14-16) w(4) by (simp add: alloc_frontier_def)
qed

section \<open>Reading\<close>

lemma read_fd_law:
  assumes ok: "index_ok fs" and h: "handle_ok fs fp bs" and buf: "buf \<noteq> []" and off: "unat off < length bs"
  shows "xxfs_read_fd fs fp buf off =
    (Inr (length (take (length buf) (drop (unat off) bs))), into_buf (take (length buf) (drop (unat off) bs)) buf, tick fs)"
proof -
  have nb: "xf_blocks fp \<noteq> 0" using h off by (auto simp: handle_ok_def)
  let ?x = "xf_extent_off fp"
  have hk: "extent_at fs ?x (unat (xf_blocks fp))" "unat (xf_size fp) = length bs" "length bs \<le> unat (xf_blocks fp) * 4096"
    "peek (img fs) (unat ?x) (length bs) = bs" "unat ?x + length bs \<le> isize fs"
    using h nb off by (auto simp: handle_ok_def)
  have b: "unat ?x + unat (xf_blocks fp) * 4096 < 2 ^ 63" using hk(1) by (simp add: extent_at_def)
  have u: "unat (?x + off) = unat ?x + unat off" using b hk(3) off by (subst unat_add_nowrap) auto
  have lt: "\<not> off \<ge> xf_size fp" using hk(2) off by (simp add: word_le_nat_alt)
  have av: "unat (xf_size fp - off) = length bs - unat off" using hk(2) off by (simp add: unat_sub word_le_nat_alt)
  let ?n = "min (length buf) (length bs - unat off)"
  have ff: "fault_free (img fs)" using pages_invD(1) [OF index_okD(3) [OF ok]] by (simp add: pc_inv_def)
  have m: "min ?n (isize fs - (unat ?x + unat off)) = ?n" using hk(5) off by simp
  have "fs_pread fs ?n (?x + off) = (Some (peek (img fs) (unat ?x + unat off) ?n), tick fs)"
    using b hk(3) off m by (subst fs_pread_ok [OF ff]) (simp_all add: s64_ok_def u)
  moreover have "peek (img fs) (unat ?x + unat off) ?n = take (length buf) (drop (unat off) bs)"
  proof -
    have "peek (img fs) (unat ?x + unat off) ?n = fld (unat off) ?n (peek (img fs) (unat ?x) (length bs))"
      using off by (subst fld_peek) simp_all
    also have "\<dots> = take (length buf) (drop (unat off) bs)" unfolding hk(4) by (simp add: fld_def min_def)
    finally show ?thesis .
  qed
  ultimately show ?thesis using buf lt av by (simp add: xxfs_read_fd_def Let_def)
qed

text \<open>C16: within the blocks of a handle the handle operations refine the abstract file update. Take a handle with contents \<open>bs\<close>: one without blocks on an empty file, or one whose extent
  holds the contents (a non-empty file that lives in its inode has no such handle). A write of less than \<open>2 ^ 31\<close> bytes that starts inside the contents or at their end, and
  that ends within the blocks of the handle or, when it has none, is the first one and finds enough free blocks, reports the whole length; the handle
  then has the contents with the bytes from \<open>off\<close> on replaced, which \<^verbatim>\<open>xxfs_read_fd\<close> returns from every offset before the end, cut to a buffer of less than \<open>2 ^ 31\<close>
  bytes; the index and all blocks that are not the handle's own stay as they were. A write that needs more blocks than the handle has is not among them: it loses the
  contents, see below.\<close>

theorem fd_write_then_read:
  assumes ok: "index_ok fs" and h: "handle_ok fs fp bs" and c: "fd_can_write fs fp bs buf off"
  shows "\<exists>fp' fs'. xxfs_write_fd fs fp buf off = (Inr (length buf), fp', fs') \<and> fd_written fs fp (overlay (unat off) buf bs) fp' fs' \<and>
    (\<forall>rbuf roff. rbuf \<noteq> [] \<and> length rbuf < 2 ^ 31 \<and> unat roff < length (overlay (unat off) buf bs) \<longrightarrow>
      xxfs_read_fd fs' fp' rbuf roff = (let out = take (length rbuf) (drop (unat roff) (overlay (unat off) buf bs)) in
        (Inr (length out), into_buf out rbuf, tick fs')))"
proof -
  obtain fp' fs' where w: "xxfs_write_fd fs fp buf off = (Inr (length buf), fp', fs')" "fd_written fs fp (overlay (unat off) buf bs) fp' fs'"
    by (rule write_fd_law [OF assms])
  have "index_ok fs'" "handle_ok fs' fp' (overlay (unat off) buf bs)" using w(2) data_stepD(1) by (auto simp: fd_written_def)
  then show ?thesis using w read_fd_law by (auto simp: Let_def)
qed

section \<open>Growing\<close>

text \<open>More blocks for a handle whose extent is the last one allocated: the new blocks follow the extent, so nothing is copied.\<close>

lemma fd_blocks_grow:
  assumes ok: "index_ok fs" and b: "xf_blocks fp \<noteq> 0" and last: "unat (xf_extent_off fp) + unat (xf_blocks fp) * 4096 = alloc_frontier fs"
    and grow: "unat (xf_blocks fp) * 4096 < unat e" and e: "unat e < 2 ^ 63" and free: "(unat e + 4095) div 4096 - unat (xf_blocks fp) \<le> free_blocks fs"
  obtains g where "fd_blocks fs fp e = (Inr (fp\<lparr>xf_extent_off := xf_extent_off fp + xf_blocks fp * 4096, xf_blocks := need_blocks e\<rparr>), g)"
    and "img g = img fs" and "unat (xf_extent_off fp + xf_blocks fp * 4096) = alloc_frontier fs"
    and "alloc_frontier g < alloc_frontier fs + unat (need_blocks e) * 4096"
proof -
  have nb: "unat (need_blocks e) = (unat e + 4095) div 4096" using need_blocks_unat [of e] e by simp
  have lt: "unat (xf_blocks fp) < unat (need_blocks e)" unfolding nb using grow by linarith
  then have un: "unat (need_blocks e - xf_blocks fp) = unat (need_blocks e) - unat (xf_blocks fp)" by (simp add: unat_sub word_le_nat_alt)
  have pos: "0 < need_blocks e - xf_blocks fp" "unat (need_blocks e - xf_blocks fp) \<le> free_blocks fs"
    using un lt free nb by (simp_all add: word_less_nat_alt)
  obtain o' g where a: "page_alloc_n fs (need_blocks e - xf_blocks fp) = (o', g)" "o' \<noteq> 0" "img g = img fs" "unat o' = alloc_frontier fs"
    "alloc_frontier g = alloc_frontier fs + unat (need_blocks e - xf_blocks fp) * 4096"
    by (rule extent_alloc [OF ok pos])
  have bl: "unat (xf_blocks fp * 4096) = unat (xf_blocks fp) * 4096" using grow e by (subst unat_mul_nowrap) simp_all
  have "unat o' < 2 ^ 64" using unsigned_less [of o'] by simp
  then have "unat (xf_extent_off fp + xf_blocks fp * 4096) = alloc_frontier fs"
    using last bl a(4) by (subst unat_add_nowrap) simp_all
  then have o: "o' = xf_extent_off fp + xf_blocks fp * 4096" using a(4) by (simp add: word_unat_eq_iff)
  have "xf_blocks fp * 4096 < e" using bl grow by (simp add: word_less_nat_alt)
  then have "fd_blocks fs fp e = (Inr (fp\<lparr>xf_extent_off := xf_extent_off fp + xf_blocks fp * 4096, xf_blocks := need_blocks e\<rparr>), g)"
    using b a(1,2) o by (simp add: fd_blocks_def Let_def)
  moreover have "0 < unat (xf_blocks fp)" using b by (simp add: unat_gt_0)
  then have "alloc_frontier g < alloc_frontier fs + unat (need_blocks e) * 4096" using a(5) un lt by simp
  ultimately show thesis using that a(3,4) o by blast
qed

lemma free_space_fits:
  assumes "index_ok fs"
  shows "alloc_frontier fs + free_blocks fs * 4096 < 2 ^ 63"
proof -
  have "alloc_wf (sb fs)" using pages_invD(2) [OF index_okD(3) [OF assms]] by (simp add: super_inv_def)
  then show ?thesis by (auto simp: alloc_frontier_def alloc_wf_def diff_mult_distrib word_le_nat_alt)
qed

text \<open>C23: growing through a handle loses the contents. When a write through a handle with contents \<open>bs\<close> needs more blocks than the handle has and the extent of the handle is the
  last one allocated, as with two writes one after the other, \<^verbatim>\<open>xxfs_write_fd\<close> allocates the missing blocks behind the extent and reports success, but makes the handle start at the new
  blocks: \<^verbatim>\<open>xxfs_read_fd\<close> returns for the bytes before the write what the image held at the new place and nothing of \<open>bs\<close>, and the extent of the handle
  reaches over the end of what is allocated.\<close>

theorem fd_growth_loses_contents:
  assumes ok: "index_ok fs" and h: "handle_ok fs fp bs" and b: "xf_blocks fp \<noteq> 0" and last: "unat (xf_extent_off fp) + unat (xf_blocks fp) * 4096 = alloc_frontier fs"
    and buf: "buf \<noteq> []" "length buf < 2 ^ 31" and grow: "unat (xf_blocks fp) * 4096 < unat off + length buf"
    and free: "(unat off + length buf + 4095) div 4096 - unat (xf_blocks fp) \<le> free_blocks fs" and fit: "alloc_frontier fs + unat off + length buf < 2 ^ 63"
  shows "\<exists>fp' fs'. xxfs_write_fd fs fp buf off = (Inr (length buf), fp', fs') \<and> unat (xf_extent_off fp') = unat (xf_extent_off fp) + unat (xf_blocks fp) * 4096 \<and>
    alloc_frontier fs' < unat (xf_extent_off fp') + unat (xf_blocks fp') * 4096 \<and>
    (\<forall>rbuf roff. rbuf \<noteq> [] \<and> length rbuf < 2 ^ 31 \<and> unat roff + length rbuf \<le> unat off \<longrightarrow>
      xxfs_read_fd fs' fp' rbuf roff = (Inr (length rbuf), peek (img fs) (unat (xf_extent_off fp') + unat roff) (length rbuf), tick fs'))"
proof -
  let ?e = "off + of_nat (length buf) :: u64"
  have "unat (of_nat (length buf) :: u64) = length buf" using buf(2) by (simp add: unat_of_nat)
  then have e: "unat ?e = unat off + length buf" using fit by (subst unat_add_nowrap) simp_all
  have gr: "unat (xf_blocks fp) * 4096 < unat ?e" and lt: "unat ?e < 2 ^ 63" and fr: "(unat ?e + 4095) div 4096 - unat (xf_blocks fp) \<le> free_blocks fs"
    using grow fit free unfolding e by simp_all
  let ?x = "xf_extent_off fp + xf_blocks fp * 4096"
  let ?f1 = "fp\<lparr>xf_extent_off := ?x, xf_blocks := need_blocks ?e\<rparr>"
  obtain g where g: "fd_blocks fs fp ?e = (Inr ?f1, g)" "img g = img fs" "unat ?x = alloc_frontier fs"
    "alloc_frontier g < alloc_frontier fs + unat (need_blocks ?e) * 4096"
    by (rule fd_blocks_grow [OF ok b last gr lt fr])
  have ff: "fault_free (img fs)" using index_fault_free [OF ok] .
  have xo: "unat (?x + off) = alloc_frontier fs + unat off" using fit g(3) by (subst unat_add_nowrap) simp_all
  define fs' where "fs' = (tick g)\<lparr>img := poke (img (tick g)) (alloc_frontier fs + unat off) buf\<rparr>"
  let ?sz = "if ?e > xf_size fp then ?e else xf_size fp" and ?fp = "?f1\<lparr>xf_size := if ?e > xf_size fp then ?e else xf_size fp\<rparr>"
  have "fs_pwrite g buf (?x + off) = (True, fs')"
    unfolding fs'_def using ff g(2) xo fit by (subst fs_pwrite_ok) (simp_all add: s64_ok_def)
  then have w: "xxfs_write_fd fs fp buf off = (Inr (length buf), ?fp, fs')" using buf(1) g(1) by (simp add: xxfs_write_fd_def Let_def)
  have fps: "xf_size ?fp = ?sz" by simp
  have sz: "unat off + length buf \<le> unat ?sz" using e by (auto simp: word_less_nat_alt not_less word_le_nat_alt)
  have "xxfs_read_fd fs' ?fp rbuf roff = (Inr (length rbuf), peek (img fs) (alloc_frontier fs + unat roff) (length rbuf), tick fs')"
    if r: "rbuf \<noteq> []" "unat roff + length rbuf \<le> unat off" for rbuf roff
  proof -
    have u: "unat (?x + roff) = alloc_frontier fs + unat roff" using fit g(3) r(2) by (subst unat_add_nowrap) simp_all
    have "0 < length buf" using buf(1) by simp
    then have l: "unat roff < unat (xf_size ?fp)" "unat roff + length rbuf \<le> unat (xf_size ?fp)" using sz r(2) unfolding fps by linarith+
    then have d: "unat (xf_size ?fp - roff) = unat (xf_size ?fp) - unat roff" by (simp add: unat_sub word_le_nat_alt del: xxfs_file.simps)
    have pk: "peek (img fs') (alloc_frontier fs + unat roff) (length rbuf) = peek (img fs) (alloc_frontier fs + unat roff) (length rbuf)"
      using r(2) g(2) by (simp add: fs'_def peek_poke_other)
    have sz2: "alloc_frontier fs + unat off + length buf \<le> isize fs'" using buf(1) by (simp add: fs'_def poke_def)
    have "fs_pread fs' (length rbuf) (?x + roff) = (Some (peek (img fs) (alloc_frontier fs + unat roff) (length rbuf)), tick fs')"
      using ff g(2) u fit r(2) sz2 pk by (subst fs_pread_ok) (simp_all add: s64_ok_def fs'_def min_absorb1)
    moreover have "\<not> xf_size ?fp \<le> roff" using l(1) by (simp add: word_le_nat_alt del: xxfs_file.simps)
    moreover have "min (length rbuf) (unat (xf_size ?fp - roff)) = length rbuf" unfolding d using l(2) by simp
    moreover have "xf_extent_off ?fp = ?x" by simp
    ultimately show ?thesis using r(1) by (simp only: xxfs_read_fd_def Let_def if_False prod.case option.case) (simp add: into_buf_def)
  qed
  moreover have "alloc_frontier fs' = alloc_frontier g" by (simp add: fs'_def alloc_frontier_def)
  ultimately show ?thesis using w g(3,4) last by (intro exI [of _ ?fp] exI [of _ fs']) simp
qed

section \<open>Opening and closing\<close>

lemma open_law:
  assumes inv: "fs_inv fs" and v: "inode_view fs (path_normalize path) = Some ino" and t: "i_file_type ino \<noteq> XXFS_FT_DIR"
  obtains fs' where "xxfs_open fs path flg = Some (Inr \<lparr>xf_hash = xxh64 (path_normalize path), xf_extent_off = i_extent_off ino,
      xf_size = i_size ino, xf_blocks = i_blocks ino, xf_path = path_normalize path, xf_flags = flg\<rparr>, fs')" and "ns_same fs fs'"
proof -
  obtain g where g: "get_inode fs (path_normalize path) = Some (case inode_view fs (path_normalize path) of None \<Rightarrow> Inl XXFS_ENOENT | Some ino \<Rightarrow> Inr ino, g)"
    "ns_same fs g"
    by (rule get_inode_law [OF fs_invD(4) [OF inv] length_norm32 [of path]])
  have ff: "fault_free (img g)"
    using pages_invD(1) [OF index_okD(3) [OF fs_baseD(1) [OF ns_sameD(1) [OF g(2)]]]] by (simp add: pc_inv_def)
  have "ns_same fs (tick g)" by (rule ns_same_trans [OF g(2) tick_ns [OF ns_sameD(1) [OF g(2)]]])
  then show thesis using that g(1) v t fs_alloc_ok [OF ff] by (simp add: xxfs_open_def Let_def)
qed

lemma rest_lookup: "rest fs' = rest fs \<Longrightarrow> icache_lookup fs' = icache_lookup fs"
  by (rule same_shapeD(6)) (use restD [of fs' fs] in \<open>simp add: same_shape_def\<close>)

text \<open>Closing: the cached inode gets the size and the number of blocks.\<close>

lemma close_law:
  assumes inv: "fs_inv fs" and l: "icache_lookup fs (xf_hash fp) = Some idx" and wf: "wf_inode (ic_inode (icache fs (unat idx)))"
    and st: "can_store fs (xf_path fp)"
  obtains ino' fs' where "xxfs_close fs fp = Some (XXFS_OK, fs')" and "icache_lookup fs' (xf_hash fp) = Some idx" and "ic_inode (icache fs' (unat idx)) = ino'"
    and "i_size ino' = xf_size fp" and "i_blocks ino' = xf_blocks fp" and "i_extent_off ino' = i_extent_off (ic_inode (icache fs (unat idx)))"
proof -
  let ?e = "icache fs (unat idx)" and ?t = "os_clock (img fs) (os_calls (img fs))"
  let ?i = "(ic_inode ?e)\<lparr>i_size := xf_size fp, i_blocks := xf_blocks fp, i_mtime := ?t, i_ctime := ?t\<rparr>"
  let ?s = "inode_set_checksum_ecc ?i"
  let ?g = "set_icache idx (?e\<lparr>ic_inode := ?s\<rparr>) (tick fs)"
  have ns: "ns_same fs (tick fs)" by (rule tick_ns [OF fs_invD(4) [OF inv]])
  have cg: "calm (tick fs) ?g" by (rule calm_core) (simp add: same_core_def alloc_same_def set_icache_def)
  have sg: "same_index fs ?g"
    by (rule same_index_trans [OF ns_sameD(2) [OF ns] calm_same [OF cg fs_baseD(1) [OF ns_sameD(1) [OF ns]]]])
  note si = same_indexD [OF sg]
  have sh: "same_shape fs ?g" by (simp add: same_shape_def set_icache_def)
  have ig: "fs_inv ?g" using si fs_invD [OF inv] same_shapeD(1) [OF sh] by (simp add: fs_inv_def fs_base_def)
  have wfi: "wf_inode ?i" using wf by (simp add: wf_inode_def)
  have sg': "can_store ?g (xf_path fp)" using st can_store_same [OF sg] by simp
  obtain fs' where p: "paged_put ?g (xf_path fp) (inode_to_val ?s) = Some (XXFS_OK, fs')" "stored ?g (xf_path fp) ?s fs'"
    by (rule inode_put_law [OF ig sg' wf_seal [OF wfi]])
  have r: "rest fs' = rest ?g" using p(2) by (simp add: stored_def)
  have "icache_lookup fs' (xf_hash fp) = Some idx" using l rest_lookup [OF r] same_shapeD(6) [OF sh] by simp
  moreover have "ic_inode (icache fs' (unat idx)) = ?s" using restD(1) [OF r] by (simp add: set_icache_def)
  moreover have "xxfs_close fs fp = Some (XXFS_OK, fs')"
    using l p(1) by (simp add: xxfs_close_def fs_time_tick Let_def)
  ultimately show thesis using that sealed_fields(3-5) [OF wfi] by (simp add: i_extent_off_def)
qed

lemma empty_extent_off: "file_ok fs ino \<Longrightarrow> i_blocks ino = 0 \<Longrightarrow> i_size ino = 0 \<Longrightarrow> i_extent_off ino = 0"
  by (simp add: file_ok_def i_extent_off_def fld_def zeros_def)

text \<open>C22: what is written through a handle to an empty file is lost when the handle is closed. For a cached, well-formed inode of size 0 without blocks, \<^verbatim>\<open>xxfs_open\<close>, \<^verbatim>\<open>xxfs_write_fd\<close> at offset 0 and
  \<^verbatim>\<open>xxfs_close\<close> all succeed; the inode then has the size and the number of blocks of the handle but no extent, and \<^verbatim>\<open>xxfs_read\<close> of the path fails with \<^verbatim>\<open>XXFS_EIO\<close>.\<close>

theorem fd_write_lost_on_close:
  assumes inv: "fs_inv fs" and l: "icache_lookup fs (xxh64 (path_normalize path)) = Some idx" and ino: "ino = ic_inode (icache fs (unat idx))"
    and t: "i_file_type ino \<noteq> XXFS_FT_DIR" "i_blocks ino = 0" "i_size ino = 0" "file_ok fs ino"
    and p: "length (path_normalize path) \<le> 3528" "collision_free (path_normalize path) (chain_kv fs (path_normalize path))"
    and buf: "buf \<noteq> []" "length buf < 2 ^ 31" "(length buf + 4095) div 4096 + 3 \<le> free_blocks fs" and rb: "rbuf \<noteq> []"
  shows "\<exists>fp fs1 fp' fs2 fs3. xxfs_open fs path flg = Some (Inr fp, fs1) \<and> xxfs_write_fd fs1 fp buf 0 = (Inr (length buf), fp', fs2) \<and>
    xxfs_close fs2 fp' = Some (XXFS_OK, fs3) \<and> xxfs_read fs3 path rbuf 0 = Some (Inl XXFS_EIO, rbuf, fs3)"
proof -
  let ?p = "path_normalize path"
  let ?fp = "\<lparr>xf_hash = xxh64 ?p, xf_extent_off = i_extent_off ino, xf_size = i_size ino, xf_blocks = i_blocks ino, xf_path = ?p, xf_flags = flg\<rparr>"
  have t': "i_extent_off ino = 0" "wf_inode ino" using empty_extent_off [OF t(4,2,3)] t(4) by (simp_all add: file_ok_def)
  have v: "inode_view fs ?p = Some ino" using l ino by (simp add: inode_view_def cached_inode_def)
  obtain fs1 where o: "xxfs_open fs path flg = Some (Inr ?fp, fs1)" "ns_same fs fs1" by (rule open_law [OF inv v t(1)])
  note n1 = ns_sameD [OF o(2)] and s1 = same_indexD [OF ns_sameD(2) [OF o(2)]]
  have h: "handle_ok fs1 ?fp []" and c: "fd_can_write fs1 ?fp [] buf 0"
    using t(2,3) buf s1(7) by (simp_all add: handle_ok_def fd_can_write_def)
  obtain fp' fs2 where w: "xxfs_write_fd fs1 ?fp buf 0 = (Inr (length buf), fp', fs2)" "fd_written fs1 ?fp (overlay (unat (0::u64)) buf []) fp' fs2"
    "xf_blocks fp' \<noteq> 0" "free_blocks fs1 \<le> free_blocks fs2 + (unat (0::u64) + length buf + 4095) div 4096"
    by (rule write_fd_law [OF s1(1) h c])
  note wd = w(2) [unfolded fd_written_def]
  have ds: "data_step fs1 (i_extent_off ino) (unat (i_blocks ino)) fs2" and r2: "rest fs2 = rest fs1" and ho: "handle_ok fs2 fp' (overlay 0 buf [])"
    and xf: "xf_hash fp' = xxh64 ?p" "xf_path fp' = ?p" using wd by simp_all
  obtain idx1 where l1: "icache_lookup fs1 (xxh64 ?p) = Some idx1" "ic_inode (icache fs1 (unat idx1)) = ino"
    using n1(4) l ino by (metis (no_types, lifting) cached_inode_def map_option_eq_Some)
  have l2: "icache_lookup fs2 (xf_hash fp') = Some idx1" "ic_inode (icache fs2 (unat idx1)) = ino"
    using l1 rest_lookup [OF r2] restD(1) [OF r2] xf by simp_all
  have i2: "fs_inv fs2" using data_step_base [OF ds n1(1)] rest_icache(2) [OF r2] n1(8) fs_invD(3) [OF inv] by (simp add: fs_inv_def)
  have st: "can_store fs2 (xf_path fp')" using p buf(3) w(4) s1(5,7) data_stepD(4) [OF ds] xf by (simp add: can_store_def)
  have wf2: "wf_inode (ic_inode (icache fs2 (unat idx1)))" using l2(2) t'(2) by simp
  obtain ino' fs3 where cl: "xxfs_close fs2 fp' = Some (XXFS_OK, fs3)" "icache_lookup fs3 (xf_hash fp') = Some idx1" "ic_inode (icache fs3 (unat idx1)) = ino'"
    "i_size ino' = xf_size fp'" "i_blocks ino' = xf_blocks fp'" "i_extent_off ino' = i_extent_off (ic_inode (icache fs2 (unat idx1)))"
    by (rule close_law [OF i2 l2(1) wf2 st])
  have "unat (xf_size fp') = length buf" using ho w(3) by (simp add: handle_ok_def length_overlay)
  then have "0 < i_size ino'" using buf(1) cl(4) by (simp add: word_less_nat_alt)
  then have "xxfs_read fs3 path rbuf 0 = Some (Inl XXFS_EIO, rbuf, fs3)"
    using rb cl(2,3,5,6) l2(2) t'(1) w(3) xf(1) by (simp add: xxfs_read_def fetch_inode_def read_inode_def Let_def not_le)
  then show ?thesis using o(1) w(1) cl(1) by blast
qed

theorem fd_write_then_read_witness:
  "\<exists>f fs fp fp' fs' fs''. xxfs_mkfs blank_file 64 False = (XXFS_OK, f) \<and> xxfs_mount f 0 = Some (Inr fs) \<and>
    xxfs_write_fd fs fp [1, 2, 3] 0 = (Inr 3, fp', fs') \<and> xxfs_read_fd fs' fp' [9, 9, 9] 1 = (Inr 2, [2, 3, 9], fs'')"
proof -
  obtain f fs now where m: "xxfs_mkfs blank_file 64 False = (XXFS_OK, f)" "xxfs_mount f 0 = Some (Inr fs)" "fresh_mounted fs now"
    by (rule sample_mounted)
  let ?fp = "\<lparr>xf_hash = 0, xf_extent_off = 0, xf_size = 0, xf_blocks = 0, xf_path = [0x2F, 0x61], xf_flags = 0\<rparr>"
  have "index_ok fs" "249 \<le> free_blocks fs" using m(3) fs_invD(1) by (simp_all add: fresh_mounted_def)
  moreover have "handle_ok fs ?fp []" by (simp add: handle_ok_def)
  moreover have "fd_can_write fs ?fp [] [1, 2, 3] 0" using \<open>249 \<le> free_blocks fs\<close> by (simp add: fd_can_write_def)
  ultimately obtain fp' fs' where w: "xxfs_write_fd fs ?fp [1, 2, 3] 0 = (Inr (length [1, 2, 3 :: u8]), fp', fs')"
    "\<forall>rbuf roff. rbuf \<noteq> [] \<and> length rbuf < 2 ^ 31 \<and> unat roff < length (overlay (unat (0::u64)) [1, 2, 3] []) \<longrightarrow>
      xxfs_read_fd fs' fp' rbuf roff = (let out = take (length rbuf) (drop (unat roff) (overlay (unat (0::u64)) [1, 2, 3] [])) in
        (Inr (length out), into_buf out rbuf, tick fs'))"
    using fd_write_then_read [of fs ?fp "[]" "[1, 2, 3]" 0] by blast
  have "xxfs_read_fd fs' fp' [9, 9, 9] 1 = (Inr 2, [2, 3, 9], tick fs')"
    using w(2) [rule_format, of "[9, 9, 9]" 1] by (simp add: overlay_def into_buf_def Let_def)
  moreover have "xxfs_write_fd fs ?fp [1, 2, 3] 0 = (Inr 3, fp', fs')" using w(1) by (simp add: numeral_3_eq_3)
  ultimately show ?thesis using m(1,2) by blast
qed

theorem fd_write_lost_on_close_witness:
  "\<exists>f fs g fp fs1 fp' fs2 fs3. xxfs_mkfs blank_file 64 False = (XXFS_OK, f) \<and> xxfs_mount f 0 = Some (Inr fs) \<and>
    xxfs_create fs [0x2F, 0x61] 420 0 0 = Some (XXFS_OK, g) \<and> xxfs_open g [0x2F, 0x61] 0 = Some (Inr fp, fs1) \<and>
    xxfs_write_fd fs1 fp [1, 2, 3] 0 = (Inr 3, fp', fs2) \<and> xxfs_close fs2 fp' = Some (XXFS_OK, fs3) \<and>
    xxfs_read fs3 [0x2F, 0x61] [9, 9, 9] 0 = Some (Inl XXFS_EIO, [9, 9, 9], fs3)"
proof -
  obtain f fs g ino where s: "xxfs_mkfs blank_file 64 False = (XXFS_OK, f)" "xxfs_mount f 0 = Some (Inr fs)"
    "xxfs_create fs [0x2F, 0x61] 420 0 0 = Some (XXFS_OK, g)" "fs_inv g" "icache_room g 8191"
    "icache_near g (xxh64 [0x2F, 0x61])" "inode_view g [0x2F, 0x61] = Some ino" "i_file_type ino = XXFS_FT_REG"
    "file_ok g ino" "file_bytes g ino = []" "i_blocks ino = 0" "i_size ino = 0" "200 \<le> free_blocks g" "cached_inode g (xxh64 [0x2F, 0x61]) = Some ino"
    by (rule sample_file)
  obtain idx where l: "icache_lookup g (xxh64 (path_normalize [0x2F, 0x61])) = Some idx" "ino = ic_inode (icache g (unat idx))"
    using s(14) by (auto simp: cached_inode_def sample_path)
  have "collision_free [0x2F, 0x61] (chain_kv g [0x2F, 0x61])" by (rule collision_free_short) (simp add: KEY_PREFIX_LEN_def)
  moreover have "i_file_type ino \<noteq> XXFS_FT_DIR" using s(8) by (simp add: XXFS_FT_REG_def XXFS_FT_DIR_def)
  moreover have "(length [1, 2, 3 :: u8] + 4095) div 4096 + 3 \<le> free_blocks g" using s(13) by simp
  ultimately show ?thesis
    using fd_write_lost_on_close [of g "[0x2F, 0x61]" idx ino "[1, 2, 3]" "[9, 9, 9]" 0] l s(1-4,9,11,12)
    by (fastforce simp: sample_path)
qed

text \<open>Two blocks, written one after the other through one handle: the second write leaves the block of the first one behind.\<close>

theorem fd_growth_loses_contents_witness:
  "\<exists>f fs fp1 fs1 fp2 fs2 fp3. xxfs_mkfs blank_file 64 False = (XXFS_OK, f) \<and> xxfs_mount f 0 = Some (Inr fs) \<and>
    xxfs_write_fd fs \<lparr>xf_hash = 0, xf_extent_off = 0, xf_size = 0, xf_blocks = 0, xf_path = [0x2F, 0x61], xf_flags = 0\<rparr> (replicate 4096 1) 0 = (Inr 4096, fp1, fs1) \<and>
    xxfs_write_fd fs1 fp1 (replicate 4096 2) 4096 = (Inr 4096, fp2, fs2) \<and> unat (xf_extent_off fp2) = unat (xf_extent_off fp1) + unat (xf_blocks fp1) * 4096 \<and>
    xxfs_read_fd fs2 fp2 [9] 0 = (Inr 1, [os_byte (img fs1) (unat (xf_extent_off fp2))], fp3)"
proof -
  obtain f fs now where m: "xxfs_mkfs blank_file 64 False = (XXFS_OK, f)" "xxfs_mount f 0 = Some (Inr fs)" "fresh_mounted fs now"
    by (rule sample_mounted)
  let ?fp = "\<lparr>xf_hash = 0, xf_extent_off = 0, xf_size = 0, xf_blocks = 0, xf_path = [0x2F, 0x61], xf_flags = 0\<rparr>"
  let ?a = "replicate 4096 1 :: bytes" and ?b = "replicate 4096 2 :: bytes"
  have i: "index_ok fs" "249 \<le> free_blocks fs" using m(3) fs_invD(1) by (simp_all add: fresh_mounted_def)
  have h: "handle_ok fs ?fp []" by (simp add: handle_ok_def)
  have c: "fd_can_write fs ?fp [] ?a 0" using i(2) by (simp add: fd_can_write_def)
  obtain fp1 fs1 where w: "xxfs_write_fd fs ?fp ?a 0 = (Inr (length ?a), fp1, fs1)" "fd_written fs ?fp (overlay (unat (0::u64)) ?a []) fp1 fs1" "xf_blocks fp1 \<noteq> 0"
    "free_blocks fs \<le> free_blocks fs1 + (unat (0::u64) + length ?a + 4095) div 4096" "unat (xf_extent_off fp1) + unat (xf_blocks fp1) * 4096 = alloc_frontier fs1"
    "unat (xf_blocks fp1) = (unat (0::u64) + length ?a + 4095) div 4096"
    by (rule write_fd_law [OF i(1) h c]) simp
  have k: "handle_ok fs1 fp1 (overlay 0 ?a [])" "index_ok fs1" using w(2) data_stepD(1) by (auto simp: fd_written_def)
  have b1: "unat (xf_blocks fp1) = 1" and fb: "248 \<le> free_blocks fs1" using w(4,6) i(2) by simp_all
  have u: "unat (4096 :: u64) = 4096" by simp
  have grow: "unat (xf_blocks fp1) * 4096 < unat (4096 :: u64) + length ?b" "?b \<noteq> []" "length ?b < 2 ^ 31" using b1 by simp_all
  have free: "(unat (4096 :: u64) + length ?b + 4095) div 4096 - unat (xf_blocks fp1) \<le> free_blocks fs1" using b1 fb by simp
  have fit: "alloc_frontier fs1 + unat (4096 :: u64) + length ?b < 2 ^ 63" using free_space_fits [OF k(2)] fb by simp
  obtain fp2 fs2 where g: "xxfs_write_fd fs1 fp1 ?b 4096 = (Inr (length ?b), fp2, fs2)" "unat (xf_extent_off fp2) = unat (xf_extent_off fp1) + unat (xf_blocks fp1) * 4096"
    "\<forall>rbuf roff. rbuf \<noteq> [] \<and> length rbuf < 2 ^ 31 \<and> unat roff + length rbuf \<le> unat (4096 :: u64) \<longrightarrow>
      xxfs_read_fd fs2 fp2 rbuf roff = (Inr (length rbuf), peek (img fs1) (unat (xf_extent_off fp2) + unat roff) (length rbuf), tick fs2)"
    using fd_growth_loses_contents [OF k(2,1) w(3,5) grow(2,3,1) free fit] by blast
  have "xxfs_read_fd fs2 fp2 [9] 0 = (Inr 1, [os_byte (img fs1) (unat (xf_extent_off fp2))], tick fs2)"
    using g(3) [rule_format, of "[9]" 0] by (simp add: peek_def)
  moreover have "xxfs_write_fd fs ?fp ?a 0 = (Inr 4096, fp1, fs1)" "xxfs_write_fd fs1 fp1 ?b 4096 = (Inr 4096, fp2, fs2)"
    using w(1) g(1) by (simp_all only: length_replicate)
  ultimately show ?thesis using m(1,2) g(2) by blast
qed

end
