(* ===== verification/Fs_Rename.thy ===== *)
theory Fs_Rename
  imports Fs_Data
begin

text \<open>
  Renaming (\<^verbatim>\<open>xxfs_rename\<close>): the inode that the index has for the old path moves to the new one, in the index and in the cache. What only the inode cache
  knew of the file is dropped, and the directories of the two paths are not told.
\<close>

definition renamed_inode :: "xxfs_inode \<Rightarrow> bytes \<Rightarrow> u64 \<Rightarrow> xxfs_inode" where
  "renamed_inode ino new t =
     inode_set_checksum_ecc (ino\<lparr>i_ctime := t, i_name := buf_put 0 (take XXFS_MAX_NAME (get_basename new) @ [0]) (i_name ino)\<rparr>)"

definition node_moved :: "xxfs \<Rightarrow> bytes \<Rightarrow> bytes \<Rightarrow> xxfs_inode \<Rightarrow> xxfs \<Rightarrow> bool" where
  "node_moved fs old new ino fs' \<longleftrightarrow> fs_inv fs' \<and> inode_view fs' new = Some ino \<and> inode_view fs' old = None \<and>
     index_inode fs' = (index_inode fs)(old := None, new \<mapsto> ino) \<and>
     (\<forall>q. apart q old \<and> apart q new \<longrightarrow> inode_view fs' q = inode_view fs q) \<and> index_spares fs fs' \<and>
     (\<forall>dir d. apart dir old \<and> apart dir new \<and> inode_view fs dir = Some d \<and> i_file_type d = XXFS_FT_DIR \<and> dir_ready fs dir \<longrightarrow>
       dir_children fs' dir = dir_children fs dir)"

lemma dir_inode_view: "inode_view fs dir = Some d \<Longrightarrow> i_file_type d = XXFS_FT_DIR \<Longrightarrow> dir_inode fs dir = Some d"
  by (auto simp: inode_view_def dir_inode_def split: option.splits)

text \<open>What the renaming needs: the index can take the new path, and no inode has been cached behind that of the old one. The inode of the old path itself may be
  cached or not.\<close>

definition can_rename :: "xxfs \<Rightarrow> bytes \<Rightarrow> bytes \<Rightarrow> bool" where
  "can_rename fs old new \<longleftrightarrow> fs_inv fs \<and> index_unique fs \<and> icache_room fs 1 \<and> icache_lone fs (xxh64 old) \<and>
     collision_free old (chain_kv fs old) \<and> can_store fs new \<and> apart old new"

text \<open>Storing the inode under the new path, after the old one has gone.\<close>

lemma moved_node:
  assumes inv: "fs_inv fs" and h: "fs_inv h" "index_spares fs h" "index_inode h = (index_inode fs)(old := None)" "dcache h = dcache fs"
    and ch: "cached_inode h (xxh64 old) = None" "\<And>x. x \<noteq> xxh64 old \<Longrightarrow> cached_inode h x = cached_inode fs x"
    and r: "inode_replaced h new s fs'" and on: "xxh64 old \<noteq> xxh64 new"
  shows "node_moved fs old new s fs'"
proof -
  note q = r [unfolded inode_replaced_def]
  have ih: "index_inode h x = index_inode fs x" if "apart x old" for x using that h(3) by (auto simp: apart_def)
  have vh: "inode_view h x = inode_view fs x" if "apart x old" for x
  proof -
    have "cached_inode h (xxh64 x) = cached_inode fs (xxh64 x)" using that ch(2) by (simp add: apart_def)
    then show ?thesis unfolding inode_view_def ih [OF that] by (simp only:)
  qed
  have vo: "inode_view h old = None" using h(3) ch(1) by (simp add: inode_view_def)
  have sp: "index_spares fs fs'" using index_spares_trans [OF h(2)] q by blast
  show ?thesis
    unfolding node_moved_def
  proof (intro conjI allI impI)
    show "inode_view fs' old = None" using q vo on by (simp add: apart_def)
    show "inode_view fs' x = inode_view fs x" if "apart x old \<and> apart x new" for x using that q vh [of x] by auto
    show "index_inode fs' = (index_inode fs)(old := None, new \<mapsto> s)" using q h(3) by simp
    show "dir_children fs' x = dir_children fs x"
      if x: "apart x old \<and> apart x new \<and> inode_view fs x = Some d \<and> i_file_type d = XXFS_FT_DIR \<and> dir_ready fs x" for x d
    proof -
      have "inode_view fs' x = Some d" using x q vh [of x] by auto
      then have "dir_inode fs' x = dir_inode fs x" using x dir_inode_view by metis
      moreover have "dcache fs' = dcache fs" using q h(4) by simp
      ultimately show ?thesis using dir_spared(2) [OF fs_invD(1) [OF inv] _ sp] x q fs_invD(1) by blast
    qed
  qed (use q sp in simp_all)
qed

lemma rename_law:
  assumes c: "can_rename fs (path_normalize old) (path_normalize new)" and ino: "index_inode fs (path_normalize old) = Some ino"
  obtains t fs' where "xxfs_rename fs old new = Some (XXFS_OK, fs')"
    and "node_moved fs (path_normalize old) (path_normalize new) (renamed_inode ino (path_normalize new) t) fs'"
proof -
  let ?o = "path_normalize old" and ?n = "path_normalize new"
  have c': "fs_inv fs" "index_unique fs" "icache_room fs (Suc 0)" "icache_lone fs (xxh64 ?o)" "collision_free ?o (chain_kv fs ?o)"
    "can_store fs ?n" "xxh64 ?o \<noteq> xxh64 ?n" using c by (simp_all add: can_rename_def apart_def)
  obtain g0 where g0: "inode_paged_get fs ?o = Some (Inr ino, g0)" "ns_same fs g0" "dcache g0 = dcache fs"
    by (rule inode_paged_get_ns [OF fs_invD(4) [OF c'(1)] length_norm32 [of old]]) (simp add: ino)
  have ns: "ns_same fs (tick g0)" by (rule ns_same_trans [OF g0(2) tick_ns [OF ns_sameD(1) [OF g0(2)]]])
  let ?t = "os_clock (img g0) (os_calls (img g0))" and ?g = "tick g0"
  let ?i = "ino\<lparr>i_ctime := ?t, i_name := buf_put 0 (take XXFS_MAX_NAME (get_basename ?n) @ [0]) (i_name ino)\<rparr>"
  let ?s = "renamed_inode ino ?n ?t"
  note n = ns_sameD [OF ns] and si = same_indexD [OF ns_sameD(2) [OF ns]]
  have wf: "wf_inode ?i" using index_inode_wf [OF c'(1) ino] by (simp add: wf_inode_def length_buf_put XXFS_MAX_NAME_def)
  have ig: "fs_inv ?g" "index_unique ?g" "collision_free ?o (chain_kv ?g ?o)" "index_abs ?g ?o \<noteq> None" "icache_lone ?g (xxh64 ?o)"
    using n(1,8) c'(1,2,4,5) si(2,4,5) ino icache_lone_cong [OF n(9)] by (auto simp: fs_inv_def index_inode_def)
  obtain d where d: "paged_del ?g ?o = Some (XXFS_OK, d)" "fs_inv (icache_del d (xxh64 ?o))" "index_spares ?g (icache_del d (xxh64 ?o))"
    "index_inode (icache_del d (xxh64 ?o)) = (index_inode ?g)(?o := None)" "cached_inode (icache_del d (xxh64 ?o)) (xxh64 ?o) = None"
    "dcache (icache_del d (xxh64 ?o)) = dcache ?g" "sb (icache_del d (xxh64 ?o)) = sb ?g"
    "adds_key ?g ?o (icache_del d (xxh64 ?o))" and ch: "\<And>x. x \<noteq> xxh64 ?o \<Longrightarrow> cached_inode (icache_del d (xxh64 ?o)) x = cached_inode ?g x"
    and rm: "\<And>x. icache_room ?g x \<Longrightarrow> icache_room (icache_del d (xxh64 ?o)) x"
    by (rule path_dropped [OF ig length_norm32]) blast
  let ?h = "icache_del d (xxh64 ?o)"
  have "collision_free ?n (chain_kv ?h ?n)"
    by (rule adds_collision_free [OF d(8)]) (use c'(6,7) si(5) in \<open>auto simp: can_store_def\<close>)
  then have cs: "can_store ?h ?n" using c'(6) d(7) n(6) by (simp add: can_store_def)
  have rh: "icache_room ?h (Suc 0)" by (rule rm) (use c'(3) n(5) in simp)
  obtain k fs' where p: "paged_put ?h ?n (inode_to_val ?s) = Some (XXFS_OK, k)" "icache_put k (xxh64 ?n) ?n ?s = Some fs'" "inode_replaced ?h ?n ?s fs'"
    unfolding renamed_inode_def by (rule put_cached_law [OF d(2) rh cs wf])
  have res: "xxfs_rename fs old new = Some (XXFS_OK, fs')"
    using g0(1) d(1) p(1,2) by (simp add: xxfs_rename_def Let_def fs_time_tick renamed_inode_def)
  have "node_moved fs ?o ?n ?s fs'"
    by (rule moved_node [OF c'(1) d(2) _ _ _ d(5) _ p(3) c'(7)])
      (use index_spares_trans [OF si(8) d(3)] d(4,6) si(3) g0(3) ch n(4) in simp_all)
  then show thesis by (rule that [OF res])
qed

text \<open>C13: renaming a stored file, behind whose inode no other one has been put in the inode cache, succeeds: the inode that the index holds for the old path is then found,
  with the new name and change time, at the new path and no longer at the old one, in the view and in the index; all other paths keep their inodes. The inode that moves is the stored
  one also when the inode cache has a newer one for the old path, so that what was written to the file since it was last stored is lost: a file
  that is created, written and renamed is empty at its new path. The directories are not changed: each lists the same children as before,
  so that the parent of the old path still has the old name and the parent of the new path does not have the new one.\<close>

theorem rename_correct:
  assumes "can_rename fs (path_normalize old) (path_normalize new)" and "index_inode fs (path_normalize old) = Some ino"
  shows "\<exists>t fs'. xxfs_rename fs old new = Some (XXFS_OK, fs') \<and>
    node_moved fs (path_normalize old) (path_normalize new) (renamed_inode ino (path_normalize new) t) fs'"
  by (rule rename_law [OF assms]) blast

lemma renamed_path: "path_normalize [0x2F, 0x62] = [0x2F, 0x62]" "xxh64 [0x2F, 0x61] \<noteq> xxh64 [0x2F, 0x62]"
  by (simp_all add: path_normalize_def strip_slashes.simps XXFS_MAX_PATH_def xxh64_def xxh_head_def xxh_tail_def xxh_final_def rotl64_def XXH_P1_def
      XXH_P2_def XXH_P3_def XXH_P5_def)

lemma renamed_size:
  assumes "wf_inode ino"
  shows "i_size (renamed_inode ino new t) = i_size ino"
proof -
  let ?i = "ino\<lparr>i_ctime := t, i_name := buf_put 0 (take XXFS_MAX_NAME (get_basename new) @ [0]) (i_name ino)\<rparr>"
  have "wf_inode ?i" using assms by (simp add: wf_inode_def length_buf_put XXFS_MAX_NAME_def)
  then show ?thesis using sealed_fields(3) [of ?i] by (simp add: renamed_inode_def)
qed

text \<open>Three bytes are written to a new file, and lost when it is renamed.\<close>

theorem rename_correct_witness:
  "\<exists>f fs g h i fs' ino. xxfs_mkfs blank_file 64 False = (XXFS_OK, f) \<and> xxfs_mount f 0 = Some (Inr fs) \<and>
    xxfs_create fs [0x2F, 0x61] 420 0 0 = Some (XXFS_OK, g) \<and> xxfs_write g [0x2F, 0x61] [1, 2, 3] 0 = Some (Inr 3, h) \<and>
    inode_view h [0x2F, 0x61] = Some i \<and> file_bytes h i = [1, 2, 3] \<and> xxfs_rename h [0x2F, 0x61] [0x2F, 0x62] = Some (XXFS_OK, fs') \<and>
    inode_view fs' [0x2F, 0x62] = Some ino \<and> i_size ino = 0 \<and> inode_view fs' [0x2F, 0x61] = None"
proof -
  obtain f fs g ino where s: "xxfs_mkfs blank_file 64 False = (XXFS_OK, f)" "xxfs_mount f 0 = Some (Inr fs)"
    "xxfs_create fs [0x2F, 0x61] 420 0 0 = Some (XXFS_OK, g)" "fs_inv g" "icache_room g 8191"
    "icache_near g (xxh64 [0x2F, 0x61])" "inode_view g [0x2F, 0x61] = Some ino" "i_file_type ino = XXFS_FT_REG"
    "file_ok g ino" "file_bytes g ino = []" "i_blocks ino = 0" "i_size ino = 0" "200 \<le> free_blocks g"
    "index_inode g [0x2F, 0x61] = Some ino" "index_unique g"
    and only: "\<And>i. i < unat (icache_cap g) \<Longrightarrow> in_use g i \<Longrightarrow> ic_hash (icache g i) = xxh64 [0x2F, 0x61]"
    by (rule sample_file) blast
  have r: "icache_room g (Suc 1)" and t: "i_file_type ino \<noteq> XXFS_FT_DIR"
    using s(5,8) by (simp_all add: icache_room_def XXFS_FT_REG_def XXFS_FT_DIR_def)
  have w: "can_write g ino 0 [1, 2, 3]" using s(11) by (simp add: can_write_def)
  have p: "icache_near g (xxh64 (path_normalize [0x2F, 0x61]))" "inode_view g (path_normalize [0x2F, 0x61]) = Some ino"
    using s(6,7) by (simp_all add: sample_path)
  obtain i h where h: "xxfs_write g [0x2F, 0x61] [1, 2, 3] 0 = Some (Inr (of_nat (length [1, 2, 3 :: u8])), h)"
    "file_written 1 g (path_normalize [0x2F, 0x61]) ino (overlay (unat (0::u64)) [1, 2, 3] (file_bytes g ino)) i h"
    by (rule write_law [OF s(4) r p t s(9) w])
  note fw = h(2) [unfolded file_written_def sample_path s(10)]
  have iv: "fs_inv h" "icache_room h 1" "index_unique h" "index_inode h [0x2F, 0x61] = Some ino" "3 \<le> free_blocks h"
    using fw s(13-15) by (simp_all add: overlay_def)
  have st: "cache_step g (xxh64 [0x2F, 0x61]) [0x2F, 0x61] h" using fw by blast
  have "ic_hash (icache h j) = xxh64 [0x2F, 0x61]" if "j < unat (icache_cap h)" "in_use h j" for j
    using st that only [of j] by (auto simp: cache_step_def slot_kept_def slot_put_def)
  then have "icache_lone h (xxh64 [0x2F, 0x61])" using icache_lone_only fs_invD(3) [OF iv(1)] by blast
  then have c: "can_rename h [0x2F, 0x61] [0x2F, 0x62]"
    using iv renamed_path(2) by (simp add: can_rename_def can_store_def apart_def collision_free_short KEY_PREFIX_LEN_def)
  obtain u fs' where m: "xxfs_rename h [0x2F, 0x61] [0x2F, 0x62] = Some (XXFS_OK, fs')"
    "node_moved h [0x2F, 0x61] [0x2F, 0x62] (renamed_inode ino [0x2F, 0x62] u) fs'"
    using rename_correct [of h "[0x2F, 0x61]" "[0x2F, 0x62]" ino] c iv(4) by (auto simp: sample_path renamed_path(1))
  have "i_size (renamed_inode ino [0x2F, 0x62] u) = 0" using renamed_size s(9,12) by (simp add: file_ok_def)
  moreover have "inode_view h [0x2F, 0x61] = Some i" "file_bytes h i = [1, 2, 3]" using fw by (simp_all add: overlay_def)
  moreover have "inode_view fs' [0x2F, 0x62] = Some (renamed_inode ino [0x2F, 0x62] u)" "inode_view fs' [0x2F, 0x61] = None"
    using m(2) by (simp_all add: node_moved_def)
  moreover have "xxfs_write g [0x2F, 0x61] [1, 2, 3] 0 = Some (Inr 3, h)" using h(1) by simp
  ultimately show ?thesis using s(1-3) m(1) by blast
qed

end
