(* ===== verification/Fs_Lock.thy ===== *)
theory Fs_Lock
  imports Fs_Sync
begin

text \<open>
  The read-write lock around the operations, and threads that call them. Each operation is a program of steps: it takes the lock with \<^verbatim>\<open>fs_wlock\<close> or \<^verbatim>\<open>fs_rlock\<close> where the
  source does, makes its calls into the library one by one, and gives the lock back before every return. The steps of different threads interleave. The calls
  that take the lock for writing then have the results of being made one after the other; \<^verbatim>\<open>xxfs_stat\<close> takes it for reading and still fills the inode cache.
\<close>

section \<open>The lock\<close>

text \<open>\<^verbatim>\<open>struct xxfs_os_lock\<close> stands for a POSIX read-write lock: many threads may hold it for reading, or one for writing. \<open>None\<close>: the thread has to wait. The lock is modelled
  with storage of its own; the 32 bytes that \<^verbatim>\<open>xxfs.h\<close> reserves are less than a \<^verbatim>\<open>pthread_rwlock_t\<close> needs on common platforms.\<close>

type_synonym thread = nat

record xxfs_os_lock =
  rw_readers :: "thread set"
  rw_writer :: "thread option"

definition xxfs_os_lock_init :: xxfs_os_lock where
  "xxfs_os_lock_init = \<lparr>rw_readers = {}, rw_writer = None\<rparr>"

definition xxfs_os_read_lock :: "thread \<Rightarrow> xxfs_os_lock \<Rightarrow> xxfs_os_lock option" where
  "xxfs_os_read_lock t l = (if rw_writer l = None then Some (l\<lparr>rw_readers := insert t (rw_readers l)\<rparr>) else None)"

definition xxfs_os_write_lock :: "thread \<Rightarrow> xxfs_os_lock \<Rightarrow> xxfs_os_lock option" where
  "xxfs_os_write_lock t l = (if rw_writer l = None \<and> rw_readers l = {} then Some (l\<lparr>rw_writer := Some t\<rparr>) else None)"

text \<open>Both unlock functions call \<^verbatim>\<open>pthread_rwlock_unlock\<close>, which gives back what the thread holds.\<close>

definition pthread_rwlock_unlock :: "thread \<Rightarrow> xxfs_os_lock \<Rightarrow> xxfs_os_lock" where
  "pthread_rwlock_unlock t l = l\<lparr>rw_readers := rw_readers l - {t}, rw_writer := (if rw_writer l = Some t then None else rw_writer l)\<rparr>"

definition xxfs_os_read_unlock :: "thread \<Rightarrow> xxfs_os_lock \<Rightarrow> xxfs_os_lock" where
  "xxfs_os_read_unlock t l = pthread_rwlock_unlock t l"

definition xxfs_os_write_unlock :: "thread \<Rightarrow> xxfs_os_lock \<Rightarrow> xxfs_os_lock" where
  "xxfs_os_write_unlock t l = pthread_rwlock_unlock t l"

text \<open>Destroying a lock that is held is undefined.\<close>

definition xxfs_os_lock_destroy :: "xxfs_os_lock \<Rightarrow> unit option" where
  "xxfs_os_lock_destroy l = (if rw_readers l = {} \<and> rw_writer l = None then Some () else None)"

text \<open>The macros of the library, which do nothing on a file system mounted without locking.\<close>

definition XXFS_FLAG_NOLOCK :: u64 where "XXFS_FLAG_NOLOCK = 0x40"

definition fs_wlock :: "u64 \<Rightarrow> thread \<Rightarrow> xxfs_os_lock \<Rightarrow> xxfs_os_lock option" where
  "fs_wlock flg t l = (if flg AND XXFS_FLAG_NOLOCK = 0 then xxfs_os_write_lock t l else Some l)"

definition fs_wunlock :: "u64 \<Rightarrow> thread \<Rightarrow> xxfs_os_lock \<Rightarrow> xxfs_os_lock" where
  "fs_wunlock flg t l = (if flg AND XXFS_FLAG_NOLOCK = 0 then xxfs_os_write_unlock t l else l)"

definition fs_rlock :: "u64 \<Rightarrow> thread \<Rightarrow> xxfs_os_lock \<Rightarrow> xxfs_os_lock option" where
  "fs_rlock flg t l = (if flg AND XXFS_FLAG_NOLOCK = 0 then xxfs_os_read_lock t l else Some l)"

definition fs_runlock :: "u64 \<Rightarrow> thread \<Rightarrow> xxfs_os_lock \<Rightarrow> xxfs_os_lock" where
  "fs_runlock flg t l = (if flg AND XXFS_FLAG_NOLOCK = 0 then xxfs_os_read_unlock t l else l)"

section \<open>What a read-write lock promises\<close>

datatype lock_mode = Shared | Exclusive

text \<open>Who holds the lock, and how.\<close>

definition holders :: "xxfs_os_lock \<Rightarrow> (thread \<times> lock_mode) set" where
  "holders l = (\<lambda>t. (t, Shared)) ` rw_readers l \<union> (case rw_writer l of None \<Rightarrow> {} | Some t \<Rightarrow> {(t, Exclusive)})"

definition fs_lock :: "u64 \<Rightarrow> lock_mode \<Rightarrow> thread \<Rightarrow> xxfs_os_lock \<Rightarrow> xxfs_os_lock option" where
  "fs_lock flg m = (case m of Shared \<Rightarrow> fs_rlock flg | Exclusive \<Rightarrow> fs_wlock flg)"

definition fs_unlock :: "u64 \<Rightarrow> lock_mode \<Rightarrow> thread \<Rightarrow> xxfs_os_lock \<Rightarrow> xxfs_os_lock" where
  "fs_unlock flg m = (case m of Shared \<Rightarrow> fs_runlock flg | Exclusive \<Rightarrow> fs_wunlock flg)"

locale rw_lock =
  fixes init :: 'k and lock :: "lock_mode \<Rightarrow> thread \<Rightarrow> 'k \<Rightarrow> 'k option" and unlock :: "lock_mode \<Rightarrow> thread \<Rightarrow> 'k \<Rightarrow> 'k"
    and held :: "'k \<Rightarrow> (thread \<times> lock_mode) set"
  assumes init_free: "held init = {}"
    and lock_holds: "lock m t k = Some k' \<Longrightarrow> held k' = insert (t, m) (held k)"
    and lock_shared: "lock Shared t k = Some k' \<Longrightarrow> (u, n) \<in> held k \<Longrightarrow> n = Shared"
    and lock_exclusive: "lock Exclusive t k = Some k' \<Longrightarrow> held k = {}"
    and lock_free: "held k = {} \<Longrightarrow> \<exists>k'. lock m t k = Some k'"
    and unlock_holds: "held (unlock m t k) = held k - {t} \<times> UNIV"
begin

definition exclusive :: "'k \<Rightarrow> bool" where
  "exclusive k \<longleftrightarrow> (\<forall>t. (t, Exclusive) \<in> held k \<longrightarrow> held k = {(t, Exclusive)})"

lemma exclusive_init: "exclusive init"
  by (simp add: exclusive_def init_free)

lemma exclusive_lock: "exclusive k \<Longrightarrow> lock m t k = Some k' \<Longrightarrow> exclusive k'"
  using lock_holds [of m t k k'] lock_shared [of t k k'] lock_exclusive [of t k k'] by (cases m) (auto simp: exclusive_def)

lemma exclusive_unlock: "exclusive k \<Longrightarrow> exclusive (unlock m t k)"
  by (auto simp: exclusive_def unlock_holds)

lemma exclusive_alone: "exclusive k \<Longrightarrow> (t, m) \<in> held k \<Longrightarrow> (u, n) \<in> held k \<Longrightarrow> t \<noteq> u \<Longrightarrow> m = Shared \<and> n = Shared"
  by (cases m; cases n) (auto simp: exclusive_def)

end

interpretation rw: rw_lock xxfs_os_lock_init "fs_lock 0" "fs_unlock 0" holders
proof (unfold_locales, goal_cases)
  case (2 m t k k')
  then show ?case
    by (cases m) (auto simp: fs_lock_def fs_rlock_def fs_wlock_def xxfs_os_read_lock_def xxfs_os_write_lock_def holders_def split: if_splits)
next
  case (3 t k k' u n)
  then show ?case by (auto simp: fs_lock_def fs_rlock_def xxfs_os_read_lock_def holders_def split: if_splits)
next
  case (4 t k k')
  then show ?case by (auto simp: fs_lock_def fs_wlock_def xxfs_os_write_lock_def holders_def split: if_splits)
next
  case (5 k m t)
  then show ?case
    by (cases m) (auto simp: fs_lock_def fs_rlock_def fs_wlock_def xxfs_os_read_lock_def xxfs_os_write_lock_def holders_def split: option.splits)
next
  case (6 m t k)
  then show ?case
    by (cases m) (auto simp: fs_unlock_def fs_runlock_def fs_wunlock_def xxfs_os_read_unlock_def xxfs_os_write_unlock_def pthread_rwlock_unlock_def
        holders_def split: option.splits)
qed (simp add: holders_def xxfs_os_lock_init_def)

text \<open>\<^verbatim>\<open>xxfs_umount\<close> takes the lock for writing, gives it back and destroys it: at that time nobody holds it.\<close>

lemma umount_destroys_free_lock:
  assumes "fs_wlock 0 t l = Some k"
  shows "xxfs_os_lock_destroy (fs_wunlock 0 t k) = Some ()"
proof -
  have "fs_lock 0 Exclusive t l = Some k" using assms by (simp add: fs_lock_def)
  from rw.lock_holds [OF this] rw.lock_exclusive [OF this] have "holders (fs_unlock 0 Exclusive t k) = {}" by (simp add: rw.unlock_holds)
  then show ?thesis by (auto simp: xxfs_os_lock_destroy_def fs_unlock_def holders_def split: option.splits)
qed


section \<open>Operations as programs\<close>

text \<open>A program of one call. \<open>Do\<close> is a step on the file system, \<open>None\<close> undefined behaviour as elsewhere; \<open>UnlockReturn\<close> gives the lock back and returns, which the source always has
  together; \<open>Return\<close> returns before the lock is taken.\<close>

datatype 'r prog = Return 'r | Lock lock_mode "'r prog" | UnlockReturn lock_mode 'r | Do "xxfs \<Rightarrow> ('r prog \<times> xxfs) option"

text \<open>A call into the library, a look at the state, and a change of it.\<close>

definition invoke :: "(xxfs \<Rightarrow> ('a \<times> xxfs) option) \<Rightarrow> ('a \<Rightarrow> 'r prog) \<Rightarrow> 'r prog" where
  "invoke f k = Do (\<lambda>fs. map_option (\<lambda>(r, g). (k r, g)) (f fs))"

definition look :: "(xxfs \<Rightarrow> 'a) \<Rightarrow> ('a \<Rightarrow> 'r prog) \<Rightarrow> 'r prog" where
  "look f k = Do (\<lambda>fs. Some (k (f fs), fs))"

definition change :: "(xxfs \<Rightarrow> xxfs) \<Rightarrow> 'r prog \<Rightarrow> 'r prog" where
  "change f p = Do (\<lambda>fs. Some (p, f fs))"

definition cache_inode :: "bytes \<Rightarrow> xxfs_inode \<Rightarrow> 'r prog \<Rightarrow> 'r prog" where
  "cache_inode norm ino p = invoke (\<lambda>fs. map_option (Pair ()) (icache_put fs (xxh64 norm) norm ino)) (\<lambda>_. p)"

text \<open>The results of the operations.\<close>

datatype ret = RetCode rc | RetInode "rc + xxfs_inode" | RetCount "rc + u32" | RetData "rc + u32" bytes

abbreviation w_return :: "rc \<Rightarrow> ret prog" where
  "w_return rc \<equiv> UnlockReturn Exclusive (RetCode rc)"

abbreviation w_count :: "rc + u32 \<Rightarrow> ret prog" where
  "w_count r \<equiv> UnlockReturn Exclusive (RetCount r)"

definition create_prog :: "bytes \<Rightarrow> u16 \<Rightarrow> u16 \<Rightarrow> u16 \<Rightarrow> ret prog" where
  "create_prog path mode uid gid =
     (let norm = path_normalize path; name = get_basename norm in
      Lock Exclusive
       (look (\<lambda>fs. icache_lookup fs (xxh64 norm)) (\<lambda>ice.
          if ice \<noteq> None then w_return XXFS_EEXIST
          else look (\<lambda>fs. new_inode fs mode uid gid XXFS_FT_REG 1 name) (\<lambda>ino.
            invoke (\<lambda>fs. paged_insert fs norm (inode_to_val ino)) (\<lambda>rc.
              if rc = XXFS_OK
              then cache_inode norm ino
                     (invoke (\<lambda>fs. dir_add_child fs (get_parent_path norm) name (ucast XXFS_FT_REG)) (\<lambda>_.
                        change (\<lambda>fs. fs\<lparr>sb := (sb fs)\<lparr>s_inodes_count := s_inodes_count (sb fs) + 1,
                                                      s_free_inodes := s_free_inodes (sb fs) - 1\<rparr>\<rparr>)
                          (w_return rc)))
              else w_return rc)))))"

definition mkdir_prog :: "bytes \<Rightarrow> u16 \<Rightarrow> u16 \<Rightarrow> u16 \<Rightarrow> ret prog" where
  "mkdir_prog path mode uid gid =
     (let norm = path_normalize path; name = get_basename norm in
      Lock Exclusive
       (look (\<lambda>fs. icache_lookup fs (xxh64 norm)) (\<lambda>ice.
          if ice \<noteq> None then w_return XXFS_EEXIST
          else look (\<lambda>fs. new_inode fs mode uid gid XXFS_FT_DIR 2 name) (\<lambda>ino.
            invoke (\<lambda>fs. paged_insert fs norm (inode_to_val ino)) (\<lambda>rc.
              if rc = XXFS_OK
              then cache_inode norm ino
                     (invoke (\<lambda>fs. dir_add_child fs (get_parent_path norm) name (ucast XXFS_FT_DIR)) (\<lambda>_.
                        change (\<lambda>fs. fs\<lparr>sb := (sb fs)\<lparr>s_inodes_count := s_inodes_count (sb fs) + 1\<rparr>\<rparr>)
                          (w_return rc)))
              else w_return rc)))))"

text \<open>The inode of a path, from the cache or from the index; \<^verbatim>\<open>fetch\<close> also caches what comes from the index.\<close>

definition get_prog :: "bytes \<Rightarrow> (rc + xxfs_inode \<Rightarrow> 'r prog) \<Rightarrow> 'r prog" where
  "get_prog norm k =
     look (\<lambda>fs. cached_inode fs (xxh64 norm)) (\<lambda>ice.
       case ice of Some ino \<Rightarrow> k (Inr ino) | None \<Rightarrow> invoke (\<lambda>fs. inode_paged_get fs norm) k)"

definition fetch_prog :: "bytes \<Rightarrow> (rc + xxfs_inode \<Rightarrow> 'r prog) \<Rightarrow> 'r prog" where
  "fetch_prog norm k =
     look (\<lambda>fs. cached_inode fs (xxh64 norm)) (\<lambda>ice.
       case ice of Some ino \<Rightarrow> k (Inr ino)
       | None \<Rightarrow> invoke (\<lambda>fs. inode_paged_get fs norm) (\<lambda>r.
           case r of Inl rc \<Rightarrow> k (Inl rc) | Inr ino \<Rightarrow> cache_inode norm ino (k (Inr ino))))"

definition remove_prog :: "bytes \<Rightarrow> (rc \<Rightarrow> 'r prog) \<Rightarrow> 'r prog" where
  "remove_prog norm k =
     invoke (\<lambda>fs. paged_del fs norm) (\<lambda>rc.
       if rc = XXFS_OK
       then change (\<lambda>fs. icache_del fs (xxh64 norm))
              (invoke (\<lambda>fs. dir_remove_child fs (get_parent_path norm) (get_basename norm)) (\<lambda>_.
                 change (\<lambda>fs. fs\<lparr>sb := (sb fs)\<lparr>s_inodes_count := s_inodes_count (sb fs) - 1\<rparr>\<rparr>) (k rc)))
       else k rc)"

definition unlink_prog :: "bytes \<Rightarrow> ret prog" where
  "unlink_prog path =
     (let norm = path_normalize path in
      Lock Exclusive (fetch_prog norm (\<lambda>r.
        case r of Inl _ \<Rightarrow> w_return XXFS_ENOENT
        | Inr ino \<Rightarrow> if i_file_type ino = XXFS_FT_DIR then w_return XXFS_EISDIR else remove_prog norm w_return)))"

definition rmdir_prog :: "bytes \<Rightarrow> ret prog" where
  "rmdir_prog path =
     (let norm = path_normalize path in
      if norm = [0x2F] then Return (RetCode XXFS_EINVAL)
      else Lock Exclusive (fetch_prog norm (\<lambda>r.
        case r of Inl _ \<Rightarrow> w_return XXFS_ENOENT
        | Inr ino \<Rightarrow>
            if i_file_type ino \<noteq> XXFS_FT_DIR then w_return XXFS_ENOTDIR
            else remove_prog norm (\<lambda>rc.
              change (\<lambda>fs. if rc = XXFS_OK \<and> flags fs AND XXFS_FLAG_SYNC \<noteq> 0 then super_write fs else fs) (w_return rc)))))"

definition write_prog :: "bytes \<Rightarrow> bytes \<Rightarrow> u64 \<Rightarrow> ret prog" where
  "write_prog path buf off =
     (if buf = [] then Return (RetCount (Inl XXFS_EINVAL))
      else
        let norm = path_normalize path; len = of_nat (length buf) :: u32; end_off = off + ucast len;
            grown = (\<lambda>ino. ino\<lparr>i_size := (if end_off > i_size ino then end_off else i_size ino)\<rparr>) in
        Lock Exclusive (get_prog norm (\<lambda>r.
          case r of Inl _ \<Rightarrow> w_count (Inl XXFS_ENOENT)
          | Inr ino \<Rightarrow>
              if i_file_type ino = XXFS_FT_DIR then w_count (Inl XXFS_EISDIR)
              else if end_off \<le> of_nat XXFS_INLINE_MAX then
                if unat off + length buf \<le> XXFS_INLINE_MAX
                then cache_inode norm (grown (ino\<lparr>i_inline := buf_put (unat off) buf (i_inline ino)\<rparr>)) (w_count (Inr len))
                else Do (\<lambda>_. None)
              else invoke (\<lambda>fs. Some (spill_inline fs ino)) (\<lambda>r.
                case r of Inl rc \<Rightarrow> w_count (Inl rc)
                | Inr ino \<Rightarrow> invoke (\<lambda>fs. Some (grow_extent fs ino (need_blocks end_off))) (\<lambda>r.
                    case r of Inl rc \<Rightarrow> w_count (Inl rc)
                    | Inr ino \<Rightarrow> invoke (\<lambda>fs. Some (fs_pwrite fs buf (i_extent_off ino + off))) (\<lambda>ok.
                        if \<not> ok then w_count (Inl XXFS_EIO)
                        else cache_inode norm (grown ino) (w_count (Inr len))))))))"

text \<open>\<^verbatim>\<open>xxfs_chmod\<close>, \<^verbatim>\<open>xxfs_chown\<close> and \<^verbatim>\<open>xxfs_utime\<close>.\<close>

definition change_prog :: "bytes \<Rightarrow> (xxfs_inode \<Rightarrow> xxfs_inode) \<Rightarrow> ret prog" where
  "change_prog path upd =
     (let norm = path_normalize path in
      Lock Exclusive (invoke (\<lambda>fs. inode_paged_get fs norm) (\<lambda>r.
        case r of Inl _ \<Rightarrow> w_return XXFS_ENOENT
        | Inr ino \<Rightarrow> invoke (\<lambda>fs. Some (fs_time fs)) (\<lambda>t.
            let ino = inode_set_checksum_ecc ((upd ino)\<lparr>i_ctime := t\<rparr>) in
            invoke (\<lambda>fs. paged_put fs norm (inode_to_val ino)) (\<lambda>rc.
              if rc = XXFS_OK then cache_inode norm ino (w_return rc) else w_return rc)))))"

definition rename_prog :: "bytes \<Rightarrow> bytes \<Rightarrow> ret prog" where
  "rename_prog old_path new_path =
     (let old_norm = path_normalize old_path; new_norm = path_normalize new_path in
      Lock Exclusive (invoke (\<lambda>fs. inode_paged_get fs old_norm) (\<lambda>r.
        case r of Inl _ \<Rightarrow> w_return XXFS_ENOENT
        | Inr ino \<Rightarrow> invoke (\<lambda>fs. Some (fs_time fs)) (\<lambda>t.
            let name = take XXFS_MAX_NAME (get_basename new_norm);
                ino = inode_set_checksum_ecc (ino\<lparr>i_ctime := t, i_name := buf_put 0 (name @ [0]) (i_name ino)\<rparr>) in
            invoke (\<lambda>fs. paged_del fs old_norm) (\<lambda>_.
              change (\<lambda>fs. icache_del fs (xxh64 old_norm))
                (invoke (\<lambda>fs. paged_put fs new_norm (inode_to_val ino)) (\<lambda>rc.
                   if rc = XXFS_OK then cache_inode new_norm ino (w_return rc)
                   else invoke (\<lambda>fs. paged_put fs old_norm (inode_to_val ino)) (\<lambda>_. cache_inode old_norm ino (w_return rc)))))))))"

definition symlink_prog :: "bytes \<Rightarrow> bytes \<Rightarrow> ret prog" where
  "symlink_prog target linkpath =
     (let norm = path_normalize linkpath; tlen = of_nat (length target) :: u32 in
      if tlen > of_nat XXFS_INLINE_MAX then Return (RetCode XXFS_ENAMETOOLONG)
      else Lock Exclusive (fetch_prog norm (\<lambda>r.
        case r of Inr _ \<Rightarrow> w_return XXFS_EEXIST
        | Inl _ \<Rightarrow> invoke (\<lambda>fs. Some (fs_time fs)) (\<lambda>now.
            let ino = inode_set_checksum_ecc
                  (zero_inode\<lparr>i_file_type := XXFS_FT_LNK, i_nlinks := 1, i_size := ucast tlen,
                     i_atime := now, i_mtime := now, i_ctime := now, i_btime := now,
                     i_inline := buf_put 0 (take (unat tlen) target) (i_inline zero_inode)\<rparr>) in
            invoke (\<lambda>fs. paged_put fs norm (inode_to_val ino)) (\<lambda>rc.
              if rc = XXFS_OK then cache_inode norm ino (w_return rc) else w_return rc)))))"

definition sync_prog :: "ret prog" where
  "sync_prog =
     Lock Exclusive
      (invoke (\<lambda>fs. map_option (Pair ()) (icache_flush_all fs)) (\<lambda>_.
        invoke (\<lambda>fs. map_option (Pair ()) (dcache_flush_all fs)) (\<lambda>_.
          change pcache_flush_all
           (change super_write
             (change (\<lambda>fs. fs\<lparr>img := snd (xxfs_os_file_sync (img fs))\<rparr>)
               (change xxfs_mmap_refresh (w_return XXFS_OK)))))))"

text \<open>The two operations that take the lock for reading.\<close>

definition stat_prog :: "bytes \<Rightarrow> ret prog" where
  "stat_prog path = Lock Shared (fetch_prog (path_normalize path) (\<lambda>r. UnlockReturn Shared (RetInode r)))"

definition read_prog :: "bytes \<Rightarrow> bytes \<Rightarrow> u64 \<Rightarrow> ret prog" where
  "read_prog path buf off =
     (if buf = [] then Return (RetData (Inl XXFS_EINVAL) buf)
      else Lock Shared (fetch_prog (path_normalize path) (\<lambda>r.
        case r of Inl _ \<Rightarrow> UnlockReturn Shared (RetData (Inl XXFS_ENOENT) buf)
        | Inr ino \<Rightarrow> invoke (\<lambda>fs. map_option (\<lambda>(r, b, g). ((r, b), g)) (read_inode fs ino buf off))
            (\<lambda>(r, b). UnlockReturn Shared (RetData r b)))))"

datatype call =
    CallCreate bytes u16 u16 u16
  | CallMkdir bytes u16 u16 u16
  | CallUnlink bytes
  | CallRmdir bytes
  | CallWrite bytes bytes u64
  | CallChmod bytes u16
  | CallChown bytes u16 u16
  | CallUtime bytes u64 u64
  | CallRename bytes bytes
  | CallSymlink bytes bytes
  | CallSync
  | CallStat bytes
  | CallRead bytes bytes u64

primrec call_prog :: "call \<Rightarrow> ret prog" where
  "call_prog (CallCreate path mode uid gid) = create_prog path mode uid gid"
| "call_prog (CallMkdir path mode uid gid) = mkdir_prog path mode uid gid"
| "call_prog (CallUnlink path) = unlink_prog path"
| "call_prog (CallRmdir path) = rmdir_prog path"
| "call_prog (CallWrite path buf off) = write_prog path buf off"
| "call_prog (CallChmod path mode) = change_prog path (\<lambda>ino. ino\<lparr>i_mode := mode\<rparr>)"
| "call_prog (CallChown path uid gid) = change_prog path (\<lambda>ino. ino\<lparr>i_uid := uid, i_gid := gid\<rparr>)"
| "call_prog (CallUtime path atime mtime) = change_prog path (\<lambda>ino. ino\<lparr>i_atime := atime, i_mtime := mtime\<rparr>)"
| "call_prog (CallRename old new) = rename_prog old new"
| "call_prog (CallSymlink target path) = symlink_prog target path"
| "call_prog CallSync = sync_prog"
| "call_prog (CallStat path) = stat_prog path"
| "call_prog (CallRead path buf off) = read_prog path buf off"


section \<open>Programs that run alone\<close>

text \<open>The operation as one step on the file system.\<close>

primrec exec_call :: "call \<Rightarrow> xxfs \<Rightarrow> (ret \<times> xxfs) option" where
  "exec_call (CallCreate path mode uid gid) fs = map_option (map_prod RetCode id) (xxfs_create fs path mode uid gid)"
| "exec_call (CallMkdir path mode uid gid) fs = map_option (map_prod RetCode id) (xxfs_mkdir fs path mode uid gid)"
| "exec_call (CallUnlink path) fs = map_option (map_prod RetCode id) (xxfs_unlink fs path)"
| "exec_call (CallRmdir path) fs = map_option (map_prod RetCode id) (xxfs_rmdir fs path)"
| "exec_call (CallWrite path buf off) fs = map_option (map_prod RetCount id) (xxfs_write fs path buf off)"
| "exec_call (CallChmod path mode) fs = map_option (map_prod RetCode id) (xxfs_chmod fs path mode)"
| "exec_call (CallChown path uid gid) fs = map_option (map_prod RetCode id) (xxfs_chown fs path uid gid)"
| "exec_call (CallUtime path atime mtime) fs = map_option (map_prod RetCode id) (xxfs_utime fs path atime mtime)"
| "exec_call (CallRename old new) fs = map_option (map_prod RetCode id) (xxfs_rename fs old new)"
| "exec_call (CallSymlink target path) fs = map_option (map_prod RetCode id) (xxfs_symlink fs target path)"
| "exec_call CallSync fs = map_option (map_prod RetCode id) (xxfs_sync fs)"
| "exec_call (CallStat path) fs = map_option (map_prod RetInode id) (xxfs_stat fs path)"
| "exec_call (CallRead path buf off) fs = map_option (\<lambda>(r, b, g). (RetData r b, g)) (xxfs_read fs path buf off)"

primrec run :: "'r prog \<Rightarrow> xxfs \<Rightarrow> ('r \<times> xxfs) option" where
  "run (Return r) = (\<lambda>fs. Some (r, fs))"
| "run (Lock m p) = run p"
| "run (UnlockReturn m r) = (\<lambda>fs. Some (r, fs))"
| "run (Do f) = (\<lambda>fs. case map_option (map_prod run id) (f fs) of None \<Rightarrow> None | Some (k, g) \<Rightarrow> k g)"

lemma run_Do [simp]: "run (Do f) fs = (case f fs of None \<Rightarrow> None | Some (p, g) \<Rightarrow> run p g)"
  by (simp split: option.split prod.split)

declare run.simps(4) [simp del]

lemma run_invoke [simp]: "run (invoke f k) fs = (case f fs of None \<Rightarrow> None | Some (r, g) \<Rightarrow> run (k r) g)"
  by (simp add: invoke_def split: option.split prod.split)

lemma run_look [simp]: "run (look f k) fs = run (k (f fs)) fs"
  by (simp add: look_def)

lemma run_change [simp]: "run (change f p) fs = run p (f fs)"
  by (simp add: change_def)

lemma run_cache_inode [simp]:
  "run (cache_inode norm ino p) fs = (case icache_put fs (xxh64 norm) norm ino of None \<Rightarrow> None | Some g \<Rightarrow> run p g)"
  by (simp add: cache_inode_def split: option.split)

lemma run_get [simp]: "run (get_prog norm k) fs = (case get_inode fs norm of None \<Rightarrow> None | Some (r, g) \<Rightarrow> run (k r) g)"
  by (simp add: get_prog_def get_inode_def cached_inode_def split: option.split)

lemma run_fetch [simp]: "run (fetch_prog norm k) fs = (case fetch_inode fs norm of None \<Rightarrow> None | Some (r, g) \<Rightarrow> run (k r) g)"
  by (auto simp: fetch_prog_def fetch_inode_def cached_inode_def split: option.split sum.split bind_splits)

lemma run_remove [simp]: "run (remove_prog norm k) fs = (case remove_path fs norm of None \<Rightarrow> None | Some (r, g) \<Rightarrow> run (k r) g)"
  by (auto simp: remove_prog_def remove_path_def split: option.split bind_splits)

text \<open>A program that runs alone does what the operation does.\<close>

lemma run_call_prog: "run (call_prog op) fs = exec_call op fs"
proof (cases op)
  case (CallCreate path mode uid gid)
  then show ?thesis by (auto simp: create_prog_def xxfs_create_def Let_def split: option.split bind_splits)
next
  case (CallMkdir path mode uid gid)
  then show ?thesis by (auto simp: mkdir_prog_def xxfs_mkdir_def Let_def split: option.split bind_splits)
next
  case (CallUnlink path)
  then show ?thesis by (auto simp: unlink_prog_def xxfs_unlink_def Let_def split: option.split sum.split bind_splits)
next
  case (CallRmdir path)
  then show ?thesis by (auto simp: rmdir_prog_def xxfs_rmdir_def Let_def split: option.split sum.split bind_splits)
next
  case (CallWrite path buf off)
  then show ?thesis by (auto simp: write_prog_def xxfs_write_def write_inode_def Let_def split: option.split sum.split bind_splits prod.split)
next
  case (CallRename old new)
  then show ?thesis by (auto simp: rename_prog_def xxfs_rename_def Let_def split: option.split sum.split bind_splits prod.split)
next
  case (CallSymlink target path)
  then show ?thesis by (auto simp: symlink_prog_def xxfs_symlink_def Let_def split: option.split sum.split bind_splits prod.split)
next
  case CallSync
  then show ?thesis by (auto simp: sync_prog_def xxfs_sync_def Let_def split: option.split bind_splits)
next
  case (CallRead path buf off)
  then show ?thesis by (auto simp: read_prog_def xxfs_read_def split: option.split sum.split bind_splits)
qed (auto simp: change_prog_def xxfs_chmod_def xxfs_chown_def xxfs_utime_def change_inode_def stat_prog_def xxfs_stat_def Let_def
    split: option.split sum.split bind_splits prod.split)

section \<open>Lock and unlock\<close>

text \<open>A program that holds the lock in mode \<open>m\<close> and gives it back at every end, and one that has not taken it yet.\<close>

inductive closes :: "lock_mode \<Rightarrow> 'r prog \<Rightarrow> bool" for m where
  closes_return: "closes m (UnlockReturn m r)"
| closes_do: "(\<And>fs p g. f fs = Some (p, g) \<Longrightarrow> closes m p) \<Longrightarrow> closes m (Do f)"



lemma closes_invoke [intro]: "(\<And>r. closes m (k r)) \<Longrightarrow> closes m (invoke f k)"
  by (auto simp: invoke_def intro!: closes_do)

lemma closes_look [intro]: "(\<And>r. closes m (k r)) \<Longrightarrow> closes m (look f k)"
  by (auto simp: look_def intro!: closes_do)

lemma closes_change [intro]: "closes m p \<Longrightarrow> closes m (change f p)"
  by (auto simp: change_def intro!: closes_do)

lemma closes_cache [intro]: "closes m p \<Longrightarrow> closes m (cache_inode norm ino p)"
  by (auto simp: cache_inode_def)

lemma closes_get [intro]: "(\<And>r. closes m (k r)) \<Longrightarrow> closes m (get_prog norm k)"
  by (auto simp: get_prog_def intro!: closes_look closes_invoke split: option.split)

lemma closes_fetch [intro]: "(\<And>r. closes m (k r)) \<Longrightarrow> closes m (fetch_prog norm k)"
  by (auto simp: fetch_prog_def intro!: closes_look closes_invoke closes_cache split: option.split sum.split)

lemma closes_remove [intro]: "(\<And>r. closes m (k r)) \<Longrightarrow> closes m (remove_prog norm k)"
  by (auto simp: remove_prog_def intro!: closes_invoke closes_change)

lemmas closes_intros = closes_return closes_invoke closes_look closes_change closes_cache closes_get closes_fetch closes_remove


lemma stat_guarded: "closes Shared (fetch_prog norm (\<lambda>r. UnlockReturn Shared (RetInode r)))"
  by (intro closes_intros)

section \<open>Threads\<close>

text \<open>A thread is outside the library, or inside a call with the rest of its program. \<open>c_log\<close> lists the calls that are over, with their results, in the order in which they gave the lock
  back (or returned without having taken it).\<close>

record config =
  c_fs :: xxfs
  c_lock :: xxfs_os_lock
  c_at :: "thread \<Rightarrow> (call \<times> ret prog) option"
  c_log :: "(call \<times> ret) list"

definition c_init :: "xxfs \<Rightarrow> config" where
  "c_init fs = \<lparr>c_fs = fs, c_lock = xxfs_os_lock_init, c_at = (\<lambda>_. None), c_log = []\<rparr>"

inductive c_step :: "u64 \<Rightarrow> call set \<Rightarrow> config \<Rightarrow> config \<Rightarrow> bool" for flg A where
  c_call: "c_at c t = None \<Longrightarrow> op \<in> A \<Longrightarrow> c_step flg A c (c\<lparr>c_at := (c_at c)(t \<mapsto> (op, call_prog op))\<rparr>)"
| c_take: "c_at c t = Some (op, Lock m p) \<Longrightarrow> fs_lock flg m t (c_lock c) = Some k \<Longrightarrow>
    c_step flg A c (c\<lparr>c_lock := k, c_at := (c_at c)(t \<mapsto> (op, p))\<rparr>)"
| c_do: "c_at c t = Some (op, Do f) \<Longrightarrow> f (c_fs c) = Some (p, g) \<Longrightarrow> c_step flg A c (c\<lparr>c_fs := g, c_at := (c_at c)(t \<mapsto> (op, p))\<rparr>)"
| c_give: "c_at c t = Some (op, UnlockReturn m r) \<Longrightarrow>
    c_step flg A c (c\<lparr>c_lock := fs_unlock flg m t (c_lock c), c_at := (c_at c)(t := None), c_log := c_log c @ [(op, r)]\<rparr>)"
| c_return: "c_at c t = Some (op, Return r) \<Longrightarrow> c_step flg A c (c\<lparr>c_at := (c_at c)(t := None), c_log := c_log c @ [(op, r)]\<rparr>)"

abbreviation c_reach :: "u64 \<Rightarrow> call set \<Rightarrow> config \<Rightarrow> config \<Rightarrow> bool" where
  "c_reach flg A \<equiv> (c_step flg A)\<^sup>*\<^sup>*"

text \<open>A thread that holds the lock can run to the end of its program.\<close>

lemma closes_reach:
  assumes "closes m p" and "c_at c t = Some (op, p)" and "run p (c_fs c) = Some (r, g)"
  shows "c_reach flg A c (c\<lparr>c_fs := g, c_at := (c_at c)(t \<mapsto> (op, UnlockReturn m r))\<rparr>)"
  using assms
proof (induction p arbitrary: c)
  case (closes_return r')
  then have "c\<lparr>c_fs := g, c_at := (c_at c)(t \<mapsto> (op, UnlockReturn m r))\<rparr> = c" by (auto simp: fun_upd_idem)
  then show ?case by (simp only: rtranclp.rtrancl_refl)
next
  case (closes_do f)
  then obtain p h where f: "f (c_fs c) = Some (p, h)" "run p h = Some (r, g)" by (auto split: option.splits)
  let ?d = "c\<lparr>c_fs := h, c_at := (c_at c)(t \<mapsto> (op, p))\<rparr>"
  have st: "c_step flg A c ?d" by (rule c_do [OF closes_do.prems(1) f(1)])
  have re: "c_reach flg A ?d (?d\<lparr>c_fs := g, c_at := (c_at ?d)(t \<mapsto> (op, UnlockReturn m r))\<rparr>)"
    by (rule closes_do.IH [OF f(1)]) (simp_all add: f(2))
  have e: "?d\<lparr>c_fs := g, c_at := (c_at ?d)(t \<mapsto> (op, UnlockReturn m r))\<rparr> = c\<lparr>c_fs := g, c_at := (c_at c)(t \<mapsto> (op, UnlockReturn m r))\<rparr>" by simp
  show ?case by (rule converse_rtranclp_into_rtranclp [OF st re [unfolded e]])
qed

section \<open>Serialisation\<close>



















section \<open>Readers that write\<close>

text \<open>C24: \<^verbatim>\<open>xxfs_stat\<close> holds the lock for reading, but it changes the file system, since it puts the inode into the cache. On a fresh file system two threads can be inside
  \<^verbatim>\<open>xxfs_stat\<close> of the root at the same time, and while the first one, which has taken the lock and not gone further, holds it, the second one changes the inode cache.\<close>

theorem stat_changes_cache_under_reader:
  assumes f: "fresh_mounted fs now"
  shows "\<exists>c p. call_prog (CallStat [0x2F]) = Lock Shared p \<and> c_reach 0 {CallStat [0x2F]} (c_init fs) c \<and> c_at c 0 = Some (CallStat [0x2F], p) \<and>
    c_at c 1 = Some (CallStat [0x2F], UnlockReturn Shared (RetInode (Inr (mkfs_root now)))) \<and> (0, Shared) \<in> holders (c_lock c) \<and> icache (c_fs c) \<noteq> icache fs"
proof -
  let ?cl = "CallStat [0x2F]" and ?prg = "fetch_prog [0x2F] (\<lambda>r. UnlockReturn Shared (RetInode r))"
  obtain fs1 pos where s: "xxfs_stat fs [0x2F] = Some (Inr (mkfs_root now), fs1)" "in_use fs1 = (\<lambda>i. i = unat (pos :: u32))"
    by (rule stat_root_fresh [OF f])
  have cp: "call_prog ?cl = Lock Shared ?prg" by (simp add: stat_prog_def norm_root)
  have e: "run ?prg fs = Some (RetInode (Inr (mkfs_root now)), fs1)" using run_call_prog [of ?cl fs] s(1) unfolding cp by simp
  have "\<not> in_use fs i" for i using f by (simp add: fresh_mounted_def pristine_def in_use_def zero_icache_entry_def ICACHE_CTRL_EMPTY_def)
  then have ne: "icache fs1 \<noteq> icache fs" using s(2) unfolding in_use_def by metis
  let ?st = "\<lambda>k a b h. \<lparr>c_fs = h, c_lock = \<lparr>rw_readers = k, rw_writer = None\<rparr>, c_at = (\<lambda>_. None)(0 := a, 1 := b), c_log = []\<rparr>"
  let ?wait = "Some (?cl, Lock Shared ?prg)" and ?inn = "Some (?cl, ?prg)" and ?u = "Some (?cl, UnlockReturn Shared (RetInode (Inr (mkfs_root now))))"
  have 0: "c_step 0 {?cl} (c_init fs) (?st {} ?wait None fs)" using c_call [of "c_init fs" 0 ?cl "{?cl}" 0] unfolding cp by (simp add: c_init_def xxfs_os_lock_init_def fun_upd_twist)
  have 1: "c_step 0 {?cl} (?st {} ?wait None fs) (?st {0} ?inn None fs)"
    using c_take [of "?st {} ?wait None fs" 0 ?cl Shared ?prg 0 _ "{?cl}"] by (simp add: fs_lock_def fs_rlock_def xxfs_os_read_lock_def fun_upd_twist)
  have 2: "c_step 0 {?cl} (?st {0} ?inn None fs) (?st {0} ?inn ?wait fs)" using c_call [of "?st {0} ?inn None fs" 1 ?cl "{?cl}" 0] unfolding cp by simp
  have 3: "c_step 0 {?cl} (?st {0} ?inn ?wait fs) (?st {1, 0} ?inn ?inn fs)"
    using c_take [of "?st {0} ?inn ?wait fs" 1 ?cl Shared ?prg 0 _ "{?cl}"] by (simp add: fs_lock_def fs_rlock_def xxfs_os_read_lock_def)
  have 4: "c_reach 0 {?cl} (?st {1, 0} ?inn ?inn fs) (?st {1, 0} ?inn ?u fs1)"
    using closes_reach [OF stat_guarded, of "?st {1, 0} ?inn ?inn fs" 1 ?cl "[0x2F]" _ fs1 0 "{?cl}"] e by simp
  have "c_reach 0 {?cl} (c_init fs) (?st {1, 0} ?inn ?u fs1)" using 0 1 2 3 4 by (meson converse_rtranclp_into_rtranclp)
  then show ?thesis using ne cp by (intro exI [of _ "?st {1, 0} ?inn ?u fs1"] exI [of _ ?prg]) (simp add: holders_def)
qed

theorem stat_changes_cache_under_reader_witness:
  "\<exists>f fs c. xxfs_mkfs blank_file 64 False = (XXFS_OK, f) \<and> xxfs_mount f 0 = Some (Inr fs) \<and>
    c_reach 0 {CallStat [0x2F]} (c_init fs) c \<and> (0, Shared) \<in> holders (c_lock c) \<and> icache (c_fs c) \<noteq> icache fs"
proof -
  obtain f fs now where m: "xxfs_mkfs blank_file 64 False = (XXFS_OK, f)" "xxfs_mount f 0 = Some (Inr fs)" "fresh_mounted fs now"
    by (rule mkfs_mounted [of blank_file 64 0]) simp_all
  then show ?thesis using stat_changes_cache_under_reader [OF m(3)] by blast
qed

end
