(* ===== verification/Fs_Flush.thy ===== *)
theory Fs_Flush
  imports Fs_Mount
begin

text \<open>
  Writing changed directories back (\<^verbatim>\<open>dcache_flush_entry\<close>), and with it the way of a new file through \<^verbatim>\<open>xxfs_umount\<close> and
  \<^verbatim>\<open>xxfs_mount\<close>.
\<close>

section \<open>Storing the children\<close>

text \<open>Directories that one block can hold, the only size for which the code allocates enough.\<close>

definition small_dir :: "xxfs_dir_child list \<Rightarrow> bool" where
  "small_dir cs \<longleftrightarrow> length cs \<le> 15 \<and> (\<forall>c \<in> set cs. wf_dirent c)"

text \<open>The extent that the directory already has, if any.\<close>

definition dir_extent :: "xxfs \<Rightarrow> xxfs_inode \<Rightarrow> bool" where
  "dir_extent fs ino \<longleftrightarrow> i_extent_off ino \<noteq> 0 \<longrightarrow> extent_at fs (i_extent_off ino) (unat (i_blocks ino))"

text \<open>The inode has the children, in blocks of its own; of the blocks outside the index only the directory's own may
  have changed.\<close>

definition dir_written :: "xxfs \<Rightarrow> xxfs_inode \<Rightarrow> xxfs_dir_child list \<Rightarrow> xxfs_inode \<Rightarrow> xxfs \<Rightarrow> bool" where
  "dir_written fs ino cs ino' fs' \<longleftrightarrow> wf_inode ino' \<and> i_file_type ino' = i_file_type ino \<and> dir_sane fs' ino' \<and> stored_children fs' ino' = cs \<and>
     dir_extent fs' ino' \<and> (i_blocks ino' = 0 \<longleftrightarrow> i_extent_off ino' = 0) \<and> (i_blocks ino' \<noteq> 0 \<longrightarrow> has_children ino') \<and>
     unat (i_size ino') \<le> unat (i_blocks ino') * 4096 \<and> rest fs' = rest fs \<and> pdir fs' = pdir fs \<and> free_blocks fs \<le> free_blocks fs' + 1 \<and>
     (\<forall>r. outside fs r \<longrightarrow> in_extent (i_extent_off ino') (unat (i_blocks ino')) r \<longrightarrow> in_extent (i_extent_off ino) (unat (i_blocks ino)) r) \<and>
     data_step fs (i_extent_off ino) (unat (i_blocks ino)) fs'"

lemma dir_bytes: "small_dir cs \<Longrightarrow> length (enc_array enc_dirent cs) = 272 * length cs"
  by (rule dirent_codec.length_enc_array) (simp add: small_dir_def)

lemma dir_decode: "small_dir cs \<Longrightarrow> dec_array 272 dec_dirent (length cs) (enc_array enc_dirent cs) = cs"
  by (rule dirent_codec.array_dec_enc) (simp_all add: small_dir_def)

lemma dir_size:
  assumes "length cs \<le> 15"
  shows "unat (of_nat (length cs) * of_nat DIRENT_SIZE :: u64) = 272 * length cs"
proof -
  have "(of_nat (length cs) * of_nat DIRENT_SIZE :: u64) = of_nat (272 * length cs)" by (simp add: DIRENT_SIZE_def)
  then show ?thesis using assms by (simp only: unat_of_nat) simp
qed

lemma dir_blocks:
  assumes "length cs \<le> 15" and "cs \<noteq> []"
  shows "blocks_for (of_nat (length cs) * of_nat DIRENT_SIZE) = 1"
proof -
  let ?n = "of_nat (length cs) * of_nat DIRENT_SIZE :: u64"
  note u = dir_size [OF assms(1)]
  have b: "1 \<le> length cs" using assms(2) by (cases cs) simp_all
  have "unat (?n + 4096 - 1) = 272 * length cs + 4095" using u assms(1) by (simp add: unat_add_nowrap)
  then have "unat ((?n + 4096 - 1) div 4096) = (272 * length cs + 4095) div 4096" by (simp add: unat_div_distrib)
  also have "\<dots> = 1" using assms(1) b by linarith
  finally have "(?n + 4096 - 1) div 4096 = 1" by (metis unat_1 word_unat_eq_iff)
  then show ?thesis by (simp add: blocks_for_def)
qed

text \<open>A directory whose children have just been written to its extent.\<close>

lemma children_written:
  assumes cs: "small_dir cs" "cs \<noteq> []" and sz: "unat (i_size ino') = 272 * length cs" and off: "i_extent_off ino' \<noteq> 0"
    and e: "extent_at fs' (i_extent_off ino') n" "1 \<le> n" and im: "img fs' = poke f (unat (i_extent_off ino')) (enc_array enc_dirent cs)"
  shows "dir_sane fs' ino'" "stored_children fs' ino' = cs"
proof -
  have l: "length cs \<le> 15" "0 < length cs" using cs by (simp_all add: small_dir_def)
  have hc: "has_children ino'" using sz off l(2) by (simp add: has_children_def word_less_nat_alt)
  have b: "enc_array enc_dirent cs \<noteq> []" using dir_bytes [OF cs(1)] l(2) by auto
  have pk: "peek (img fs') (unat (i_extent_off ino')) (unat (i_size ino')) = enc_array enc_dirent cs"
    using dir_bytes [OF cs(1)] by (simp add: im sz peek_poke_same)
  show "stored_children fs' ino' = cs"
    using hc pk sz dir_decode [OF cs(1)] by (simp add: stored_children_def DIRENT_SIZE_def)
  have "unat (i_extent_off ino') + unat (i_size ino') \<le> isize fs'" using b dir_bytes [OF cs(1)] by (simp add: im sz poke_def)
  moreover have "unat (i_size ino') \<le> n * 4096" using sz l(1) e(2) by linarith
  moreover have "unat (i_size ino') div DIRENT_SIZE < 2 ^ 31" using sz l(1) by (simp add: DIRENT_SIZE_def)
  ultimately show "dir_sane fs' ino'" using e(1) unfolding dir_sane_def by blast
qed

lemma data_step_weaken: "data_step fs o' 0 fs' \<Longrightarrow> data_step fs off n fs'"
  by (auto simp: data_step_def in_extent_def)

text \<open>The three ways of storing a directory: without children, over the blocks it has, and in a block of its own.\<close>

lemma dir_store_empty:
  assumes ok: "index_ok fs" and wf: "wf_inode ino"
  obtains ino' where "dir_store fs [] ino = (Some ino', fs)" and "dir_written fs ino [] ino' fs"
proof -
  let ?i = "(set_extent_len 0 (set_extent_off 0 ino))\<lparr>i_size := 0, i_blocks := 0\<rparr>"
  have l: "length (i_inline ino) = 128" using wf by (simp add: wf_inode_def)
  have n: "\<not> has_children ?i" by (simp add: has_children_def)
  have x: "i_extent_off ?i = 0" using extent_off_set [OF l, of 0 0] by (simp add: set_extent_fields i_extent_off_def)
  have "wf_inode ?i" using wf by (simp add: wf_inode_def set_extent_len_def set_extent_off_def length_buf_put)
  then have "dir_written fs ino [] ?i fs"
    using n x ok by (simp add: dir_written_def dir_sane_def stored_children_def dir_extent_def data_step_def in_extent_def set_extent_len_def set_extent_off_def)
  then show thesis using that by (simp add: dir_store_def)
qed

lemma small_dir_size:
  assumes "small_dir cs" and "cs \<noteq> []"
  shows "unat (of_nat (length cs) * of_nat DIRENT_SIZE :: u64) = 272 * length cs" "blocks_for (of_nat (length cs) * of_nat DIRENT_SIZE) = 1"
    "length (enc_array enc_dirent cs) \<le> 4096" "272 * length cs \<le> 4096" "(0 :: u64) < of_nat (length cs) * of_nat DIRENT_SIZE"
proof -
  have l: "length cs \<le> 15" using assms(1) by (simp add: small_dir_def)
  show u: "unat (of_nat (length cs) * of_nat DIRENT_SIZE :: u64) = 272 * length cs" by (rule dir_size [OF l])
  show "blocks_for (of_nat (length cs) * of_nat DIRENT_SIZE) = 1" by (rule dir_blocks [OF l assms(2)])
  show "length (enc_array enc_dirent cs) \<le> 4096" "272 * length cs \<le> 4096" using dir_bytes [OF assms(1)] l by simp_all
  show "(0 :: u64) < of_nat (length cs) * of_nat DIRENT_SIZE" using u assms(2) by (simp add: word_less_nat_alt)
qed

lemma dir_store_over:
  assumes ok: "index_ok fs" and wf: "wf_inode ino" and cs: "small_dir cs" "cs \<noteq> []" and e: "dir_extent fs ino" "i_extent_off ino \<noteq> 0" "i_blocks ino \<ge> 1"
  obtains ino' fs' where "dir_store fs cs ino = (Some ino', fs')" and "dir_written fs ino cs ino' fs'"
proof -
  let ?n = "of_nat (length cs) * of_nat DIRENT_SIZE :: u64" and ?b = "enc_array enc_dirent cs"
  note sz = small_dir_size [OF cs]
  have ex: "extent_at fs (i_extent_off ino) (unat (i_blocks ino))" "1 \<le> unat (i_blocks ino)" using e by (simp_all add: dir_extent_def word_le_nat_alt)
  have "0 + length ?b \<le> unat (i_blocks ino) * 4096" using sz(3) ex(2) by linarith
  then obtain fs' where w: "fs_pwrite fs ?b (i_extent_off ino + of_nat 0) = (True, fs')"
    "data_step fs (i_extent_off ino) (unat (i_blocks ino)) fs'" "rest fs' = rest fs" "sb fs' = sb fs"
    "img fs' = poke (img (tick fs)) (unat (i_extent_off ino) + 0) ?b"
    by (rule extent_write [OF ok ex(1)])
  let ?i = "ino\<lparr>i_size := ?n\<rparr>"
  have x: "i_extent_off ?i = i_extent_off ino" by (simp add: set_extent_fields)
  have "dir_sane fs' ?i" "stored_children fs' ?i = cs"
    by (rule children_written [OF cs _ _ _ ex(2)], use e(2) sz w(5) x extent_kept [OF w(2) ex(1)] in simp_all)+
  moreover have "unat (i_size ?i) \<le> unat (i_blocks ?i) * 4096" using sz(1,4) ex(2) by simp
  moreover have "has_children ?i" "i_blocks ?i \<noteq> 0" using e sz(5) x by (auto simp: has_children_def)
  ultimately have "dir_written fs ino cs ?i fs'"
    using w wf x extent_kept [OF w(2) ex(1)] e(2) data_stepD(8) [OF w(2)] by (simp add: dir_written_def dir_extent_def wf_inode_def)
  moreover have "dir_store fs cs ino = (Some ?i, fs')" using cs(2) e(2,3) w(1) sz(2) by (simp add: dir_store_def Let_def)
  ultimately show thesis using that by blast
qed

lemma dir_store_fresh:
  assumes ok: "index_ok fs" and wf: "wf_inode ino" and cs: "small_dir cs" "cs \<noteq> []" and ne: "\<not> (i_extent_off ino \<noteq> 0 \<and> i_blocks ino \<ge> 1)" and free: "0 < free_blocks fs"
  obtains ino' fs' where "dir_store fs cs ino = (Some ino', fs')" and "dir_written fs ino cs ino' fs'"
proof -
  let ?n = "of_nat (length cs) * of_nat DIRENT_SIZE :: u64" and ?b = "enc_array enc_dirent cs"
  note sz = small_dir_size [OF cs]
  have one: "(0::u64) < 1" "unat (1::u64) \<le> free_blocks fs" using free by simp_all
  obtain off g where a: "page_alloc_n fs 1 = (off, g)" "off \<noteq> 0" "extent_at g off (unat (1::u64))" "data_step fs off 0 g"
    "rest g = rest fs" "free_blocks g = free_blocks fs - unat (1::u64)" "unat off = alloc_frontier fs"
    by (rule extent_alloc [OF ok one])
  have pa: "page_alloc fs = (off, g)" and ex: "extent_at g off 1" using a(1,3) by (simp_all add: page_alloc_n_def)
  have "0 + length ?b \<le> 1 * 4096" using sz(3) by simp
  then obtain fs' where w: "fs_pwrite g ?b (off + of_nat 0) = (True, fs')" "data_step g off 1 fs'" "rest fs' = rest g" "sb fs' = sb g"
    "img fs' = poke (img (tick g)) (unat off + 0) ?b"
    by (rule extent_write [OF data_stepD(1) [OF a(4)] ex])
  let ?i = "(set_extent_len 1 (set_extent_off off ino))\<lparr>i_blocks := 1, i_size := ?n\<rparr>"
  have li: "length (i_inline ino) = 128" using wf by (simp add: wf_inode_def)
  have x: "i_extent_off ?i = off" using extent_off_set [OF li] by (simp add: i_extent_off_def)
  have ds: "data_step fs o' n fs'" for o' n
    using data_step_weaken [OF data_step_fresh [OF data_step_trans [OF data_step_weaken [OF a(4)] w(2)]]] a(7) by simp
  have "dir_sane fs' ?i" "stored_children fs' ?i = cs"
    by (rule children_written [OF cs _ _ _ order_refl], use a(2) sz w(5) x extent_kept [OF w(2) ex] in simp_all)+
  moreover have "wf_inode ?i" using wf by (simp add: wf_inode_def set_extent_len_def set_extent_off_def length_buf_put)
  moreover have "\<not> in_extent off 1 r" if "outside fs r" for r using that a(7) by (auto simp: in_extent_def outside_def foreign_def)
  moreover have "unat (i_size ?i) \<le> unat (i_blocks ?i) * 4096" using sz(1,4) by simp
  moreover have "has_children ?i" using a(2) sz(5) x by (simp add: has_children_def)
  ultimately have "dir_written fs ino cs ?i fs'"
    using a(2) w a(5,6) x extent_kept [OF w(2) ex] ds data_stepD(8) [OF ds] by (simp add: dir_written_def dir_extent_def set_extent_len_def set_extent_off_def)
  moreover have "dir_store fs cs ino = (Some ?i, fs')"
    using cs(2) w(1) sz(2) pa a(2) by (cases "i_extent_off ino = 0"; cases "i_blocks ino = 0") (use ne in \<open>simp_all add: dir_store_def Let_def\<close>)
  ultimately show thesis using that by blast
qed

lemma dir_store_law:
  assumes ok: "index_ok fs" and wf: "wf_inode ino" and cs: "small_dir cs" and e: "dir_extent fs ino" and free: "0 < free_blocks fs"
  obtains ino' fs' where "dir_store fs cs ino = (Some ino', fs')" and "dir_written fs ino cs ino' fs'"
proof -
  consider "cs = []" | "cs \<noteq> []" "i_extent_off ino \<noteq> 0" "i_blocks ino \<ge> 1" | "cs \<noteq> []" "\<not> (i_extent_off ino \<noteq> 0 \<and> i_blocks ino \<ge> 1)" by blast
  then show thesis
  proof cases
    case 1
    then show thesis using dir_store_empty [OF ok wf] that by metis
  next
    case 2
    show thesis by (rule dir_store_over [OF ok wf cs 2(1) e 2(2,3)]) (rule that)
  next
    case 3
    show thesis by (rule dir_store_fresh [OF ok wf cs 3 free]) (rule that)
  qed
qed

section \<open>Flushing an entry\<close>

text \<open>Only the size and the extent of an inode matter for its children.\<close>

lemma children_cong:
  assumes "i_size a = i_size b" and "i_extent_off a = i_extent_off b"
  shows "has_children a = has_children b" "stored_children fs a = stored_children fs b" "dir_sane fs a = dir_sane fs b"
proof -
  show h: "has_children a = has_children b" by (simp add: has_children_def assms)
  show "stored_children fs a = stored_children fs b" "dir_sane fs a = dir_sane fs b"
    by (simp_all add: stored_children_def dir_sane_def h assms)
qed

lemma sealed_times:
  fixes ino :: xxfs_inode and t t' :: u64
  assumes "wf_inode ino"
  defines "s \<equiv> inode_set_checksum_ecc (ino\<lparr>i_mtime := t, i_ctime := t'\<rparr>)"
  shows "i_size s = i_size ino" "i_extent_off s = i_extent_off ino" "i_blocks s = i_blocks ino" "i_file_type s = i_file_type ino"
proof -
  have "wf_inode (ino\<lparr>i_mtime := t, i_ctime := t'\<rparr>)" using assms(1) by (simp add: wf_inode_def)
  note f = sealed_fields(1,3-5) [OF this]
  show "i_size s = i_size ino" "i_extent_off s = i_extent_off ino" "i_blocks s = i_blocks ino" "i_file_type s = i_file_type ino"
    using f by (simp_all add: s_def i_extent_off_def)
qed

definition dir_flushed :: "xxfs \<Rightarrow> nat \<Rightarrow> xxfs_inode \<Rightarrow> xxfs_inode \<Rightarrow> xxfs \<Rightarrow> bool" where
  "dir_flushed fs i ino s fs' \<longleftrightarrow> (let e = dcache fs i; p = de_path e in
     fs_inv fs' \<and> inode_view fs' p = Some s \<and> index_inode fs' = (index_inode fs)(p \<mapsto> s) \<and> (\<forall>q. apart q p \<longrightarrow> inode_view fs' q = inode_view fs q) \<and>
     dcache fs' = (dcache fs)(i := e\<lparr>de_dirty := False\<rparr>) \<and> wf_inode s \<and> i_file_type s = i_file_type ino \<and> dir_sane fs' s \<and>
     (i_blocks s = 0 \<longleftrightarrow> i_extent_off s = 0) \<and> (i_blocks s \<noteq> 0 \<longrightarrow> has_children s) \<and> isize fs \<le> isize fs' \<and> free_blocks fs \<le> free_blocks fs' + 4 \<and>
     stored_children fs' s = de_children e \<and> dir_extent fs' s \<and> unat (i_size s) \<le> unat (i_blocks s) * 4096 \<and> adds_key fs p fs' \<and> sb_kept (sb fs) (sb fs') \<and>
     (\<forall>r. outside fs r \<and> \<not> in_extent (i_extent_off ino) (unat (i_blocks ino)) r \<longrightarrow>
       outside fs' r \<and> lblock fs' r = lblock fs r \<and> \<not> in_extent (i_extent_off s) (unat (i_blocks s)) r))"

text \<open>What the flush of an entry needs.\<close>

definition can_flush :: "xxfs \<Rightarrow> nat \<Rightarrow> xxfs_inode \<Rightarrow> bool" where
  "can_flush fs i ino \<longleftrightarrow> (let e = dcache fs i; p = de_path e in
     de_valid e \<and> de_dirty e \<and> length p \<le> 3528 \<and> collision_free p (chain_kv fs p) \<and> inode_view fs p = Some ino \<and> wf_inode ino \<and>
     small_dir (de_children e) \<and> dir_extent fs ino \<and> 4 \<le> free_blocks fs)"

text \<open>The first half: the inode is looked up and the children are stored.\<close>

lemma dir_written_after:
  assumes w: "dir_written g ino cs ino' g'" and n: "same_index fs g" and r: "rest g = rest fs"
  shows "dir_written fs ino cs ino' g'"
proof -
  note s = same_indexD [OF n]
  have ds: "data_step g (i_extent_off ino) (unat (i_blocks ino)) g'" using w unfolding dir_written_def by blast
  have "data_step fs (i_extent_off ino) (unat (i_blocks ino)) g'" by (rule data_step_trans [OF same_data_step [OF n] ds])
  moreover have "in_extent (i_extent_off ino) (unat (i_blocks ino)) b" if "outside fs b" "in_extent (i_extent_off ino') (unat (i_blocks ino')) b" for b
    using w index_sparesD(1) [OF s(8) that(1)] that(2) unfolding dir_written_def by blast
  ultimately show ?thesis using w r s(7,10) by (simp add: dir_written_def)
qed

lemma flush_stored:
  assumes inv: "fs_inv fs" and c: "can_flush fs i ino"
  obtains g0 ino' g1 where "get_inode fs (de_path (dcache fs i)) = Some (Inr ino, g0)" and "dir_store g0 (de_children (dcache fs i)) ino = (Some ino', g1)"
    and "dir_written fs ino (de_children (dcache fs i)) ino' g1"
proof -
  let ?e = "dcache fs i"
  have c': "length (de_path ?e) \<le> 3528" "inode_view fs (de_path ?e) = Some ino" "wf_inode ino" "small_dir (de_children ?e)" "dir_extent fs ino" "4 \<le> free_blocks fs"
    using c by (simp_all add: can_flush_def Let_def)
  have len: "length (de_path ?e) < 2 ^ 32" using c'(1) by simp
  obtain g0 where g0: "get_inode fs (de_path ?e) = Some (case inode_view fs (de_path ?e) of None \<Rightarrow> Inl XXFS_ENOENT | Some ino \<Rightarrow> Inr ino, g0)"
    "ns_same fs g0" "rest g0 = rest fs"
    by (rule get_inode_law [OF fs_invD(4) [OF inv] len])
  note s0 = same_indexD [OF ns_sameD(2) [OF g0(2)]]
  have e0: "dir_extent g0 ino" using c'(5) extent_spared(1) [OF fs_invD(1) [OF inv] s0(1,8)] by (simp add: dir_extent_def)
  have f0: "0 < free_blocks g0" using c'(6) s0(7) by simp
  obtain ino' g1 where d: "dir_store g0 (de_children ?e) ino = (Some ino', g1)" "dir_written g0 ino (de_children ?e) ino' g1"
    by (rule dir_store_law [OF s0(1) c'(3,4) e0 f0])
  show thesis by (rule that [OF _ d(1) dir_written_after [OF d(2) ns_sameD(2) [OF g0(2)] g0(3)]]) (use g0(1) c'(2) in simp)
qed

text \<open>The second half: the inode is stamped, sealed, and stored in the index and the cache.\<close>

lemma dir_written_sealed:
  assumes w: "dir_written fs ino cs ino' g" and ok: "index_ok g'" and sp: "index_spares g g'" and s: "s = inode_set_checksum_ecc (ino'\<lparr>i_mtime := t, i_ctime := t\<rparr>)"
  shows "dir_sane g' s" "stored_children g' s = cs" "dir_extent g' s" "i_blocks s = 0 \<longleftrightarrow> i_extent_off s = 0" "i_blocks s \<noteq> 0 \<longrightarrow> has_children s"
    "unat (i_size s) \<le> unat (i_blocks s) * 4096" "i_file_type s = i_file_type ino" "isize fs \<le> isize g'"
    "outside fs r \<Longrightarrow> \<not> in_extent (i_extent_off ino) (unat (i_blocks ino)) r \<Longrightarrow>
      outside g' r \<and> lblock g' r = lblock fs r \<and> \<not> in_extent (i_extent_off s) (unat (i_blocks s)) r"
proof -
  note w' = w [unfolded dir_written_def]
  have ds: "data_step fs (i_extent_off ino) (unat (i_blocks ino)) g" and wf: "wf_inode ino'" using w' by blast+
  note ds' = data_stepD [OF ds] and se = sealed_times [OF wf, of t t, folded s]
  show "dir_sane g' s" "stored_children g' s = cs" using sane_spared [OF ds'(1) ok sp, of ino'] w' children_cong [OF se(1,2)] by simp_all
  show "dir_extent g' s" using w' extent_spared(1) [OF ds'(1) ok sp] se(2,3) by (simp add: dir_extent_def)
  show "i_blocks s = 0 \<longleftrightarrow> i_extent_off s = 0" "i_blocks s \<noteq> 0 \<longrightarrow> has_children s" using w' se children_cong(1) [OF se(1,2)] by simp_all
  show "unat (i_size s) \<le> unat (i_blocks s) * 4096" "i_file_type s = i_file_type ino" using se w' by simp_all
  show "isize fs \<le> isize g'" using index_sparesD(2) [OF sp] ds'(5) by simp
  show "outside g' r \<and> lblock g' r = lblock fs r \<and> \<not> in_extent (i_extent_off s) (unat (i_blocks s)) r"
    if "outside fs r" "\<not> in_extent (i_extent_off ino) (unat (i_blocks ino)) r"
  proof -
    have "outside g r \<and> lblock g r = lblock fs r" using ds'(6,7) that by blast
    moreover have "\<not> in_extent (i_extent_off ino') (unat (i_blocks ino')) r" using w' that by blast
    ultimately show ?thesis using index_sparesD(1) [OF sp, of r] se(2,3) by simp
  qed
qed

lemma dir_written_inv:
  assumes inv: "fs_inv fs" and room: "icache_room fs k" and w: "dir_written fs ino cs ino' g"
  shows "fs_inv (tick g)" "icache_room (tick g) k" "inode_view (tick g) = inode_view fs" "same_index g (tick g)" "index_inode (tick g) = index_inode fs"
    "chain_kv (tick g) = chain_kv fs" "pdir (tick g) = pdir fs" "sb_kept (sb fs) (sb (tick g))" "dcache (tick g) = dcache fs" "free_blocks fs \<le> free_blocks (tick g) + 1"
proof -
  have ds: "data_step fs (i_extent_off ino) (unat (i_blocks ino)) g" and r: "rest g = rest fs" and f: "free_blocks fs \<le> free_blocks g + 1"
    using w unfolding dir_written_def by blast+
  note ds' = data_stepD [OF ds]
  have i: "fs_base g" by (rule data_step_base [OF ds fs_invD(4) [OF inv]])
  note nt = ns_sameD [OF tick_ns [OF i]] note st = same_indexD [OF nt(2)]
  show "fs_inv (tick g)" "icache_room (tick g) k" using nt i rest_icache [OF r] fs_invD(3) [OF inv] room by (simp_all add: fs_inv_def)
  show "inode_view (tick g) = inode_view fs" using nt(3) view_cong [OF rest_icache(1) [OF r] ds'(2)] by simp
  show "same_index g (tick g)" by (rule nt(2))
  show "index_inode (tick g) = index_inode fs" using st(3) ds'(2) by (simp add: index_inode_def fun_eq_iff)
  show "chain_kv (tick g) = chain_kv fs" "pdir (tick g) = pdir fs" using st(5,10) ds'(4,8) by simp_all
  show "sb_kept (sb fs) (sb (tick g))" "dcache (tick g) = dcache fs" "free_blocks fs \<le> free_blocks (tick g) + 1"
    using nt(6) rest_sb_kept [OF r] restD(6) [OF r] f by simp_all
qed

lemma flush_entry_law:
  assumes inv: "fs_inv fs" and room: "icache_room fs (Suc k)" and c: "can_flush fs i ino"
  obtains s fs' where "dcache_flush_entry fs i = Some fs'" and "dir_flushed fs i ino s fs'" and "icache_room fs' k"
proof -
  let ?e = "dcache fs i"
  let ?p = "de_path ?e" and ?cs = "de_children ?e"
  have c': "de_valid ?e" "de_dirty ?e" "length ?p \<le> 3528" "collision_free ?p (chain_kv fs ?p)" "4 \<le> free_blocks fs" using c by (simp_all add: can_flush_def Let_def)
  obtain g0 ino' g where d: "get_inode fs ?p = Some (Inr ino, g0)" "dir_store g0 ?cs ino = (Some ino', g)" "dir_written fs ino ?cs ino' g"
    by (rule flush_stored [OF inv c])
  note g = dir_written_inv [OF inv room d(3)]
  let ?t = "os_clock (img g) (os_calls (img g))"
  let ?i = "ino'\<lparr>i_mtime := ?t, i_ctime := ?t\<rparr>"
  let ?s = "inode_set_checksum_ecc ?i"
  have wf: "wf_inode ?i" using d(3) by (simp add: dir_written_def wf_inode_def)
  have cs: "can_store (tick g) ?p" using c'(3-5) g(6,10) by (simp add: can_store_def)
  obtain h fs1 where h: "paged_put (tick g) ?p (inode_to_val ?s) = Some (XXFS_OK, h)" "icache_put h (xxh64 ?p) ?p ?s = Some fs1"
    "inode_replaced (tick g) ?p ?s fs1" "icache_room fs1 k"
    by (rule put_cached_law [OF g(1,2) cs wf])
  note q = h(3) [unfolded inode_replaced_def]
  let ?fs = "set_dcache i (?e\<lparr>de_dirty := False\<rparr>) fs1"
  have ns: "ns_same fs1 ?fs" using q by (intro set_dcache_ns fs_invD(4)) blast
  note nn = ns_sameD [OF ns] and sn = same_indexD [OF ns_sameD(2) [OF ns]]
  have res: "dcache_flush_entry fs i = Some ?fs" using c'(1,2) d(1,2) h(1,2) by (simp add: dcache_flush_entry_def Let_def fs_time_tick)
  have sp: "index_spares g ?fs" using q index_spares_trans [OF same_indexD(8) [OF g(4)]] index_spares_trans [OF _ sn(8)] by blast
  note se = dir_written_sealed [where t = ?t, OF d(3) sn(1) sp refl]
  have "adds_key (tick g) ?p ?fs" using q adds_key_same [OF _ ns_sameD(2) [OF ns]] by blast
  then have ad: "adds_key fs ?p ?fs" using g(6,7) by (simp add: adds_key_def)
  have fr: "free_blocks fs \<le> free_blocks ?fs + 4" using q g(10) sn(7) by simp
  have sk: "sb_kept (sb fs) (sb ?fs)" using q nn(6) sb_kept_trans [OF g(8)] by simp
  have "dir_flushed fs i ino ?s ?fs"
    unfolding dir_flushed_def Let_def
  proof (intro conjI)
    show "\<forall>r. apart r ?p \<longrightarrow> inode_view ?fs r = inode_view fs r" using nn(3) q g(3) by simp
    show "wf_inode ?s" by (rule wf_seal [OF wf])
    show "fs_inv ?fs" using nn q by (simp add: fs_inv_def)
    show "inode_view ?fs ?p = Some ?s" using nn(3) q by simp
    show "index_inode ?fs = (index_inode fs)(?p \<mapsto> ?s)" using sn(3) q g(5) by simp
    show "dcache ?fs = (dcache fs)(i := ?e\<lparr>de_dirty := False\<rparr>)" using q g(9) by simp
  qed (use se ad sk fr in blast)+
  moreover have "icache_room ?fs k" using h(4) nn(5) by simp
  ultimately show thesis by (rule that [OF res])
qed

section \<open>Unmounting with one changed directory\<close>

lemma flush_from_append: "dcache_flush_from (xs @ ys) fs = Option.bind (dcache_flush_from xs fs) (dcache_flush_from ys)"
  by (induction xs arbitrary: fs) (simp_all add: Option.bind_assoc)

lemma flush_from_clean: "(\<And>i. i \<in> set xs \<Longrightarrow> \<not> de_dirty (dcache fs i)) \<Longrightarrow> dcache_flush_from xs fs = Some fs"
  by (induction xs) simp_all

lemma dcache_idx_less: "dcache_idx dir < DIR_CACHE_SIZE"
  using word_and_le1 [of "xxh64 dir" 255] by (simp add: dcache_idx_def DIR_CACHE_SIZE_def word_le_nat_alt)

lemma flush_only:
  assumes "\<And>j. de_dirty (dcache fs j) \<longleftrightarrow> j = i" and "dcache_flush_entry fs i = Some g" and "dcache g = (dcache fs)(i := e)"
    and "\<not> de_dirty e" and "i < DIR_CACHE_SIZE"
  shows "dcache_flush_all fs = Some g" and "\<And>j. \<not> de_dirty (dcache g j)"
proof -
  show c: "\<not> de_dirty (dcache g j)" for j using assms(1,3,4) by simp
  have s: "[0..<DIR_CACHE_SIZE] = [0..<i] @ i # [Suc i..<DIR_CACHE_SIZE]"
    using assms(5) by (metis le_add1 add_0 less_imp_le_nat upt_add_eq_append upt_conv_Cons le_add_diff_inverse)
  have "dcache_flush_from [0..<i] fs = Some fs" using assms(1) by (intro flush_from_clean) simp
  moreover have "dcache_flush_from [Suc i..<DIR_CACHE_SIZE] g = Some g" using c by (intro flush_from_clean) simp
  ultimately show "dcache_flush_all fs = Some g"
    using assms(1,2) by (simp add: dcache_flush_all_def s flush_from_append)
qed

lemma umount_flushed:
  assumes "dcache_flush_all fs = Some g" and "\<And>j. \<not> de_dirty (dcache g j)"
  shows "xxfs_umount fs = xxfs_umount g"
proof -
  have "dcache_flush_all g = Some g" unfolding dcache_flush_all_def using assms(2) by (intro flush_from_clean) simp
  then show ?thesis using assms(1) by (simp add: xxfs_umount_def)
qed

text \<open>Directories that the flush saves.\<close>

lemma remounted_dir:
  assumes ok: "index_ok fs" and r: "remounted fs fs'" and d: "dir_sane fs ino" "dir_extent fs ino"
    and np: "\<not> in_extent (i_extent_off ino) (unat (i_blocks ino)) (s_pdir_off (sb fs))" and sz: "unat (i_size ino) \<le> unat (i_blocks ino) * 4096"
  shows "dir_sane fs' ino" "stored_children fs' ino = stored_children fs ino"
proof -
  have "dir_sane fs' ino \<and> stored_children fs' ino = stored_children fs ino"
  proof (cases "has_children ino")
    case True
    then have e: "extent_at fs (i_extent_off ino) (unat (i_blocks ino))" "i_extent_off ino \<noteq> 0" "0 + unat (i_size ino) \<le> unat (i_blocks ino) * 4096"
      and b: "unat (i_extent_off ino) + unat (i_size ino) \<le> isize fs" "unat (i_size ino) div DIRENT_SIZE < 2 ^ 31"
      using d sz by (simp_all add: dir_extent_def has_children_def dir_sane_def)
    have "isize fs \<le> isize fs'" using r by (simp add: remounted_def)
    then show ?thesis
      using remounted_extent(1) [OF ok r e(1,2) np] remounted_extent(2) [OF ok r e(1,2) np e(3)] b sz
      unfolding dir_sane_def stored_children_def by auto
  qed (simp add: dir_sane_def stored_children_def)
  then show "dir_sane fs' ino" "stored_children fs' ino = stored_children fs ino" by blast+
qed

lemma remount_flushed:
  assumes inv: "fs_inv fs" and room: "icache_room fs (Suc k)" and c: "can_flush fs i ino" and u: "can_unmount fs"
    and one: "\<And>j. de_dirty (dcache fs j) \<longleftrightarrow> j = i" "i < DIR_CACHE_SIZE"
    and np: "\<not> in_extent (i_extent_off ino) (unat (i_blocks ino)) (s_pdir_off (sb fs))"
  obtains s f fs' where "xxfs_umount fs = Some f" and "xxfs_mount f flg = Some (Inr fs')" and "fs_inv fs'" and "can_unmount fs'"
    and "inode_view fs' = (index_inode fs)(de_path (dcache fs i) \<mapsto> s)" and "i_file_type s = i_file_type ino"
    and "dir_children fs' (de_path (dcache fs i)) = de_children (dcache fs i)"
proof -
  obtain s g where g: "dcache_flush_entry fs i = Some g" "dir_flushed fs i ino s g"
    by (rule flush_entry_law [OF inv room c])
  let ?p = "de_path (dcache fs i)"
  note d = g(2) [unfolded dir_flushed_def Let_def]
  have dc: "dcache g = (dcache fs)(i := (dcache fs i)\<lparr>de_dirty := False\<rparr>)" and ig: "fs_inv g" using d by blast+
  note fl = flush_only [OF one(1) g(1) dc _ one(2), simplified]
  have sk: "sb_kept (sb fs) (sb g)" and ds: "d_dir_size (pdir g) = d_dir_size (pdir fs)" using d by (auto simp: adds_key_def)
  have u': "wf_super (sb fs)" "s_magic (sb fs) = XXFS_MAGIC" "s_pdir_off (sb fs) \<noteq> 0" "outside fs (s_pdir_off (sb fs))"
    "unat (d_dir_size (pdir fs)) \<le> 512" using u by (simp_all add: can_unmount_def)
  have po: "outside g (s_pdir_off (sb fs))" "\<not> in_extent (i_extent_off s) (unat (i_blocks s)) (s_pdir_off (sb fs))" using d u'(4) np by blast+
  have ug: "can_unmount g" using u' sk ds po(1) by (simp add: can_unmount_def sb_kept_def)
  obtain f fs' where m: "xxfs_umount g = Some f" "xxfs_mount f flg = Some (Inr fs')" "remounted g fs'" "can_unmount fs'"
    by (rule remount_law [OF fs_invD(1) [OF ig] ug fl(2), of flg])
  note v = remounted_view [OF fs_invD(4) [OF ig] m(3)]
  have ix: "index_inode g = (index_inode fs)(?p \<mapsto> s)" using d by blast
  have sn: "dir_sane g s" "dir_extent g s" "unat (i_size s) \<le> unat (i_blocks s) * 4096" using d by blast+
  have "stored_children fs' s = stored_children g s"
    by (rule remounted_dir(2) [OF fs_invD(1) [OF ig] m(3) sn(1,2) _ sn(3)]) (use po(2) sk in \<open>simp add: sb_kept_def\<close>)
  then have "dir_children fs' ?p = de_children (dcache fs i)" using v(5,6) ix d by (simp add: dir_children_def)
  moreover have "xxfs_umount fs = Some f" using umount_flushed [OF fl] m(1) by simp
  ultimately show thesis using that m(2,4) v(1,3) ix d by simp
qed

text \<open>The parent directory can take one more name and be written back.\<close>

definition can_save :: "xxfs \<Rightarrow> bytes \<Rightarrow> xxfs_dir_child list \<Rightarrow> bool" where
  "can_save fs dir cs \<longleftrightarrow> can_unmount fs \<and> (\<forall>j. \<not> de_dirty (dcache fs j)) \<and> length dir \<le> 3528 \<and> collision_free dir (chain_kv fs dir) \<and>
     small_dir cs \<and> 7 \<le> free_blocks fs \<and>
     (\<exists>d. inode_view fs dir = Some d \<and> wf_inode d \<and> dir_extent fs d \<and> \<not> in_extent (i_extent_off d) (unat (i_blocks d)) (s_pdir_off (sb fs)))"

text \<open>C11: a file that \<^verbatim>\<open>xxfs_create\<close> has made survives: after \<^verbatim>\<open>xxfs_umount\<close> and \<^verbatim>\<open>xxfs_mount\<close> its path has the inode that was
  created, its parent directory lists the old children and the new one, and every other path has the inode that the
  index held before. The parent, with the new name, has at most 15 children, so that it fits into a block, no directory has unsaved changes before, and seven blocks are free.\<close>

theorem created_file_survives_remount:
  assumes c: "can_make (Suc k) fs (path_normalize path)"
    and s: "can_save fs (get_parent_path (path_normalize path)) (dir_children fs (get_parent_path (path_normalize path)) @
      [new_child (get_basename (path_normalize path)) (ucast XXFS_FT_REG)])"
  shows "\<exists>fs1 f fs2. xxfs_create fs path mode uid gid = Some (XXFS_OK, fs1) \<and> xxfs_umount fs1 = Some f \<and>
    xxfs_mount f flg = Some (Inr fs2) \<and> fs_inv fs2 \<and>
    inode_view fs2 (path_normalize path) = Some (new_inode fs mode uid gid XXFS_FT_REG 1 (get_basename (path_normalize path))) \<and>
    dir_children fs2 (get_parent_path (path_normalize path)) = dir_children fs (get_parent_path (path_normalize path)) @
      [new_child (get_basename (path_normalize path)) (ucast XXFS_FT_REG)] \<and>
    (\<forall>q. q \<noteq> path_normalize path \<and> q \<noteq> get_parent_path (path_normalize path) \<longrightarrow> inode_view fs2 q = index_inode fs q)"
proof -
  let ?p = "path_normalize path"
  let ?d = "get_parent_path ?p" and ?ino = "new_inode fs mode uid gid XXFS_FT_REG 1 (get_basename ?p)"
  let ?i = "dcache_idx ?d" and ?cs = "dir_children fs ?d @ [new_child (get_basename ?p) (ucast XXFS_FT_REG)]"
  obtain d where s': "can_unmount fs" "\<And>j. \<not> de_dirty (dcache fs j)" "length ?d \<le> 3528" "collision_free ?d (chain_kv fs ?d)"
    "small_dir ?cs" "7 \<le> free_blocks fs" "inode_view fs ?d = Some d" "wf_inode d" "dir_extent fs d"
    "\<not> in_extent (i_extent_off d) (unat (i_blocks d)) (s_pdir_off (sb fs))" using s by (auto simp: can_save_def)
  have ap: "apart ?d ?p" and inv: "fs_inv fs" using c by (simp_all add: can_make_def)
  have l: "icache_lookup fs (xxh64 ?p) = None" using c view_NoneD by (simp add: can_make_def)
  obtain fs1 where m: "xxfs_create fs path mode uid gid = Some (XXFS_OK, fs1)" "node_made (Suc k) fs ?p ?ino (ucast XXFS_FT_REG) fs1"
    by (rule make_counted [OF c length_parent32, of mode uid gid XXFS_FT_REG 1 "ucast XXFS_FT_REG"])
      (auto simp: xxfs_create_def Let_def l alloc_same_def sb_kept_def wf_super_def)
  note n = m(2) [unfolded node_made_def]
  have sp: "index_spares fs fs1" and i1: "fs_inv fs1" and ak: "adds_key fs ?p fs1" and sk: "sb_kept (sb fs) (sb fs1)"
    and df: "dcache_find fs1 ?d = Some ?i" using n by blast+
  have de: "de_valid (dcache fs1 ?i)" "de_path (dcache fs1 ?i) = ?d" "de_children (dcache fs1 ?i) = ?cs"
    using dcache_find_idx [OF df] n df by (simp_all add: dir_children_def)
  have dir: "de_dirty (dcache fs1 j) \<longleftrightarrow> j = ?i" for j using n s'(2) [of j] by (cases "j = ?i") simp_all
  have v1: "inode_view fs1 ?d = Some d" using n ap s'(7) by simp
  have ex: "dir_extent fs1 d" using s'(9) extent_spared(1) [OF fs_invD(1) [OF inv] fs_invD(1) [OF i1] sp] by (simp add: dir_extent_def)
  have cf: "collision_free ?d (chain_kv fs1 ?d)" by (rule adds_collision_free [OF ak s'(4)]) (use ap in \<open>auto simp: apart_def\<close>)
  have fb: "4 \<le> free_blocks fs1" using n s'(6) by simp
  have cfl: "can_flush fs1 ?i d" using de dir [of ?i] s'(3,5,8) v1 ex cf fb by (simp add: can_flush_def Let_def)
  have "outside fs1 (s_pdir_off (sb fs))" using index_sparesD(1) [OF sp] s'(1) by (simp add: can_unmount_def)
  then have u1: "can_unmount fs1" using s'(1) sk ak by (simp add: can_unmount_def sb_kept_def adds_key_def)
  have rm: "icache_room fs1 (Suc k)" using n by blast
  have np: "\<not> in_extent (i_extent_off d) (unat (i_blocks d)) (s_pdir_off (sb fs1))" using s'(10) sk by (simp add: sb_kept_def)
  obtain s2 f fs2 where r: "xxfs_umount fs1 = Some f" "xxfs_mount f flg = Some (Inr fs2)" "fs_inv fs2" "can_unmount fs2"
    "inode_view fs2 = (index_inode fs1)(de_path (dcache fs1 ?i) \<mapsto> s2)" "dir_children fs2 (de_path (dcache fs1 ?i)) = de_children (dcache fs1 ?i)"
    by (rule remount_flushed [OF i1 rm cfl u1 dir dcache_idx_less np, of flg]) blast
  have ix: "index_inode fs1 = (index_inode fs)(?p \<mapsto> ?ino)" using n by blast
  have "?d \<noteq> ?p" using ap by (auto simp: apart_def)
  then show ?thesis using m(1) r de(2,3) ix by (intro exI [of _ fs1] exI [of _ f] exI [of _ fs2]) simp
qed

lemma mkfs_root_extent: "i_blocks (mkfs_root now) = 0" "i_extent_off (mkfs_root now) = 0"
proof -
  let ?i = "zero_inode\<lparr>i_mode := 493, i_file_type := XXFS_FT_DIR, i_nlinks := 2, i_atime := now, i_mtime := now,
       i_ctime := now, i_btime := now, i_generation := 1, i_name := buf_put 0 [0x2F, 0] (i_name zero_inode)\<rparr>"
  have "length (i_name zero_inode) = 256" using wf_zero_inode by (simp add: wf_inode_def)
  then have wf: "wf_inode ?i" using wf_zero_inode by (simp add: wf_inode_def)
  show "i_blocks (mkfs_root now) = 0" "i_extent_off (mkfs_root now) = 0"
    using sealed_fields(4,5) [OF wf] by (simp_all add: mkfs_root_def zero_inode_fields i_extent_off_def fld_def zeros_def take_replicate numeral_eq_Suc dec_le_def)
qed

lemma wf_new_child: "wf_dirent (new_child name typ)"
  by (simp add: new_child_def wf_dirent_def length_buf_put Let_def XXFS_MAX_NAME_def)

theorem created_file_survives_remount_witness:
  "\<exists>f fs fs1 f' fs2 ino. xxfs_mkfs blank_file 64 False = (XXFS_OK, f) \<and> xxfs_mount f 0 = Some (Inr fs) \<and>
    xxfs_create fs [0x2F, 0x61] 420 0 0 = Some (XXFS_OK, fs1) \<and> xxfs_umount fs1 = Some f' \<and> xxfs_mount f' 0 = Some (Inr fs2) \<and>
    inode_view fs2 [0x2F, 0x61] = Some ino \<and> dir_children fs2 [0x2F] = [new_child [0x61] 1]"
proof -
  obtain f fs now where m: "xxfs_mkfs blank_file 64 False = (XXFS_OK, f)" "xxfs_mount f 0 = Some (Inr fs)"
    "fresh_mounted fs now" "can_make 8191 fs [0x2F, 0x61]"
    by (rule sample_mounted)
  have r: "inode_view fs [0x2F] = Some (mkfs_root now)" "wf_inode (mkfs_root now)" "dir_children fs [0x2F] = []"
    using fresh_view [OF m(3)] index_inode_wf [of fs "[0x2F]"] m(3) by (simp_all add: fresh_mounted_def)
  have "can_save fs [0x2F] [new_child [0x61] (ucast XXFS_FT_REG)]"
    using m(3) r by (simp add: can_save_def fresh_mounted_def pristine_def zero_dir_cache_entry_def small_dir_def wf_new_child
        dir_extent_def in_extent_def mkfs_root_extent collision_free_short KEY_PREFIX_LEN_def)
  moreover have "can_make (Suc 8190) fs [0x2F, 0x61]" using m(4) by simp
  ultimately show ?thesis
    using created_file_survives_remount [of 8190 fs "[0x2F, 0x61]" 420 0 0 0] m(1,2) r(3)
    by (fastforce simp: sample_path XXFS_FT_REG_def)
qed

end
