(* ===== verification/Fs_Errors.thy ===== *)
theory Fs_Errors
  imports Fs_Data
begin

text \<open>
  The refusals of the library: which error code every operation returns for a path that is missing, that exists already or that is of
  the wrong kind, and that the file system is then what it was.
\<close>

section \<open>Refusals\<close>

text \<open>The call has the given result and leaves the index, the directories, the superblock and the inodes alone; a lookup may have
  brought the inode of the path into the cache.\<close>

definition unchanged :: "xxfs \<Rightarrow> bytes \<Rightarrow> xxfs \<Rightarrow> bool" where
  "unchanged fs p fs' \<longleftrightarrow> fs_inv fs' \<and> same_index fs fs' \<and> dcache fs' = dcache fs \<and> sb fs' = sb fs \<and> cache_move fs p fs' \<and>
     (\<forall>q. apart q p \<or> q = p \<longrightarrow> inode_view fs' q = inode_view fs q)"

definition refused :: "xxfs \<Rightarrow> bytes \<Rightarrow> ('r \<times> xxfs) option \<Rightarrow> 'r \<Rightarrow> bool" where
  "refused fs p res err \<longleftrightarrow> (\<exists>fs'. res = Some (err, fs') \<and> unchanged fs p fs')"

lemma unchanged_ns: "fs_inv fs \<Longrightarrow> ns_same fs fs' \<Longrightarrow> dcache fs' = dcache fs \<Longrightarrow> unchanged fs p fs'"
  using ns_sameD [of fs fs'] by (simp add: unchanged_def fs_inv_def cache_move_def)

lemma unchanged_refl: "fs_inv fs \<Longrightarrow> unchanged fs p fs"
  by (rule unchanged_ns) (simp_all add: ns_same_refl fs_invD)

lemma fetched:
  assumes "fs_inv fs" and "icache_room fs 1"
  obtains fs' where "fetch_inode fs (path_normalize path) =
      Some (case inode_view fs (path_normalize path) of None \<Rightarrow> Inl XXFS_ENOENT | Some ino \<Rightarrow> Inr ino, fs')"
    and "unchanged fs (path_normalize path) fs'"
proof -
  have r: "icache_room fs (Suc 0)" using assms(2) by simp
  show thesis by (rule fetch_inode_law [OF assms(1) r length_norm32 [of path]]) (use that in \<open>auto simp: unchanged_def\<close>)
qed

lemma gotten:
  assumes "fs_inv fs"
  obtains fs' where "get_inode fs (path_normalize path) =
      Some (case inode_view fs (path_normalize path) of None \<Rightarrow> Inl XXFS_ENOENT | Some ino \<Rightarrow> Inr ino, fs')"
    and "unchanged fs (path_normalize path) fs'"
  by (rule get_inode_law [OF fs_invD(4) [OF assms] length_norm32 [of path]]) (use that unchanged_ns [OF assms] in blast)

lemma indexed:
  assumes "fs_inv fs" and "index_inode fs (path_normalize path) = None"
  obtains fs' where "inode_paged_get fs (path_normalize path) = Some (Inl XXFS_ENOENT, fs')" and "unchanged fs (path_normalize path) fs'"
proof -
  obtain fs' where "inode_paged_get fs (path_normalize path) =
      Some (case index_inode fs (path_normalize path) of None \<Rightarrow> Inl XXFS_ENOENT | Some ino \<Rightarrow> Inr ino, fs')" "ns_same fs fs'" "dcache fs' = dcache fs"
    by (rule inode_paged_get_ns [OF fs_invD(4) [OF assms(1)] length_norm32 [of path]])
  then show thesis using that unchanged_ns [OF assms(1)] assms(2) by simp
qed

text \<open>C17: for a path that does not exist, \<^verbatim>\<open>xxfs_stat\<close>, \<^verbatim>\<open>xxfs_unlink\<close>, \<^verbatim>\<open>xxfs_rmdir\<close>, \<^verbatim>\<open>xxfs_chmod\<close>, \<^verbatim>\<open>xxfs_chown\<close>, \<^verbatim>\<open>xxfs_utime\<close>, \<^verbatim>\<open>xxfs_rename\<close>,
  \<^verbatim>\<open>xxfs_readlink\<close>, \<^verbatim>\<open>xxfs_open\<close>, \<^verbatim>\<open>xxfs_write\<close> and \<^verbatim>\<open>xxfs_read\<close> all return \<^verbatim>\<open>XXFS_ENOENT\<close> and leave the file system as it was.\<close>

theorem missing_path_refused:
  assumes inv: "fs_inv fs" and room: "icache_room fs 1" and v: "inode_view fs (path_normalize path) = None" and buf: "buf \<noteq> []"
  shows "refused fs (path_normalize path) (xxfs_stat fs path) (Inl XXFS_ENOENT) \<and>
    refused fs (path_normalize path) (xxfs_unlink fs path) XXFS_ENOENT \<and>
    (path_normalize path \<noteq> [0x2F] \<longrightarrow> refused fs (path_normalize path) (xxfs_rmdir fs path) XXFS_ENOENT) \<and>
    refused fs (path_normalize path) (xxfs_chmod fs path mode) XXFS_ENOENT \<and>
    refused fs (path_normalize path) (xxfs_chown fs path uid gid) XXFS_ENOENT \<and>
    refused fs (path_normalize path) (xxfs_utime fs path atime mtime) XXFS_ENOENT \<and>
    refused fs (path_normalize path) (xxfs_rename fs path new_path) XXFS_ENOENT \<and>
    refused fs (path_normalize path) (xxfs_readlink fs path len) (Inl XXFS_ENOENT) \<and>
    refused fs (path_normalize path) (xxfs_open fs path flg) (Inl XXFS_ENOENT) \<and>
    refused fs (path_normalize path) (xxfs_write fs path buf off) (Inl XXFS_ENOENT) \<and>
    refused fs (path_normalize path) (map_option (\<lambda>(r, b, fs'). ((r, b), fs')) (xxfs_read fs path buf off)) (Inl XXFS_ENOENT, buf)"
proof -
  have ix: "index_inode fs (path_normalize path) = None" using v by (auto simp: inode_view_def split: option.splits)
  obtain f1 where f: "fetch_inode fs (path_normalize path) = Some (Inl XXFS_ENOENT, f1)" "unchanged fs (path_normalize path) f1"
    by (rule fetched [OF inv room, of path]) (simp add: v)
  obtain f2 where g: "get_inode fs (path_normalize path) = Some (Inl XXFS_ENOENT, f2)" "unchanged fs (path_normalize path) f2"
    by (rule gotten [OF inv, of path]) (simp add: v)
  obtain f3 where i: "inode_paged_get fs (path_normalize path) = Some (Inl XXFS_ENOENT, f3)" "unchanged fs (path_normalize path) f3"
    by (rule indexed [OF inv ix])
  note by_fetch = xxfs_stat_def xxfs_unlink_def xxfs_rmdir_def xxfs_readlink_def xxfs_read_def
    and by_index = xxfs_chmod_def xxfs_chown_def xxfs_utime_def change_inode_def xxfs_rename_def and by_get = xxfs_open_def xxfs_write_def
  show ?thesis using f g i buf by (simp add: refused_def by_fetch by_index by_get Let_def)
qed

theorem missing_path_refused_witness:
  "\<exists>f fs. xxfs_mkfs blank_file 64 False = (XXFS_OK, f) \<and> xxfs_mount f 0 = Some (Inr fs) \<and>
    refused fs [0x2F, 0x61] (xxfs_unlink fs [0x2F, 0x61]) XXFS_ENOENT \<and>
    refused fs [0x2F, 0x61] (xxfs_write fs [0x2F, 0x61] [1] 0) (Inl XXFS_ENOENT)"
proof -
  obtain f fs now where m: "xxfs_mkfs blank_file 64 False = (XXFS_OK, f)" "xxfs_mount f 0 = Some (Inr fs)" "fresh_mounted fs now"
    by (rule sample_mounted)
  have "fs_inv fs" "icache_room fs 1" using m(3) by (simp_all add: fresh_mounted_def icache_room_def)
  then show ?thesis
    using missing_path_refused [of fs "[0x2F, 0x61]" "[1]"] fresh_view [OF m(3)] m(1,2) by (auto simp: sample_path)
qed

text \<open>C18: an operation that does not fit what is at the path is refused, and the file system stays as it was: \<^verbatim>\<open>xxfs_unlink\<close>, \<^verbatim>\<open>xxfs_open\<close>
  and \<^verbatim>\<open>xxfs_write\<close> of a directory return \<^verbatim>\<open>XXFS_EISDIR\<close>, \<^verbatim>\<open>xxfs_rmdir\<close> of anything else \<^verbatim>\<open>XXFS_ENOTDIR\<close> and of the root \<^verbatim>\<open>XXFS_EINVAL\<close>,
  \<^verbatim>\<open>xxfs_readlink\<close> of what is no link \<^verbatim>\<open>XXFS_EINVAL\<close>, \<^verbatim>\<open>xxfs_symlink\<close> at an existing path \<^verbatim>\<open>XXFS_EEXIST\<close> and with a long target
  \<^verbatim>\<open>XXFS_ENAMETOOLONG\<close>; \<^verbatim>\<open>xxfs_create\<close> and \<^verbatim>\<open>xxfs_mkdir\<close> return \<^verbatim>\<open>XXFS_EEXIST\<close> when the inode of the path is in the inode cache.\<close>

theorem wrong_kind_refused:
  assumes inv: "fs_inv fs" and room: "icache_room fs 1" and v: "inode_view fs (path_normalize path) = Some ino" and buf: "buf \<noteq> []"
    and tgt: "length target < 2 ^ 32"
  shows "(i_file_type ino = XXFS_FT_DIR \<longrightarrow>
      refused fs (path_normalize path) (xxfs_unlink fs path) XXFS_EISDIR \<and> refused fs (path_normalize path) (xxfs_open fs path flg) (Inl XXFS_EISDIR) \<and>
      refused fs (path_normalize path) (xxfs_write fs path buf off) (Inl XXFS_EISDIR)) \<and>
    (i_file_type ino \<noteq> XXFS_FT_DIR \<and> path_normalize path \<noteq> [0x2F] \<longrightarrow> refused fs (path_normalize path) (xxfs_rmdir fs path) XXFS_ENOTDIR) \<and>
    (path_normalize path = [0x2F] \<longrightarrow> xxfs_rmdir fs path = Some (XXFS_EINVAL, fs)) \<and>
    (i_file_type ino \<noteq> XXFS_FT_LNK \<longrightarrow> refused fs (path_normalize path) (xxfs_readlink fs path len) (Inl XXFS_EINVAL)) \<and>
    (if length target \<le> 128 then refused fs (path_normalize path) (xxfs_symlink fs target path) XXFS_EEXIST
     else xxfs_symlink fs target path = Some (XXFS_ENAMETOOLONG, fs)) \<and>
    (cached_inode fs (xxh64 (path_normalize path)) \<noteq> None \<longrightarrow> xxfs_create fs path mode uid gid = Some (XXFS_EEXIST, fs) \<and>
      xxfs_mkdir fs path mode uid gid = Some (XXFS_EEXIST, fs))"
proof -
  obtain f1 where f: "fetch_inode fs (path_normalize path) = Some (Inr ino, f1)" "unchanged fs (path_normalize path) f1"
    by (rule fetched [OF inv room, of path]) (simp add: v)
  obtain f2 where g: "get_inode fs (path_normalize path) = Some (Inr ino, f2)" "unchanged fs (path_normalize path) f2"
    by (rule gotten [OF inv, of path]) (simp add: v)
  have "of_nat (length target) > (of_nat XXFS_INLINE_MAX :: u32) \<longleftrightarrow> \<not> length target \<le> 128"
    using tgt by (simp add: word_less_nat_alt unat_of_nat XXFS_INLINE_MAX_def not_le)
  then have "if length target \<le> 128 then refused fs (path_normalize path) (xxfs_symlink fs target path) XXFS_EEXIST
     else xxfs_symlink fs target path = Some (XXFS_ENAMETOOLONG, fs)"
    using f by (cases "length target \<le> 128") (simp_all add: xxfs_symlink_def refused_def Let_def)
  moreover have "xxfs_create fs path mode uid gid = Some (XXFS_EEXIST, fs) \<and> xxfs_mkdir fs path mode uid gid = Some (XXFS_EEXIST, fs)"
    if "cached_inode fs (xxh64 (path_normalize path)) \<noteq> None"
    using that by (auto simp: cached_inode_def xxfs_create_def xxfs_mkdir_def Let_def)
  ultimately show ?thesis
    using f g buf by (simp add: refused_def xxfs_unlink_def xxfs_open_def xxfs_write_def xxfs_rmdir_def xxfs_readlink_def xxfs_stat_def)
qed

theorem wrong_kind_refused_witness:
  "\<exists>f fs. xxfs_mkfs blank_file 64 False = (XXFS_OK, f) \<and> xxfs_mount f 0 = Some (Inr fs) \<and>
    refused fs [0x2F] (xxfs_unlink fs [0x2F]) XXFS_EISDIR \<and> xxfs_rmdir fs [0x2F] = Some (XXFS_EINVAL, fs) \<and>
    refused fs [0x2F] (xxfs_symlink fs [0x61] [0x2F]) XXFS_EEXIST"
proof -
  obtain f fs now where m: "xxfs_mkfs blank_file 64 False = (XXFS_OK, f)" "xxfs_mount f 0 = Some (Inr fs)" "fresh_mounted fs now"
    by (rule sample_mounted)
  have "fs_inv fs" "icache_room fs 1" using m(3) by (simp_all add: fresh_mounted_def icache_room_def)
  then show ?thesis
    using wrong_kind_refused [of fs "[0x2F]" "mkfs_root now" "[1]" "[0x61]"] fresh_view [OF m(3)] m(1,2) by (auto simp: norm_root mkfs_root_fields)
qed

end
