(* ===== verification/Fs_Volume.thy ===== *)
theory Fs_Volume
  imports Fs_Errors
begin

text \<open>
  The mounted file system as an abstract one, a map from paths to kinds and contents. \<open>volume\<close> is the invariant, \<open>abs_fs\<close> the abstraction; each of
  \<^verbatim>\<open>xxfs_create\<close>, \<^verbatim>\<open>xxfs_mkdir\<close>, \<^verbatim>\<open>xxfs_stat\<close>, \<^verbatim>\<open>xxfs_write\<close> and \<^verbatim>\<open>xxfs_read\<close>, when it is ready, keeps the invariant and gives the result that its specification gives on
  the abstract file system. The paths are taken from a set on which the hash function has no collisions, since the code takes two paths with the same
  hash for one.
\<close>

section \<open>Operations and their results\<close>

text \<open>The size of a directory is not part of its result: it is the size of the list of children at the time it was last written back.\<close>

datatype fs_op = OpCreate bytes u16 u16 u16 | OpMkdir bytes u16 u16 u16 | OpStat bytes | OpWrite bytes bytes u64 | OpRead bytes bytes u64

datatype fs_res = Status rc | Info u16 u64 | Count u32 | Content u32 bytes

primrec op_path :: "fs_op \<Rightarrow> bytes" where
  "op_path (OpCreate path mode uid gid) = path_normalize path"
| "op_path (OpMkdir path mode uid gid) = path_normalize path"
| "op_path (OpStat path) = path_normalize path"
| "op_path (OpWrite path buf off) = path_normalize path"
| "op_path (OpRead path buf off) = path_normalize path"

primrec exec_op :: "fs_op \<Rightarrow> xxfs \<Rightarrow> (fs_res \<times> xxfs) option" where
  "exec_op (OpCreate path mode uid gid) fs = map_option (\<lambda>(rc, fs). (Status rc, fs)) (xxfs_create fs path mode uid gid)"
| "exec_op (OpMkdir path mode uid gid) fs = map_option (\<lambda>(rc, fs). (Status rc, fs)) (xxfs_mkdir fs path mode uid gid)"
| "exec_op (OpStat path) fs =
     map_option (\<lambda>(r, fs). (case r of Inl rc \<Rightarrow> Status rc
                                    | Inr ino \<Rightarrow> Info (i_file_type ino) (if i_file_type ino = XXFS_FT_DIR then 0 else i_size ino), fs)) (xxfs_stat fs path)"
| "exec_op (OpWrite path buf off) fs =
     map_option (\<lambda>(r, fs). (case r of Inl rc \<Rightarrow> Status rc | Inr n \<Rightarrow> Count n, fs)) (xxfs_write fs path buf off)"
| "exec_op (OpRead path buf off) fs =
     map_option (\<lambda>(r, b, fs). (case r of Inl rc \<Rightarrow> Status rc | Inr n \<Rightarrow> Content n b, fs)) (xxfs_read fs path buf off)"

section \<open>The abstract file system\<close>

type_synonym afs = "bytes \<rightharpoonup> u16 \<times> bytes"

primrec spec_op :: "fs_op \<Rightarrow> afs \<Rightarrow> fs_res \<times> afs" where
  "spec_op (OpCreate path mode uid gid) A =
     (case A (path_normalize path) of Some f \<Rightarrow> (Status XXFS_EEXIST, A) | None \<Rightarrow> (Status XXFS_OK, A(path_normalize path \<mapsto> (XXFS_FT_REG, []))))"
| "spec_op (OpMkdir path mode uid gid) A =
     (case A (path_normalize path) of Some f \<Rightarrow> (Status XXFS_EEXIST, A) | None \<Rightarrow> (Status XXFS_OK, A(path_normalize path \<mapsto> (XXFS_FT_DIR, []))))"
| "spec_op (OpStat path) A =
     (case A (path_normalize path) of None \<Rightarrow> (Status XXFS_ENOENT, A) | Some (k, bs) \<Rightarrow> (Info k (of_nat (length bs)), A))"
| "spec_op (OpWrite path buf off) A =
     (if buf = [] then (Status XXFS_EINVAL, A)
      else case A (path_normalize path) of
             None \<Rightarrow> (Status XXFS_ENOENT, A)
           | Some (k, bs) \<Rightarrow>
               if k = XXFS_FT_DIR then (Status XXFS_EISDIR, A)
               else (Count (of_nat (length buf)), A(path_normalize path \<mapsto> (k, overlay (unat off) buf bs))))"
| "spec_op (OpRead path buf off) A =
     (if buf = [] then (Status XXFS_EINVAL, A)
      else case A (path_normalize path) of
             None \<Rightarrow> (Status XXFS_ENOENT, A)
           | Some (k, bs) \<Rightarrow>
               let out = take (length buf) (drop (unat off) bs) in (Content (of_nat (length out)) (into_buf out buf), A))"

section \<open>The abstraction\<close>

definition abs_file :: "xxfs \<Rightarrow> xxfs_inode \<Rightarrow> u16 \<times> bytes" where
  "abs_file fs ino = (i_file_type ino, if i_file_type ino = XXFS_FT_DIR then [] else file_bytes fs ino)"

definition abs_fs :: "bytes set \<Rightarrow> xxfs \<Rightarrow> afs" where
  "abs_fs U fs p = (if p \<in> U then map_option (abs_file fs) (inode_view fs p) else None)"

definition shares :: "xxfs_inode \<Rightarrow> xxfs_inode \<Rightarrow> bool" where
  "shares a b \<longleftrightarrow> (\<exists>r. in_extent (i_extent_off a) (unat (i_blocks a)) r \<and> in_extent (i_extent_off b) (unat (i_blocks b)) r)"

text \<open>A directory may be without blocks, whatever its inline area holds behind the extent.\<close>

definition node_ok :: "xxfs \<Rightarrow> xxfs_inode \<Rightarrow> bool" where
  "node_ok fs ino \<longleftrightarrow> wf_inode ino \<and> (if i_file_type ino = XXFS_FT_DIR \<and> i_blocks ino = 0 then i_extent_off ino = 0 else file_ok fs ino)"

lemma node_okD:
  assumes "node_ok fs ino"
  shows "wf_inode ino" "i_file_type ino \<noteq> XXFS_FT_DIR \<Longrightarrow> file_ok fs ino" "i_blocks ino \<noteq> 0 \<Longrightarrow> file_ok fs ino"
    "in_extent (i_extent_off ino) (unat (i_blocks ino)) r \<Longrightarrow> extent_at fs (i_extent_off ino) (unat (i_blocks ino))"
  using assms by (auto simp: node_ok_def file_ok_def in_extent_def split: if_splits)

lemma node_ok_kept:
  assumes "node_ok fs ino" and "file_ok fs ino \<Longrightarrow> file_ok fs' ino \<and> file_bytes fs' ino = file_bytes fs ino"
  shows "node_ok fs' ino" "abs_file fs' ino = abs_file fs ino"
  using assms by (auto simp: node_ok_def abs_file_def split: if_splits)

text \<open>The invariant: besides those of the layers, every file is well-formed and no two files share a block.\<close>

definition volume :: "bytes set \<Rightarrow> xxfs \<Rightarrow> bool" where
  "volume U fs \<longleftrightarrow> fs_inv fs \<and> inj_on xxh64 U \<and> (\<forall>p \<in> U. \<forall>ino. inode_view fs p = Some ino \<longrightarrow> node_ok fs ino) \<and>
     (\<forall>p \<in> U. \<forall>q \<in> U. p \<noteq> q \<longrightarrow> (\<forall>a b. inode_view fs p = Some a \<longrightarrow> inode_view fs q = Some b \<longrightarrow> \<not> shares a b))"

lemma volumeD:
  assumes "volume U fs"
  shows "fs_inv fs" "inj_on xxh64 U" "p \<in> U \<Longrightarrow> inode_view fs p = Some ino \<Longrightarrow> node_ok fs ino"
    "p \<in> U \<Longrightarrow> q \<in> U \<Longrightarrow> p \<noteq> q \<Longrightarrow> inode_view fs p = Some a \<Longrightarrow> inode_view fs q = Some b \<Longrightarrow> \<not> shares a b"
    "p \<in> U \<Longrightarrow> q \<in> U \<Longrightarrow> p \<noteq> q \<Longrightarrow> apart p q"
  using assms by (auto simp: volume_def apart_def dest: inj_onD)

text \<open>When just one path changes, and the files at the other paths keep their bytes.\<close>

lemma volume_change:
  assumes v: "volume U fs" and p: "p \<in> U" and i: "fs_inv fs'"
    and oth: "\<And>q. q \<in> U \<Longrightarrow> q \<noteq> p \<Longrightarrow> inode_view fs' q = inode_view fs q"
    and keep: "\<And>q ino. q \<in> U \<Longrightarrow> q \<noteq> p \<Longrightarrow> inode_view fs q = Some ino \<Longrightarrow> node_ok fs' ino \<and> abs_file fs' ino = abs_file fs ino"
    and own: "inode_view fs' p = Some ino'" "node_ok fs' ino'"
    and sep: "\<And>q b. q \<in> U \<Longrightarrow> q \<noteq> p \<Longrightarrow> inode_view fs q = Some b \<Longrightarrow> \<not> shares ino' b"
  shows "volume U fs'" and "abs_fs U fs' = (abs_fs U fs)(p \<mapsto> abs_file fs' ino')"
proof -
  have sym: "shares a b = shares b a" for a b by (auto simp: shares_def)
  have f: "node_ok fs' ino" if "q \<in> U" "inode_view fs' q = Some ino" for q ino
    using that oth [of q] keep [of q] own by (cases "q = p") auto
  have s: "\<not> shares a b" if "q \<in> U" "r \<in> U" "q \<noteq> r" "inode_view fs' q = Some a" "inode_view fs' r = Some b" for q r a b
    using that oth [of q] oth [of r] own(1) sep [of r b] sep [of q a] sym [of a b] volumeD(4) [OF v that(1-3)]
    by (cases "q = p"; cases "r = p") auto
  show "volume U fs'" using f s i v unfolding volume_def by blast
  show "abs_fs U fs' = (abs_fs U fs)(p \<mapsto> abs_file fs' ino')"
  proof
    fix q
    show "abs_fs U fs' q = ((abs_fs U fs)(p \<mapsto> abs_file fs' ino')) q"
      using p own(1) oth [of q] keep [of q] by (cases "q = p"; cases "inode_view fs q") (auto simp: abs_fs_def)
  qed
qed

text \<open>When nothing changes.\<close>

lemma volume_unchanged:
  assumes v: "volume U fs" and p: "p \<in> U" and i: "fs_inv fs'" and s: "same_index fs fs'"
    and w': "\<And>q. apart q p \<or> q = p \<Longrightarrow> inode_view fs' q = inode_view fs q"
  shows "volume U fs'" and "abs_fs U fs' = abs_fs U fs"
proof -
  have w: "inode_view fs' q = inode_view fs q" if "q \<in> U" for q using w' volumeD(5) [OF v that p] by blast
  have k: "node_ok fs' ino \<and> abs_file fs' ino = abs_file fs ino" if "node_ok fs ino" for ino
    using node_ok_kept [OF that] file_bytes_spared [OF fs_invD(1) [OF volumeD(1) [OF v]] same_indexD(1,8) [OF s]] by blast
  have f: "node_ok fs' ino" if "q \<in> U" "inode_view fs' q = Some ino" for q ino using that w volumeD(3) [OF v] k by simp
  show "volume U fs'"
    using v f w i unfolding volume_def by simp
  show "abs_fs U fs' = abs_fs U fs"
  proof
    fix q
    show "abs_fs U fs' q = abs_fs U fs q"
      using w volumeD(3) [OF v] k by (cases "q \<in> U"; cases "inode_view fs q") (simp_all add: abs_fs_def)
  qed
qed

section \<open>Simulation\<close>

text \<open>No file uses the block \<open>r\<close>.\<close>

definition clear_of :: "bytes set \<Rightarrow> xxfs \<Rightarrow> u64 \<Rightarrow> bool" where
  "clear_of U fs r \<longleftrightarrow> (\<forall>p \<in> U. \<forall>ino. inode_view fs p = Some ino \<longrightarrow> \<not> in_extent (i_extent_off ino) (unat (i_blocks ino)) r)"

text \<open>What an operation on the path \<open>p\<close> does below the view: it puts at most this path into the inode cache and into the index, and a block
  that is outside the index and in no file stays so.\<close>

definition op_frame :: "bytes set \<Rightarrow> xxfs \<Rightarrow> bytes \<Rightarrow> xxfs \<Rightarrow> bool" where
  "op_frame U fs p fs' \<longleftrightarrow>
     (same_slots fs fs' \<and> index_inode fs' = index_inode fs \<or> cache_step fs (xxh64 p) p fs' \<and> (\<forall>q. q \<noteq> p \<longrightarrow> index_inode fs' q = index_inode fs q)) \<and>
     adds_key fs p fs' \<and> sb_kept (sb fs) (sb fs') \<and> (\<forall>r. outside fs r \<and> clear_of U fs r \<longrightarrow> outside fs' r \<and> clear_of U fs' r)"

lemma unchanged_frame:
  assumes v: "volume U fs" and p: "p \<in> U" and u: "unchanged fs p fs'"
  shows "op_frame U fs p fs'"
proof -
  have s: "same_index fs fs'" and m: "cache_move fs p fs'" and b: "sb fs' = sb fs" using u by (simp_all add: unchanged_def)
  have w: "inode_view fs' q = inode_view fs q" if "q \<in> U" for q using u volumeD(5) [OF v that p] unfolding unchanged_def by blast
  note i = same_indexD [OF s]
  have "adds_key fs p fs'" using i(5,10) by (auto simp: adds_key_def)
  moreover have "clear_of U fs' r = clear_of U fs r" for r using w by (simp add: clear_of_def)
  ultimately show ?thesis using m i(3) b index_sparesD(1) [OF i(8)] by (auto simp: op_frame_def cache_move_def)
qed

lemma changed_frame:
  assumes v: "volume U fs" and p: "p \<in> U" and st: "cache_step fs (xxh64 p) p fs'" "\<And>q. q \<noteq> p \<Longrightarrow> index_inode fs' q = index_inode fs q"
    and k: "adds_key fs p fs'" "sb_kept (sb fs) (sb fs')" and o: "\<And>q. apart q p \<Longrightarrow> inode_view fs' q = inode_view fs q"
    and own: "inode_view fs' p = Some ino'"
    and b: "\<And>r. outside fs r \<Longrightarrow> clear_of U fs r \<Longrightarrow> outside fs' r \<and> \<not> in_extent (i_extent_off ino') (unat (i_blocks ino')) r"
  shows "op_frame U fs p fs'"
proof -
  have w: "inode_view fs' q = inode_view fs q" if "q \<in> U" "q \<noteq> p" for q using o volumeD(5) [OF v that(1) p that(2)] by blast
  have "clear_of U fs' r" if r: "outside fs r" "clear_of U fs r" for r unfolding clear_of_def
  proof (intro ballI allI impI)
    fix q c assume q: "q \<in> U" "inode_view fs' q = Some c"
    show "\<not> in_extent (i_extent_off c) (unat (i_blocks c)) r"
      using b [OF r] own q w [OF q(1)] r(2) by (cases "q = p") (auto simp: clear_of_def)
  qed
  then show ?thesis using st k b by (auto simp: op_frame_def)
qed

text \<open>When an operation can be carried out as the specification says: there is room in the inode cache; a path to be made is either new and its parent
  ready, or known to the inode cache; a write is one that the extents can hold; what is read is not a directory (\<^verbatim>\<open>xxfs_read\<close> does not refuse one).\<close>

primrec op_ready :: "xxfs \<Rightarrow> fs_op \<Rightarrow> bool" where
  "op_ready fs (OpCreate path mode uid gid) \<longleftrightarrow> can_make 0 fs (path_normalize path) \<or> cached_inode fs (xxh64 (path_normalize path)) \<noteq> None"
| "op_ready fs (OpMkdir path mode uid gid) \<longleftrightarrow> can_make 0 fs (path_normalize path) \<or> cached_inode fs (xxh64 (path_normalize path)) \<noteq> None"
| "op_ready fs (OpStat path) \<longleftrightarrow> icache_room fs 1"
| "op_ready fs (OpWrite path buf off) \<longleftrightarrow> icache_room fs 1 \<and>
     (\<forall>ino. inode_view fs (path_normalize path) = Some ino \<and> i_file_type ino \<noteq> XXFS_FT_DIR \<and> buf \<noteq> [] \<longrightarrow>
        icache_near fs (xxh64 (path_normalize path)) \<and> can_write fs ino off buf)"
| "op_ready fs (OpRead path buf off) \<longleftrightarrow> icache_room fs 1 \<and> length buf < 2 ^ 32 \<and>
     (\<forall>ino. inode_view fs (path_normalize path) = Some ino \<longrightarrow> i_file_type ino \<noteq> XXFS_FT_DIR)"

definition simulated :: "bytes set \<Rightarrow> xxfs \<Rightarrow> fs_op \<Rightarrow> bool" where
  "simulated U fs op \<longleftrightarrow> (\<exists>r fs'. exec_op op fs = Some (r, fs') \<and> volume U fs' \<and> spec_op op (abs_fs U fs) = (r, abs_fs U fs') \<and>
     op_frame U fs (op_path op) fs')"

lemma simulated_unchanged:
  assumes v: "volume U fs" and p: "op_path op \<in> U" and u: "unchanged fs (op_path op) fs'"
    and e: "exec_op op fs = Some (r, fs')" and a: "spec_op op (abs_fs U fs) = (r, abs_fs U fs)"
  shows "simulated U fs op"
proof -
  have "fs_inv fs'" "same_index fs fs'" "\<And>q. apart q (op_path op) \<or> q = op_path op \<Longrightarrow> inode_view fs' q = inode_view fs q"
    using u by (auto simp: unchanged_def)
  note k = volume_unchanged [OF v p this]
  then show ?thesis using e a unchanged_frame [OF v p u] unfolding simulated_def by metis
qed

lemma abs_view: "p \<in> U \<Longrightarrow> abs_fs U fs p = map_option (abs_file fs) (inode_view fs p)"
  by (simp add: abs_fs_def)

lemma length_file_bytes: "file_ok fs ino \<Longrightarrow> length (file_bytes fs ino) = unat (i_size ino)"
  by (auto simp: file_bytes_def file_ok_def wf_inode_def)

text \<open>A new node is an empty file that shares nothing.\<close>

lemma bare_extent_off: "file_ok fs ino \<Longrightarrow> i_blocks ino = 0 \<Longrightarrow> i_size ino = 0 \<Longrightarrow> i_extent_off ino = 0"
  by (simp add: file_ok_def i_extent_off_def fld_def zeros_def dec_le_def take_replicate numeral_eq_Suc)

lemma new_node_ok: "node_ok fs (new_inode fs' mode uid gid ft nl name)"
proof -
  have o: "file_ok fs (new_inode fs' mode uid gid ft nl name)" by (rule new_inode_ok)
  have "i_blocks (new_inode fs' mode uid gid ft nl name) = 0" "i_size (new_inode fs' mode uid gid ft nl name) = 0"
    by (rule new_inode_seals [of fs' mode uid gid ft nl name], simp)+
  then show ?thesis using o bare_extent_off [OF o] by (simp add: node_ok_def file_ok_def)
qed

lemma node_made_volume:
  assumes v: "volume U fs" and p: "p \<in> U" and m: "node_made k fs p (new_inode fs mode uid gid ft nl name) typ fs'"
  shows "volume U fs'" "abs_fs U fs' = (abs_fs U fs)(p \<mapsto> (ft, []))" "op_frame U fs p fs'"
proof -
  let ?i = "new_inode fs mode uid gid ft nl name"
  note n = m [unfolded node_made_def]
  have i: "fs_inv fs'" and w: "inode_view fs' p = Some ?i" and sp: "index_spares fs fs'" using n by blast+
  have oth: "inode_view fs' q = inode_view fs q" if "q \<in> U" "q \<noteq> p" for q using n volumeD(5) [OF v that(1) p that(2)] by blast
  note k = file_bytes_spared [OF fs_invD(1) [OF volumeD(1) [OF v]] fs_invD(1) [OF i] sp]
  have t: "i_file_type ?i = ft" "i_blocks ?i = 0" by (rule new_inode_seals [of fs mode uid gid ft nl name], simp)+
  have keep: "node_ok fs' ino \<and> abs_file fs' ino = abs_file fs ino" if "q \<in> U" "q \<noteq> p" "inode_view fs q = Some ino" for q ino
    using node_ok_kept [OF volumeD(3) [OF v that(1,3)]] k by blast
  have sep: "\<not> shares ?i b" for b using t(2) by (simp add: shares_def in_extent_def)
  note r = volume_change [OF v p i oth keep w new_node_ok sep]
  show "volume U fs'" by (rule r(1))
  show "abs_fs U fs' = (abs_fs U fs)(p \<mapsto> (ft, []))" using r(2) t(1) new_inode_ok(2) by (simp add: abs_file_def)
  show "op_frame U fs p fs'"
    by (rule changed_frame [OF v p _ _ _ _ _ w]) (use n t(2) index_sparesD(1) [OF sp] in \<open>auto simp: in_extent_def\<close>)
qed

text \<open>A step that changes only blocks of the file at \<open>p\<close> keeps the bytes of all other files.\<close>

definition blocks_kept :: "xxfs \<Rightarrow> xxfs_inode \<Rightarrow> xxfs_inode \<Rightarrow> xxfs \<Rightarrow> bool" where
  "blocks_kept fs ino ino' fs' \<longleftrightarrow> isize fs \<le> isize fs' \<and> (\<forall>r. outside fs r \<and> \<not> in_extent (i_extent_off ino) (unat (i_blocks ino)) r \<longrightarrow>
     outside fs' r \<and> lblock fs' r = lblock fs r \<and> \<not> in_extent (i_extent_off ino') (unat (i_blocks ino')) r)"

lemma other_block:
  assumes v: "volume U fs" and p: "p \<in> U" "inode_view fs p = Some ino" and q: "q \<in> U" "q \<noteq> p" "inode_view fs q = Some b"
    and r: "in_extent (i_extent_off b) (unat (i_blocks b)) r"
  shows "outside fs r \<and> \<not> in_extent (i_extent_off ino) (unat (i_blocks ino)) r"
  using extent_block_outside [OF node_okD(4) [OF volumeD(3) [OF v q(1,3)] r] r] r volumeD(4) [OF v p(1) q(1) _ p(2) q(3)] q(2)
  by (auto simp: shares_def)

lemma other_extent:
  assumes v: "volume U fs" and p: "p \<in> U" "inode_view fs p = Some ino" and q: "q \<in> U" "q \<noteq> p" "inode_view fs q = Some b"
    and k: "blocks_kept fs ino ino' fs'" and i: "index_ok fs'" and e: "extent_at fs (i_extent_off b) (unat (i_blocks b))"
  shows "extent_at fs' (i_extent_off b) (unat (i_blocks b))"
    "peek (img fs') (unat (i_extent_off b)) (unat (i_blocks b) * 4096) = peek (img fs) (unat (i_extent_off b)) (unat (i_blocks b) * 4096)"
proof -
  have "in_extent (i_extent_off b) (unat (i_blocks b)) (of_nat (unat (i_extent_off b) + j * 4096))" if "j < unat (i_blocks b)" for j
    using that unat_extent_block [OF e that] by (auto simp: in_extent_def)
  then have "outside fs' (of_nat (unat (i_extent_off b) + j * 4096)) \<and>
      lblock fs' (of_nat (unat (i_extent_off b) + j * 4096)) = lblock fs (of_nat (unat (i_extent_off b) + j * 4096))" if "j < unat (i_blocks b)" for j
    using that other_block [OF v p q] k unfolding blocks_kept_def by blast
  note s = extent_same [OF fs_invD(1) [OF volumeD(1) [OF v]] i e this]
  show "extent_at fs' (i_extent_off b) (unat (i_blocks b))" by (rule s(1))
  show "peek (img fs') (unat (i_extent_off b)) (unat (i_blocks b) * 4096) = peek (img fs) (unat (i_extent_off b)) (unat (i_blocks b) * 4096)" by (rule s(2))
qed

lemma other_node:
  assumes v: "volume U fs" and p: "p \<in> U" "inode_view fs p = Some ino" and q: "q \<in> U" "q \<noteq> p" "inode_view fs q = Some b"
    and k: "blocks_kept fs ino ino' fs'" and i: "index_ok fs'"
  shows "node_ok fs' b \<and> abs_file fs' b = abs_file fs b"
proof -
  have "file_ok fs' b \<and> file_bytes fs' b = file_bytes fs b" if o: "file_ok fs b"
  proof (cases "i_blocks b = 0")
    case True
    then show ?thesis using o by (simp add: file_ok_def file_bytes_def)
  next
    case False
    then have e: "extent_at fs (i_extent_off b) (unat (i_blocks b))" "0 + unat (i_size b) \<le> unat (i_blocks b) * 4096" using o by (simp_all add: file_ok_def)
    note s = other_extent [OF v p q k i e(1)]
    show ?thesis using o False s(1) extent_bytes_same [OF s(2) e(2)] k by (simp add: file_ok_def file_bytes_def blocks_kept_def)
  qed
  then show ?thesis using node_ok_kept [OF volumeD(3) [OF v q(1,3)]] by blast
qed

lemma node_changed_volume:
  assumes v: "volume U fs" and p: "p \<in> U" "inode_view fs p = Some ino" and i: "fs_inv fs'" and k: "blocks_kept fs ino ino' fs'"
    and own: "inode_view fs' p = Some ino'" "node_ok fs' ino'" and oth: "\<And>q. apart q p \<Longrightarrow> inode_view fs' q = inode_view fs q"
  shows "volume U fs'" "abs_fs U fs' = (abs_fs U fs)(p \<mapsto> abs_file fs' ino')"
proof -
  have o: "inode_view fs' q = inode_view fs q" if "q \<in> U" "q \<noteq> p" for q using oth volumeD(5) [OF v that(1) p(1) that(2)] by blast
  have sep: "\<not> shares ino' b" if "q \<in> U" "q \<noteq> p" "inode_view fs q = Some b" for q b
    using other_block [OF v p that] k unfolding blocks_kept_def shares_def by blast
  note r = volume_change [OF v p(1) i o other_node [OF v p _ _ _ k fs_invD(1) [OF i]] own sep]
  show "volume U fs'" by (rule r(1))
  show "abs_fs U fs' = (abs_fs U fs)(p \<mapsto> abs_file fs' ino')" by (rule r(2))
qed

lemma file_written_volume:
  assumes v: "volume U fs" and p: "p \<in> U" and i: "inode_view fs p = Some ino" and w: "file_written k fs p ino bs ino' fs'" and t: "i_file_type ino \<noteq> XXFS_FT_DIR"
  shows "volume U fs'" "abs_fs U fs' = (abs_fs U fs)(p \<mapsto> (i_file_type ino, bs))" "op_frame U fs p fs'"
proof -
  note f = w [unfolded file_written_def]
  have b: "blocks_kept fs ino ino' fs'" using f unfolding blocks_kept_def by blast
  have own: "fs_inv fs'" "inode_view fs' p = Some ino'" "node_ok fs' ino'" using f t by (simp_all add: node_ok_def file_ok_def)
  note r = node_changed_volume [OF v p i own(1) b own(2,3)]
  show "volume U fs'" by (rule r(1)) (use f in blast)
  have "abs_file fs' ino' = (i_file_type ino, bs)" using f t by (simp add: abs_file_def)
  moreover have "abs_fs U fs' = (abs_fs U fs)(p \<mapsto> abs_file fs' ino')" by (rule r(2)) (use f in blast)
  ultimately show "abs_fs U fs' = (abs_fs U fs)(p \<mapsto> (i_file_type ino, bs))" by simp
  have k: "cache_step fs (xxh64 p) p fs'" "index_inode fs' = index_inode fs" "chain_kv fs' = chain_kv fs" "pdir fs' = pdir fs" "sb_kept (sb fs) (sb fs')"
    using f by simp_all
  have "adds_key fs p fs'" using k(3,4) by (auto simp: adds_key_def)
  moreover have "outside fs' r \<and> \<not> in_extent (i_extent_off ino') (unat (i_blocks ino')) r" if "outside fs r" "clear_of U fs r" for r
    using b that p i unfolding blocks_kept_def clear_of_def by blast
  ultimately show "op_frame U fs p fs'" using changed_frame [OF v p k(1) _ _ k(5) _ own(2)] k(2) f by simp
qed

lemma cached_known:
  assumes "cached_inode fs (xxh64 p) \<noteq> None" and "p \<in> U"
  shows "abs_fs U fs p \<noteq> None" "icache_lookup fs (xxh64 p) \<noteq> None"
  using assms by (auto simp: abs_fs_def inode_view_def icache_lookup_None)

lemma create_simulated:
  assumes v: "volume U fs" and p: "path_normalize path \<in> U" and r: "op_ready fs (OpCreate path mode uid gid)"
  shows "simulated U fs (OpCreate path mode uid gid)"
proof (cases "cached_inode fs (xxh64 (path_normalize path)) = None")
  case True
  let ?p = "path_normalize path"
  have c: "can_make 0 fs ?p" using r True by simp
  then have n: "inode_view fs ?p = None" by (simp add: can_make_def)
  obtain fs' where m: "xxfs_create fs path mode uid gid = Some (XXFS_OK, fs')"
    "node_made 0 fs ?p (new_inode fs mode uid gid XXFS_FT_REG 1 (get_basename ?p)) (ucast XXFS_FT_REG) fs'"
    by (rule make_counted [OF c length_parent32, of mode uid gid XXFS_FT_REG 1 "ucast XXFS_FT_REG"])
      (use view_NoneD [OF n] in \<open>auto simp: xxfs_create_def Let_def alloc_same_def sb_kept_def wf_super_def\<close>)
  show ?thesis using m(1) node_made_volume [OF v p m(2)] n p by (simp add: simulated_def abs_view)
next
  case False
  note k = cached_known [OF False p]
  show ?thesis
    by (rule simulated_unchanged [OF v _ unchanged_refl [OF volumeD(1) [OF v]]]) (use k p in \<open>auto simp: xxfs_create_def Let_def\<close>)
qed

lemma mkdir_simulated:
  assumes v: "volume U fs" and p: "path_normalize path \<in> U" and r: "op_ready fs (OpMkdir path mode uid gid)"
  shows "simulated U fs (OpMkdir path mode uid gid)"
proof (cases "cached_inode fs (xxh64 (path_normalize path)) = None")
  case True
  let ?p = "path_normalize path"
  have c: "can_make 0 fs ?p" using r True by simp
  then have n: "inode_view fs ?p = None" by (simp add: can_make_def)
  obtain fs' where m: "xxfs_mkdir fs path mode uid gid = Some (XXFS_OK, fs')"
    "node_made 0 fs ?p (new_inode fs mode uid gid XXFS_FT_DIR 2 (get_basename ?p)) (ucast XXFS_FT_DIR) fs'"
    by (rule make_counted [OF c length_parent32, of mode uid gid XXFS_FT_DIR 2 "ucast XXFS_FT_DIR"])
      (use view_NoneD [OF n] in \<open>auto simp: xxfs_mkdir_def Let_def alloc_same_def sb_kept_def wf_super_def\<close>)
  show ?thesis using m(1) node_made_volume [OF v p m(2)] n p by (simp add: simulated_def abs_view)
next
  case False
  note k = cached_known [OF False p]
  show ?thesis
    by (rule simulated_unchanged [OF v _ unchanged_refl [OF volumeD(1) [OF v]]]) (use k p in \<open>auto simp: xxfs_mkdir_def Let_def\<close>)
qed

lemma stat_simulated:
  assumes v: "volume U fs" and p: "path_normalize path \<in> U" and r: "op_ready fs (OpStat path)"
  shows "simulated U fs (OpStat path)"
proof -
  have room: "icache_room fs 1" using r by simp
  obtain fs' where f: "fetch_inode fs (path_normalize path) =
      Some (case inode_view fs (path_normalize path) of None \<Rightarrow> Inl XXFS_ENOENT | Some ino \<Rightarrow> Inr ino, fs')" "unchanged fs (path_normalize path) fs'"
    by (rule fetched [OF volumeD(1) [OF v] room])
  have sz: "of_nat (length (file_bytes fs ino)) = i_size ino" if "inode_view fs (path_normalize path) = Some ino" "i_file_type ino \<noteq> XXFS_FT_DIR" for ino
    using length_file_bytes [OF node_okD(2) [OF volumeD(3) [OF v p that(1)] that(2)]] by simp
  show ?thesis
    by (rule simulated_unchanged [OF v, of _ fs']) (use f p sz in \<open>auto simp: xxfs_stat_def abs_view abs_file_def split: option.split\<close>)
qed

lemma write_simulated:
  assumes v: "volume U fs" and p: "path_normalize path \<in> U" and r: "op_ready fs (OpWrite path buf off)"
  shows "simulated U fs (OpWrite path buf off)"
proof -
  let ?p = "path_normalize path"
  note inv = volumeD(1) [OF v]
  obtain g where g: "get_inode fs ?p = Some (case inode_view fs ?p of None \<Rightarrow> Inl XXFS_ENOENT | Some ino \<Rightarrow> Inr ino, g)" "unchanged fs ?p g"
    by (rule gotten [OF inv])
  consider "buf = []" | "buf \<noteq> []" "inode_view fs ?p = None" | ino where "buf \<noteq> []" "inode_view fs ?p = Some ino" "i_file_type ino = XXFS_FT_DIR"
    | ino where "buf \<noteq> []" "inode_view fs ?p = Some ino" "i_file_type ino \<noteq> XXFS_FT_DIR"
    by (cases "inode_view fs ?p") auto
  then show ?thesis
  proof cases
    case 1
    show ?thesis
      by (rule simulated_unchanged [OF v _ unchanged_refl [OF inv]]) (use 1 p in \<open>auto simp: xxfs_write_def\<close>)
  next
    case 2
    show ?thesis
      by (rule simulated_unchanged [OF v, of _ g]) (use 2 p g in \<open>simp_all add: xxfs_write_def abs_view\<close>)
  next
    case 3
    show ?thesis
      by (rule simulated_unchanged [OF v, of _ g]) (use 3 p g in \<open>simp_all add: xxfs_write_def abs_view abs_file_def\<close>)
  next
    case 4
    have a: "icache_room fs (Suc 0)" "icache_near fs (xxh64 ?p)" "can_write fs ino off buf" using r 4 by simp_all
    obtain ino' fs' where w: "xxfs_write fs path buf off = Some (Inr (of_nat (length buf)), fs')"
      "file_written 0 fs ?p ino (overlay (unat off) buf (file_bytes fs ino)) ino' fs'"
      by (rule write_law [OF inv a(1,2) 4(2,3) node_okD(2) [OF volumeD(3) [OF v p 4(2)] 4(3)] a(3)])
    show ?thesis using w(1) file_written_volume [OF v p 4(2) w(2) 4(3)] 4 p by (simp add: simulated_def abs_view abs_file_def)
  qed
qed

lemma read_simulated:
  assumes v: "volume U fs" and p: "path_normalize path \<in> U" and r: "op_ready fs (OpRead path buf off)"
  shows "simulated U fs (OpRead path buf off)"
proof -
  let ?p = "path_normalize path"
  note inv = volumeD(1) [OF v]
  have room: "icache_room fs 1" and len: "length buf < 2 ^ 32"
    and nd: "inode_view fs ?p = Some ino \<Longrightarrow> i_file_type ino \<noteq> XXFS_FT_DIR" for ino using r by simp_all
  obtain g where g: "fetch_inode fs ?p = Some (case inode_view fs ?p of None \<Rightarrow> Inl XXFS_ENOENT | Some ino \<Rightarrow> Inr ino, g)" "unchanged fs ?p g"
    by (rule fetched [OF inv room])
  consider "buf = []" | "buf \<noteq> []" "inode_view fs ?p = None" | ino where "buf \<noteq> []" "inode_view fs ?p = Some ino"
    by (cases "inode_view fs ?p") auto
  then show ?thesis
  proof cases
    case 1
    show ?thesis
      by (rule simulated_unchanged [OF v _ unchanged_refl [OF inv]]) (use 1 p in \<open>auto simp: xxfs_read_def\<close>)
  next
    case 2
    show ?thesis
      by (rule simulated_unchanged [OF v, of _ g]) (use 2 p g in \<open>simp_all add: xxfs_read_def abs_view\<close>)
  next
    case 3
    obtain fs' where q: "xxfs_read fs path buf off = Some (Inr (of_nat (length (take (length buf) (drop (unat off) (file_bytes fs ino))))),
        into_buf (take (length buf) (drop (unat off) (file_bytes fs ino))) buf, fs')" "unchanged fs ?p fs'"
      by (rule read_law [OF inv room 3(2) node_okD(2) [OF volumeD(3) [OF v p 3(2)] nd [OF 3(2)]] 3(1) len, of off]) (auto simp: unchanged_def)
    show ?thesis
      by (rule simulated_unchanged [OF v, of _ fs']) (use q 3 p nd [OF 3(2)] in \<open>simp_all add: abs_view abs_file_def Let_def\<close>)
  qed
qed

lemmas op_simulated = create_simulated mkdir_simulated stat_simulated write_simulated read_simulated

lemma step_simulated:
  assumes "volume U fs" and "op_path op \<in> U" and "op_ready fs op"
  shows "simulated U fs op"
  using assms op_simulated by (cases op) simp_all

text \<open>A fresh file system is a volume, with an empty root directory.\<close>

lemma mkfs_root_file: "node_ok fs (mkfs_root now)" "i_blocks (mkfs_root now) = 0"
proof -
  let ?i = "zero_inode\<lparr>i_mode := 493, i_file_type := XXFS_FT_DIR, i_nlinks := 2, i_atime := now, i_mtime := now,
       i_ctime := now, i_btime := now, i_generation := 1, i_name := buf_put 0 [0x2F, 0] (i_name zero_inode)\<rparr>"
  have "length (i_name zero_inode) = 256" using wf_zero_inode by (simp add: wf_inode_def)
  then have wf: "wf_inode ?i" using wf_zero_inode by (simp add: wf_inode_def)
  have o: "file_ok fs (mkfs_root now)" and b: "i_blocks (mkfs_root now) = 0" "i_size (mkfs_root now) = 0"
    using sealed_fields(3-5) [OF wf] wf_seal [OF wf] by (simp_all add: mkfs_root_def file_ok_def zero_inode_fields)
  show "i_blocks (mkfs_root now) = 0" by (rule b(1))
  show "node_ok fs (mkfs_root now)" using o b(1) bare_extent_off [OF o b] by (simp add: node_ok_def file_ok_def)
qed

lemma fresh_volume:
  assumes f: "fresh_mounted fs now" and U: "inj_on xxh64 U" "[0x2F] \<in> U"
  shows "volume U fs" "abs_fs U fs = [[0x2F] \<mapsto> (XXFS_FT_DIR, [])]"
proof -
  note v = fresh_view [OF f]
  show "volume U fs" using f U(1) v mkfs_root_file by (auto simp: volume_def fresh_mounted_def split: if_splits)
  show "abs_fs U fs = [[0x2F] \<mapsto> (XXFS_FT_DIR, [])]" using U(2) v mkfs_root_fields by (auto simp: abs_fs_def abs_file_def)
qed

lemma can_make_0: "can_make k fs p \<Longrightarrow> can_make 0 fs p"
  by (simp add: can_make_def icache_room_def)

lemma sample_inj: "inj_on xxh64 {[0x2F], [0x2F, 0x61]}"
  using sample_apart by (auto simp: inj_on_def)

end
