(* ===== verification/Fs_Durable.thy ===== *)
theory Fs_Durable
  imports Fs_Sync Fs_Flush Fs_Volume
begin

text \<open>
  What a crash leaves: after \<^verbatim>\<open>xxfs_sync\<close> the image holds the whole abstract file system. The changed inodes of the cache go to the index
  first, then every directory with unsaved children is written back, whose inodes go to the index as well; a mount of the image, without an unmount, then
  gives a volume with the same kinds and contents at all paths.
\<close>

section \<open>Settled states\<close>

text \<open>An entry of the inode cache that a lookup of its path finds, and that the index agrees with unless it is marked as changed.\<close>

definition cache_slot :: "bytes set \<Rightarrow> xxfs \<Rightarrow> nat \<Rightarrow> bool" where
  "cache_slot U fs i \<longleftrightarrow> i < unat (icache_cap fs) \<and> (\<exists>p \<in> U. ic_key (icache fs i) = Some p \<and> xxh64 p = ic_hash (icache fs i) \<and>
     (\<exists>n < 16. sits_at fs (xxh64 p) n (of_nat i)) \<and> (ic_dirty (icache fs i) \<or> index_inode fs p = Some (ic_inode (icache fs i))))"

definition cache_ready :: "bytes set \<Rightarrow> xxfs \<Rightarrow> bool" where
  "cache_ready U fs \<longleftrightarrow> (\<forall>i. in_use fs i \<longrightarrow> cache_slot U fs i)"

text \<open>A volume whose superblock and page directory can be written, with no file in the way, and whose index can take each of the paths.\<close>

definition settled :: "bytes set \<Rightarrow> xxfs \<Rightarrow> bool" where
  "settled U fs \<longleftrightarrow> volume U fs \<and> can_unmount fs \<and> clear_of U fs (s_pdir_off (sb fs)) \<and> (\<forall>p \<in> U. length p \<le> 3528 \<and> collision_free p (chain_kv fs p))"

definition live :: "bytes set \<Rightarrow> xxfs \<Rightarrow> bool" where
  "live U fs \<longleftrightarrow> settled U fs \<and> cache_ready U fs"

definition savable :: "bytes set \<Rightarrow> xxfs \<Rightarrow> bool" where
  "savable U fs \<longleftrightarrow> settled U fs \<and> (\<forall>q \<in> U. inode_view fs q = index_inode fs q)"

lemma settledD:
  assumes "settled U fs"
  shows "volume U fs" "can_unmount fs" "clear_of U fs (s_pdir_off (sb fs))" "p \<in> U \<Longrightarrow> length p \<le> 3528" "p \<in> U \<Longrightarrow> collision_free p (chain_kv fs p)"
  using assms by (simp_all add: settled_def)

lemma liveD:
  assumes "live U fs"
  shows "settled U fs" "volume U fs" "cache_ready U fs"
  using assms by (simp_all add: live_def settled_def)

text \<open>Steps that bring only keys from \<open>U\<close> into the index, where the hash function has no collisions.\<close>

lemma keys_added:
  assumes "settled U fs" and "p \<in> U" and "fst ` set (chain_kv g p) \<subseteq> fst ` set (chain_kv fs p) \<union> U"
  shows "collision_free p (chain_kv g p)"
  using assms(3) settledD(5) [OF assms(1,2)] inj_onD [OF volumeD(2) [OF settledD(1) [OF assms(1)]] _ _ assms(2)]
  by (fastforce simp: collision_free_def fingerprint_def)

lemma adds_key_within:
  assumes "adds_key fs p g" and "p \<in> U"
  shows "fst ` set (chain_kv g q) \<subseteq> fst ` set (chain_kv fs q) \<union> U"
  by (rule subset_trans [of _ "insert p (fst ` set (chain_kv fs q))"]) (use assms in \<open>simp_all add: adds_key_def\<close>)

lemma settled_step:
  assumes s: "settled U fs" and v: "volume U g" and o: "outside g (s_pdir_off (sb fs))" "clear_of U g (s_pdir_off (sb fs))" and sk: "sb_kept (sb fs) (sb g)"
    and d: "d_dir_size (pdir g) = d_dir_size (pdir fs)" and k: "\<And>q. fst ` set (chain_kv g q) \<subseteq> fst ` set (chain_kv fs q) \<union> U"
  shows "settled U g"
  using settledD(2,4) [OF s] v o sk d keys_added [OF s _ k] by (simp add: settled_def can_unmount_def sb_kept_def)

lemma remounted_live:
  assumes s: "savable U fs" and r: "remounted fs fs'" and u: "can_unmount fs'"
  shows "live U fs'" "abs_fs U fs' = abs_fs U fs"
proof -
  have st: "settled U fs" and x: "\<And>q. q \<in> U \<Longrightarrow> inode_view fs q = index_inode fs q" using s by (simp_all add: savable_def)
  note v = settledD(1) [OF st] and c = settledD(3) [OF st]
  note inv = volumeD(1) [OF v] and w = remounted_view [OF fs_invD(4) [OF volumeD(1) [OF v]] r]
  have e: "inode_view fs' q = inode_view fs q" if "q \<in> U" for q using w(3) x that by simp
  have k: "node_ok fs' ino \<and> abs_file fs' ino = abs_file fs ino" if "q \<in> U" "inode_view fs q = Some ino" for q ino
  proof -
    have "\<not> in_extent (i_extent_off ino) (unat (i_blocks ino)) (s_pdir_off (sb fs))" using c that unfolding clear_of_def by blast
    then have "file_ok fs' ino \<and> file_bytes fs' ino = file_bytes fs ino" if "file_ok fs ino"
      using remounted_file [OF fs_invD(1) [OF inv] r that] by blast
    then show ?thesis using node_ok_kept [OF volumeD(3) [OF v that]] by blast
  qed
  have "volume U fs'" using v k e w(1) unfolding volume_def by simp
  moreover have "chain_kv fs' = chain_kv fs" "s_pdir_off (sb fs') = s_pdir_off (sb fs)" "pristine fs'" using r by (simp_all add: remounted_def)
  moreover from this have "\<not> in_use fs' i" for i by (simp add: pristine_def in_use_def zero_icache_entry_def ICACHE_CTRL_EMPTY_def)
  moreover have "clear_of U fs' b = clear_of U fs b" for b using e by (simp add: clear_of_def)
  ultimately show "live U fs'" using st u by (simp add: live_def settled_def cache_ready_def)
  show "abs_fs U fs' = abs_fs U fs"
  proof
    fix q
    show "abs_fs U fs' q = abs_fs U fs q" using k e by (cases "q \<in> U"; cases "inode_view fs q") (simp_all add: abs_fs_def)
  qed
qed

section \<open>Operations\<close>

lemma frame_settled:
  assumes s: "settled U fs" and v: "volume U g" and p: "p \<in> U" and f: "op_frame U fs p g"
  shows "settled U g"
proof (rule settled_step [OF s v])
  have a: "adds_key fs p g" using f by (simp add: op_frame_def)
  show "fst ` set (chain_kv g q) \<subseteq> fst ` set (chain_kv fs q) \<union> U" for q by (rule adds_key_within [OF a p])
  show "d_dir_size (pdir g) = d_dir_size (pdir fs)" using a by (simp add: adds_key_def)
  show "outside g (s_pdir_off (sb fs))" "clear_of U g (s_pdir_off (sb fs))" "sb_kept (sb fs) (sb g)"
    using f settledD(2,3) [OF s] by (simp_all add: op_frame_def can_unmount_def)
qed

lemma frame_cache:
  assumes c: "cache_ready U fs" and U: "inj_on xxh64 U" "p \<in> U" and near: "icache_near fs (xxh64 p)" and ff: "fault_free (img fs)" and f: "op_frame U fs p g"
  shows "cache_ready U g"
proof (cases "same_slots fs g \<and> index_inode g = index_inode fs")
  case True
  note t = same_slots_sits [OF conjunct1 [OF True]]
  have "icache g = icache fs" "icache_cap g = icache_cap fs" using True by (simp_all add: same_slots_def)
  then have "cache_slot U g i = cache_slot U fs i" for i using t True by (simp add: cache_slot_def)
  then show ?thesis using c t by (simp add: cache_ready_def)
next
  case False
  then have st: "cache_step fs (xxh64 p) p g" and ix: "\<And>q. q \<noteq> p \<Longrightarrow> index_inode g q = index_inode fs q" using f by (auto simp: op_frame_def)
  have cap: "icache_cap g = icache_cap fs" using st by (simp add: cache_step_def)
  show ?thesis unfolding cache_ready_def
  proof (intro allI impI)
    fix i assume i: "in_use g i"
    have lt: "i < unat (icache_cap fs)"
    proof (rule ccontr)
      assume n: "\<not> ?thesis"
      then have "icache g i = icache fs i" using st by (simp add: cache_step_def)
      then show False using i c n by (auto simp: in_use_def cache_ready_def cache_slot_def)
    qed
    consider "slot_kept fs (xxh64 p) g i" | "slot_put fs (xxh64 p) p g i" using st i lt unfolding cache_step_def by blast
    then show "cache_slot U g i"
    proof cases
      case 1
      then have k: "cache_slot U fs i" "icache g i = icache fs i" "ic_hash (icache fs i) \<noteq> xxh64 p"
        "\<And>n. sits_at fs (ic_hash (icache fs i)) n (of_nat i) \<Longrightarrow> sits_at g (ic_hash (icache fs i)) n (of_nat i)"
        using c by (simp_all add: slot_kept_def cache_ready_def)
      then obtain q n where q: "q \<in> U" "ic_key (icache fs i) = Some q" "xxh64 q = ic_hash (icache fs i)" "n < 16" "sits_at fs (xxh64 q) n (of_nat i)"
        "ic_dirty (icache fs i) \<or> index_inode fs q = Some (ic_inode (icache fs i))" by (auto simp: cache_slot_def)
      moreover have "q \<noteq> p" using q(3) k(3) by auto
      ultimately show ?thesis using k lt cap ix [of q] by (auto simp: cache_slot_def)
    next
      case 2
      have "ic_key (icache g i) = Some p"
      proof (cases "in_use fs i")
        case True
        then obtain q where "q \<in> U" "ic_key (icache fs i) = Some q" "xxh64 q = ic_hash (icache fs i)" using c by (auto simp: cache_ready_def cache_slot_def)
        then show ?thesis using 2 True inj_onD [OF U(1) _ _ U(2)] by (auto simp: slot_put_def)
      qed (use 2 ff in \<open>simp add: slot_put_def\<close>)
      then show ?thesis using 2 near lt cap U(2) by (auto simp: cache_slot_def slot_put_def)
    qed
  qed
qed

text \<open>An operation that is ready, and whose path has a place in the inode cache where a lookup finds it.\<close>

lemma live_step:
  assumes l: "live U fs" and p: "op_path op \<in> U" and r: "op_ready fs op" and near: "icache_near fs (xxh64 (op_path op))"
  obtains res g where "exec_op op fs = Some (res, g)" and "live U g" and "spec_op op (abs_fs U fs) = (res, abs_fs U g)"
proof -
  note v = liveD(2) [OF l]
  obtain res g where g: "exec_op op fs = Some (res, g)" "volume U g" "spec_op op (abs_fs U fs) = (res, abs_fs U g)" "op_frame U fs (op_path op) g"
    using step_simulated [OF v p r] by (auto simp: simulated_def)
  have "cache_ready U g" by (rule frame_cache [OF liveD(3) [OF l] volumeD(2) [OF v] p near index_fault_free [OF fs_invD(1) [OF volumeD(1) [OF v]]] g(4)])
  then have "live U g" using frame_settled [OF liveD(1) [OF l] g(2) p g(4)] by (simp add: live_def)
  then show thesis using that g(1,3) by blast
qed

lemma live_exec:
  assumes "live U fs" and "op_path op \<in> U" and "op_ready fs op" and "icache_near fs (xxh64 (op_path op))" and "exec_op op fs = Some (res, g)"
  shows "live U g" "spec_op op (abs_fs U fs) = (res, abs_fs U g)"
  by (rule live_step [OF assms(1-4)], use assms(5) in simp)+

section \<open>Directories\<close>

lemma dir_flushed_kept:
  assumes "dir_flushed fs i ino s g"
  shows "blocks_kept fs ino s g"
  using assms unfolding dir_flushed_def Let_def blocks_kept_def by blast

lemma dir_flushed_node:
  assumes "dir_flushed fs i ino s g" and t: "i_file_type ino = XXFS_FT_DIR"
  shows "node_ok g s" "abs_file g s = (XXFS_FT_DIR, [])"
proof -
  have d: "wf_inode s" "i_file_type s = i_file_type ino" "dir_sane g s" "dir_extent g s" "i_blocks s = 0 \<longleftrightarrow> i_extent_off s = 0"
    "i_blocks s \<noteq> 0 \<longrightarrow> has_children s" "unat (i_size s) \<le> unat (i_blocks s) * 4096"
    using assms(1) by (simp_all add: dir_flushed_def Let_def)
  then show "node_ok g s" using t by (auto simp: node_ok_def file_ok_def dir_extent_def dir_sane_def)
  show "abs_file g s = (XXFS_FT_DIR, [])" using d(2) t by (simp add: abs_file_def)
qed

lemma dir_flushed_savable:
  assumes s: "savable U fs" and p: "de_path (dcache fs i) \<in> U" and v: "inode_view fs (de_path (dcache fs i)) = Some ino"
    and t: "i_file_type ino = XXFS_FT_DIR" and d: "dir_flushed fs i ino s g"
  shows "savable U g" "abs_fs U g = abs_fs U fs"
proof -
  let ?p = "de_path (dcache fs i)" and ?r = "s_pdir_off (sb fs)"
  have st: "settled U fs" and sv: "\<And>q. q \<in> U \<Longrightarrow> inode_view fs q = index_inode fs q" using s by (simp_all add: savable_def)
  note vl = settledD(1) [OF st]
  have f: "fs_inv g" "inode_view g ?p = Some s" "index_inode g = (index_inode fs)(?p \<mapsto> s)" "\<And>q. apart q ?p \<Longrightarrow> inode_view g q = inode_view fs q"
    "adds_key fs ?p g" "sb_kept (sb fs) (sb g)"
    using d by (simp_all add: dir_flushed_def Let_def)
  note k = dir_flushed_kept [OF d] and n = dir_flushed_node [OF d t]
  note r = node_changed_volume [OF vl p v f(1) k f(2) n(1) f(4)]
  have o: "inode_view g q = inode_view fs q" if "q \<in> U" "q \<noteq> ?p" for q using f(4) volumeD(5) [OF vl that(1) p that(2)] by blast
  have pr: "outside g ?r" "\<not> in_extent (i_extent_off s) (unat (i_blocks s)) ?r"
    using k settledD(2,3) [OF st] p v unfolding blocks_kept_def clear_of_def can_unmount_def by blast+
  have cl: "clear_of U g ?r" unfolding clear_of_def
  proof (intro ballI allI impI)
    fix q b assume q: "q \<in> U" "inode_view g q = Some b"
    then show "\<not> in_extent (i_extent_off b) (unat (i_blocks b)) ?r"
      using pr(2) f(2) o [OF q(1)] settledD(3) [OF st] unfolding clear_of_def by (cases "q = ?p") auto
  qed
  have ds: "d_dir_size (pdir g) = d_dir_size (pdir fs)" using f(5) unfolding adds_key_def by (rule conjunct1)
  have "settled U g" by (rule settled_step [OF st r(1) pr(1) cl f(6) ds adds_key_within [OF f(5) p]])
  moreover have "inode_view g q = index_inode g q" if "q \<in> U" for q using that f(2,3) o [OF that] sv [OF that] by (cases "q = ?p") simp_all
  ultimately show "savable U g" by (simp add: savable_def)
  have "abs_fs U fs ?p = Some (XXFS_FT_DIR, [])" using p v t by (simp add: abs_fs_def abs_file_def)
  then show "abs_fs U g = abs_fs U fs" using r(2) n(2) by (simp add: fun_upd_idem)
qed

text \<open>A directory that can be written back.\<close>

definition dir_slot :: "bytes set \<Rightarrow> xxfs \<Rightarrow> nat \<Rightarrow> bool" where
  "dir_slot U fs i \<longleftrightarrow> (let e = dcache fs i; p = de_path e in
     de_valid e \<and> dcache_idx p = i \<and> p \<in> U \<and> small_dir (de_children e) \<and>
     (\<exists>ino. inode_view fs p = Some ino \<and> i_file_type ino = XXFS_FT_DIR))"

definition unsaved :: "xxfs \<Rightarrow> nat list \<Rightarrow> nat" where
  "unsaved fs is = length (filter (\<lambda>i. de_dirty (dcache fs i)) is)"

definition dirs_ready :: "bytes set \<Rightarrow> xxfs \<Rightarrow> nat list \<Rightarrow> bool" where
  "dirs_ready U fs is \<longleftrightarrow> (\<forall>i \<in> set is. de_dirty (dcache fs i) \<longrightarrow> dir_slot U fs i) \<and> 4 * unsaved fs is \<le> free_blocks fs \<and> icache_room fs (unsaved fs is)"

lemma node_dir_extent: "node_ok fs ino \<Longrightarrow> i_file_type ino = XXFS_FT_DIR \<Longrightarrow> dir_extent fs ino"
  by (auto simp: node_ok_def dir_extent_def file_ok_def split: if_splits)

lemma dir_step:
  assumes s: "savable U fs" and d: "dirs_ready U fs (i # is)" and dirty: "de_dirty (dcache fs i)" and dis: "i \<notin> set is"
  obtains g where "dcache_flush_entry fs i = Some g" and "savable U g" and "abs_fs U g = abs_fs U fs" and "dirs_ready U g is"
proof -
  let ?e = "dcache fs i" and ?n = "unsaved fs is"
  have st: "settled U fs" using s by (simp add: savable_def)
  note v = settledD(1) [OF st]
  have n: "unsaved fs (i # is) = Suc ?n" using dirty by (simp add: unsaved_def)
  obtain ino where e: "de_valid ?e" "dcache_idx (de_path ?e) = i" "de_path ?e \<in> U" "small_dir (de_children ?e)"
    "inode_view fs (de_path ?e) = Some ino" "i_file_type ino = XXFS_FT_DIR"
    using d dirty by (auto simp: dirs_ready_def dir_slot_def Let_def)
  note nk = volumeD(3) [OF v e(3,5)]
  have c: "can_flush fs i ino" using e dirty d n node_okD(1) [OF nk] node_dir_extent [OF nk e(6)] settledD(4,5) [OF st e(3)] by (simp add: can_flush_def Let_def dirs_ready_def)
  have room: "icache_room fs (Suc ?n)" using d n by (simp add: dirs_ready_def)
  obtain t g where g: "dcache_flush_entry fs i = Some g" "dir_flushed fs i ino t g" "icache_room g ?n"
    by (rule flush_entry_law [OF volumeD(1) [OF v] room c])
  note r = dir_flushed_savable [OF s e(3,5,6) g(2)]
  have f: "dcache g = (dcache fs)(i := ?e\<lparr>de_dirty := False\<rparr>)" "free_blocks fs \<le> free_blocks g + 4"
    "\<And>q. apart q (de_path ?e) \<Longrightarrow> inode_view g q = inode_view fs q"
    using g(2) by (simp_all add: dir_flushed_def Let_def)
  have dc: "dcache g j = dcache fs j" if "j \<in> set is" for j using f(1) that dis by auto
  have "dir_slot U g j" if j: "j \<in> set is" "de_dirty (dcache fs j)" for j
  proof -
    let ?q = "de_path (dcache fs j)"
    have o: "dir_slot U fs j" using d j by (simp add: dirs_ready_def)
    then have q: "?q \<in> U" and "dcache_idx ?q = j" by (simp_all add: dir_slot_def Let_def)
    then have ne: "?q \<noteq> de_path ?e" using e(2) j(1) dis by metis
    have a: "apart ?q (de_path ?e)" by (rule volumeD(5) [OF v q e(3) ne])
    show ?thesis using o f(3) [OF a] dc [OF j(1)] by (simp add: dir_slot_def Let_def)
  qed
  moreover have u: "unsaved g is = ?n" unfolding unsaved_def using dc by (intro arg_cong [of _ _ length] filter_cong) simp_all
  ultimately have "dirs_ready U g is" using d n dc f(2) g(3) by (simp add: dirs_ready_def)
  then show thesis using that g(1) r by blast
qed

lemma dirs_flush_law:
  assumes "savable U fs" and "dirs_ready U fs is" and "distinct is"
  shows "\<exists>g. dcache_flush_from is fs = Some g \<and> savable U g \<and> abs_fs U g = abs_fs U fs"
  using assms
proof (induction "is" arbitrary: fs)
  case (Cons i "is")
  show ?case
  proof (cases "de_dirty (dcache fs i)")
    case True
    obtain g where "dcache_flush_entry fs i = Some g" "savable U g" "abs_fs U g = abs_fs U fs" "dirs_ready U g is"
      by (rule dir_step [OF Cons.prems(1,2) True]) (use Cons.prems(3) in simp)
    then show ?thesis using Cons.IH [of g] Cons.prems(3) True by auto
  next
    case False
    have "dirs_ready U fs is" using Cons.prems(2) False by (simp add: dirs_ready_def unsaved_def)
    then show ?thesis using Cons.IH [OF Cons.prems(1)] Cons.prems(3) False by simp
  qed
qed simp

section \<open>Inodes\<close>

lemma slot_found:
  assumes inv: "icache_inv fs" and c: "cache_ready U fs" and u: "in_use fs i" and k: "ic_key (icache fs i) = Some p"
  obtains idx where "icache_lookup fs (xxh64 p) = Some idx" and "unat idx = i"
proof -
  obtain n where n: "n < 16" "sits_at fs (xxh64 p) n (of_nat i)" and i: "i < unat (icache_cap fs)"
    using c u k by (auto simp: cache_ready_def cache_slot_def)
  have "icache_lookup fs (xxh64 p) = Some (of_nat i)" using lookup_iff [of fs "xxh64 p" "of_nat i"] inv n by (auto simp: icache_inv_def)
  moreover have "unat (icache_cap fs) < 2 ^ 32" using unsigned_less [of "icache_cap fs"] by simp
  then have "unat (of_nat i :: u32) = i" using i by (simp add: unat_of_nat)
  ultimately show thesis by (rule that)
qed

lemma found_slot:
  assumes inv: "icache_inv fs" and c: "cache_ready U fs" and U: "inj_on xxh64 U" "p \<in> U" and l: "icache_lookup fs (xxh64 p) = Some idx"
  shows "in_use fs (unat idx)" "ic_key (icache fs (unat idx)) = Some p" "unat idx < unat (icache_cap fs)"
    "ic_dirty (icache fs (unat idx)) \<or> index_inode fs p = Some (ic_inode (icache fs (unat idx)))"
proof -
  have s: "in_use fs (unat idx)" "ic_hash (icache fs (unat idx)) = xxh64 p"
    using l lookup_iff [of fs "xxh64 p" idx] inv by (auto simp: icache_inv_def sits_at_def)
  then obtain q where q: "q \<in> U" "ic_key (icache fs (unat idx)) = Some q" "xxh64 q = ic_hash (icache fs (unat idx))" "unat idx < unat (icache_cap fs)"
    "ic_dirty (icache fs (unat idx)) \<or> index_inode fs q = Some (ic_inode (icache fs (unat idx)))"
    using c by (auto simp: cache_ready_def cache_slot_def)
  have "q = p" using inj_onD [OF U(1) _ q(1) U(2)] q(3) s(2) by simp
  then show "in_use fs (unat idx)" "ic_key (icache fs (unat idx)) = Some p" "unat idx < unat (icache_cap fs)"
    "ic_dirty (icache fs (unat idx)) \<or> index_inode fs p = Some (ic_inode (icache fs (unat idx)))"
    using s(1) q by simp_all
qed

text \<open>After the flush the index holds what the view shows, up to the times of the write-back.\<close>

lemma slots_flushed_view:
  assumes inv: "icache_inv fs" and c: "cache_ready U fs" and U: "inj_on xxh64 U" "p \<in> U" and f: "slots_flushed fs [0..<unat (icache_cap fs)] g"
  shows "inode_view g p = index_inode g p" "rel_option (\<lambda>a b. b = a \<or> restamped a b) (inode_view fs p) (inode_view g p)"
proof -
  note s = f [unfolded slots_flushed_def]
  have sh: "same_shape fs g" using s by blast
  have lk: "icache_lookup g = icache_lookup fs" by (rule same_shapeD(6) [OF sh])
  have st: "restamped (ic_inode (icache fs i)) (ic_inode (icache g i))" "index_inode g p = Some (ic_inode (icache g i))"
    if "i < unat (icache_cap fs)" "due fs i" "ic_key (icache fs i) = Some p" for i using s that by simp_all
  have kp: "icache g i = icache fs i" if "\<not> due fs i" for i using s that by blast
  have ot: "index_inode g p = index_inode fs p" if "\<And>i. due fs i \<Longrightarrow> ic_key (icache fs i) \<noteq> Some p" using s that by blast
  have "inode_view g p = index_inode g p \<and> rel_option (\<lambda>a b. b = a \<or> restamped a b) (inode_view fs p) (inode_view g p)"
  proof (cases "icache_lookup fs (xxh64 p)")
    case None
    have "ic_key (icache fs i) \<noteq> Some p" if "due fs i" for i using slot_found [OF inv c, of i p] that None by (auto simp: due_def)
    then have "index_inode g p = index_inode fs p" by (rule ot)
    then show ?thesis using None lk by (simp add: inode_view_def cached_inode_def option.rel_refl)
  next
    case (Some idx)
    note fd = found_slot [OF inv c U Some]
    have v: "inode_view fs p = Some (ic_inode (icache fs (unat idx)))" "inode_view g p = Some (ic_inode (icache g (unat idx)))"
      using Some lk by (simp_all add: inode_view_def cached_inode_def)
    show ?thesis
    proof (cases "due fs (unat idx)")
      case True
      then show ?thesis using st [OF fd(3) True fd(2)] v by simp
    next
      case False
      have "ic_key (icache fs i) \<noteq> Some p" if "due fs i" for i
        using slot_found [OF inv c, of i p] that Some False by (auto simp: due_def)
      then have "index_inode g p = index_inode fs p" by (rule ot)
      moreover have "index_inode fs p = Some (ic_inode (icache fs (unat idx)))" using fd(1,4) False by (simp add: due_def)
      ultimately show ?thesis using v kp [OF False] by simp
    qed
  qed
  then show "inode_view g p = index_inode g p" "rel_option (\<lambda>a b. b = a \<or> restamped a b) (inode_view fs p) (inode_view g p)" by blast+
qed

text \<open>A step that changes only what an abstract file does not show of its inode.\<close>

lemma volume_related:
  assumes v: "volume U fs" and i: "fs_inv g"
    and R: "\<And>q. q \<in> U \<Longrightarrow> rel_option (\<lambda>a b. node_ok g b \<and> abs_file g b = abs_file fs a \<and> i_extent_off b = i_extent_off a \<and> i_blocks b = i_blocks a)
      (inode_view fs q) (inode_view g q)"
  shows "volume U g" "abs_fs U g = abs_fs U fs" "clear_of U fs r \<Longrightarrow> clear_of U g r"
proof -
  have R': "\<exists>a. inode_view fs q = Some a \<and> node_ok g b \<and> abs_file g b = abs_file fs a \<and> i_extent_off b = i_extent_off a \<and> i_blocks b = i_blocks a"
    if "q \<in> U" "inode_view g q = Some b" for q b using R [OF that(1)] that(2) by (cases "inode_view fs q") auto
  have "\<not> shares a b" if q: "p \<in> U" "q \<in> U" "p \<noteq> q" "inode_view g p = Some a" "inode_view g q = Some b" for p q a b
    using R' [OF q(1,4)] R' [OF q(2,5)] volumeD(4) [OF v q(1-3)] by (auto simp: shares_def)
  then show "volume U g" using v i R' unfolding volume_def by blast
  show "abs_fs U g = abs_fs U fs"
  proof
    fix q
    show "abs_fs U g q = abs_fs U fs q"
      using R [of q] by (cases "q \<in> U"; cases "inode_view fs q"; cases "inode_view g q") (simp_all add: abs_fs_def)
  qed
  show "clear_of U g r" if "clear_of U fs r" unfolding clear_of_def
  proof (intro ballI allI impI)
    fix p b assume p: "p \<in> U" "inode_view g p = Some b"
    then show "\<not> in_extent (i_extent_off b) (unat (i_blocks b)) r" using R' [OF p] that p(1) unfolding clear_of_def by auto
  qed
qed

lemma restamped_node:
  assumes ok: "index_ok fs" "index_ok g" and sp: "index_spares fs g" and n: "node_ok fs a" and r: "b = a \<or> restamped a b"
  shows "node_ok g b \<and> abs_file g b = abs_file fs a \<and> i_extent_off b = i_extent_off a \<and> i_blocks b = i_blocks a"
proof -
  have k: "node_ok g a" "abs_file g a = abs_file fs a" using node_ok_kept [OF n] file_bytes_spared [OF ok sp] by blast+
  show ?thesis
  proof (cases "b = a")
    case True
    then show ?thesis using k by simp
  next
    case False
    then have rs: "restamped a b" using r by simp
    note f = restamped_fields [OF node_okD(1) [OF n] rs]
    have "file_ok g b \<and> file_bytes g b = file_bytes g a" if "file_ok g a" using restamped_file [OF that rs] by blast
    then show ?thesis using k f by (auto simp: node_ok_def abs_file_def)
  qed
qed

lemma flushed_savable:
  assumes l: "live U fs" and f: "slots_flushed fs [0..<unat (icache_cap fs)] g"
  shows "savable U g" "abs_fs U g = abs_fs U fs"
proof -
  note v = liveD(2) [OF l] and c = liveD(3) [OF l] and st = liveD(1) [OF l] and s = f [unfolded slots_flushed_def]
  note inv = volumeD(1) [OF v]
  have g: "fs_inv g" "index_spares fs g" "sb_kept (sb fs) (sb g)" "d_dir_size (pdir g) = d_dir_size (pdir fs)" using f fs_invD(1) [of g] by (auto simp: slots_flushed_def)
  have w: "inode_view g q = index_inode g q" "rel_option (\<lambda>a b. b = a \<or> restamped a b) (inode_view fs q) (inode_view g q)" if "q \<in> U" for q
    by (rule slots_flushed_view [OF fs_invD(3) [OF inv] c volumeD(2) [OF v] that f])+
  have "rel_option (\<lambda>a b. node_ok g b \<and> abs_file g b = abs_file fs a \<and> i_extent_off b = i_extent_off a \<and> i_blocks b = i_blocks a)
      (inode_view fs q) (inode_view g q)" if q: "q \<in> U" for q
    by (rule option.rel_mono_strong [OF w(2) [OF q]])
      (rule restamped_node [OF fs_invD(1) [OF inv] fs_invD(1) [OF g(1)] g(2)], use volumeD(3) [OF v q] in \<open>simp_all add: elem_set\<close>)
  note r = volume_related [OF v g(1) this]
  show "abs_fs U g = abs_fs U fs" by (rule r(2))
  let ?D = "{p. \<exists>i \<in> set [0..<unat (icache_cap fs)]. due fs i \<and> ic_key (icache fs i) = Some p}"
  have "fst ` set (chain_kv g q) \<subseteq> fst ` set (chain_kv fs q) \<union> ?D" for q using s by (elim conjE allE)
  moreover have "?D \<subseteq> U" using c by (auto simp: cache_ready_def cache_slot_def due_def)
  ultimately have k: "fst ` set (chain_kv g q) \<subseteq> fst ` set (chain_kv fs q) \<union> U" for q by (meson Un_mono order_refl subset_trans)
  have o: "outside g (s_pdir_off (sb fs))" using index_sparesD(1) [OF g(2)] settledD(2) [OF st] by (simp add: can_unmount_def)
  have "settled U g" by (rule settled_step [OF st r(1) o r(3) [OF _ settledD(3) [OF st]] g(3,4) k])
  then show "savable U g" using w(1) by (simp add: savable_def)
qed

lemma cache_ready_slots:
  assumes l: "live U fs" and free: "3 * unat (icache_count fs) \<le> free_blocks fs"
  shows "can_flush_slots fs [0..<unat (icache_cap fs)]"
proof -
  note v = liveD(2) [OF l] and c = liveD(3) [OF l] and st = liveD(1) [OF l]
  note inv = fs_invD(3) [OF volumeD(1) [OF v]]
  have "\<exists>p. storable fs i p" if d: "due fs i" for i
  proof -
    have u: "in_use fs i" using d by (simp add: due_def)
    then obtain p where p: "p \<in> U" "ic_key (icache fs i) = Some p" "xxh64 p = ic_hash (icache fs i)"
      using c by (auto simp: cache_ready_def cache_slot_def)
    obtain idx where "icache_lookup fs (xxh64 p) = Some idx" "unat idx = i" by (rule slot_found [OF inv c u p(2)])
    then have "inode_view fs p = Some (ic_inode (icache fs i))" by (simp add: inode_view_def cached_inode_def)
    then have "wf_inode (ic_inode (icache fs i))" using node_okD(1) [OF volumeD(3) [OF v p(1)]] by simp
    then show ?thesis using p settledD(4,5) [OF st p(1)] by (auto simp: storable_def)
  qed
  then show ?thesis using due_count [OF inv] free by (auto simp: can_flush_slots_def)
qed

section \<open>Sync and crash\<close>

text \<open>What \<^verbatim>\<open>xxfs_sync\<close> needs: every directory with unsaved children exists, is in its place and has a list that fits into a block, and there are three
  free blocks for each cached inode and four for each such directory.\<close>

definition sync_ready :: "bytes set \<Rightarrow> xxfs \<Rightarrow> bool" where
  "sync_ready U fs \<longleftrightarrow> (\<forall>i < DIR_CACHE_SIZE. de_dirty (dcache fs i) \<longrightarrow> dir_slot U fs i) \<and>
     3 * unat (icache_count fs) + 4 * unsaved fs [0..<DIR_CACHE_SIZE] \<le> free_blocks fs \<and> icache_room fs (unsaved fs [0..<DIR_CACHE_SIZE])"

lemma dirs_after_flush:
  assumes l: "live U fs" and r: "sync_ready U fs" and f: "slots_flushed fs [0..<unat (icache_cap fs)] g"
  shows "dirs_ready U g [0..<DIR_CACHE_SIZE]"
proof -
  note v = liveD(2) [OF l] and c = liveD(3) [OF l] and s = f [unfolded slots_flushed_def]
  note inv = volumeD(1) [OF v]
  have dc: "dcache g = dcache fs" using s by (elim conjE)
  have sh: "same_shape fs g" using s by (elim conjE)
  have fr: "free_blocks fs \<le> free_blocks g + 3 * length (filter (due fs) [0..<unat (icache_cap fs)])" using s by (elim conjE)
  have "dir_slot U g i" if i: "i < DIR_CACHE_SIZE" "de_dirty (dcache fs i)" for i
  proof -
    let ?p = "de_path (dcache fs i)"
    obtain ino where o: "dir_slot U fs i" "?p \<in> U" "inode_view fs ?p = Some ino" "i_file_type ino = XXFS_FT_DIR"
      using r i by (auto simp: sync_ready_def dir_slot_def Let_def)
    have "rel_option (\<lambda>a b. b = a \<or> restamped a b) (inode_view fs ?p) (inode_view g ?p)"
      by (rule slots_flushed_view(2) [OF fs_invD(3) [OF inv] c volumeD(2) [OF v] o(2) f])
    then obtain b where b: "inode_view g ?p = Some b" "b = ino \<or> restamped ino b" using o(3) by (cases "inode_view g ?p") auto
    then have "i_file_type b = XXFS_FT_DIR" using o(4) restamped_fields(5) [OF node_okD(1) [OF volumeD(3) [OF v o(2,3)]]] by auto
    then show ?thesis using o(1) dc b(1) by (simp add: dir_slot_def Let_def)
  qed
  moreover have "icache_room g n = icache_room fs n" for n using sh by (simp add: icache_room_def same_shape_def)
  moreover have "unsaved g is = unsaved fs is" for "is" using dc by (simp add: unsaved_def)
  ultimately show ?thesis using r fr dc due_count [OF fs_invD(3) [OF inv]] by (simp add: dirs_ready_def sync_ready_def)
qed

lemma sync_live:
  assumes l: "live U fs" and r: "sync_ready U fs"
  obtains fs' fs2 where "xxfs_sync fs = Some (XXFS_OK, fs')" and "xxfs_mount (img fs') flg = Some (Inr fs2)" and "live U fs2"
    and "abs_fs U fs2 = abs_fs U fs" and "pristine fs2"
proof -
  have c: "3 * unat (icache_count fs) \<le> free_blocks fs" using r by (simp add: sync_ready_def)
  obtain fs1 where f: "icache_flush_all fs = Some fs1" "slots_flushed fs [0..<unat (icache_cap fs)] fs1"
    using flush_slots_law [OF volumeD(1) [OF liveD(2) [OF l]] cache_ready_slots [OF l c]] by (auto simp: icache_flush_all_def)
  note s1 = flushed_savable [OF l f(2)]
  obtain g where g: "dcache_flush_all fs1 = Some g" "savable U g" "abs_fs U g = abs_fs U fs1"
    using dirs_flush_law [OF s1(1) dirs_after_flush [OF l r f(2)]] by (auto simp: dcache_flush_all_def)
  have u: "can_unmount g" and i: "fs_inv g" using g(2) settledD(1,2) [of U g] volumeD(1) by (auto simp: savable_def)
  obtain fs' fs2 where m: "xxfs_sync fs = Some (XXFS_OK, fs')" "xxfs_mount (img fs') flg = Some (Inr fs2)" "remounted g fs2" "can_unmount fs2"
    by (rule sync_saved [OF f(1) g(1) fs_invD(1) [OF i] u])
  show thesis
    by (rule that [OF m(1,2)]) (use remounted_live [OF g(2) m(3,4)] m(3) g(3) s1(2) in \<open>simp_all add: remounted_def\<close>)
qed

end
