(* ===== verification/Fs_Trace.thy ===== *)
theory Fs_Trace
  imports Fs_Durable
begin

text \<open>
  The file system as a state machine, and its refinement to an abstract one: the steps are the calls of operations and crashes after a \<^verbatim>\<open>xxfs_sync\<close>.
\<close>

section \<open>Runs\<close>

text \<open>\<open>Reboot flg\<close> is a call of \<^verbatim>\<open>xxfs_sync\<close>, the loss of everything that is in memory, and a mount of the image with the flags \<open>flg\<close>.\<close>

datatype event = Call fs_op fs_res | Reboot u64

text \<open>A run: each call is made in a state that is ready for it, and where the inode of its path has a place in the cache among those that a lookup visits.\<close>

inductive fs_run :: "bytes set \<Rightarrow> xxfs \<Rightarrow> event list \<Rightarrow> xxfs \<Rightarrow> bool" for U where
  fs_run_Nil: "fs_run U fs [] fs"
| fs_run_Call: "op_path op \<in> U \<Longrightarrow> op_ready fs op \<Longrightarrow> icache_near fs (xxh64 (op_path op)) \<Longrightarrow> exec_op op fs = Some (r, g) \<Longrightarrow> fs_run U g tr fs' \<Longrightarrow>
    fs_run U fs (Call op r # tr) fs'"
| fs_run_Reboot: "sync_ready U fs \<Longrightarrow> xxfs_sync fs = Some (XXFS_OK, g) \<Longrightarrow> xxfs_mount (img g) flg = Some (Inr h) \<Longrightarrow> fs_run U h tr fs' \<Longrightarrow>
    fs_run U fs (Reboot flg # tr) fs'"

inductive_simps fs_run_Nil_iff [simp]: "fs_run U fs [] fs'"

inductive_cases fs_run_CallE: "fs_run U fs (Call op r # tr) fs'"

inductive_cases fs_run_RebootE: "fs_run U fs (Reboot flg # tr) fs'"

primrec spec_run :: "event list \<Rightarrow> afs \<Rightarrow> afs option" where
  "spec_run [] A = Some A"
| "spec_run (x # tr) A =
     (case x of Call op r \<Rightarrow> if fst (spec_op op A) = r then spec_run tr (snd (spec_op op A)) else None
              | Reboot flg \<Rightarrow> spec_run tr A)"

lemma run_refines:
  "fs_run U fs tr fs' \<Longrightarrow> live U fs \<Longrightarrow> live U fs' \<and> spec_run tr (abs_fs U fs) = Some (abs_fs U fs')"
proof (induction rule: fs_run.induct)
  case (fs_run_Call op fs r g tr fs')
  show ?case using live_exec [OF fs_run_Call.prems fs_run_Call.hyps(1-4)] fs_run_Call.IH by simp
next
  case (fs_run_Reboot fs g flg h tr fs')
  obtain g2 h2 where "xxfs_sync fs = Some (XXFS_OK, g2)" "xxfs_mount (img g2) flg = Some (Inr h2)" "live U h2" "abs_fs U h2 = abs_fs U fs"
    by (rule sync_live [OF fs_run_Reboot.prems fs_run_Reboot.hyps(1), of flg])
  then show ?case using fs_run_Reboot.IH fs_run_Reboot.hyps(2,3) by simp
qed simp

section \<open>A run on a fresh image\<close>

lemma fresh_live:
  assumes f: "fresh_mounted fs now" and U: "inj_on xxh64 U" "[0x2F] \<in> U" and len: "\<And>p. p \<in> U \<Longrightarrow> length p \<le> KEY_PREFIX_LEN"
  shows "live U fs"
proof -
  have p: "can_unmount fs" "pristine fs" using f by (simp_all add: fresh_mounted_def)
  have "\<not> in_use fs i" for i using p(2) by (simp add: pristine_def in_use_def zero_icache_entry_def ICACHE_CTRL_EMPTY_def)
  moreover have "clear_of U fs r" for r using fresh_view [OF f] mkfs_root_extent by (simp add: clear_of_def in_extent_def)
  moreover have "length p \<le> 3528" if "p \<in> U" for p using len [OF that] by (simp add: KEY_PREFIX_LEN_def)
  ultimately show ?thesis
    using fresh_volume(1) [OF f U] p(1) collision_free_short len by (simp add: live_def settled_def cache_ready_def)
qed

text \<open>After a first file has been made and written, \<^verbatim>\<open>xxfs_sync\<close> can save it.\<close>

lemma sample_sync_ready:
  assumes f: "fresh_mounted fs now" and m: "node_made 8191 fs [0x2F, 0x61] ino typ g" and w: "file_written 8190 g [0x2F, 0x61] ino bs ino' h"
    and len: "length bs \<le> 4096"
  shows "sync_ready {[0x2F], [0x2F, 0x61]} h"
proof -
  let ?d = "[0x2F] :: bytes" and ?i = "dcache_idx [0x2F]"
  note n = m [unfolded node_made_def sample_path] and v = w [unfolded file_written_def] and f' = f [unfolded fresh_mounted_def]
  have dc: "dcache h = dcache g" using v by blast
  have df: "dcache_find g ?d = Some ?i" using n by blast
  have de: "de_valid (dcache g ?i)" "de_path (dcache g ?i) = ?d" "de_children (dcache g ?i) = [new_child [0x61] typ]"
    using dcache_find_idx [OF df] n f' df by (simp_all add: dir_children_def)
  have dirty: "j = ?i" if "de_dirty (dcache g j)" for j
    using that n f' by (cases "j = ?i") (simp_all add: pristine_def zero_dir_cache_entry_def)
  have "inode_view h ?d = Some (mkfs_root now)" using n v fresh_view [OF f] sample_apart by (simp add: apart_def)
  then have slot: "dir_slot {?d, [0x2F, 0x61]} h ?i"
    using de dc mkfs_root_fields by (simp add: dir_slot_def Let_def small_dir_def wf_new_child)
  have "distinct (filter (\<lambda>i. de_dirty (dcache h i)) [0..<DIR_CACHE_SIZE])" "set (filter (\<lambda>i. de_dirty (dcache h i)) [0..<DIR_CACHE_SIZE]) \<subseteq> {?i}"
    using dirty dc by auto
  then have un: "unsaved h [0..<DIR_CACHE_SIZE] \<le> 1" unfolding unsaved_def by (metis card_mono card.empty card_insert_disjoint distinct_card empty_iff finite.intros One_nat_def)
  have cap: "icache_cap h = ICACHE_CAP_INIT" using n v f' by (simp add: cache_step_def pristine_def)
  have room: "icache_room h 8190" using v by blast
  then have cnt: "unat (icache_count h) \<le> 2" using cap by (simp add: icache_room_def ICACHE_CAP_INIT_def)
  have "249 \<le> free_blocks fs" "free_blocks fs \<le> free_blocks g + 3" using f' n by blast+
  moreover have "free_blocks g \<le> free_blocks h + (length bs + 4095) div 4096" using v by blast
  moreover have "(length bs + 4095) div 4096 \<le> 1" using len by simp
  ultimately have "200 \<le> free_blocks h" by linarith
  moreover have "icache_room h (unsaved h [0..<DIR_CACHE_SIZE])" using room un by (simp add: icache_room_def)
  ultimately show ?thesis using slot dirty dc un cnt by (auto simp: sync_ready_def)
qed

text \<open>The first file is made and written, and \<^verbatim>\<open>xxfs_sync\<close> can then be called.\<close>

lemma sample_written:
  obtains f fs g h where "xxfs_mkfs blank_file 64 False = (XXFS_OK, f)" and "xxfs_mount f 0 = Some (Inr fs)"
    and "live {[0x2F], [0x2F, 0x61]} fs" and "abs_fs {[0x2F], [0x2F, 0x61]} fs = [[0x2F] \<mapsto> (XXFS_FT_DIR, [])]"
    and "op_ready fs (OpCreate [0x2F, 0x61] 420 0 0)" and "icache_near fs (xxh64 [0x2F, 0x61])" and "exec_op (OpCreate [0x2F, 0x61] 420 0 0) fs = Some (Status XXFS_OK, g)"
    and "op_ready g (OpWrite [0x2F, 0x61] [1, 2, 3] 0)" and "icache_near g (xxh64 [0x2F, 0x61])" and "exec_op (OpWrite [0x2F, 0x61] [1, 2, 3] 0) g = Some (Count 3, h)"
    and "sync_ready {[0x2F], [0x2F, 0x61]} h" and "live {[0x2F], [0x2F, 0x61]} h"
proof -
  let ?U = "{[0x2F], [0x2F, 0x61]} :: bytes set" and ?a = "[0x2F, 0x61] :: bytes"
  obtain f fs now where m: "xxfs_mkfs blank_file 64 False = (XXFS_OK, f)" "xxfs_mount f 0 = Some (Inr fs)" "fresh_mounted fs now" "can_make 8191 fs ?a"
    by (rule sample_mounted)
  let ?i = "new_inode fs 420 0 0 XXFS_FT_REG 1 [0x61]"
  have l: "icache_lookup fs (xxh64 ?a) = None" using m(4) view_NoneD by (simp add: can_make_def)
  have len: "length (get_parent_path ?a) < 2 ^ 32" by (simp add: sample_path)
  obtain g where c: "xxfs_create fs ?a 420 0 0 = Some (XXFS_OK, g)" "node_made 8191 fs ?a ?i (ucast XXFS_FT_REG) g"
    by (rule make_counted [OF m(4) len, of 420 0 0 XXFS_FT_REG 1 "ucast XXFS_FT_REG"])
      (auto simp: xxfs_create_def Let_def l alloc_same_def sb_kept_def wf_super_def sample_path)
  note n = c(2) [unfolded node_made_def]
  have near: "icache_near fs h" for h using m(3) by (simp add: fresh_mounted_def)
  have gi: "fs_inv g" "inode_view g ?a = Some ?i" "icache_room g (Suc 8190)" "cached_inode g (xxh64 ?a) = Some ?i" using n near by simp_all
  have ng: "icache_near g (xxh64 ?a)" using cached_near [of g] gi(4) fs_invD(3) [OF gi(1)] by (simp add: icache_inv_def)
  have t: "i_file_type ?i = XXFS_FT_REG" "i_blocks ?i = 0" by (rule new_inode_seals [of fs 420 0 0 XXFS_FT_REG 1 "[0x61]"], simp)+
  then have nd: "i_file_type ?i \<noteq> XXFS_FT_DIR" and cw: "can_write g ?i 0 [1, 2, 3]" by (simp_all add: XXFS_FT_REG_def XXFS_FT_DIR_def can_write_def)
  obtain ino' h where w: "xxfs_write g ?a [1, 2, 3] 0 = Some (Inr 3, h)" "file_written 8190 g ?a ?i [1, 2, 3] ino' h"
    by (rule write_law [of g 8190 ?a ?i 0 "[1, 2, 3]"]) (use gi ng nd cw new_inode_ok in \<open>simp_all add: sample_path overlay_def\<close>)
  have sy: "sync_ready ?U h" by (rule sample_sync_ready [OF m(3) c(2) w(2)]) simp
  have lv: "live ?U fs" by (rule fresh_live [OF m(3) sample_inj]) (auto simp: KEY_PREFIX_LEN_def)
  have r1: "op_ready fs (OpCreate ?a 420 0 0)" using can_make_0 [OF m(4)] by (simp add: sample_path)
  have r2: "op_ready g (OpWrite ?a [1, 2, 3] 0)" using gi ng cw by (simp add: sample_path icache_room_def)
  have e: "exec_op (OpCreate ?a 420 0 0) fs = Some (Status XXFS_OK, g)" "exec_op (OpWrite ?a [1, 2, 3] 0) g = Some (Count 3, h)" using c(1) w(1) by simp_all
  have "live ?U g" by (rule live_exec [OF lv _ r1 _ e(1)]) (use near in \<open>simp_all add: sample_path\<close>)
  then have lh: "live ?U h" by (rule live_exec [OF _ _ r2 _ e(2)]) (use ng in \<open>simp_all add: sample_path\<close>)
  show thesis by (rule that [OF m(1,2) lv fresh_volume(2) [OF m(3) sample_inj] r1 near e(1) r2 ng e(2) sy lh]) simp
qed

lemma sample_run:
  obtains f fs fs' where "xxfs_mkfs blank_file 64 False = (XXFS_OK, f)" and "xxfs_mount f 0 = Some (Inr fs)"
    and "live {[0x2F], [0x2F, 0x61]} fs" and "abs_fs {[0x2F], [0x2F, 0x61]} fs = [[0x2F] \<mapsto> (XXFS_FT_DIR, [])]"
    and "fs_run {[0x2F], [0x2F, 0x61]} fs [Call (OpCreate [0x2F, 0x61] 420 0 0) (Status XXFS_OK), Call (OpWrite [0x2F, 0x61] [1, 2, 3] 0) (Count 3),
      Reboot 0, Call (OpRead [0x2F, 0x61] (zeros 5) 1) (Content 2 [2, 3, 0, 0, 0])] fs'"
proof -
  let ?U = "{[0x2F], [0x2F, 0x61]} :: bytes set" and ?a = "[0x2F, 0x61] :: bytes"
  let ?c = "OpCreate ?a 420 0 0" and ?w = "OpWrite ?a [1, 2, 3] 0" and ?r = "OpRead ?a (zeros 5) 1"
  obtain f fs g h where s: "xxfs_mkfs blank_file 64 False = (XXFS_OK, f)" "xxfs_mount f 0 = Some (Inr fs)" "live ?U fs" "abs_fs ?U fs = [[0x2F] \<mapsto> (XXFS_FT_DIR, [])]"
    "op_ready fs ?c" "icache_near fs (xxh64 ?a)" "exec_op ?c fs = Some (Status XXFS_OK, g)"
    "op_ready g ?w" "icache_near g (xxh64 ?a)" "exec_op ?w g = Some (Count 3, h)" "sync_ready ?U h"
    by (rule sample_written)
  have run: "fs_run ?U fs (Call ?c (Status XXFS_OK) # Call ?w (Count 3) # tr) fs'" if "fs_run ?U h tr fs'" for tr fs'
    by (rule fs_run_Call [OF _ s(5) _ s(7) fs_run_Call [OF _ s(8) _ s(10) that]]) (use s(6,9) in \<open>simp_all add: sample_path\<close>)
  have "live ?U h \<and> spec_run [Call ?c (Status XXFS_OK), Call ?w (Count 3)] (abs_fs ?U fs) = Some (abs_fs ?U h)"
    by (rule run_refines [OF run [OF fs_run_Nil] s(3)])
  then have lh: "live ?U h" and ah: "abs_fs ?U h ?a = Some (XXFS_FT_REG, [1, 2, 3])"
    unfolding s(4) by (auto simp: sample_path overlay_def XXFS_FT_REG_def XXFS_FT_DIR_def dest: sym)
  obtain k fs2 where b: "xxfs_sync h = Some (XXFS_OK, k)" "xxfs_mount (img k) 0 = Some (Inr fs2)" "live ?U fs2" "abs_fs ?U fs2 = abs_fs ?U h" "pristine fs2"
    by (rule sync_live [OF lh s(11), of 0])
  note i2 = volumeD(1) [OF liveD(2) [OF b(3)]]
  note pr = pristine_inv [OF fs_invD(1,2) [OF i2] b(5)]
  obtain ino where v: "inode_view fs2 ?a = Some ino" "i_file_type ino = XXFS_FT_REG" using ah [folded b(4)] by (auto simp: abs_fs_def abs_file_def)
  have rd: "op_ready fs2 ?r" using v pr(2) by (simp add: sample_path icache_room_def XXFS_FT_REG_def XXFS_FT_DIR_def)
  obtain res fs' where x: "exec_op ?r fs2 = Some (res, fs')" "spec_op ?r (abs_fs ?U fs2) = (res, abs_fs ?U fs')"
    by (rule live_step [OF b(3) _ rd pr(5)]) (simp add: sample_path)
  have z: "zeros 5 = [0, 0, 0, 0, 0]" by (simp add: zeros_def eval_nat_numeral)
  have y: "res = Content 2 [2, 3, 0, 0, 0]" using x(2) ah b(4) by (simp add: sample_path z into_buf_def)
  have "fs_run ?U h [Reboot 0, Call ?r (Content 2 [2, 3, 0, 0, 0])] fs'"
    by (rule fs_run_Reboot [OF s(11) b(1,2) fs_run_Call [OF _ rd pr(5) x(1) [unfolded y] fs_run_Nil]]) (simp add: sample_path)
  then show thesis using that [OF s(1-4)] run by blast
qed

end
