(* ===== verification/Spec2Isabelle.thy ===== *)
theory Spec2Isabelle
  imports Profile Dp_Map Fsck Shell Fs_Handle Fs_Rename Fs_Lock Fs_Trace
begin

text \<open>
  \<^bold>\<open>The XXFS user-space file system, verified.\<close>

  XXFS keeps a file system in one image file. The library \<^verbatim>\<open>src/lib/xxfs.c\<close> (with the interface \<^verbatim>\<open>src/lib/xxfs.h\<close> and the system layer
  \<^verbatim>\<open>src/lib/xxfs_os.c\<close>) stores every inode under its full path in a hash index of 4096-byte pages, and files larger than 128 bytes in extents of
  blocks; caches of pages, of inodes and of directory listings lie above it. The tools \<^verbatim>\<open>src/mkfs/mkfs.c\<close>, \<^verbatim>\<open>src/fsck/fsck.c\<close> and
  \<^verbatim>\<open>src/shell/shell.c\<close> are clients of the library. This development translates all of them, function by function, and proves what the layers
  promise to each other and to the user. Records and datatypes carry the names of the C structures, definitions the names of the C functions.

  \<^bold>\<open>How the code is read.\<close> A C function on \<^verbatim>\<open>struct xxfs *\<close> is a function that takes the state \<open>xxfs\<close> and returns it with its result. Integers have their
  C width (\<open>u8\<close>, \<open>u16\<close>, \<open>u32\<close>, \<open>u64\<close> are \<open>word\<close> types), so that all wrap-around is in the model. Return codes are the datatype \<open>rc\<close>; a function that returns a value
  or an error has the type \<open>rc + 'a\<close>. The outermost \<open>option\<close> of a result is not an error code: \<open>None\<close> says that the C code runs forever or has
  undefined behaviour (an access outside an array, a null pointer). Loops over data of known length are recursive functions; loops that can run forever (along chains of
  pages, over blocks at mount, the walk of the checker) are \<open>partial_function (option)\<close>. No fuel is used. That a function returns is
  therefore always part of what is proved of it, in the form \<open>f x = Some y\<close>.

  \<^bold>\<open>The operating system\<close> is a parameter inside the state \<open>os_file\<close>: a file is its bytes, its size, a counter of system calls and arbitrary functions of that counter,
  which tell which call or allocation fails, how far a failing transfer gets, what fresh memory holds, and what the clock says. \<open>fault_free\<close> says that none fails; it is part of the invariants.

  \<^bold>\<open>The theories\<close>, bottom up.

  \<^item> \<^bold>\<open>Xxfs_Prelude\<close>: integer types, return codes, constants of \<^verbatim>\<open>xxfs.h\<close>, little-endian fields, buffers and the lemmas on lists, fields and words that all use
    (collection \<open>codec\<close>).
  \<^item> \<^bold>\<open>Os_Checksum\<close> (\<^verbatim>\<open>xxfs_os_crc32c\<close>, \<^verbatim>\<open>xxfs_os_ecc_*\<close>): the table-driven and the SSE4.2 CRC agree; which changes the CRC and the ECC detect and
    what the ECC repairs. \<^bold>\<open>Os_File\<close> (\<^verbatim>\<open>xxfs_os_file_*\<close>): reading and writing at an offset; locale \<open>byte_store\<close>.
  \<^item> \<^bold>\<open>Xxh64\<close> (the hash of paths), \<^bold>\<open>Xxfs_Path\<close> (\<^verbatim>\<open>path_normalize\<close>, \<^verbatim>\<open>get_parent_path\<close>, \<^verbatim>\<open>get_basename\<close>, against a specification on lists of components).
  \<^item> \<^bold>\<open>Xxfs_Layout\<close>: the five structures on disk as records with their encodings; locale \<open>fixed_codec\<close>, interpreted for each. \<^bold>\<open>Xxfs_Inode\<close>: sealing and verifying inodes.
  \<^item> \<^bold>\<open>Dp_Table\<close>: the in-memory table \<^verbatim>\<open>struct dp_table\<close>; \<^bold>\<open>Dp_Map\<close>: it is a map from keys to values.
  \<^item> \<^bold>\<open>Xxfs_State\<close>: \<^verbatim>\<open>struct xxfs\<close>. \<^bold>\<open>Block_Alloc\<close> (\<^verbatim>\<open>page_alloc*\<close>; locale \<open>bump_allocator\<close>): extents handed out are disjoint. \<^bold>\<open>Page_Cache\<close> (\<^verbatim>\<open>page_load\<close>,
    \<^verbatim>\<open>page_writeback\<close>, \<^verbatim>\<open>pcache_*\<close>; locale \<open>page_provider\<close>): the cache is transparent over the logical blocks \<open>lblock\<close>, and a flush makes them durable.
  \<^item> \<^bold>\<open>Paged_Index\<close>: \<^verbatim>\<open>paged_get\<close>, \<^verbatim>\<open>paged_put\<close>, \<^verbatim>\<open>paged_insert\<close>, \<^verbatim>\<open>paged_del\<close> and their helpers. \<^bold>\<open>Index_Page\<close>, \<^bold>\<open>Index_Inv\<close>, \<^bold>\<open>Index_Get\<close>, \<^bold>\<open>Index_Put\<close>, \<^bold>\<open>Index_Chain\<close>, \<^bold>\<open>Index_Map\<close>,
    \<^bold>\<open>Index_Spec\<close>, \<^bold>\<open>Index_Del\<close>: the invariant of the index (acyclic chains, separate pages and records, everything below the frontier of the allocator),
    and the refinement of a finite map (\<open>index_abs\<close>; locale \<open>kv_store\<close>).
  \<^item> \<^bold>\<open>Icache\<close>, \<^bold>\<open>Icache_Laws\<close>: the cache of inodes, with growth, eviction and write-back. \<^bold>\<open>Super\<close>: superblock, \<^verbatim>\<open>xxfs_mount\<close>, \<^verbatim>\<open>xxfs_mkfs\<close>; \<^bold>\<open>Format\<close>: a formatted image mounts.
  \<^item> \<^bold>\<open>Dir_Cache\<close>, \<^bold>\<open>File_Ops\<close>, \<^bold>\<open>File_Io\<close>: directory listings, the operations on names and attributes, contents, handles, \<^verbatim>\<open>xxfs_sync\<close> and \<^verbatim>\<open>xxfs_umount\<close>.
  \<^item> \<^bold>\<open>Fs_Frame\<close>, \<^bold>\<open>Fs_View\<close>, \<^bold>\<open>Fs_Dir\<close>, \<^bold>\<open>Fs_Extent\<close>: what each layer leaves alone of the others; the mounted state as a map from paths to inodes (\<open>inode_view\<close>, cache
    over index), directories as lists of children (\<open>dir_children\<close>), files as bytes (\<open>file_bytes\<close>).
  \<^item> \<^bold>\<open>Fs_Namespace\<close>, \<^bold>\<open>Fs_Attr\<close>, \<^bold>\<open>Fs_Rename\<close>, \<^bold>\<open>Fs_Data\<close>, \<^bold>\<open>Fs_Handle\<close>: the operations over that view: what changes, and that nothing else does. \<^bold>\<open>Fs_Errors\<close>: which
    error every operation returns, with the state unchanged.
  \<^item> \<^bold>\<open>Fs_Mount\<close>, \<^bold>\<open>Fs_Flush\<close>, \<^bold>\<open>Fs_Sync\<close>: what survives \<^verbatim>\<open>xxfs_umount\<close> and \<^verbatim>\<open>xxfs_mount\<close>, and what \<^verbatim>\<open>xxfs_sync\<close> makes durable.
  \<^item> \<^bold>\<open>Fs_Volume\<close>: the abstract file system, a map from paths to kinds and contents, with the specification of each operation, the invariant \<open>volume\<close> and the
    simulation of one call. \<^bold>\<open>Fs_Durable\<close>: the invariant \<open>live\<close>, which adds that the caches can be saved; \<^verbatim>\<open>xxfs_sync\<close> and a crash keep the abstract file system.
    \<^bold>\<open>Fs_Trace\<close>: runs of calls and crashes as a step relation, and their refinement.
  \<^item> \<^bold>\<open>Fs_Lock\<close> (\<^verbatim>\<open>xxfs_os_*_lock\<close>, \<^verbatim>\<open>fs_wlock\<close>, \<^verbatim>\<open>fs_rlock\<close>; locale \<open>rw_lock\<close>): the operations once more as programs of steps (\<open>create_prog\<close>, \<open>write_prog\<close>, \<open>stat_prog\<close> and so on) with the lock
    and unlock calls where the source has them, each proved to compute what its operation computes (\<open>run_call_prog\<close>); threads that run them, as a step relation with interleaving. The
    calls that take the lock for writing serialise, whatever the interleaving; \<^verbatim>\<open>xxfs_stat\<close> changes a cache under the lock for reading. \<^bold>\<open>Profile\<close>: the counters of the build with \<^verbatim>\<open>XXFS_PROFILE\<close>.
  \<^item> \<^bold>\<open>Tool_Text\<close>, \<^bold>\<open>Fsck\<close>, \<^bold>\<open>Shell\<close>: the tools with the text they print.

  \<^bold>\<open>Invariants and conditions.\<close> \<open>fs_inv\<close> joins the invariants of the layers: index, page cache, inode cache, well-formed superblock. The theorems on operations further ask for room where the code has
  limits: \<open>icache_room fs n\<close> (\<open>n\<close> more inodes fit before an eviction), \<open>can_store\<close> (index and allocator have space for a key), \<open>can_hold\<close> and \<open>can_write\<close> (the blocks are there and the write is not one of those
  that the code gets wrong), \<open>dir_ready\<close> (the directory is loaded or can be). Each is decidable from the state, and each theorem has an instance on the image that \<^verbatim>\<open>xxfs_mkfs\<close>
  makes of a blank file (64 MB), so that none is vacuous. Paths are told apart by their 64-bit hash only, in the code as here: \<open>apart\<close> and \<open>inj_on xxh64\<close> name the assumption
  that two paths do not collide.

  \<^bold>\<open>What the conditions leave out is where the code is wrong\<close>, and some of that is proved too: \<^verbatim>\<open>page_alloc\<close> of a full image returns the first data block again; growing a file that has
  blocks makes it overlap the next allocation; \<^verbatim>\<open>icache_del\<close> hides other inodes; inodes changed in the cache are lost by \<^verbatim>\<open>xxfs_umount\<close>; bytes written through a handle to an empty file
  are lost by \<^verbatim>\<open>xxfs_close\<close>; a write through a handle that needs more blocks than the handle has loses the contents; \<^verbatim>\<open>xxfs_rename\<close> loses what was written since the inode was stored;
  a changed byte of the ECC of an inode goes unnoticed; the checker runs forever on a child with an empty name; the ECC repairs one of 64 single-bit errors of a zero word; a table that cannot grow loses its entries;
  \<^verbatim>\<open>xxfs_stat\<close> changes the inode cache under a lock for reading; nested intervals of the profile lose their start.

  \<^bold>\<open>Not modelled\<close>: messages on the standard error, the readline build of the shell, transfers of 2 GB and more (where the \<^verbatim>\<open>int\<close> results of the system layer wrap), the structures and
  constants of \<^verbatim>\<open>xxfs.h\<close> that no function uses (block groups, write-ahead log, ping-pong area, LRC groups), the wrappers of \<^verbatim>\<open>xxfs_os.c\<close> that nothing calls (\<^verbatim>\<open>msync\<close>, \<^verbatim>\<open>mkdir\<close>, \<^verbatim>\<open>rmdir\<close>),
  and the benchmarks and test programs, which only call the library. The steps of \<open>Fs_Lock\<close> are the calls that an operation makes into the
  library, not the loads and stores of a C memory model; \<^verbatim>\<open>xxfs_readdir\<close>, \<^verbatim>\<open>xxfs_readlink\<close>, the operations on handles and \<^verbatim>\<open>xxfs_umount\<close> have no such program. The lock is
  modelled with storage of its own: the 32 bytes that \<^verbatim>\<open>xxfs.h\<close> gives it are less than a \<^verbatim>\<open>pthread_rwlock_t\<close> has on common platforms. The sizes of the structures on disk are those of the natural C
  layout on a 64-bit platform.
\<close>

section \<open>Runs of operations\<close>

text \<open>C1: the file system refines an abstract one, across crashes. On a live volume (the invariants of all layers hold, the files are well-formed, no two share a
  block, the inode cache agrees with the index but for what it has marked as changed, and the hash function tells the paths in \<open>U\<close> apart), take a run of \<^verbatim>\<open>xxfs_create\<close>,
  \<^verbatim>\<open>xxfs_mkdir\<close>, \<^verbatim>\<open>xxfs_stat\<close>, \<^verbatim>\<open>xxfs_write\<close> and \<^verbatim>\<open>xxfs_read\<close> calls, each ready when it is made, in which any number of times, after a \<^verbatim>\<open>xxfs_sync\<close>, all memory
  is lost and the image mounted again. It ends in a live volume; and the map from paths to kinds and contents, run through the same calls and blind to the
  crashes, gives each of their results and ends with what the file system then holds.\<close>

theorem trace_refinement:
  assumes "live U fs" and "fs_run U fs tr fs'"
  shows "live U fs' \<and> spec_run tr (abs_fs U fs) = Some (abs_fs U fs')"
  using run_refines assms by blast

theorem trace_refinement_witness:
  "\<exists>f fs fs'. xxfs_mkfs blank_file 64 False = (XXFS_OK, f) \<and> xxfs_mount f 0 = Some (Inr fs) \<and>
    fs_run {[0x2F], [0x2F, 0x61]} fs [Call (OpCreate [0x2F, 0x61] 420 0 0) (Status XXFS_OK), Call (OpWrite [0x2F, 0x61] [1, 2, 3] 0) (Count 3),
      Reboot 0, Call (OpRead [0x2F, 0x61] (zeros 5) 1) (Content 2 [2, 3, 0, 0, 0])] fs' \<and>
    abs_fs {[0x2F], [0x2F, 0x61]} fs' = [[0x2F] \<mapsto> (XXFS_FT_DIR, []), [0x2F, 0x61] \<mapsto> (XXFS_FT_REG, [1, 2, 3])]"
proof -
  let ?U = "{[0x2F], [0x2F, 0x61]} :: bytes set" and ?a = "[0x2F, 0x61] :: bytes"
  obtain f fs fs' where r: "xxfs_mkfs blank_file 64 False = (XXFS_OK, f)" "xxfs_mount f 0 = Some (Inr fs)" "live ?U fs"
    "abs_fs ?U fs = [[0x2F] \<mapsto> (XXFS_FT_DIR, [])]"
    "fs_run ?U fs [Call (OpCreate ?a 420 0 0) (Status XXFS_OK), Call (OpWrite ?a [1, 2, 3] 0) (Count 3), Reboot 0,
      Call (OpRead ?a (zeros 5) 1) (Content 2 [2, 3, 0, 0, 0])] fs'"
    by (rule sample_run)
  have o: "overlay 0 [1, 2, 3] [] = [1, 2, 3 :: u8]" by (simp add: overlay_def)
  show ?thesis using trace_refinement [OF r(3,5)] r
    by (auto simp: sample_path o XXFS_FT_REG_def XXFS_FT_DIR_def split: if_splits)
qed

text \<open>C2: a call that is ready is carried out. On a volume, each of \<^verbatim>\<open>xxfs_create\<close>, \<^verbatim>\<open>xxfs_mkdir\<close>, \<^verbatim>\<open>xxfs_stat\<close>, \<^verbatim>\<open>xxfs_write\<close> and \<^verbatim>\<open>xxfs_read\<close>, when ready,
  returns (none of the loops below it runs forever), leaves a volume, and gives the result that the abstract file system gives: it does not fail for
  another reason.\<close>

theorem ready_op_completes:
  assumes "volume U fs" and "op_path op \<in> U" and "op_ready fs op"
  shows "\<exists>r fs'. exec_op op fs = Some (r, fs') \<and> volume U fs' \<and> spec_op op (abs_fs U fs) = (r, abs_fs U fs')"
  using step_simulated [OF assms] unfolding simulated_def by blast

theorem ready_op_completes_witness:
  "\<exists>f fs fs'. xxfs_mkfs blank_file 64 False = (XXFS_OK, f) \<and> xxfs_mount f 0 = Some (Inr fs) \<and>
    exec_op (OpMkdir [0x2F, 0x61] 493 0 0) fs = Some (Status XXFS_OK, fs') \<and>
    abs_fs {[0x2F], [0x2F, 0x61]} fs' = [[0x2F] \<mapsto> (XXFS_FT_DIR, []), [0x2F, 0x61] \<mapsto> (XXFS_FT_DIR, [])]"
proof -
  let ?U = "{[0x2F], [0x2F, 0x61]} :: bytes set"
  obtain f fs now where m: "xxfs_mkfs blank_file 64 False = (XXFS_OK, f)" "xxfs_mount f 0 = Some (Inr fs)" "fresh_mounted fs now"
    "can_make 8191 fs [0x2F, 0x61]"
    by (rule sample_mounted)
  note v = fresh_volume [OF m(3) sample_inj, simplified]
  show ?thesis using ready_op_completes [OF v(1), of "OpMkdir [0x2F, 0x61] 493 0 0"] can_make_0 [OF m(4)] m(1,2) v(2) by (auto simp: sample_path)
qed

text \<open>C3: after \<^verbatim>\<open>xxfs_sync\<close> a crash loses nothing. On a live volume whose changed directories can be written back and that has the blocks for it,
  \<^verbatim>\<open>xxfs_sync\<close> returns \<^verbatim>\<open>XXFS_OK\<close>, and \<^verbatim>\<open>xxfs_mount\<close> of the image as it then is, without an unmount, succeeds with a live volume that has the same kinds and contents
  at all paths.\<close>

theorem sync_survives_crash:
  assumes "live U fs" and "sync_ready U fs"
  shows "\<exists>g h. xxfs_sync fs = Some (XXFS_OK, g) \<and> xxfs_mount (img g) flg = Some (Inr h) \<and> live U h \<and> abs_fs U h = abs_fs U fs"
  by (rule sync_live [OF assms]) blast

theorem sync_survives_crash_witness:
  "\<exists>f fs g h k fs2. xxfs_mkfs blank_file 64 False = (XXFS_OK, f) \<and> xxfs_mount f 0 = Some (Inr fs) \<and>
    exec_op (OpCreate [0x2F, 0x61] 420 0 0) fs = Some (Status XXFS_OK, g) \<and> exec_op (OpWrite [0x2F, 0x61] [1, 2, 3] 0) g = Some (Count 3, h) \<and>
    xxfs_sync h = Some (XXFS_OK, k) \<and> xxfs_mount (img k) 0 = Some (Inr fs2) \<and> abs_fs {[0x2F], [0x2F, 0x61]} fs2 = abs_fs {[0x2F], [0x2F, 0x61]} h"
proof -
  let ?U = "{[0x2F], [0x2F, 0x61]} :: bytes set" and ?a = "[0x2F, 0x61] :: bytes"
  obtain f fs g h where s: "xxfs_mkfs blank_file 64 False = (XXFS_OK, f)" "xxfs_mount f 0 = Some (Inr fs)"
    "exec_op (OpCreate ?a 420 0 0) fs = Some (Status XXFS_OK, g)" "exec_op (OpWrite ?a [1, 2, 3] 0) g = Some (Count 3, h)" "live ?U h" "sync_ready ?U h"
    by (rule sample_written)
  show ?thesis using sync_survives_crash [OF s(5,6), of 0] s(1-4) by blast
qed

end
